(* ===== verification/Prelude.thy ===== *)
theory Prelude
  imports Main "HOL-Library.Word"
begin

text \<open>
  Shared vocabulary of the development: the machine types of the C++ code, the platform
  parameters its behaviour depends on, exceptions as values, the object representation of
  integers, and the generic lemmas on lists and words the components use.

  A C++ \<open>std::string\<close>, a \<open>std::vector<uint8_t>\<close> and an \<open>AudioPacket\<close> are all sequences of
  bytes; they are modelled as \<open>byte list\<close>. String literals of the source are written
  \<open>cstr ''...''\<close>.
\<close>

unbundle bit_operations_syntax

section \<open>Machine types and platform\<close>

type_synonym byte = "8 word"
type_synonym i16 = "16 word"
type_synonym u16 = "16 word"
type_synonym u32 = "32 word"
type_synonym i32 = "32 word"
type_synonym u64 = "64 word"
type_synonym size_t = "64 word"
type_synonym bytes = "byte list"

text \<open>
  What the C++ standard leaves to the implementation and this code depends on: the byte order
  of integers in memory and the signedness of \<open>char\<close>. On the x86-64 Linux image of the
  Dockerfile both are as in \<open>x86_64\<close>.
\<close>

datatype endian = LittleEndian | BigEndian

record platform =
  byte_order :: endian
  char_signed :: bool

definition x86_64 :: platform where
  "x86_64 = \<lparr>byte_order = LittleEndian, char_signed = True\<rparr>"

definition cstr :: "string \<Rightarrow> bytes" where
  "cstr s = map of_char s"

section \<open>Exceptions and undefined behaviour as values\<close>

text \<open>
  \<open>Runtime_error\<close>, \<open>Invalid_argument\<close> and \<open>Out_of_range\<close> are the exceptions the code (or the
  library function it calls) throws. \<open>Undefined_behaviour\<close> marks an execution the C++ standard
  gives no meaning to (an access outside a vector, a signed overflow).
\<close>

datatype cpp_error =
    Runtime_error string
  | Invalid_argument
  | Out_of_range
  | Undefined_behaviour

type_synonym 'a result = "cpp_error + 'a"

definition bind_r :: "'a result \<Rightarrow> ('a \<Rightarrow> 'b result) \<Rightarrow> 'b result" where
  "bind_r m f = (case m of Inl e \<Rightarrow> Inl e | Inr x \<Rightarrow> f x)"

lemma bind_r_simps [simp]:
  "bind_r (Inl e) f = Inl e"
  "bind_r (Inr x) f = f x"
  by (simp_all add: bind_r_def)

lemma bind_r_Inr_iff [simp]: "bind_r m f = Inr y \<longleftrightarrow> (\<exists>x. m = Inr x \<and> f x = Inr y)"
  by (cases m) auto

lemma bind_r_assoc: "bind_r (bind_r m f) g = bind_r m (\<lambda>x. bind_r (f x) g)"
  by (cases m) auto

text \<open>An outcome is safe when it is not undefined behaviour: a value or a C++ exception.\<close>

definition defined_r :: "'a result \<Rightarrow> bool" where
  "defined_r r = (case r of Inl Undefined_behaviour \<Rightarrow> False | _ \<Rightarrow> True)"

lemma defined_r_simps [simp]:
  "defined_r (Inr x)"
  "defined_r (Inl e) \<longleftrightarrow> e \<noteq> Undefined_behaviour"
  by (simp_all add: defined_r_def split: cpp_error.split)

section \<open>Object representation of integers\<close>

text \<open>
  \<open>le_bytes n w\<close> are the \<open>n\<close> low bytes of \<open>w\<close>, least significant first; \<open>le_word\<close> reads such
  a sequence back.
\<close>

fun le_bytes :: "nat \<Rightarrow> 'a::len word \<Rightarrow> bytes" where
  "le_bytes 0 w = []"
| "le_bytes (Suc n) w = ucast w # le_bytes n (drop_bit 8 w)"

fun le_word :: "bytes \<Rightarrow> 'a::len word" where
  "le_word [] = 0"
| "le_word (b # bs) = ucast b OR push_bit 8 (le_word bs)"

lemma le_bytes_numeral:
  "le_bytes (numeral k) w = ucast w # le_bytes (pred_numeral k) (drop_bit 8 w)"
  by (simp add: numeral_eq_Suc)

definition object_bytes :: "endian \<Rightarrow> nat \<Rightarrow> 'a::len word \<Rightarrow> bytes" where
  "object_bytes e n w = (case e of LittleEndian \<Rightarrow> le_bytes n w | BigEndian \<Rightarrow> rev (le_bytes n w))"

definition object_word :: "endian \<Rightarrow> bytes \<Rightarrow> 'a::len word" where
  "object_word e bs = le_word (case e of LittleEndian \<Rightarrow> bs | BigEndian \<Rightarrow> rev bs)"

lemma length_le_bytes [simp]: "length (le_bytes n w) = n"
  by (induction n arbitrary: w) auto

lemma length_object_bytes [simp]: "length (object_bytes e n w) = n"
  by (cases e) (auto simp: object_bytes_def)

lemma bit_le_word:
  "bit (le_word bs :: 'a::len word) k \<longleftrightarrow>
     k < LENGTH('a) \<and> k div 8 < length bs \<and> bit (bs ! (k div 8)) (k mod 8)"
proof (induction bs arbitrary: k)
  case Nil
  then show ?case by simp
next
  case (Cons b bs)
  show ?case
  proof (cases "k < 8")
    case True
    then show ?thesis
      by (auto simp: bit_or_iff bit_push_bit_iff bit_unsigned_iff bit_imp_le_length)
  next
    case False
    then obtain m where m: "k = m + 8" by (metis add.commute le_iff_add not_less)
    then have "k div 8 = Suc (m div 8)" "k mod 8 = m mod 8" by simp_all
    with m show ?thesis using Cons.IH [of m]
      by (auto simp: bit_or_iff bit_push_bit_iff bit_unsigned_iff dest: bit_imp_le_length)
  qed
qed

lemma nth_le_bytes:
  "i < n \<Longrightarrow> le_bytes n (w :: 'a::len word) ! i = ucast (drop_bit (8 * i) w)"
proof (induction n arbitrary: i w)
  case 0
  then show ?case by simp
next
  case (Suc n)
  then show ?case by (cases i) (auto simp: add.commute)
qed

lemma le_word_le_bytes:
  assumes "LENGTH('a) \<le> 8 * n"
  shows "le_word (le_bytes n w) = (w :: 'a::len word)"
proof (rule bit_word_eqI)
  fix k assume k: "k < LENGTH('a)"
  then have "k div 8 < n" using assms by auto
  moreover have "8 * (k div 8) + k mod 8 = k" by simp
  ultimately show "bit (le_word (le_bytes n w) :: 'a word) k \<longleftrightarrow> bit w k"
    using k by (simp add: bit_le_word nth_le_bytes bit_unsigned_iff bit_drop_bit_eq)
qed

lemma le_bytes_le_word:
  assumes "8 * length bs \<le> LENGTH('a)"
  shows "le_bytes (length bs) (le_word bs :: 'a::len word) = bs"
proof (rule nth_equalityI)
  show "length (le_bytes (length bs) (le_word bs :: 'a word)) = length bs" by simp
next
  fix i assume "i < length (le_bytes (length bs) (le_word bs :: 'a word))"
  then have i: "i < length bs" by simp
  show "le_bytes (length bs) (le_word bs :: 'a word) ! i = bs ! i"
  proof (rule bit_word_eqI)
    fix k assume k: "k < LENGTH(8)"
    have "(8 * i + k) div 8 = i" "(8 * i + k) mod 8 = k" "8 * i + k < LENGTH('a)"
      using k i assms by auto
    then show "bit (le_bytes (length bs) (le_word bs :: 'a word) ! i) k \<longleftrightarrow> bit (bs ! i) k"
      using k i by (simp add: nth_le_bytes bit_unsigned_iff bit_drop_bit_eq bit_le_word)
  qed
qed

lemma object_word_object_bytes [simp]:
  "LENGTH('a) \<le> 8 * n \<Longrightarrow> object_word e (object_bytes e n w) = (w :: 'a::len word)"
  by (cases e) (simp_all add: object_word_def object_bytes_def le_word_le_bytes)

lemma object_bytes_object_word [simp]:
  "8 * length bs \<le> LENGTH('a) \<Longrightarrow>
     object_bytes e (length bs) (object_word e bs :: 'a::len word) = bs"
proof (cases e)
  case LittleEndian
  then show "8 * length bs \<le> LENGTH('a) \<Longrightarrow> ?thesis"
    by (simp add: object_word_def object_bytes_def le_bytes_le_word)
next
  case BigEndian
  then show "8 * length bs \<le> LENGTH('a) \<Longrightarrow> ?thesis"
    using le_bytes_le_word [of "rev bs", where 'a = 'a]
    by (simp add: object_word_def object_bytes_def)
qed

section \<open>Slices\<close>

text \<open>\<open>slice i n xs\<close>: the \<open>n\<close> elements of \<open>xs\<close> from position \<open>i\<close> (an iterator range).\<close>

definition slice :: "nat \<Rightarrow> nat \<Rightarrow> 'a list \<Rightarrow> 'a list" where
  "slice i n xs = take n (drop i xs)"

lemma length_slice [simp]: "i + n \<le> length xs \<Longrightarrow> length (slice i n xs) = n"
  by (simp add: slice_def)

lemma slice_append_mid [simp]:
  "slice (length xs) (length ys) (xs @ ys @ zs) = ys"
  by (simp add: slice_def)

lemma slice_append_mid2 [simp]:
  "i = length xs \<Longrightarrow> n = length ys \<Longrightarrow> slice i n (xs @ ys @ zs) = ys"
  by simp

lemma slice_append1: "i + n \<le> length xs \<Longrightarrow> slice i n (xs @ ys) = slice i n xs"
  by (simp add: slice_def)

lemma slice_append2: "length xs \<le> i \<Longrightarrow> slice i n (xs @ ys) = slice (i - length xs) n ys"
  by (simp add: slice_def)

lemma nth_slice: "i + n \<le> length xs \<Longrightarrow> k < n \<Longrightarrow> slice i n xs ! k = xs ! (i + k)"
  by (simp add: slice_def)

section \<open>Words\<close>

lemma unat_of_nat64: "n < 2 ^ 64 \<Longrightarrow> unat (of_nat n :: 64 word) = n"
  by (simp add: unat_of_nat take_bit_nat_eq_self)

lemma of_nat64_add_no_wrap:
  assumes "m + n < 2 ^ 64"
  shows "unat (of_nat m + of_nat n :: 64 word) = m + n"
  using assms unat_of_nat64 [of "m + n"] by simp

lemma unat_ucast_up:
  "LENGTH('a) \<le> LENGTH('b) \<Longrightarrow> unat (ucast (w :: 'a::len word) :: 'b::len word) = unat w"
proof -
  assume le: "LENGTH('a) \<le> LENGTH('b)"
  have "unat w < 2 ^ LENGTH('a)" by (rule unsigned_less)
  also have "\<dots> \<le> 2 ^ LENGTH('b)" using le by simp
  finally show ?thesis by (simp add: unsigned_ucast_eq take_bit_nat_eq_self)
qed

lemma ucast_ucast_byte [simp]: "(ucast (ucast (b :: byte) :: 32 word) :: byte) = b"
  by (simp add: word_unat_eq_iff unat_ucast_up unsigned_ucast_eq take_bit_word_eq_self)

lemma unat_drop_bit: "unat (drop_bit n w) = unat w div 2 ^ n"
  unfolding unat_drop_bit_eq by (rule drop_bit_eq_div)

text \<open>Bytes bit by bit, and their signed reading.\<close>

lemma byte_eqI:
  assumes "bit x 0 = bit y 0" "bit x 1 = bit y 1" "bit x 2 = bit y 2" "bit x 3 = bit y 3"
    "bit x 4 = bit y 4" "bit x 5 = bit y 5" "bit x 6 = bit y 6" "bit x 7 = bit y 7"
  shows "x = (y :: byte)"
proof (rule bit_word_eqI)
  fix n assume "n < LENGTH(8)"
  then have "n \<in> {0, 1, 2, 3, 4, 5, 6, 7}" by auto
  then show "bit x n = bit y n" using assms by auto
qed

lemma bit_byte_big [simp]: "8 \<le> k \<Longrightarrow> \<not> bit (b :: byte) k"
  using bit_imp_le_length [of b k] by auto

lemma unat_byte: "unat (b :: byte) < 256"
  using unsigned_less [of b] by simp

lemma sint_cases:
  "sint (w :: 'a::len word) =
     (if uint w < 2 ^ (LENGTH('a) - 1) then uint w else uint w - 2 ^ LENGTH('a))"
proof -
  let ?h = "2 ^ (LENGTH('a) - 1) :: int"
  have d: "2 ^ LENGTH('a) = 2 * ?h" 
    by (cases "LENGTH('a)") auto
  have u: "uint w = sint w mod (2 * ?h)"
    by (simp add: uint_sint take_bit_eq_mod d)
  have r: "- ?h \<le> sint w" "sint w < ?h" using sint_ge [of w] sint_lt [of w] by auto
  show ?thesis
  proof (cases "0 \<le> sint w")
    case True
    then have "uint w = sint w" using u r by simp
    then show ?thesis using r by simp
  next
    case False
    have "uint w = (sint w + 2 * ?h) mod (2 * ?h)" using u by simp
    also have "\<dots> = sint w + 2 * ?h" using False r by (intro mod_pos_pos_trivial) linarith+
    finally show ?thesis using False r d by simp
  qed
qed

lemma unat_scast_byte:
  "unat (scast (b :: byte) :: u32) = (if unat b < 128 then unat b else unat b + 0xFFFFFF00)"
proof -
  have s: "sint b = (if uint b < 128 then uint b else uint b - 256)"
    by (simp add: sint_cases)
  have b: "0 \<le> uint b" "uint b < 256" using unsigned_less [of b] by simp_all
  have "uint (scast b :: u32) = sint b mod 2 ^ 32" 
    unfolding scast_eq uint_word_of_int by simp
  also have "\<dots> = (if uint b < 128 then uint b else uint b + 0xFFFFFF00)"
  proof (cases "uint b < 128")
    case True then show ?thesis using s b by simp
  next
    case False 
    have "sint b mod 2 ^ 32 = (sint b + 2 ^ 32) mod 2 ^ 32" by simp
    also have "\<dots> = sint b + 2 ^ 32" using s b False by (intro mod_pos_pos_trivial) simp_all
    finally show ?thesis using s False by simp
  qed
  finally have "uint (scast b :: u32) = (if uint b < 128 then uint b else uint b + 0xFFFFFF00)" .
  moreover have "nat (if u < 128 then u else u + 0xFFFFFF00) =
      (if nat u < 128 then nat u else nat u + 0xFFFFFF00)" if "0 \<le> u" for u :: int
    using that by auto
  ultimately show ?thesis using b(1) by (simp only: unat_eq_nat_uint)
qed

lemma bit7: "bit (b::byte) 7 \<longleftrightarrow> 128 \<le> unat b"
proof -
  have "bit (uint b) 7 \<longleftrightarrow> odd (uint b div 128)" by (simp only: bit_iff_odd) simp
  moreover have "bit (uint b) 7 \<longleftrightarrow> bit b 7" by (simp only: bit_uint_iff) simp
  moreover have "0 \<le> uint b" "uint b < 256" using unsigned_less [of b] by simp_all
  moreover have "odd (u div 128) \<longleftrightarrow> 128 \<le> u" if "0 \<le> u" "u < 256" for u :: int
  proof (cases "128 \<le> u")
    case True
    then have "u div 128 = 1" using that by linarith
    with True show ?thesis by simp
  qed (use that in simp)
  ultimately have "bit b 7 \<longleftrightarrow> 128 \<le> uint b" by simp
  also have "\<dots> \<longleftrightarrow> 128 \<le> unat b" by (simp only: unat_eq_nat_uint) linarith
  finally show ?thesis .
qed

lemma ascii_mask: "unat (b::byte) < 128 \<Longrightarrow> b AND 0x80 = 0"
  by (rule byte_eqI) (simp_all add: bit_simps, simp add: bit7)

end
