(* ===== verification/BinaryData.thy ===== *)
theory BinaryData
  imports Prelude
begin

text \<open>
  \<open>src/common/BinaryData.h\<close>: the binary message format. The helpers \<open>to_bytes\<close>,
  \<open>from_bytes\<close>, \<open>read_bytes\<close>, \<open>string_to_bytes\<close> and \<open>read_string_from_bytes\<close>, the classes
  \<open>MessageTypeData\<close>, \<open>Error\<close> and \<open>BinaryMessage\<close> and the \<open>MessageFactory\<close>.

  A deserializer takes the data and the offset the C++ code passes by reference; it returns
  the value or the exception, together with the offset as the call leaves it. The virtual
  interface \<open>BinaryData\<close> (\<open>serialize\<close>, \<open>deserialize\<close>) is the locale \<open>binary_data\<close>; the class
  template \<open>BinaryMessage<T>\<close> is a client of it and an instance of it.
\<close>

unbundle bit_operations_syntax

section \<open>Integers on the wire\<close>

definition is_little_endian :: "platform \<Rightarrow> bool" where
  "is_little_endian p = (hd (object_bytes (byte_order p) 4 (1 :: i32)) = 1)"

definition to_network_order :: "platform \<Rightarrow> 'a::len word \<Rightarrow> 'a word" where
  "to_network_order p value =
     (if \<not> is_little_endian p
      then object_word (byte_order p) (rev (object_bytes (byte_order p) (LENGTH('a) div 8) value))
      else value)"

definition from_network_order :: "platform \<Rightarrow> 'a::len word \<Rightarrow> 'a word" where
  "from_network_order p value =
     (if \<not> is_little_endian p
      then object_word (byte_order p) (rev (object_bytes (byte_order p) (LENGTH('a) div 8) value))
      else value)"

definition to_bytes :: "platform \<Rightarrow> 'a::len word \<Rightarrow> bytes" where
  "to_bytes p object = object_bytes (byte_order p) (LENGTH('a) div 8) (to_network_order p object)"

definition from_bytes :: "platform \<Rightarrow> bytes \<Rightarrow> 'a::len word" where
  "from_bytes p bs = from_network_order p (object_word (byte_order p) bs)"

definition append_bytes :: "platform \<Rightarrow> bytes \<Rightarrow> 'a::len word \<Rightarrow> bytes" where
  "append_bytes p vec data = vec @ to_bytes p data"

definition append_byte_vector :: "bytes \<Rightarrow> bytes \<Rightarrow> bytes" where
  "append_byte_vector vec data = vec @ data"

text \<open>
  \<open>read_bytes<T>\<close>: \<open>offset + sizeof(T)\<close> is computed in \<open>size_t\<close> and may wrap. Past both checks
  the iterator range is dereferenced; outside the vector that is undefined.
\<close>

definition read_bytes :: "platform \<Rightarrow> bytes \<Rightarrow> size_t \<Rightarrow> 'a::len word result \<times> size_t" where
  "read_bytes p data offset =
     (let n = LENGTH('a) div 8 in
      if of_nat (length data) < offset + of_nat n
      then (Inl (Runtime_error ''Not enough data to read''), offset)
      else if 0x7FFFFFFFFFFFFFFF < offset + of_nat n
      then (Inl (Runtime_error ''Data size too large for this system''), offset)
      else if length data < unat offset + n then (Inl Undefined_behaviour, offset)
      else (Inr (from_network_order p (from_bytes p (slice (unat offset) n data))),
            offset + of_nat n))"

section \<open>Strings on the wire\<close>

text \<open>\<open>for (char32_t c : str)\<close> converts each \<open>char\<close>, sign-extending where \<open>char\<close> is signed.\<close>

definition char32 :: "platform \<Rightarrow> byte \<Rightarrow> u32" where
  "char32 p c = (if char_signed p then scast c else ucast c)"

definition utf8_char :: "u32 \<Rightarrow> bytes" where
  "utf8_char c =
     (if c \<le> 0x7F then [ucast c]
      else if c \<le> 0x7FF then
        [ucast (0xC0 OR drop_bit 6 c), ucast (0x80 OR (c AND 0x3F))]
      else if c \<le> 0xFFFF then
        [ucast (0xE0 OR drop_bit 12 c), ucast (0x80 OR (drop_bit 6 c AND 0x3F)),
         ucast (0x80 OR (c AND 0x3F))]
      else
        [ucast (0xF0 OR drop_bit 18 c), ucast (0x80 OR (drop_bit 12 c AND 0x3F)),
         ucast (0x80 OR (drop_bit 6 c AND 0x3F)), ucast (0x80 OR (c AND 0x3F))])"

fun utf8_loop :: "platform \<Rightarrow> bytes \<Rightarrow> u32 \<Rightarrow> bytes \<Rightarrow> u32 \<times> bytes" where
  "utf8_loop p [] utf8_length bs = (utf8_length, bs)"
| "utf8_loop p (ch # str) utf8_length bs =
     (let c = char32 p ch in
      utf8_loop p str
        (utf8_length + (if c \<le> 0x7F then 1 else if c \<le> 0x7FF then 2
                        else if c \<le> 0xFFFF then 3 else 4))
        (bs @ utf8_char c))"

definition string_to_bytes :: "platform \<Rightarrow> bytes \<Rightarrow> bytes" where
  "string_to_bytes p str =
     (case utf8_loop p str 0 [] of (utf8_length, bs) \<Rightarrow> append_bytes p [] utf8_length @ bs)"

text \<open>The decoding loop from \<open>cur\<close> to \<open>end\<close>; \<open>end - cur < k\<close> is a pattern too short.\<close>

definition utf8_error :: cpp_error where
  "utf8_error = Runtime_error ''Invalid UTF-8 sequence''"

fun utf8_decode :: "bytes \<Rightarrow> bytes \<Rightarrow> bytes result" where
  "utf8_decode [] res = Inr res"
| "utf8_decode (b0 # cur) res =
     (if b0 AND 0x80 = 0 then utf8_decode cur (res @ [b0])
      else if b0 AND 0xE0 = 0xC0 then
        (case cur of
           b1 # cur' \<Rightarrow>
             utf8_decode cur' (res @ [ucast (push_bit 6 (ucast (b0 AND 0x1F)) OR ucast (b1 AND 0x3F) :: u32)])
         | _ \<Rightarrow> Inl utf8_error)
      else if b0 AND 0xF0 = 0xE0 then
        (case cur of
           b1 # b2 # cur' \<Rightarrow>
             utf8_decode cur' (res @ [ucast (push_bit 12 (ucast (b0 AND 0x0F)) OR
               push_bit 6 (ucast (b1 AND 0x3F)) OR ucast (b2 AND 0x3F) :: u32)])
         | _ \<Rightarrow> Inl utf8_error)
      else if b0 AND 0xF8 = 0xF0 then
        (case cur of
           b1 # b2 # b3 # cur' \<Rightarrow>
             utf8_decode cur' (res @ [ucast (push_bit 18 (ucast (b0 AND 0x07)) OR
               push_bit 12 (ucast (b1 AND 0x3F)) OR push_bit 6 (ucast (b2 AND 0x3F)) OR
               ucast (b3 AND 0x3F) :: u32)])
         | _ \<Rightarrow> Inl utf8_error)
      else Inl utf8_error)"

definition read_string_from_bytes :: "platform \<Rightarrow> bytes \<Rightarrow> size_t \<Rightarrow> bytes result \<times> size_t" where
  "read_string_from_bytes p data offset =
     (if of_nat (length data) < offset + 4
      then (Inl (Runtime_error ''Not enough data to read string length''), offset)
      else case read_bytes p data offset of
        (Inl e, off) \<Rightarrow> (Inl e, off)
      | (Inr (utf8_length :: u32), off) \<Rightarrow>
          (if of_nat (length data) < off + ucast utf8_length
           then (Inl (Runtime_error ''Not enough data to read string content''), off)
           else if length data < unat off + unat utf8_length then (Inl Undefined_behaviour, off)
           else (case utf8_decode (slice (unat off) (unat utf8_length) data) [] of
              Inl e \<Rightarrow> (Inl e, off)
            | Inr res \<Rightarrow> (Inr res, off + ucast utf8_length))))"

section \<open>The message classes\<close>

text \<open>\<open>MessageTypeData\<close> (its field \<open>Type\<close> is a \<open>short\<close>) and \<open>Error\<close> (its field \<open>ErrorMessage\<close>).\<close>

record message_type_data = Type :: i16

record error_message = ErrorMessage :: bytes

definition message_type_serialize :: "platform \<Rightarrow> message_type_data \<Rightarrow> bytes" where
  "message_type_serialize p m = append_bytes p [] (Type m)"

definition message_type_deserialize ::
  "platform \<Rightarrow> bytes \<Rightarrow> size_t \<Rightarrow> message_type_data result \<times> size_t" where
  "message_type_deserialize p data offset =
     (case read_bytes p data offset of
        (Inl e, off) \<Rightarrow> (Inl e, off)
      | (Inr t, off) \<Rightarrow> (Inr \<lparr>Type = t\<rparr>, off))"

definition error_serialize :: "platform \<Rightarrow> error_message \<Rightarrow> bytes" where
  "error_serialize p m = append_byte_vector [] (string_to_bytes p (ErrorMessage m))"

definition error_deserialize ::
  "platform \<Rightarrow> bytes \<Rightarrow> size_t \<Rightarrow> error_message result \<times> size_t" where
  "error_deserialize p data offset =
     (case read_string_from_bytes p data offset of
        (Inl e, off) \<Rightarrow> (Inl e, off)
      | (Inr s, off) \<Rightarrow> (Inr \<lparr>ErrorMessage = s\<rparr>, off))"

record 't binary_message =
  messageType :: i16
  messagePayload :: 't

definition binary_message_serialize ::
  "platform \<Rightarrow> ('t \<Rightarrow> bytes) \<Rightarrow> 't binary_message \<Rightarrow> bytes" where
  "binary_message_serialize p payload_serialize m =
     message_type_serialize p \<lparr>Type = messageType m\<rparr> @ payload_serialize (messagePayload m)"

definition binary_message_deserialize ::
  "platform \<Rightarrow> (bytes \<Rightarrow> size_t \<Rightarrow> 't result \<times> size_t) \<Rightarrow> bytes \<Rightarrow> size_t \<Rightarrow>
     't binary_message result \<times> size_t" where
  "binary_message_deserialize p payload_deserialize data offset =
     (if (of_nat (length data) :: size_t) - offset < 2
      then (Inl (Runtime_error ''Invalid data: too short to contain message type''), offset)
      else case message_type_deserialize p data offset of
        (Inl e, off) \<Rightarrow> (Inl e, off)
      | (Inr t, off) \<Rightarrow>
          (case payload_deserialize data off of
             (Inl e, off') \<Rightarrow> (Inl e, off')
           | (Inr v, off') \<Rightarrow> (Inr \<lparr>messageType = Type t, messagePayload = v\<rparr>, off')))"

text \<open>
  \<open>enum class MessageType : short\<close> has the single enumerator \<open>Error\<close>; \<open>static_cast\<close> from a
  \<open>short\<close> keeps every value, named or not.
\<close>

type_synonym message_type = i16

definition MessageType_Error :: message_type where
  "MessageType_Error = 0"

definition createMessage :: "message_type \<Rightarrow> 't \<Rightarrow> 't binary_message" where
  "createMessage type payload = \<lparr>messageType = type, messagePayload = payload\<rparr>"

definition getMessageTypeFromBytes :: "platform \<Rightarrow> bytes \<Rightarrow> message_type result" where
  "getMessageTypeFromBytes p data =
     (if (of_nat (length data) :: size_t) < 2
      then Inl (Runtime_error ''Invalid message data: too short to contain message type'')
      else case fst (message_type_deserialize p data 0) of
        Inl e \<Rightarrow> Inl e
      | Inr t \<Rightarrow> Inr (Type t))"

definition createAndDeserialize ::
  "platform \<Rightarrow> (bytes \<Rightarrow> size_t \<Rightarrow> 't result \<times> size_t) \<Rightarrow> bytes \<Rightarrow> 't binary_message result" where
  "createAndDeserialize p payload_deserialize data =
     fst (binary_message_deserialize p payload_deserialize data 0)"

section \<open>Facts about the integer helpers\<close>

lemma is_little_endian_iff: "is_little_endian p \<longleftrightarrow> byte_order p = LittleEndian"
proof -
  have le: "le_bytes 4 (1 :: i32) = [1, 0, 0, 0]" by (simp add: numeral_eq_Suc)
  then show ?thesis
    by (cases "byte_order p") (simp_all add: is_little_endian_def object_bytes_def le)
qed

lemma to_bytes_le:
  assumes "LENGTH('a) = 8 * n"
  shows "to_bytes p (w :: 'a::len word) = le_bytes n w"
proof (cases "byte_order p")
  case LittleEndian
  with assms show ?thesis
    by (simp add: to_bytes_def to_network_order_def is_little_endian_iff object_bytes_def)
next
  case BigEndian
  with BigEndian assms show ?thesis
    using le_bytes_le_word [of "rev (le_bytes n w)", where 'a = 'a]
    by (simp add: to_bytes_def to_network_order_def is_little_endian_iff object_bytes_def
        object_word_def)
qed

lemma length_to_bytes [simp]: "length (to_bytes p (w :: 'a::len word)) = LENGTH('a) div 8"
  by (simp add: to_bytes_def)

text \<open>The byte-swapped value: what a big-endian machine makes of little-endian bytes.\<close>

definition byte_swap :: "'a::len word \<Rightarrow> 'a word" where
  "byte_swap w = le_word (rev (le_bytes (LENGTH('a) div 8) w))"

lemma from_bytes_le:
  assumes "LENGTH('a) = 8 * n" and "length bs = n"
  shows "(from_bytes p bs :: 'a::len word) = le_word bs"
proof (cases "byte_order p")
  case LittleEndian
  then show ?thesis
    by (simp add: from_bytes_def from_network_order_def is_little_endian_iff object_word_def)
next
  case BigEndian
  then show ?thesis
    using assms le_bytes_le_word [of "rev bs", where 'a = 'a]
    by (simp add: from_bytes_def from_network_order_def is_little_endian_iff object_word_def
        object_bytes_def)
qed

lemma from_network_order_eq:
  "from_network_order p (w :: 'a::len word) =
     (if byte_order p = LittleEndian then w else byte_swap w)"
  by (cases "byte_order p")
    (simp_all add: from_network_order_def is_little_endian_iff object_word_def object_bytes_def
      byte_swap_def)

text \<open>
  Reading back what was appended, inside any surrounding bytes. The second conversion in
  \<open>read_bytes\<close> undoes the first one on a big-endian machine, which then sees the value
  with its bytes swapped.
\<close>

lemma unat_offset:
  "length pre + n + length post < 2 ^ 63 \<Longrightarrow> unat (of_nat (length pre) :: size_t) = length pre"
  by (rule unat_of_nat64) simp

lemma read_bytes_append:
  assumes "LENGTH('a) = 8 * n" and "length pre + n + length post < 2 ^ 63"
  shows "read_bytes p (pre @ to_bytes p (w :: 'a::len word) @ post) (of_nat (length pre)) =
    (Inr (if byte_order p = LittleEndian then w else byte_swap w), of_nat (length pre + n))"
proof -
  let ?data = "pre @ to_bytes p w @ post"
  have len: "length ?data = length pre + n + length post" using assms(1) by simp
  have "(of_nat (length pre) :: size_t) + of_nat n = of_nat (length pre + n)" by simp
  moreover have "\<not> (of_nat (length ?data) :: size_t) < of_nat (length pre + n)"
    using assms(2) len by (simp add: word_less_nat_alt unat_of_nat64 del: of_nat_add)
  moreover have "\<not> (0x7FFFFFFFFFFFFFFF :: size_t) < of_nat (length pre + n)"
    using assms(2) by (simp add: word_less_nat_alt unat_of_nat64 del: of_nat_add)
  moreover have "slice (length pre) n ?data = le_bytes n w"
    using assms(1) by (simp add: to_bytes_le)
  ultimately show ?thesis
    using assms len unat_offset [OF assms(2)]
    by (simp add: read_bytes_def Let_def from_bytes_le le_word_le_bytes from_network_order_eq
        del: of_nat_add)
qed

text \<open>
  Within the data, an integer read is a value or the exception, never undefined, and it
  keeps the offset inside the data.
\<close>

definition reader_safe :: "(bytes \<Rightarrow> size_t \<Rightarrow> 'a result \<times> size_t) \<Rightarrow> bool" where
  "reader_safe rd \<longleftrightarrow>
     (\<forall>data off. length data < 2 ^ 63 \<longrightarrow> unat off \<le> length data \<longrightarrow>
        defined_r (fst (rd data off)) \<and> unat off \<le> unat (snd (rd data off)) \<and>
        unat (snd (rd data off)) \<le> length data)"

lemma reader_safeI:
  assumes "\<And>data off r off'. length data < 2 ^ 63 \<Longrightarrow> unat off \<le> length data \<Longrightarrow>
     rd data off = (r, off') \<Longrightarrow> defined_r r \<and> unat off \<le> unat off' \<and> unat off' \<le> length data"
  shows "reader_safe rd"
  using assms unfolding reader_safe_def by (metis prod.collapse)

lemma reader_safeD:
  assumes "reader_safe rd" "length data < 2 ^ 63" "unat off \<le> length data" "rd data off = (r, off')"
  shows "defined_r r" "unat off \<le> unat off'" "unat off' \<le> length data"
  using assms unfolding reader_safe_def by force+

lemma unat_add_small:
  assumes "unat (off :: size_t) < 2 ^ 63" and "k < 2 ^ 63"
  shows "unat (off + of_nat k) = unat off + k"
proof -
  have k: "unat (of_nat k :: size_t) = k" using assms(2) by (intro unat_of_nat64) simp
  have "unat off + unat (of_nat k :: size_t) < 2 ^ LENGTH(64)" using assms k by simp
  then show ?thesis using k by (simp add: unat_add_lem [THEN iffD1])
qed

lemma read_bytes_safe:
  assumes "LENGTH('a) = 8 * n" and "n < 100"
  shows "reader_safe (read_bytes p :: bytes \<Rightarrow> size_t \<Rightarrow> 'a::len word result \<times> size_t)"
proof (rule reader_safeI)
  fix data and off off' :: size_t and r :: "'a word result"
  assume len: "length data < 2 ^ 63" and off: "unat off \<le> length data"
    and rd: "read_bytes p data off = (r, off')"
  have u: "unat (off + of_nat n) = unat off + n"
    using len off assms(2) by (intro unat_add_small) auto
  have l: "unat (of_nat (length data) :: size_t) = length data"
    using len by (intro unat_of_nat64) simp
  show "defined_r r \<and> unat off \<le> unat off' \<and> unat off' \<le> length data"
    using rd off assms u l
    by (auto simp: read_bytes_def Let_def word_less_nat_alt split: if_splits)
qed

text \<open>Exactly when an integer read is undefined: the sum of the first check wraps around.\<close>

lemma read_bytes_undefined_iff:
  assumes "LENGTH('a) = 8 * n" and "n < 100" and "length data < 2 ^ 63"
  shows "fst (read_bytes p data off :: 'a::len word result \<times> size_t) = Inl Undefined_behaviour \<longleftrightarrow>
     2 ^ 64 \<le> unat off + n \<and> unat off + n - 2 ^ 64 \<le> length data"
proof -
  have l: "unat (of_nat (length data) :: size_t) = length data"
    using assms(3) by (intro unat_of_nat64) simp
  have n: "unat (of_nat n :: size_t) = n" using assms(2) by (intro unat_of_nat64) simp
  have off: "unat off < 2 ^ 64" using unsigned_less [of off] by simp
  have w: "unat (off + of_nat n) = (if unat off + n < 2 ^ 64 then unat off + n else unat off + n - 2 ^ 64)"
    using n off assms(2) by (simp add: unat_word_ariths) (simp add: mod_if)
  show ?thesis
    using assms w l off
    by (auto simp: read_bytes_def Let_def word_less_nat_alt split: if_splits)
qed

section \<open>Facts about the string helpers\<close>

definition ascii :: "byte \<Rightarrow> bool" where
  "ascii b \<longleftrightarrow> unat b < 128"

text \<open>The bytes the encoder produces for a string, without the length in front.\<close>

definition utf8_encode :: "platform \<Rightarrow> bytes \<Rightarrow> bytes" where
  "utf8_encode p s = concat (map (\<lambda>ch. utf8_char (char32 p ch)) s)"

lemma utf8_encode_simps [simp]:
  "utf8_encode p [] = []"
  "utf8_encode p (ch # s) = utf8_char (char32 p ch) @ utf8_encode p s"
  by (simp_all add: utf8_encode_def)

lemma utf8_loop_eq:
  "utf8_loop p s l bs = (l + of_nat (length (utf8_encode p s)), bs @ utf8_encode p s)"
proof (induction p s l bs rule: utf8_loop.induct)
  case (1 p l bs)
  then show ?case by simp
next
  case (2 p ch s l bs)
  show ?case by (simp add: Let_def "2.IH" [OF refl]) (simp add: utf8_char_def)
qed

lemma string_to_bytes_eq:
  "string_to_bytes p s = to_bytes p (of_nat (length (utf8_encode p s)) :: u32) @ utf8_encode p s"
  by (simp add: string_to_bytes_def utf8_loop_eq append_bytes_def)

lemma utf8_two_bytes:
  fixes b :: byte
  defines "c \<equiv> (ucast b :: u32)"
  shows "(ucast (0xC0 OR drop_bit 6 c) AND (0x80 :: byte)) \<noteq> 0"
   "ucast (0xC0 OR drop_bit 6 c) AND (0xE0 :: byte) = 0xC0"
   "(ucast (push_bit 6 (ucast ((ucast (0xC0 OR drop_bit 6 c) :: byte) AND 0x1F)) OR
         ucast ((ucast (0x80 OR (c AND 0x3F)) :: byte) AND 0x3F) :: u32) :: byte) = b"
proof -
  have "bit (ucast (0xC0 OR drop_bit 6 c) AND (0x80 :: byte)) 7"
    unfolding c_def by (simp add: bit_simps)
  then show "(ucast (0xC0 OR drop_bit 6 c) AND (0x80 :: byte)) \<noteq> 0" by auto
  show "ucast (0xC0 OR drop_bit 6 c) AND (0xE0 :: byte) = 0xC0"
    unfolding c_def by (rule byte_eqI; simp add: bit_simps)
  show "(ucast (push_bit 6 (ucast ((ucast (0xC0 OR drop_bit 6 c) :: byte) AND 0x1F)) OR
         ucast ((ucast (0x80 OR (c AND 0x3F)) :: byte) AND 0x3F) :: u32) :: byte) = b"
    unfolding c_def by (rule byte_eqI; simp add: bit_simps)
qed

lemma utf8_char_ascii:
  assumes "ascii b"
  shows "utf8_char (char32 p b) = [b]"
proof -
  have "unat (char32 p b) = unat b"
    using assms by (simp add: ascii_def char32_def unat_scast_byte unat_ucast_up)
  then have "char32 p b = ucast b" and "char32 p b \<le> 0x7F"
    using assms by (simp_all add: word_unat_eq_iff word_le_nat_alt ascii_def unat_ucast_up)
  then show ?thesis by (simp add: utf8_char_def)
qed

text \<open>An ASCII byte is decoded to itself.\<close>

lemma utf8_decode_ascii:
  "ascii b \<Longrightarrow> utf8_decode (b # bs) res = utf8_decode bs (res @ [b])"
  by (simp add: ascii_mask ascii_def)

text \<open>Where \<open>char\<close> is unsigned a byte from 0x80 on takes two bytes and comes back.\<close>

lemma utf8_decode_unsigned:
  assumes "\<not> char_signed p"
  shows "utf8_decode (utf8_char (char32 p b) @ bs) res = utf8_decode bs (res @ [b])"
proof (cases "ascii b")
  case True
  then show ?thesis by (simp only: utf8_char_ascii append_Cons append_Nil utf8_decode_ascii)
next
  case False
  let ?c = "ucast b :: u32"
  have u: "unat ?c = unat b" by (simp add: unat_ucast_up)
  then have "\<not> ?c \<le> 0x7F" "?c \<le> 0x7FF"
    using False unat_byte [of b] by (simp_all add: word_le_nat_alt ascii_def)
  then have "utf8_char (char32 p b) =
      [ucast (0xC0 OR drop_bit 6 ?c), ucast (0x80 OR (?c AND 0x3F))]"
    using assms by (simp add: utf8_char_def char32_def)
  then show ?thesis
    by (simp only: append_Cons append_Nil utf8_decode.simps utf8_two_bytes if_False if_True
        list.case refl)
qed

text \<open>
  Where \<open>char\<close> is signed, a byte from 0x80 on becomes a code point above 0xFFFFFF00, whose
  first encoded byte is 0xFF: the decoder has no branch for it.
\<close>

lemma utf8_char_signed_high:
  assumes "char_signed p" and "\<not> ascii b"
  shows "\<exists>b1 b2 b3. utf8_char (char32 p b) = [0xFF, b1, b2, b3]"
proof -
  let ?c = "scast b :: u32"
  have u: "unat ?c = unat b + 0xFFFFFF00" "128 \<le> unat b" "unat b < 256"
    using assms(2) unat_byte [of b] by (simp_all add: unat_scast_byte ascii_def)
  then have "\<not> ?c \<le> 0x7F" "\<not> ?c \<le> 0x7FF" "\<not> ?c \<le> 0xFFFF"
    by (simp_all add: word_le_nat_alt)
  moreover have "drop_bit 18 ?c = 0x3FFF"
  proof -
    have "unat (drop_bit 18 ?c) = unat ?c div 2 ^ 18" by (rule unat_drop_bit)
    also have "\<dots> = 0x3FFF" using u by simp
    finally show ?thesis by (simp add: word_unat_eq_iff)
  qed
  ultimately show ?thesis using assms(1) by (simp add: utf8_char_def char32_def)
qed

lemma utf8_decode_signed_high:
  assumes "char_signed p" and "\<not> ascii b"
  shows "utf8_decode (utf8_char (char32 p b) @ bs) res = Inl utf8_error"
  using utf8_char_signed_high [OF assms] by auto

definition encodable :: "platform \<Rightarrow> bytes \<Rightarrow> bool" where
  "encodable p s \<longleftrightarrow> \<not> char_signed p \<or> list_all ascii s"

lemma utf8_decode_encode:
  "utf8_decode (utf8_encode p s) res = (if encodable p s then Inr (res @ s) else Inl utf8_error)"
proof (induction s arbitrary: res)
  case Nil
  then show ?case by (simp add: encodable_def)
next
  case (Cons b s)
  consider "ascii b" | "\<not> char_signed p" | "char_signed p" "\<not> ascii b" by blast
  then show ?case
  proof cases
    case 1
    then have "utf8_decode (utf8_encode p (b # s)) res = utf8_decode (utf8_encode p s) (res @ [b])"
      by (simp only: utf8_encode_simps utf8_char_ascii append_Cons append_Nil utf8_decode_ascii)
    with 1 Cons show ?thesis by (simp add: encodable_def)
  next
    case 2
    with Cons show ?thesis by (simp add: encodable_def utf8_decode_unsigned)
  next
    case 3
    then show ?thesis by (simp add: encodable_def utf8_decode_signed_high)
  qed
qed

declare utf8_decode.simps(2) [simp del]

lemma utf8_decode_defined [simp]: "defined_r (utf8_decode bs res)"
proof (induction bs res rule: utf8_decode.induct)
  case (2 b0 cur res)
  then show ?case
    by (subst utf8_decode.simps) (auto simp: utf8_error_def split: list.split)
qed simp

text \<open>A string read inside any surrounding bytes, and what a failed read leaves.\<close>

lemma read_string_append:
  assumes le: "byte_order p = LittleEndian" and enc: "length (utf8_encode p s) < 2 ^ 32"
    and len: "length pre + length (string_to_bytes p s) + length post < 2 ^ 63"
  shows "read_string_from_bytes p (pre @ string_to_bytes p s @ post) (of_nat (length pre)) =
    (if encodable p s then (Inr s, of_nat (length pre + length (string_to_bytes p s)))
     else (Inl utf8_error, of_nat (length pre + 4)))"
proof -
  let ?e = "utf8_encode p s"
  let ?l = "of_nat (length ?e) :: u32"
  let ?data = "pre @ to_bytes p ?l @ (?e @ post)"
  have ul: "unat ?l = length ?e" using enc by (simp add: unat_of_nat take_bit_nat_eq_self)
  have tot: "length pre + 4 + length (?e @ post) < 2 ^ 63"
    using len by (simp add: string_to_bytes_eq)
  have rd: "read_bytes p ?data (of_nat (length pre)) = (Inr ?l, of_nat (length pre + 4))"
    using read_bytes_append [where 'a = 32 and n = 4 and p = p and w = ?l, OF _ tot] le by simp
  have u1: "unat (of_nat (length pre + 4) :: size_t) = length pre + 4"
    and u3: "unat (of_nat (length ?data) :: size_t) = length ?data"
    using tot by (intro unat_of_nat64; simp)+
  have cast: "ucast ?l = (of_nat (length ?e) :: size_t)"
    using ul enc by (simp add: word_unat_eq_iff unat_ucast_up unat_of_nat64)
  let ?D = "pre @ string_to_bytes p s @ post"
  have D: "?D = ?data" by (simp add: string_to_bytes_eq)
  have lD: "length ?D = length pre + 4 + length ?e + length post"
    by (simp add: string_to_bytes_eq)
  have c1: "\<not> (of_nat (length ?D) :: size_t) < of_nat (length pre) + 4"
  proof -
    have "of_nat (length pre) + 4 = (of_nat (length pre + 4) :: size_t)" by simp
    then show ?thesis using u1 u3 lD D by (simp add: word_less_nat_alt)
  qed
  have c2: "\<not> (of_nat (length ?D) :: size_t) < of_nat (length pre + 4) + ucast ?l"
  proof -
    have "of_nat (length pre + 4) + ucast ?l = (of_nat (length pre + 4 + length ?e) :: size_t)"
      by (simp add: cast)
    moreover have "unat (of_nat (length pre + 4 + length ?e) :: size_t) = length pre + 4 + length ?e"
      using tot by (intro unat_of_nat64) simp
    ultimately show ?thesis using u3 lD D by (simp add: word_less_nat_alt)
  qed
  have c3: "\<not> length ?D < unat (of_nat (length pre + 4) :: size_t) + unat ?l"
    using u1 ul lD by simp
  have sl: "slice (unat (of_nat (length pre + 4) :: size_t)) (unat ?l) ?D = ?e"
    unfolding u1 ul D using slice_append_mid [of "pre @ to_bytes p ?l" ?e post] by simp
  have off: "of_nat (length pre + 4) + ucast ?l =
      (of_nat (length pre + length (string_to_bytes p s)) :: size_t)"
    by (simp add: cast string_to_bytes_eq)
  have dec: "utf8_decode ?e [] = (if encodable p s then Inr s else Inl utf8_error)"
    by (simp add: utf8_decode_encode)
  show ?thesis
    unfolding read_string_from_bytes_def
    by (cases "encodable p s")
      (simp_all only: c1 c2 [unfolded off] c3 sl off dec rd [folded D] if_False if_True prod.case sum.case)
qed

lemma read_string_safe: "reader_safe (read_string_from_bytes p)"
proof (rule reader_safeI)
  fix data and off off' :: size_t and r
  assume len: "length data < 2 ^ 63" and off: "unat off \<le> length data"
    and rd: "read_string_from_bytes p data off = (r, off')"
  obtain r1 :: "u32 result" and o1 where r1: "read_bytes p data off = (r1, o1)" by fastforce
  have s: "defined_r r1" "unat off \<le> unat o1" "unat o1 \<le> length data"
    using reader_safeD [OF read_bytes_safe [where 'a = 32 and n = 4] len off r1] by simp_all
  have l: "unat (of_nat (length data) :: size_t) = length data"
    using len by (intro unat_of_nat64) simp
  have "unat (o1 + ucast (x :: u32)) = unat o1 + unat x" for x
  proof -
    have "unat x < 2 ^ 32" using unsigned_less [of x] by simp
    moreover have "(ucast x :: size_t) = of_nat (unat x)"
      by (simp add: word_unat_eq_iff unat_ucast_up)
    ultimately show ?thesis using unat_add_small [of o1 "unat x"] s len by simp
  qed
  then show "defined_r r \<and> unat off \<le> unat off' \<and> unat off' \<le> length data"
    using rd r1 s l off utf8_decode_defined
    by (auto simp: read_string_from_bytes_def word_less_nat_alt split: if_splits sum.splits)
qed

section \<open>The interface \<open>BinaryData\<close>\<close>

text \<open>
  What a class derived from \<open>BinaryData\<close> promises its users: \<open>deserialize\<close> reads back what
  \<open>serialize\<close> wrote, wherever it stands in the data, for the objects in \<open>wf\<close>; and on
  arbitrary data it never leaves the defined behaviours.
\<close>

locale binary_data =
  fixes ser :: "'a \<Rightarrow> bytes"
    and deser :: "bytes \<Rightarrow> size_t \<Rightarrow> 'a result \<times> size_t"
    and wf :: "'a \<Rightarrow> bool"
  assumes deser_ser: "wf x \<Longrightarrow> length pre + length (ser x) + length post < 2 ^ 63 \<Longrightarrow>
      deser (pre @ ser x @ post) (of_nat (length pre)) =
        (Inr x, of_nat (length pre + length (ser x)))"
    and deser_safe: "reader_safe deser"
begin

lemma deser_ser_at_start:
  "wf x \<Longrightarrow> length (ser x) < 2 ^ 63 \<Longrightarrow> deser (ser x) 0 = (Inr x, of_nat (length (ser x)))"
  using deser_ser [of x "[]" "[]"] by simp

lemma ser_prefix_free:
  assumes "wf x" and "wf y" and "ser x @ r = ser y @ r'" and "length (ser x @ r) < 2 ^ 63"
  shows "x = y"
proof -
  have "deser (ser x @ r) 0 = (Inr x, of_nat (length (ser x)))"
    using deser_ser [of x "[]" r] assms(1,4) by simp
  moreover have "deser (ser y @ r') 0 = (Inr y, of_nat (length (ser y)))"
    using deser_ser [of y "[]" r'] assms(2,4) unfolding assms(3) by simp
  ultimately show ?thesis using assms(3) by simp
qed

end

lemma message_type_binary_data:
  "binary_data (message_type_serialize p) (message_type_deserialize p)
     (\<lambda>_. byte_order p = LittleEndian)"
proof
  fix x :: message_type_data and pre post :: bytes
  assume le: "byte_order p = LittleEndian"
    and len: "length pre + length (message_type_serialize p x) + length post < 2 ^ 63"
  then have "length pre + 2 + length post < 2 ^ 63"
    by (simp add: message_type_serialize_def append_bytes_def)
  then show "message_type_deserialize p (pre @ message_type_serialize p x @ post) (of_nat (length pre)) =
      (Inr x, of_nat (length pre + length (message_type_serialize p x)))"
    using read_bytes_append [where 'a = 16 and n = 2 and pre = pre and post = post and w = "Type x" and p = p] le
    by (simp add: message_type_deserialize_def message_type_serialize_def append_bytes_def)
next
  have safe: "reader_safe (read_bytes p :: _ \<Rightarrow> _ \<Rightarrow> i16 result \<times> _)"
    by (rule read_bytes_safe [where n = 2]) simp_all
  show "reader_safe (message_type_deserialize p)"
  proof (rule reader_safeI)
    fix data off r off'
    assume a: "length data < 2 ^ 63" "unat off \<le> length data"
      and m: "message_type_deserialize p data off = (r, off')"
    obtain q :: "i16 result" and o1 where "read_bytes p data off = (q, o1)" by fastforce
    then show "defined_r r \<and> unat off \<le> unat off' \<and> unat off' \<le> length data"
      using reader_safeD [OF safe a] m
      by (auto simp: message_type_deserialize_def split: sum.splits)
  qed
qed

lemma error_binary_data:
  "binary_data (error_serialize p) (error_deserialize p)
     (\<lambda>e. byte_order p = LittleEndian \<and> encodable p (ErrorMessage e) \<and>
          length (utf8_encode p (ErrorMessage e)) < 2 ^ 32)"
proof
  fix x :: error_message and pre post :: bytes
  assume "byte_order p = LittleEndian \<and> encodable p (ErrorMessage x) \<and>
      length (utf8_encode p (ErrorMessage x)) < 2 ^ 32"
    and "length pre + length (error_serialize p x) + length post < 2 ^ 63"
  then show "error_deserialize p (pre @ error_serialize p x @ post) (of_nat (length pre)) =
      (Inr x, of_nat (length pre + length (error_serialize p x)))"
    by (simp add: error_serialize_def error_deserialize_def append_byte_vector_def
        read_string_append)
next
  show "reader_safe (error_deserialize p)"
  proof (rule reader_safeI)
    fix data off r off'
    assume a: "length data < 2 ^ 63" "unat off \<le> length data"
      and m: "error_deserialize p data off = (r, off')"
    obtain q o1 where q: "read_string_from_bytes p data off = (q, o1)" by fastforce
    show "defined_r r \<and> unat off \<le> unat off' \<and> unat off' \<le> length data"
      using reader_safeD [OF read_string_safe a q] q m
      by (auto simp: error_deserialize_def split: sum.splits)
  qed
qed

interpretation mtd: binary_data "message_type_serialize p" "message_type_deserialize p"
    "\<lambda>_. byte_order p = LittleEndian" for p
  by (rule message_type_binary_data)

interpretation err: binary_data "error_serialize p" "error_deserialize p"
    "\<lambda>e. byte_order p = LittleEndian \<and> encodable p (ErrorMessage e) \<and>
          length (utf8_encode p (ErrorMessage e)) < 2 ^ 32" for p
  by (rule error_binary_data)

text \<open>\<open>BinaryMessage<T>\<close> keeps the promise of its payload class \<open>T\<close>.\<close>

context binary_data
begin

lemma message_deser_ser:
  assumes le: "byte_order p = LittleEndian" and wf: "wf (messagePayload m)"
    and len: "length pre + length (binary_message_serialize p ser m) + length post < 2 ^ 63"
  shows "binary_message_deserialize p deser (pre @ binary_message_serialize p ser m @ post)
      (of_nat (length pre)) = (Inr m, of_nat (length pre + length (binary_message_serialize p ser m)))"
proof -
  let ?t = "message_type_serialize p \<lparr>Type = messageType m\<rparr>"
  let ?pl = "ser (messagePayload m)"
  let ?D = "pre @ ?t @ (?pl @ post)"
  have D: "pre @ binary_message_serialize p ser m @ post = ?D"
    by (simp add: binary_message_serialize_def)
  have lt: "length ?t = 2" by (simp add: message_type_serialize_def append_bytes_def)
  have l: "length pre + length ?t + length (?pl @ post) < 2 ^ 63"
    and l': "length (pre @ ?t) + length ?pl + length post < 2 ^ 63"
    using len by (simp_all add: binary_message_serialize_def)
  have "(of_nat (length ?D) :: size_t) - of_nat (length pre) = of_nat (2 + length ?pl + length post)"
    by (simp add: lt)
  moreover have "unat (of_nat (2 + length ?pl + length post) :: size_t) = 2 + length ?pl + length post"
    using l lt by (intro unat_of_nat64) simp
  ultimately have g: "\<not> (of_nat (length ?D) :: size_t) - of_nat (length pre) < 2"
    by (simp only: word_less_nat_alt) simp
  have t: "message_type_deserialize p ?D (of_nat (length pre)) =
      (Inr \<lparr>Type = messageType m\<rparr>, of_nat (length pre + length ?t))"
    by (rule mtd.deser_ser [OF le l])
  have v: "deser ?D (of_nat (length pre + length ?t)) =
      (Inr (messagePayload m), of_nat (length pre + length ?t + length ?pl))"
    using deser_ser [OF wf l'] by simp
  show ?thesis
    unfolding binary_message_deserialize_def D
    by (simp only: g t v if_False prod.case sum.case)
      (simp add: binary_message_serialize_def add.assoc)
qed

lemma message_safe: "reader_safe (binary_message_deserialize p deser)"
proof (rule reader_safeI)
  fix data off r off'
  assume a: "length data < 2 ^ 63" "unat off \<le> length data"
    and m: "binary_message_deserialize p deser data off = (r, off')"
  obtain q o1 where q: "message_type_deserialize p data off = (q, o1)" by fastforce
  note s1 = reader_safeD [OF mtd.deser_safe a q]
  obtain v o2 where v: "deser data o1 = (v, o2)" by fastforce
  note s2 = reader_safeD [OF deser_safe a(1) s1(3) v]
  show "defined_r r \<and> unat off \<le> unat off' \<and> unat off' \<le> length data"
    using m q v s1 s2 a
    by (auto simp: binary_message_deserialize_def split: if_splits sum.splits)
qed

lemma message_binary_data:
  "binary_data (binary_message_serialize p ser) (binary_message_deserialize p deser)
     (\<lambda>m. byte_order p = LittleEndian \<and> wf (messagePayload m))"
  by unfold_locales (simp_all add: message_deser_ser message_safe)

end

interpretation errmsg: binary_data "binary_message_serialize p (error_serialize p)"
    "binary_message_deserialize p (error_deserialize p)"
    "\<lambda>m. byte_order p = LittleEndian \<and> byte_order p = LittleEndian \<and>
          encodable p (ErrorMessage (messagePayload m)) \<and>
          length (utf8_encode p (ErrorMessage (messagePayload m))) < 2 ^ 32" for p
  by (rule err.message_binary_data)

section \<open>Properties\<close>

text \<open>
  (C39) An error message built by \<open>MessageFactory::createMessage\<close> and serialized comes back
  unchanged from \<open>createAndDeserialize\<close>, and \<open>getMessageTypeFromBytes\<close> reads its type, on a
  little-endian machine, for a text in the encodable range.
\<close>

theorem error_message_roundtrip:
  fixes t :: message_type
  assumes le: "byte_order p = LittleEndian" and enc: "encodable p (ErrorMessage e)"
    and len: "length (utf8_encode p (ErrorMessage e)) < 2 ^ 32"
    and data: "data = binary_message_serialize p (error_serialize p) (createMessage t e)"
  shows "createAndDeserialize p (error_deserialize p) data = Inr (createMessage t e) \<and>
    getMessageTypeFromBytes p data = Inr t"
proof
  note data_def = data
  have l: "length data < 2 ^ 63"
    using len by (simp add: data_def binary_message_serialize_def message_type_serialize_def
        append_bytes_def error_serialize_def append_byte_vector_def string_to_bytes_eq createMessage_def)
  show "createAndDeserialize p (error_deserialize p) data = Inr (createMessage t e)"
    using errmsg.deser_ser_at_start [of p "createMessage t e"] le enc len l
    by (simp add: createAndDeserialize_def data_def createMessage_def)
  have d: "data = message_type_serialize p \<lparr>Type = t\<rparr> @ error_serialize p e"
    by (simp add: data_def binary_message_serialize_def createMessage_def)
  have "2 \<le> length data" by (simp add: d message_type_serialize_def append_bytes_def)
  then have n: "\<not> (of_nat (length data) :: size_t) < 2"
    using l by (simp add: word_less_nat_alt unat_of_nat64)
  have "message_type_deserialize p data 0 = (Inr \<lparr>Type = t\<rparr>, 2)"
    using mtd.deser_ser [of p "[]" "\<lparr>Type = t\<rparr>" "error_serialize p e"] le l
    by (simp add: d message_type_serialize_def append_bytes_def)
  with n show "getMessageTypeFromBytes p data = Inr t"
    by (simp add: getMessageTypeFromBytes_def)
qed

theorem error_message_roundtrip_witness:
  "createAndDeserialize x86_64 (error_deserialize x86_64)
      (binary_message_serialize x86_64 (error_serialize x86_64)
        (createMessage MessageType_Error \<lparr>ErrorMessage = cstr ''oops!''\<rparr>)) =
    Inr (createMessage MessageType_Error \<lparr>ErrorMessage = cstr ''oops!''\<rparr>)"
proof -
  let ?e = "\<lparr>ErrorMessage = cstr ''oops!''\<rparr>"
  have "encodable x86_64 (ErrorMessage ?e)"
    by (simp add: encodable_def x86_64_def cstr_def ascii_def)
  moreover have "length (utf8_encode x86_64 (ErrorMessage ?e)) < 2 ^ 32"
    by (simp add: cstr_def utf8_char_ascii ascii_def)
  ultimately show ?thesis
    using error_message_roundtrip [of x86_64 ?e _ MessageType_Error, OF _ _ _ refl]
    by (simp add: x86_64_def)
qed

text \<open>
  What the string codec keeps: reading back a serialized string gives the string exactly
  when \<open>char\<close> is unsigned or every character is ASCII; where \<open>char\<close> is signed, any other
  string makes the reader throw on the writer's own output.
\<close>

theorem string_codec_exact:
  assumes "byte_order p = LittleEndian" and "length (utf8_encode p s) < 2 ^ 32"
  shows "fst (read_string_from_bytes p (string_to_bytes p s) 0) =
    (if \<not> char_signed p \<or> list_all (\<lambda>b. unat b < 0x80) s then Inr s
     else Inl (Runtime_error ''Invalid UTF-8 sequence''))"
proof -
  have "length [] + length (string_to_bytes p s) + length [] < 2 ^ 63"
    using assms(2) by (simp add: string_to_bytes_eq)
  from read_string_append [OF assms this] show ?thesis
    by (simp add: encodable_def utf8_error_def) (metis ascii_def list_all_cong)
qed

theorem string_codec_exact_witness:
  "fst (read_string_from_bytes x86_64 (string_to_bytes x86_64 [0x68, 0xC3, 0xA9]) 0) =
     Inl (Runtime_error ''Invalid UTF-8 sequence'')"
proof -
  have "length (utf8_encode x86_64 [0x68, 0xC3, 0xA9]) < 2 ^ 32"
    by (simp add: utf8_char_def)
  then show ?thesis
    using string_codec_exact [of x86_64 "[0x68, 0xC3, 0xA9]"] by (simp add: x86_64_def)
qed

text \<open>
  Deserializing an error message from arbitrary bytes (an untrusted peer) never leaves the
  defined behaviours: it gives a message or throws, on every platform.
\<close>

theorem deserialize_untrusted_defined:
  assumes "length data < 2 ^ 63"
  shows "defined_r (createAndDeserialize p (error_deserialize p) data)"
  using errmsg.deser_safe [of p] assms
  by (simp add: reader_safe_def createAndDeserialize_def)

theorem deserialize_untrusted_defined_witness:
  "defined_r (createAndDeserialize x86_64 (error_deserialize x86_64) [0, 0, 255, 255, 255, 255, 7])"
  by (rule deserialize_untrusted_defined) simp

text \<open>
  The byte order on the wire: an integer is written least significant byte first on every
  machine (the helpers' names promise network order), and \<open>read_bytes\<close> converts twice, so a
  big-endian machine reads the value with its bytes swapped.
\<close>

theorem wire_order_and_double_conversion:
  assumes "length pre + length post < 2 ^ 62"
  shows "to_bytes p w = le_bytes 4 (w :: u32) \<and>
    fst (read_bytes p (pre @ to_bytes p w @ post) (of_nat (length pre))) =
      Inr (case byte_order p of LittleEndian \<Rightarrow> w | BigEndian \<Rightarrow> le_word (rev (le_bytes 4 w)))"
proof -
  have len: "length pre + 4 + length post < 2 ^ 63" using assms by simp
  have n: "LENGTH(32) = 8 * 4" by simp
  have "byte_swap w = le_word (rev (le_bytes 4 w))" by (simp only: byte_swap_def n) simp
  with read_bytes_append [OF n len, of p w] to_bytes_le [OF n, of p w] show ?thesis
    by (cases "byte_order p") (simp_all only: fst_conv endian.case refl if_True if_False endian.distinct simp_thms)
qed

theorem wire_order_and_double_conversion_witness:
  "fst (read_bytes \<lparr>byte_order = BigEndian, char_signed = True\<rparr>
      (to_bytes \<lparr>byte_order = BigEndian, char_signed = True\<rparr> (0x01020304 :: u32)) 0) =
    Inr (0x04030201 :: u32)"
  using wire_order_and_double_conversion
    [of "[]" "[]" "\<lparr>byte_order = BigEndian, char_signed = True\<rparr>" "0x01020304", THEN conjunct2]
  by (simp add: le_bytes_numeral)

end
