(* ===== verification/Utilities.thy ===== *)
theory Utilities
  imports Prelude
begin

text \<open>
  \<open>src/common/Utilities.h\<close>: hexadecimal output, \<open>generateUuid\<close>, and the two base64 routines.
  The random source of \<open>generateUuid\<close> is the argument \<open>rnd\<close>, the sixteen values \<open>dis(gen)\<close>
  returns. \<open>std::stoi\<close> with base 16 is modelled as the C++ standard and \<open>strtol\<close> describe it.
\<close>

unbundle bit_operations_syntax

section \<open>Hexadecimal digits\<close>

definition hex_chars :: bytes where
  "hex_chars = cstr ''0123456789abcdef''"

text \<open>\<open>std::hex << std::setfill('0') << std::setw(2) << static_cast<int>(b)\<close>.\<close>

definition hex_byte :: "byte \<Rightarrow> bytes" where
  "hex_byte b = [hex_chars ! (unat b div 16), hex_chars ! (unat b mod 16)]"

definition hex_string :: "bytes \<Rightarrow> bytes" where
  "hex_string bs = concat (map hex_byte bs)"

section \<open>UUIDs\<close>

fun uuid_text :: "nat \<Rightarrow> bytes \<Rightarrow> bytes" where
  "uuid_text i [] = []"
| "uuid_text i (b # bs) =
     (if i = 4 \<or> i = 6 \<or> i = 8 \<or> i = 10 then cstr ''-'' else []) @ hex_byte b @ uuid_text (Suc i) bs"

definition generateUuid :: "bytes \<Rightarrow> bytes" where
  "generateUuid rnd =
     (let bs = rnd[6 := (rnd ! 6 AND 0x0F) OR 0x40];
          bs = bs[8 := (bs ! 8 AND 0x3F) OR 0x80]
      in uuid_text 0 bs)"

section \<open>Base64\<close>

definition b64_chars :: bytes where
  "b64_chars = cstr ''ABCDEFGHIJKLMNOPQRSTUVWXYZabcdefghijklmnopqrstuvwxyz0123456789+/''"

text \<open>The static map \<open>b64_index\<close>, filled on the first call.\<close>

definition b64_index :: "byte \<Rightarrow> nat option" where
  "b64_index = map_of (zip b64_chars [0..<64])"

definition pad_char :: byte where
  "pad_char = of_char (CHR ''='')"

text \<open>
  The decoding loop: \<open>val\<close> is an \<open>int\<close> whose left shift wraps (C++20) and whose right shift is
  arithmetic; \<open>val_b\<close> starts at -8.
\<close>

fun from_base64_loop :: "bytes \<Rightarrow> i32 \<Rightarrow> int \<Rightarrow> bytes \<Rightarrow> bytes" where
  "from_base64_loop [] val val_b res = res"
| "from_base64_loop (c # cs) val val_b res =
     (if c = pad_char then res
      else case b64_index c of
        None \<Rightarrow> from_base64_loop cs val val_b res
      | Some k \<Rightarrow>
          (let val = push_bit 6 val + of_nat k; val_b = val_b + 6 in
           if val_b \<ge> 0
           then from_base64_loop cs val (val_b - 8)
                  (res @ [ucast (signed_drop_bit (nat val_b) val AND 0xFF)])
           else from_base64_loop cs val val_b res))"

definition from_base64 :: "bytes \<Rightarrow> bytes" where
  "from_base64 input = from_base64_loop input 0 (-8) []"

text \<open>\<open>std::stoi(s, nullptr, 16)\<close>: blanks, a sign, an optional 0x before a digit, digits.\<close>

definition is_space :: "byte \<Rightarrow> bool" where
  "is_space c \<longleftrightarrow> c = 32 \<or> (9 \<le> c \<and> c \<le> 13)"

definition hex_value :: "byte \<Rightarrow> nat option" where
  "hex_value c =
     (if 48 \<le> c \<and> c \<le> 57 then Some (unat c - 48)
      else if 97 \<le> c \<and> c \<le> 102 then Some (unat c - 87)
      else if 65 \<le> c \<and> c \<le> 70 then Some (unat c - 55)
      else None)"

fun hex_prefix_value :: "bytes \<Rightarrow> int option \<Rightarrow> int option" where
  "hex_prefix_value [] acc = acc"
| "hex_prefix_value (c # cs) acc =
     (case hex_value c of
        None \<Rightarrow> acc
      | Some d \<Rightarrow> hex_prefix_value cs (Some (16 * (case acc of None \<Rightarrow> 0 | Some a \<Rightarrow> a) + int d)))"

fun strip_0x :: "bytes \<Rightarrow> bytes" where
  "strip_0x (z # x # d # cs) =
     (if z = 48 \<and> (x = 120 \<or> x = 88) \<and> hex_value d \<noteq> None then d # cs else z # x # d # cs)"
| "strip_0x cs = cs"

definition stoi16 :: "bytes \<Rightarrow> int result" where
  "stoi16 s =
     (let s = dropWhile is_space s;
          neg = (s \<noteq> [] \<and> hd s = 45);
          s = (if s \<noteq> [] \<and> (hd s = 45 \<or> hd s = 43) then tl s else s)
      in case hex_prefix_value (strip_0x s) None of
           None \<Rightarrow> Inl Invalid_argument
         | Some v \<Rightarrow>
             (let v = (if neg then - v else v) in
              if v < - (2 ^ 31) \<or> 2 ^ 31 \<le> v then Inl Out_of_range else Inr v))"

text \<open>The inner \<open>while (val_b >= 0)\<close> of \<open>to_base_64\<close>.\<close>

function b64_emit :: "u32 \<Rightarrow> int \<Rightarrow> bytes \<Rightarrow> int \<times> bytes" where
  "b64_emit val val_b res =
     (if val_b \<ge> 0
      then b64_emit val (val_b - 6) (res @ [b64_chars ! unat (drop_bit (nat val_b) val AND 0x3F)])
      else (val_b, res))"
  by pat_completeness auto
termination
  by (relation "measure (\<lambda>(val, val_b, res). nat (val_b + 1))") auto

declare b64_emit.simps [simp del]

text \<open>The outer loop, two characters of the input (\<open>substr(i, 2)\<close>) at a time.\<close>

fun to_base_64_loop :: "bytes \<Rightarrow> u32 \<Rightarrow> int \<Rightarrow> bytes \<Rightarrow> (u32 \<times> int \<times> bytes) result" where
  "to_base_64_loop [] val val_b res = Inr (val, val_b, res)"
| "to_base_64_loop [x] val val_b res =
     bind_r (stoi16 [x]) (\<lambda>v.
       let c = of_int v :: byte; val = push_bit 8 val + ucast c in
       case b64_emit val (val_b + 8) res of (val_b, res) \<Rightarrow> Inr (val, val_b, res))"
| "to_base_64_loop (x # y # cs) val val_b res =
     bind_r (stoi16 [x, y]) (\<lambda>v.
       let c = of_int v :: byte; val = push_bit 8 val + ucast c in
       case b64_emit val (val_b + 8) res of (val_b, res) \<Rightarrow> to_base_64_loop cs val val_b res)"

text \<open>\<open>while (result.size() % 4) result.push_back('=')\<close>.\<close>

function pad4 :: "bytes \<Rightarrow> bytes" where
  "pad4 res = (if length res mod 4 \<noteq> 0 then pad4 (res @ [pad_char]) else res)"
  by pat_completeness auto
termination
  by (relation "measure (\<lambda>res. (4 - length res mod 4) mod 4)") (auto simp: mod_Suc)

declare pad4.simps [simp del]

definition to_base_64 :: "bytes \<Rightarrow> bytes result" where
  "to_base_64 input =
     bind_r (to_base_64_loop input 0 (-6) []) (\<lambda>(val, val_b, res).
       Inr (pad4 (if val_b > -6
                  then res @ [b64_chars ! unat (drop_bit (nat (val_b + 8)) (push_bit 8 val) AND 0x3F)]
                  else res)))"

section \<open>Reading hexadecimal back\<close>

lemma all_upt: "list_all P [0..<n] \<Longrightarrow> k < n \<Longrightarrow> P k"
  by (simp add: list_all_iff)

lemma hex_char_facts:
  assumes "n < 16"
  shows "hex_value (hex_chars ! n) = Some n" "\<not> is_space (hex_chars ! n)"
    "hex_chars ! n \<noteq> 45" "hex_chars ! n \<noteq> 43"
proof -
  have "list_all (\<lambda>n. hex_value (hex_chars ! n) = Some n \<and> \<not> is_space (hex_chars ! n) \<and>
      hex_chars ! n \<noteq> 45 \<and> hex_chars ! n \<noteq> 43) [0..<16]"
    by (simp add: hex_chars_def cstr_def upt_rec hex_value_def is_space_def)
  from all_upt [OF this assms] show "hex_value (hex_chars ! n) = Some n"
    "\<not> is_space (hex_chars ! n)" "hex_chars ! n \<noteq> 45" "hex_chars ! n \<noteq> 43"
    by simp_all
qed

lemma stoi16_hex_byte: "stoi16 (hex_byte b) = Inr (int (unat b))"
proof -
  have b: "unat b div 16 < 16" "unat b mod 16 < 16" "unat b < 256"
    using unat_byte [of b] by auto
  have "int (unat b div 16) * 16 + int (unat b mod 16) = int (unat b)"
    by (metis mult_div_mod_eq of_nat_add of_nat_mult of_nat_numeral mult.commute)
  then show ?thesis
    using b by (simp add: stoi16_def hex_byte_def hex_char_facts Let_def)
qed

lemma of_int_unat_byte [simp]: "(of_int (int (unat b)) :: byte) = b"
  by simp

lemma to_base_64_loop_hex:
  "to_base_64_loop (hex_byte b @ cs) val val_b res =
     (case b64_emit (push_bit 8 val + ucast b) (val_b + 8) res of
        (val_b', res') \<Rightarrow> to_base_64_loop cs (push_bit 8 val + ucast b) val_b' res')"
proof -
  obtain x y where xy: "hex_byte b = [x, y]" by (simp add: hex_byte_def)
  then have "stoi16 [x, y] = Inr (int (unat b))" using stoi16_hex_byte [of b] by simp
  then show ?thesis by (simp add: xy Let_def)
qed

section \<open>The specification of base64\<close>

text \<open>
  RFC 4648, section 4: groups of 24 bits, four characters of 6 bits each; a last group of 8 or
  16 bits is extended with zero bits and padded.
\<close>

definition sextet :: "nat \<Rightarrow> byte" where
  "sextet n = b64_chars ! n"

fun base64_spec :: "bytes \<Rightarrow> bytes" where
  "base64_spec [] = []"
| "base64_spec [a] =
     (let g = unat a * 2 ^ 16 in
      [sextet (g div 2 ^ 18), sextet (g div 2 ^ 12 mod 64), pad_char, pad_char])"
| "base64_spec [a, b] =
     (let g = unat a * 2 ^ 16 + unat b * 2 ^ 8 in
      [sextet (g div 2 ^ 18), sextet (g div 2 ^ 12 mod 64), sextet (g div 2 ^ 6 mod 64), pad_char])"
| "base64_spec (a # b # c # cs) =
     (let g = unat a * 2 ^ 16 + unat b * 2 ^ 8 + unat c in
      [sextet (g div 2 ^ 18), sextet (g div 2 ^ 12 mod 64), sextet (g div 2 ^ 6 mod 64),
       sextet (g mod 64)] @ base64_spec cs)"

text \<open>The six bits at position \<open>k\<close> of a 32-bit accumulator.\<close>

lemma unat_and_3F: "unat (w AND 0x3F :: 32 word) = unat w mod 64"
proof -
  have "w AND 0x3F = take_bit 6 w"
    by (simp add: take_bit_eq_mask mask_eq_exp_minus_1)
  then show ?thesis by (simp only: unsigned_take_bit_eq) (simp add: take_bit_eq_mod)
qed

lemma unat_shift_in: "unat (push_bit 8 v + ucast (b :: byte) :: 32 word) = (256 * unat v + unat b) mod 2 ^ 32"
  by (simp add: unat_word_ariths push_bit_eq_mult unat_ucast_up mod_simps mult.commute)

lemma b64_emit_step:
  "0 \<le> val_b \<Longrightarrow> b64_emit val val_b res =
     b64_emit val (val_b - 6) (res @ [sextet (unat val div 2 ^ nat val_b mod 64)])"
  by (subst b64_emit.simps) (simp only: if_True unat_and_3F unat_drop_bit sextet_def)

lemma b64_emit_stop: "val_b < 0 \<Longrightarrow> b64_emit val val_b res = (val_b, res)"
  by (subst b64_emit.simps) simp

lemma pick_bits:
  assumes "k + n \<le> 32"
  shows "(x mod 2 ^ 32) div 2 ^ k mod 2 ^ n = (x mod 2 ^ (k + n)) div (2 ^ k :: nat)"
proof -
  have "(2 :: nat) ^ (k + n) dvd 2 ^ 32" using assms by (intro le_imp_power_dvd) simp
  then have "(x mod 2 ^ 32) mod 2 ^ (k + n) = x mod (2 ^ (k + n) :: nat)"
    by (rule mod_mod_cancel)
  moreover have "y div 2 ^ k mod 2 ^ n = y mod 2 ^ (k + n) div (2 ^ k :: nat)" for y
    using mod_mult2_eq [of y "2 ^ k" "2 ^ n"] by (simp add: power_add)
  ultimately show ?thesis by metis
qed

lemmas pick_sextet = pick_bits [where n = 6, simplified]
lemmas pick_octet = pick_bits [where n = 8, simplified]

lemma sextet_first:
  assumes "v = (256 * u + x) mod (2 ^ 32 :: nat)" and "x < 256"
  shows "v div 4 mod 64 = x div 4" and "v mod 4 = x mod 4" and "v mod 16 = x mod 16"
    and "v mod 64 = x mod 64"
proof -
  show "v div 4 mod 64 = x div 4"
    using pick_sextet [of 2 "256 * u + x"] assms by simp
  have d: "v mod m = x mod m" if "256 = m * k" for m k
  proof -
    have "2 ^ 32 = m * (k * 2 ^ 24)" using that [symmetric] by (simp add: mult.assoc [symmetric])
    then have "m dvd 2 ^ 32" by (rule dvdI)
    then have "v mod m = (256 * u + x) mod m" unfolding assms(1) by (rule mod_mod_cancel)
    also have "256 * u + x = m * (k * u) + x" unfolding that by (simp only: mult.assoc)
    finally show ?thesis by simp
  qed
  show "v mod 4 = x mod 4" "v mod 16 = x mod 16" "v mod 64 = x mod 64"
    using d [of 4 64] d [of 16 16] d [of 64 4] by simp_all
qed

lemma sextet_second:
  assumes "v = (256 * u + x) mod (2 ^ 32 :: nat)" and "x < 256"
  shows "v div 16 mod 64 = (u mod 4) * 16 + x div 16"
    and "v div 64 mod 64 = (u mod 16) * 4 + x div 64"
proof -
  have m: "(256 * u + x) mod (256 * n) = x + 256 * (u mod n)" for n
    using assms(2) mod_mult2_eq [of "256 * u + x" 256 n] by simp
  have "(x + 16 * (16 * (u mod 4))) div 16 = 16 * (u mod 4) + x div 16" by simp
  then show "v div 16 mod 64 = (u mod 4) * 16 + x div 16"
    using pick_sextet [of 4 "256 * u + x"] assms(1) m [of 4] by simp
  have "(x + 64 * (4 * (u mod 16))) div 64 = 4 * (u mod 16) + x div 64" by simp
  then show "v div 64 mod 64 = (u mod 16) * 4 + x div 64"
    using pick_sextet [of 6 "256 * u + x"] assms(1) m [of 16] by simp
qed

lemma pick_digit: "l < d \<Longrightarrow> y < 64 \<Longrightarrow> (l + d * (y + 64 * z)) div d mod 64 = (y :: nat)"
  by simp

lemma group24:
  fixes a b c :: nat
  assumes "b < 256" "c < 256"
  shows "(a * 2 ^ 16 + b * 2 ^ 8 + c) div 2 ^ 18 = a div 4"
    "(a * 2 ^ 16 + b * 2 ^ 8 + c) div 2 ^ 12 mod 64 = (a mod 4) * 16 + b div 16"
    "(a * 2 ^ 16 + b * 2 ^ 8 + c) div 2 ^ 6 mod 64 = (b mod 16) * 4 + c div 64"
    "(a * 2 ^ 16 + b * 2 ^ 8 + c) mod 64 = c mod 64"
proof -
  obtain a0 a1 where a: "a = 4 * a1 + a0" "a0 < 4" by (metis div_mult_mod_eq mod_less_divisor mult.commute zero_less_numeral)
  obtain b0 b1 where b: "b = 16 * b1 + b0" "b0 < 16" by (metis div_mult_mod_eq mod_less_divisor mult.commute zero_less_numeral)
  obtain c0 c1 where c: "c = 64 * c1 + c0" "c0 < 64" by (metis div_mult_mod_eq mod_less_divisor mult.commute zero_less_numeral)
  have lt: "b1 < 16" "c1 < 4" using assms b c by auto
  have g1: "a * 2 ^ 16 + b * 2 ^ 8 + c = (a0 * 65536 + b * 256 + c) + 262144 * a1"
    by (simp add: a)
  have l1: "a0 * 65536 + b * 256 + c < 262144" using assms a by simp
  show "(a * 2 ^ 16 + b * 2 ^ 8 + c) div 2 ^ 18 = a div 4"
    unfolding g1 using l1 a by simp
  have g2: "a * 2 ^ 16 + b * 2 ^ 8 + c = (b0 * 256 + c) + 4096 * ((16 * a0 + b1) + 64 * a1)"
    by (simp add: a b)
  have l2: "b0 * 256 + c < 4096" "16 * a0 + b1 < 64" using assms a b lt by simp_all
  show "(a * 2 ^ 16 + b * 2 ^ 8 + c) div 2 ^ 12 mod 64 = (a mod 4) * 16 + b div 16"
    using pick_digit [OF l2, of a1] a b unfolding g2 by simp
  have g3: "a * 2 ^ 16 + b * 2 ^ 8 + c = c0 + 64 * ((4 * b0 + c1) + 64 * (16 * a + b1))"
    by (simp add: b c)
  have l3: "4 * b0 + c1 < 64" using b lt by simp
  show "(a * 2 ^ 16 + b * 2 ^ 8 + c) div 2 ^ 6 mod 64 = (b mod 16) * 4 + c div 64"
    using pick_digit [OF c(2) l3, of "16 * a + b1"] b c unfolding g3 by simp
  show "(a * 2 ^ 16 + b * 2 ^ 8 + c) mod 64 = c mod 64"
    unfolding g3 mod_mult_self2 using c by simp
qed

section \<open>The encoder meets the specification\<close>

lemma hex_string_simps [simp]:
  "hex_string [] = []"
  "hex_string (b # bs) = hex_byte b @ hex_string bs"
  by (simp_all add: hex_string_def)

text \<open>One byte, from each of the three positions within a group.\<close>

lemma encode_byte_first:
  "to_base_64_loop (hex_byte b @ cs) val (-6) res =
     to_base_64_loop cs (push_bit 8 val + ucast b) (-4) (res @ [sextet (unat b div 4)])"
  using sextet_first(1) [OF unat_shift_in unat_byte, of val b]
  by (simp add: to_base_64_loop_hex b64_emit_step b64_emit_stop)

lemma encode_byte_second:
  "to_base_64_loop (hex_byte b @ cs) val (-4) res =
     to_base_64_loop cs (push_bit 8 val + ucast b) (-2)
       (res @ [sextet (unat val mod 4 * 16 + unat b div 16)])"
  using sextet_second(1) [OF unat_shift_in unat_byte, of val b]
  by (simp add: to_base_64_loop_hex b64_emit_step b64_emit_stop)

lemma encode_byte_third:
  "to_base_64_loop (hex_byte b @ cs) val (-2) res =
     to_base_64_loop cs (push_bit 8 val + ucast b) (-6)
       (res @ [sextet (unat val mod 16 * 4 + unat b div 64), sextet (unat b mod 64)])"
  using sextet_second(2) [OF unat_shift_in unat_byte, of val b]
    sextet_first(4) [OF unat_shift_in unat_byte, of val b]
  by (simp add: to_base_64_loop_hex b64_emit_step b64_emit_stop)

lemma shift_in_mod:
  "unat (push_bit 8 v + ucast (b :: byte) :: 32 word) mod 4 = unat b mod 4"
  "unat (push_bit 8 v + ucast (b :: byte) :: 32 word) mod 16 = unat b mod 16"
  using sextet_first(2,3) [OF unat_shift_in unat_byte, of v b] by simp_all

lemma length_mod4_two: "length res mod 4 = 0 \<Longrightarrow> pad4 (res @ [x, y]) = res @ [x, y, pad_char, pad_char]"
  and length_mod4_three: "length res mod 4 = 0 \<Longrightarrow> pad4 (res @ [x, y, z]) = res @ [x, y, z, pad_char]"
  and length_mod4_zero: "length res mod 4 = 0 \<Longrightarrow> pad4 res = res"
  by (simp_all add: pad4.simps mod_Suc)

definition b64_finish :: "u32 \<times> int \<times> bytes \<Rightarrow> bytes" where
  "b64_finish t = (case t of (val, val_b, res) \<Rightarrow>
     pad4 (if val_b > -6
           then res @ [b64_chars ! unat (drop_bit (nat (val_b + 8)) (push_bit 8 val) AND 0x3F)]
           else res))"

lemma to_base_64_finish: "to_base_64 s = bind_r (to_base_64_loop s 0 (-6) []) (\<lambda>t. Inr (b64_finish t))"
  by (simp add: to_base_64_def b64_finish_def split_def)

lemma final_sextet:
  "k \<le> 26 \<Longrightarrow> unat (drop_bit k (push_bit 8 v :: 32 word) AND 0x3F) = 256 * unat v mod 2 ^ (k + 6) div 2 ^ k"
  unfolding unat_and_3F unat_drop_bit
  using pick_sextet [of k "256 * unat v"]
  by (simp add: push_bit_eq_mult unat_word_ariths mult.commute)

text \<open>The groups of the specification as sextets of their bytes.\<close>

lemma base64_spec_sextets:
  "base64_spec [a] = [sextet (unat a div 4), sextet (unat a mod 4 * 16), pad_char, pad_char]"
  "base64_spec [a, b] = [sextet (unat a div 4), sextet (unat a mod 4 * 16 + unat b div 16),
     sextet (unat b mod 16 * 4), pad_char]"
  "base64_spec (a # b # c # cs) = [sextet (unat a div 4), sextet (unat a mod 4 * 16 + unat b div 16),
     sextet (unat b mod 16 * 4 + unat c div 64), sextet (unat c mod 64)] @ base64_spec cs"
proof -
  have b: "unat b < 256" "unat c < 256" "(0 :: nat) < 256" by (simp_all add: unat_byte)
  show "base64_spec [a] = [sextet (unat a div 4), sextet (unat a mod 4 * 16), pad_char, pad_char]"
    using group24 [OF b(3) b(3), of "unat a"]
    by (simp only: base64_spec.simps Let_def mult_zero_left add_0_right div_0)
  show "base64_spec [a, b] = [sextet (unat a div 4), sextet (unat a mod 4 * 16 + unat b div 16),
     sextet (unat b mod 16 * 4), pad_char]"
    using group24 [OF b(1) b(3), of "unat a"]
    by (simp only: base64_spec.simps Let_def add_0_right div_0)
  show "base64_spec (a # b # c # cs) = [sextet (unat a div 4), sextet (unat a mod 4 * 16 + unat b div 16),
     sextet (unat b mod 16 * 4 + unat c div 64), sextet (unat c mod 64)] @ base64_spec cs"
    by (simp only: base64_spec.simps Let_def group24 [OF b(1,2)])
qed

declare base64_spec.simps(2-4) [simp del]

definition to_base_64_from :: "bytes \<Rightarrow> u32 \<Rightarrow> int \<Rightarrow> bytes \<Rightarrow> bytes result" where
  "to_base_64_from s val val_b res =
     bind_r (to_base_64_loop s val val_b res) (\<lambda>t. Inr (b64_finish t))"

lemma encode_from:
  "to_base_64_from (hex_byte b @ cs) val (-6) res =
     to_base_64_from cs (push_bit 8 val + ucast b) (-4) (res @ [sextet (unat b div 4)])"
  "to_base_64_from (hex_byte b @ cs) val (-4) res =
     to_base_64_from cs (push_bit 8 val + ucast b) (-2)
       (res @ [sextet (unat val mod 4 * 16 + unat b div 16)])"
  "to_base_64_from (hex_byte b @ cs) val (-2) res =
     to_base_64_from cs (push_bit 8 val + ucast b) (-6)
       (res @ [sextet (unat val mod 16 * 4 + unat b div 64), sextet (unat b mod 64)])"
  by (simp_all only: to_base_64_from_def encode_byte_first encode_byte_second encode_byte_third)

lemma encode_end:
  "length res mod 4 = 0 \<Longrightarrow> to_base_64_from [] val (-6) res = Inr res"
  "length res mod 4 = 0 \<Longrightarrow> to_base_64_from [] val (-4) (res @ [x]) =
     Inr (res @ [x, sextet (unat val mod 4 * 16), pad_char, pad_char])"
  "length res mod 4 = 0 \<Longrightarrow> to_base_64_from [] val (-2) (res @ [x, y]) =
     Inr (res @ [x, y, sextet (unat val mod 16 * 4), pad_char])"
proof -
  have "256 * unat val mod 1024 = 256 * (unat val mod 4)"
    using mod_mult_mult1 [of 256 "unat val" 4] by simp
  then have two: "b64_chars ! unat (drop_bit 4 (push_bit 8 val) AND 0x3F) = sextet (unat val mod 4 * 16)"
    using final_sextet [of 4 val] by (simp add: sextet_def mult.commute)
  have "256 * unat val mod 4096 = 256 * (unat val mod 16)"
    using mod_mult_mult1 [of 256 "unat val" 16] by simp
  then have three: "b64_chars ! unat (drop_bit 6 (push_bit 8 val) AND 0x3F) = sextet (unat val mod 16 * 4)"
    using final_sextet [of 6 val] by (simp add: sextet_def mult.commute)
  show "length res mod 4 = 0 \<Longrightarrow> to_base_64_from [] val (-6) res = Inr res"
    by (simp add: to_base_64_from_def b64_finish_def length_mod4_zero)
  show "length res mod 4 = 0 \<Longrightarrow> to_base_64_from [] val (-4) (res @ [x]) =
     Inr (res @ [x, sextet (unat val mod 4 * 16), pad_char, pad_char])"
    by (simp add: to_base_64_from_def b64_finish_def two length_mod4_two)
  show "length res mod 4 = 0 \<Longrightarrow> to_base_64_from [] val (-2) (res @ [x, y]) =
     Inr (res @ [x, y, sextet (unat val mod 16 * 4), pad_char])"
    by (simp add: to_base_64_from_def b64_finish_def three length_mod4_three)
qed

lemma to_base_64_from_spec:
  "length res mod 4 = 0 \<Longrightarrow> to_base_64_from (hex_string bs) val (-6) res = Inr (res @ base64_spec bs)"
proof (induction bs arbitrary: val res rule: base64_spec.induct)
  case 1
  then show ?case by (simp add: encode_end)
next
  case (2 a)
  then show ?case
    using encode_from(1) [of a "[]" val res] by (simp add: base64_spec_sextets encode_end shift_in_mod)
next
  case (3 a b)
  let ?v = "push_bit 8 val + ucast a :: 32 word"
  have "to_base_64_from (hex_string [a, b]) val (-6) res =
      to_base_64_from [] (push_bit 8 ?v + ucast b) (-2)
        (res @ [sextet (unat a div 4), sextet (unat a mod 4 * 16 + unat b div 16)])"
    using encode_from(2) [of b "[]" ?v "res @ [sextet (unat a div 4)]"]
    by (simp add: encode_from(1) shift_in_mod)
  with "3" show ?case by (simp add: base64_spec_sextets encode_end shift_in_mod)
next
  case (4 a b c bs)
  let ?four = "[sextet (unat a div 4), sextet (unat a mod 4 * 16 + unat b div 16),
      sextet (unat b mod 16 * 4 + unat c div 64), sextet (unat c mod 64)]"
  have len: "length (res @ ?four) mod 4 = 0" using "4.prems" by simp
  have "to_base_64_from (hex_string (a # b # c # bs)) val (-6) res =
      to_base_64_from (hex_string bs)
        (push_bit 8 (push_bit 8 (push_bit 8 val + ucast a) + ucast b) + ucast c) (-6) (res @ ?four)"
    by (simp only: hex_string_simps encode_from shift_in_mod append_assoc append_Cons append_Nil)
  then show ?case
    by (simp only: "4.IH" [OF refl len] base64_spec_sextets append_assoc)
qed

section \<open>Decoding\<close>

lemma distinct_b64_chars: "distinct b64_chars" and length_b64_chars: "length b64_chars = 64"
  and pad_char_not_in: "pad_char \<notin> set b64_chars"
  by (code_simp, code_simp, code_simp)

lemma sextet_facts:
  assumes "n < 64"
  shows "b64_index (sextet n) = Some n" "sextet n \<noteq> pad_char"
proof -
  show "b64_index (sextet n) = Some n"
    using map_of_zip_nth [of b64_chars "[0..<64]" n] assms
    by (simp add: b64_index_def sextet_def distinct_b64_chars length_b64_chars)
  show "sextet n \<noteq> pad_char"
    using assms pad_char_not_in by (metis length_b64_chars nth_mem sextet_def)
qed

lemma octet_of_accumulator:
  assumes "k \<le> 24"
  shows "unat (ucast (signed_drop_bit k (v :: 32 word) AND 0xFF) :: byte) = unat v div 2 ^ k mod 256"
proof -
  have "(ucast (signed_drop_bit k v AND 0xFF) :: byte) = ucast (drop_bit k v)"
  proof (rule bit_word_eqI)
    fix n assume "n < LENGTH(8)"
    then have n: "n < 8" by simp
    have m: "(0xFF :: 32 word) = mask 8" by (simp add: mask_eq_exp_minus_1)
    have "bit (0xFF :: 32 word) n" using n by (simp only: m bit_mask_iff) simp
    then show "bit (ucast (signed_drop_bit k v AND 0xFF) :: byte) n = bit (ucast (drop_bit k v) :: byte) n"
      using n assms by (auto simp: bit_simps)
  qed
  then show ?thesis
    by (simp only: unsigned_ucast_eq unsigned_take_bit_eq) (simp add: take_bit_eq_mod unat_drop_bit)
qed

lemma unat_shift6: "x < 64 \<Longrightarrow> unat (push_bit 6 v + of_nat x :: 32 word) = (64 * unat v + x) mod 2 ^ 32"
  by (simp add: unat_word_ariths push_bit_eq_mult mod_simps mult.commute unat_of_nat take_bit_eq_mod)

text \<open>The octets four sextets stand for, and one group decoded from any accumulator.\<close>

definition octet1 :: "nat \<Rightarrow> nat \<Rightarrow> byte" where
  "octet1 x y = of_nat (4 * x + y div 16)"

definition octet2 :: "nat \<Rightarrow> nat \<Rightarrow> byte" where
  "octet2 y z = of_nat (16 * (y mod 16) + z div 4)"

definition octet3 :: "nat \<Rightarrow> nat \<Rightarrow> byte" where
  "octet3 z w = of_nat (64 * (z mod 4) + w)"

lemma byte_eq_of_nat: "unat (b :: byte) = n mod 256 \<Longrightarrow> b = of_nat n"
  by (simp add: word_unat_eq_iff unat_of_nat take_bit_eq_mod)

lemma decode_steps:
  fixes v :: "32 word"
  assumes x: "x < 64" and y: "y < 64"
  defines "v' \<equiv> push_bit 6 v + of_nat x"
  defines "v'' \<equiv> push_bit 6 v' + of_nat y"
  shows "(ucast (signed_drop_bit 4 v'' AND 0xFF) :: byte) = octet1 x y"
    and "(ucast (signed_drop_bit 2 v'' AND 0xFF) :: byte) = octet2 x y"
    and "(ucast (signed_drop_bit 0 v'' AND 0xFF) :: byte) = octet3 x y"
proof -
  have u': "unat v' = (64 * unat v + x) mod 2 ^ 32" and u'': "unat v'' = (64 * unat v' + y) mod 2 ^ 32"
    using x y by (simp_all only: v'_def v''_def unat_shift6)
  have low: "unat v' mod m = x mod m" if "64 = m * k" for m k
  proof -
    have "2 ^ 32 = m * (k * 2 ^ 26)" using that [symmetric] by (simp add: mult.assoc [symmetric])
    then have "m dvd 2 ^ 32" by (rule dvdI)
    then have "unat v' mod m = (64 * unat v + x) mod m" unfolding u' by (rule mod_mod_cancel)
    also have "64 * unat v + x = m * (k * unat v) + x" unfolding that by (simp only: mult.assoc)
    finally show ?thesis by simp
  qed
  have m: "(64 * unat v' + y) mod (64 * n) = y + 64 * (unat v' mod n)" for n
    using y mod_mult2_eq [of "64 * unat v' + y" 64 n] by simp
  have "unat v'' div 2 ^ 4 mod 256 = (y + 16 * (4 * x)) div 16"
    using pick_octet [of 4 "64 * unat v' + y"] m [of 64] low [of 64 1] x by (simp add: u'')
  then show "(ucast (signed_drop_bit 4 v'' AND 0xFF) :: byte) = octet1 x y"
    unfolding octet1_def using x y by (intro byte_eq_of_nat) (simp add: octet_of_accumulator)
  have "unat v'' div 2 ^ 2 mod 256 = (y + 4 * (16 * (x mod 16))) div 4"
    using pick_octet [of 2 "64 * unat v' + y"] m [of 16] low [of 16 4] by (simp add: u'')
  then show "(ucast (signed_drop_bit 2 v'' AND 0xFF) :: byte) = octet2 x y"
    unfolding octet2_def using x y by (intro byte_eq_of_nat) (simp add: octet_of_accumulator)
  have "unat v'' div 2 ^ 0 mod 256 = y + 64 * (x mod 4)"
    using pick_octet [of 0 "64 * unat v' + y"] m [of 4] low [of 4 16] by (simp add: u'')
  then show "(ucast (signed_drop_bit 0 v'' AND 0xFF) :: byte) = octet3 x y"
    unfolding octet3_def using x y octet_of_accumulator [of 0 v''] by (intro byte_eq_of_nat) simp
qed

lemma decode_two:
  assumes "x < 64" "y < 64"
  shows "\<exists>v'. from_base64_loop (sextet x # sextet y # cs) v (-8) res =
      from_base64_loop cs (push_bit 6 v' + of_nat y) (-4) (res @ [octet1 x y])"
  using assms decode_steps(1) [OF assms] by (auto simp: sextet_facts Let_def)

lemma decode_third:
  assumes "y < 64" "z < 64"
  shows "from_base64_loop (sextet z # cs) (push_bit 6 v + of_nat y) (-4) res =
      from_base64_loop cs (push_bit 6 (push_bit 6 v + of_nat y) + of_nat z) (-6) (res @ [octet2 y z])"
  using assms decode_steps(2) [OF assms] by (simp add: sextet_facts Let_def)

lemma decode_fourth:
  assumes "z < 64" "w < 64"
  shows "\<exists>v'. from_base64_loop (sextet w # cs) (push_bit 6 v + of_nat z) (-6) res =
      from_base64_loop cs v' (-8) (res @ [octet3 z w])"
  using assms decode_steps(3) [OF assms] by (auto simp: sextet_facts Let_def)

lemma octets_of_bytes:
  "octet1 (unat a div 4) (unat a mod 4 * 16 + unat (b :: byte) div 16) = (a :: byte)"
  "octet2 (unat a mod 4 * 16 + unat b div 16) (unat b mod 16 * 4 + unat c div 64) = b"
  "octet3 (unat b mod 16 * 4 + unat c div 64) (unat (c :: byte) mod 64) = c"
  "octet1 (unat a div 4) (unat a mod 4 * 16) = a"
  "octet2 (unat a mod 4 * 16 + unat b div 16) (unat b mod 16 * 4) = b"
proof -
  have lt: "unat b div 16 < 16" "unat c div 64 < 4" "unat c < 256" "unat a mod 4 < 4"
    using unat_byte [of b] unat_byte [of c] by auto
  show "octet1 (unat a div 4) (unat a mod 4 * 16 + unat b div 16) = a"
    "octet1 (unat a div 4) (unat a mod 4 * 16) = a"
    using lt by (simp_all add: octet1_def mult.commute)
  show "octet2 (unat a mod 4 * 16 + unat b div 16) (unat b mod 16 * 4 + unat c div 64) = b"
    "octet2 (unat a mod 4 * 16 + unat b div 16) (unat b mod 16 * 4) = b"
    "octet3 (unat b mod 16 * 4 + unat c div 64) (unat c mod 64) = c"
    using lt by (simp_all add: octet2_def octet3_def mult.commute)
qed

lemma decode_pad: "from_base64_loop (pad_char # cs) v vb res = res"
  by simp

lemma from_base64_loop_spec: "from_base64_loop (base64_spec bs) v (-8) res = res @ bs"
proof (induction bs arbitrary: v res rule: base64_spec.induct)
  case 1
  then show ?case by simp
next
  case (2 a)
  have lt: "unat a div 4 < 64" "unat a mod 4 * 16 < 64" using unat_byte [of a] by auto
  obtain v1 where "from_base64_loop (base64_spec [a]) v (-8) res =
      from_base64_loop [pad_char, pad_char]
        (push_bit 6 v1 + of_nat (unat a mod 4 * 16)) (-4) (res @ [a])"
    unfolding base64_spec_sextets using decode_two [OF lt] octets_of_bytes(4) [of a] by metis
  then show ?case by (simp only: decode_pad)
next
  case (3 a b)
  have lt: "unat a div 4 < 64" "unat a mod 4 * 16 + unat b div 16 < 64" "unat b mod 16 * 4 < 64"
    using unat_byte [of a] unat_byte [of b] by auto
  obtain v1 where "from_base64_loop (base64_spec [a, b]) v (-8) res =
      from_base64_loop [sextet (unat b mod 16 * 4), pad_char]
        (push_bit 6 v1 + of_nat (unat a mod 4 * 16 + unat b div 16)) (-4) (res @ [a])"
    unfolding base64_spec_sextets
    using decode_two [OF lt(1,2)] octets_of_bytes(1) [of a b] by metis
  then show ?case
    by (simp only: decode_third [OF lt(2,3)] octets_of_bytes decode_pad append_assoc append_Cons append_Nil)
next
  case (4 a b c bs)
  let ?x = "unat a div 4" and ?y = "unat a mod 4 * 16 + unat b div 16"
  let ?z = "unat b mod 16 * 4 + unat c div 64" and ?w = "unat c mod 64"
  have lt: "?x < 64" "?y < 64" "?z < 64" "?w < 64"
    using unat_byte [of a] unat_byte [of b] unat_byte [of c] by auto
  obtain v1 where "from_base64_loop (base64_spec (a # b # c # bs)) v (-8) res =
      from_base64_loop (sextet ?z # sextet ?w # base64_spec bs) (push_bit 6 v1 + of_nat ?y) (-4) (res @ [a])"
    unfolding base64_spec_sextets append_Cons append_Nil
    using decode_two [OF lt(1,2)] octets_of_bytes(1) [of a b] by metis
  also obtain v2 where "\<dots> = from_base64_loop (base64_spec bs) v2 (-8) (((res @ [a]) @ [b]) @ [c])"
    unfolding decode_third [OF lt(2,3)] octets_of_bytes
    using decode_fourth [OF lt(3,4)] octets_of_bytes(3) [of b c] by metis
  finally show ?case by (simp only: "4.IH" [OF refl] append_assoc append_Cons append_Nil)
qed

text \<open>Bytes that are not in the alphabet do not count, and nothing after the first \<open>=\<close> does.\<close>

lemma from_base64_loop_filter:
  "from_base64_loop s v vb res =
     from_base64_loop (filter (\<lambda>c. b64_index c \<noteq> None) (takeWhile (\<lambda>c. c \<noteq> pad_char) s)) v vb res"
  by (induction s v vb res rule: from_base64_loop.induct) (auto simp: Let_def split: option.splits)

text \<open>Where the UUID's dashes and fixed bits are.\<close>

lemma version_digit: "unat ((b AND 0x0F) OR 0x40 :: byte) div 16 = 4"
proof -
  have "drop_bit 4 ((b AND 0x0F) OR 0x40) = (4 :: byte)"
    by (rule byte_eqI; simp add: bit_simps)
  then show ?thesis using unat_drop_bit [of 4 "(b AND 0x0F) OR 0x40"] by simp
qed

lemma variant_digit: "unat ((b AND 0x3F) OR 0x80 :: byte) div 16 \<in> {8, 9, 10, 11}"
proof -
  have "drop_bit 6 ((b AND 0x3F) OR 0x80) = (2 :: byte)"
    by (rule byte_eqI; simp add: bit_simps)
  then have "unat ((b AND 0x3F) OR 0x80 :: byte) div 64 = 2"
    using unat_drop_bit [of 6 "(b AND 0x3F) OR 0x80"] by simp
  then show ?thesis by auto
qed

lemma set_bits_inject:
  "(a AND 0x0F) OR 0x40 = (b AND 0x0F) OR (0x40 :: byte) \<longleftrightarrow> a AND 0x0F = b AND 0x0F"
  "(a AND 0x3F) OR 0x80 = (b AND 0x3F) OR (0x80 :: byte) \<longleftrightarrow> a AND 0x3F = b AND 0x3F"
proof -
  have "((x AND 0x0F) OR 0x40) AND 0x0F = x AND (0x0F :: byte)"
    "((x AND 0x3F) OR 0x80) AND 0x3F = x AND (0x3F :: byte)" for x
    by (rule byte_eqI; simp add: bit_simps)+
  then show "(a AND 0x0F) OR 0x40 = (b AND 0x0F) OR (0x40 :: byte) \<longleftrightarrow> a AND 0x0F = b AND 0x0F"
    "(a AND 0x3F) OR 0x80 = (b AND 0x3F) OR (0x80 :: byte) \<longleftrightarrow> a AND 0x3F = b AND 0x3F"
    by metis+
qed

lemma hex_byte_inject: "hex_byte a = hex_byte b \<longleftrightarrow> a = b"
  by (metis of_nat_eq_iff stoi16_hex_byte sum.inject(2) word_unat_eq_iff)

lemma length_hex_byte [simp]: "length (hex_byte b) = 2"
  by (simp add: hex_byte_def)

lemma uuid_text_inject:
  "length xs = length ys \<Longrightarrow> uuid_text i xs = uuid_text i ys \<longleftrightarrow> xs = ys"
proof (induction i xs arbitrary: ys rule: uuid_text.induct)
  case (2 i b bs)
  then obtain c cs where "ys = c # cs" "length bs = length cs" by (cases ys) auto
  with "2.IH" show ?case by (simp add: hex_byte_inject)
qed simp

lemma hex_char_not_dash: "n < 16 \<Longrightarrow> hex_chars ! n \<noteq> 45"
  by (rule hex_char_facts)

lemma list16:
  assumes "length xs = 16"
  shows "\<exists>a b c d e f g h i j k l m n p q. xs = [a, b, c, d, e, f, g, h, i, j, k, l, m, n, p, q]"
  using assms by (auto simp: numeral_eq_Suc length_Suc_conv)

lemma generateUuid_text:
  "generateUuid [a, b, c, d, e, f, g, h, i, j, k, l, m, n, p, q] =
     hex_byte a @ hex_byte b @ hex_byte c @ hex_byte d @ [45] @ hex_byte e @ hex_byte f @ [45] @
     hex_byte ((g AND 0x0F) OR 0x40) @ hex_byte h @ [45] @ hex_byte ((i AND 0x3F) OR 0x80) @
     hex_byte j @ [45] @ hex_byte k @ hex_byte l @ hex_byte m @ hex_byte n @ hex_byte p @ hex_byte q"
  by (simp add: generateUuid_def numeral_eq_Suc cstr_def Let_def)

section \<open>Encoding and decoding whole texts\<close>

lemma to_base_64_hex: "to_base_64 (hex_string bs) = Inr (base64_spec bs)"
  using to_base_64_from_spec [of "[]" bs 0]
  by (simp only: to_base_64_finish to_base_64_from_def) simp

lemma length_base64_spec: "length (base64_spec bs) = 4 * ((length bs + 2) div 3)"
proof (induction bs rule: base64_spec.induct)
  case (4 a b c cs)
  have "(length cs + 2 + 3) div 3 = Suc ((length cs + 2) div 3)" by simp
  with "4.IH" [OF refl] show ?case by (simp add: base64_spec_sextets)
qed (simp_all add: base64_spec_sextets)

lemma from_base64_spec: "from_base64 (base64_spec bs) = bs"
  by (simp add: from_base64_def from_base64_loop_spec)

section \<open>Properties\<close>

text \<open>
  \<open>to_base_64\<close>, given the hexadecimal text of any bytes (what \<open>SHA1::final\<close> returns),
  gives the base64 encoding of these bytes as RFC 4648 defines it; it never throws there.
\<close>

theorem to_base_64_correct: "to_base_64 (hex_string bs) = Inr (base64_spec bs)"
  by (rule to_base_64_hex)

text \<open>\<open>from_base64\<close> gives back the bytes whose hexadecimal text \<open>to_base_64\<close> encoded.\<close>

theorem base64_roundtrip:
  "\<exists>e. to_base_64 (hex_string bs) = Inr e \<and> from_base64 e = bs \<and> length e = 4 * ((length bs + 2) div 3)"
  by (simp add: to_base_64_hex from_base64_spec length_base64_spec)

text \<open>
  What the decoder ignores: bytes outside the alphabet (line breaks, blanks) anywhere, and
  everything from the first \<open>=\<close> on.
\<close>

theorem from_base64_ignores:
  "from_base64 s =
     from_base64 (filter (\<lambda>c. c \<in> set b64_chars) (takeWhile (\<lambda>c. c \<noteq> pad_char) s))"
proof -
  have "b64_index c \<noteq> None \<longleftrightarrow> c \<in> set b64_chars" for c
    by (simp add: b64_index_def length_b64_chars)
  then show ?thesis
    using from_base64_loop_filter [of s 0 "-8" "[]"] by (simp add: from_base64_def)
qed

text \<open>
  A generated UUID is a version 4 UUID: 36 characters, dashes exactly at positions 8, 13,
  18 and 23, version digit 4, variant digit 8, 9, a or b; and two draws give the same UUID
  exactly when they agree on the 122 bits that are not fixed.
\<close>

theorem generateUuid_v4:
  assumes "length r = 16" and "length s = 16"
  shows "length (generateUuid r) = 36 \<and>
    filter (\<lambda>i. generateUuid r ! i = of_char (CHR ''-'')) [0..<36] = [8, 13, 18, 23] \<and>
    generateUuid r ! 14 = of_char (CHR ''4'') \<and>
    generateUuid r ! 19 \<in> set (cstr ''89ab'') \<and>
    (generateUuid r = generateUuid s \<longleftrightarrow>
       take 6 r = take 6 s \<and> r ! 6 AND 0x0F = s ! 6 AND 0x0F \<and> r ! 7 = s ! 7 \<and>
       r ! 8 AND 0x3F = s ! 8 AND 0x3F \<and> drop 9 r = drop 9 s)"
proof -
  obtain a b c d e f g h i j k l m n p q
    where r: "r = [a, b, c, d, e, f, g, h, i, j, k, l, m, n, p, q]"
    using list16 [OF assms(1)] by blast
  obtain a' b' c' d' e' f' g' h' i' j' k' l' m' n' p' q'
    where s: "s = [a', b', c', d', e', f', g', h', i', j', k', l', m', n', p', q']"
    using list16 [OF assms(2)] by blast
  have hi: "unat x div 16 < 16" for x :: byte using unat_byte [of x] by auto
  have dash: "(of_char (CHR ''-'') :: byte) = 45" by simp
  have len: "length (generateUuid r) = 36" unfolding r generateUuid_text by simp
  have pos: "filter (\<lambda>i. generateUuid r ! i = of_char (CHR ''-'')) [0..<36] = [8, 13, 18, 23]"
    unfolding r generateUuid_text dash
    by (simp add: hex_byte_def upt_rec hi hex_char_not_dash)
  have ver: "generateUuid r ! 14 = of_char (CHR ''4'')"
    unfolding r generateUuid_text by (simp add: hex_byte_def version_digit hex_chars_def cstr_def)
  have var: "generateUuid r ! 19 \<in> set (cstr ''89ab'')"
  proof -
    have "generateUuid r ! 19 = hex_chars ! (unat ((i AND 0x3F) OR 0x80 :: byte) div 16)"
      unfolding r generateUuid_text by (simp add: hex_byte_def)
    then show ?thesis using variant_digit [of i] by (auto simp: hex_chars_def cstr_def)
  qed
  have "generateUuid r = generateUuid s \<longleftrightarrow>
      take 6 r = take 6 s \<and> r ! 6 AND 0x0F = s ! 6 AND 0x0F \<and> r ! 7 = s ! 7 \<and>
      r ! 8 AND 0x3F = s ! 8 AND 0x3F \<and> drop 9 r = drop 9 s"
    unfolding r s generateUuid_text by (auto simp: hex_byte_inject set_bits_inject)
  with len pos ver var show ?thesis by blast
qed

theorem generateUuid_v4_witness:
  "generateUuid [0, 1, 2, 3, 4, 5, 255, 7, 255, 9, 10, 11, 12, 13, 14, 15] =
      cstr ''00010203-0405-4f07-bf09-0a0b0c0d0e0f'' \<and>
    generateUuid [0, 1, 2, 3, 4, 5, 255, 7, 255, 9, 10, 11, 12, 13, 14, 15] =
      generateUuid [0, 1, 2, 3, 4, 5, 15, 7, 63, 9, 10, 11, 12, 13, 14, 15]"
proof
  show "generateUuid [0, 1, 2, 3, 4, 5, 255, 7, 255, 9, 10, 11, 12, 13, 14, 15] =
      cstr ''00010203-0405-4f07-bf09-0a0b0c0d0e0f''"
    unfolding generateUuid_text by (simp add: hex_byte_def hex_chars_def cstr_def)
  show "generateUuid [0, 1, 2, 3, 4, 5, 255, 7, 255, 9, 10, 11, 12, 13, 14, 15] =
      generateUuid [0, 1, 2, 3, 4, 5, 15, 7, 63, 9, 10, 11, 12, 13, 14, 15]"
    using generateUuid_v4 [of "[0, 1, 2, 3, 4, 5, 255, 7, 255, 9, 10, 11, 12, 13, 14, 15]"
        "[0, 1, 2, 3, 4, 5, 15, 7, 63, 9, 10, 11, 12, 13, 14, 15]"] by simp
qed

end
