(* ===== verification/Sha1.thy ===== *)
theory Sha1
  imports Utilities
begin

text \<open>
  \<open>external/sha1.hpp\<close>: the SHA-1 routine the WebSocket handshake calls, with its unrolled
  rounds, its block kept as a circular buffer of sixteen words, and its buffering of partial
  blocks; beside it the specification of FIPS 180-4 (a schedule of eighty words, the rotation
  of five working variables, padding), and the proof that they agree.

  An object \<open>SHA1\<close> is a record; methods return the object as they leave it. \<open>block\<close> is a
  list of sixteen words, updated in place by the round functions, which return it. The output
  of \<open>final\<close>, written with \<open>setw(8)\<close> and \<open>setfill('0')\<close>, is \<open>hex_u32\<close>.
\<close>

unbundle bit_operations_syntax

section \<open>The object and the round functions\<close>

record sha1 =
  digest :: "u32 list"
  buffer :: bytes
  transforms :: u64

definition BLOCK_INTS :: nat where
  "BLOCK_INTS = 16"

definition BLOCK_BYTES :: nat where
  "BLOCK_BYTES = BLOCK_INTS * 4"

definition sha1_reset :: sha1 where
  "sha1_reset =
     \<lparr>digest = [0x67452301, 0xefcdab89, 0x98badcfe, 0x10325476, 0xc3d2e1f0],
      buffer = [], transforms = 0\<rparr>"

definition rol :: "u32 \<Rightarrow> nat \<Rightarrow> u32" where
  "rol value bits = push_bit bits value OR drop_bit (32 - bits) value"

definition blk :: "u32 list \<Rightarrow> nat \<Rightarrow> u32" where
  "blk block i =
     rol (block ! ((i + 13) mod 16) XOR block ! ((i + 8) mod 16) XOR block ! ((i + 2) mod 16) XOR
          block ! i) 1"

text \<open>A round function returns the block and the new values of \<open>w\<close> and \<open>z\<close>.\<close>

definition sha1_R0 :: "u32 list \<Rightarrow> u32 \<Rightarrow> u32 \<Rightarrow> u32 \<Rightarrow> u32 \<Rightarrow> u32 \<Rightarrow> nat \<Rightarrow> u32 list \<times> u32 \<times> u32" where
  "sha1_R0 block v w x y z i =
     (let z = z + (((w AND (x XOR y)) XOR y) + block ! i + 0x5a827999 + rol v 5)
      in (block, rol w 30, z))"

definition sha1_R1 :: "u32 list \<Rightarrow> u32 \<Rightarrow> u32 \<Rightarrow> u32 \<Rightarrow> u32 \<Rightarrow> u32 \<Rightarrow> nat \<Rightarrow> u32 list \<times> u32 \<times> u32" where
  "sha1_R1 block v w x y z i =
     (let block = block[i := blk block i];
          z = z + (((w AND (x XOR y)) XOR y) + block ! i + 0x5a827999 + rol v 5)
      in (block, rol w 30, z))"

definition sha1_R2 :: "u32 list \<Rightarrow> u32 \<Rightarrow> u32 \<Rightarrow> u32 \<Rightarrow> u32 \<Rightarrow> u32 \<Rightarrow> nat \<Rightarrow> u32 list \<times> u32 \<times> u32" where
  "sha1_R2 block v w x y z i =
     (let block = block[i := blk block i];
          z = z + ((w XOR x XOR y) + block ! i + 0x6ed9eba1 + rol v 5)
      in (block, rol w 30, z))"

definition sha1_R3 :: "u32 list \<Rightarrow> u32 \<Rightarrow> u32 \<Rightarrow> u32 \<Rightarrow> u32 \<Rightarrow> u32 \<Rightarrow> nat \<Rightarrow> u32 list \<times> u32 \<times> u32" where
  "sha1_R3 block v w x y z i =
     (let block = block[i := blk block i];
          z = z + ((((w OR x) AND y) OR (w AND x)) + block ! i + 0x8f1bbcdc + rol v 5)
      in (block, rol w 30, z))"

definition sha1_R4 :: "u32 list \<Rightarrow> u32 \<Rightarrow> u32 \<Rightarrow> u32 \<Rightarrow> u32 \<Rightarrow> u32 \<Rightarrow> nat \<Rightarrow> u32 list \<times> u32 \<times> u32" where
  "sha1_R4 block v w x y z i =
     (let block = block[i := blk block i];
          z = z + ((w XOR x XOR y) + block ! i + 0xca62c1d6 + rol v 5)
      in (block, rol w 30, z))"

datatype sha1_round = R0 | R1 | R2 | R3 | R4

fun sha1_round_fun ::
  "sha1_round \<Rightarrow> u32 list \<Rightarrow> u32 \<Rightarrow> u32 \<Rightarrow> u32 \<Rightarrow> u32 \<Rightarrow> u32 \<Rightarrow> nat \<Rightarrow> u32 list \<times> u32 \<times> u32" where
  "sha1_round_fun R0 = sha1_R0"
| "sha1_round_fun R1 = sha1_R1"
| "sha1_round_fun R2 = sha1_R2"
| "sha1_round_fun R3 = sha1_R3"
| "sha1_round_fun R4 = sha1_R4"

section \<open>Hashing one block\<close>

text \<open>
  The eighty calls of \<open>transform\<close>, in their order. The working variables \<open>a\<close> to \<open>e\<close> are
  a list of five words; \<open>eabcd\<close> is the argument order \<open>e, a, b, c, d\<close> of a call, as positions
  in that list.
\<close>

definition abcde :: "nat list" where "abcde = [0, 1, 2, 3, 4]"
definition eabcd :: "nat list" where "eabcd = [4, 0, 1, 2, 3]"
definition deabc :: "nat list" where "deabc = [3, 4, 0, 1, 2]"
definition cdeab :: "nat list" where "cdeab = [2, 3, 4, 0, 1]"
definition bcdea :: "nat list" where "bcdea = [1, 2, 3, 4, 0]"

definition transform_calls :: "(sha1_round \<times> nat list \<times> nat) list" where
  "transform_calls =
    [
     (R0, abcde, 0), (R0, eabcd, 1), (R0, deabc, 2), (R0, cdeab, 3), (R0, bcdea, 4),
     (R0, abcde, 5), (R0, eabcd, 6), (R0, deabc, 7), (R0, cdeab, 8), (R0, bcdea, 9),
     (R0, abcde, 10), (R0, eabcd, 11), (R0, deabc, 12), (R0, cdeab, 13), (R0, bcdea, 14),
     (R0, abcde, 15), (R1, eabcd, 0), (R1, deabc, 1), (R1, cdeab, 2), (R1, bcdea, 3),
     (R2, abcde, 4), (R2, eabcd, 5), (R2, deabc, 6), (R2, cdeab, 7), (R2, bcdea, 8),
     (R2, abcde, 9), (R2, eabcd, 10), (R2, deabc, 11), (R2, cdeab, 12), (R2, bcdea, 13),
     (R2, abcde, 14), (R2, eabcd, 15), (R2, deabc, 0), (R2, cdeab, 1), (R2, bcdea, 2),
     (R2, abcde, 3), (R2, eabcd, 4), (R2, deabc, 5), (R2, cdeab, 6), (R2, bcdea, 7),
     (R3, abcde, 8), (R3, eabcd, 9), (R3, deabc, 10), (R3, cdeab, 11), (R3, bcdea, 12),
     (R3, abcde, 13), (R3, eabcd, 14), (R3, deabc, 15), (R3, cdeab, 0), (R3, bcdea, 1),
     (R3, abcde, 2), (R3, eabcd, 3), (R3, deabc, 4), (R3, cdeab, 5), (R3, bcdea, 6),
     (R3, abcde, 7), (R3, eabcd, 8), (R3, deabc, 9), (R3, cdeab, 10), (R3, bcdea, 11),
     (R4, abcde, 12), (R4, eabcd, 13), (R4, deabc, 14), (R4, cdeab, 15), (R4, bcdea, 0),
     (R4, abcde, 1), (R4, eabcd, 2), (R4, deabc, 3), (R4, cdeab, 4), (R4, bcdea, 5),
     (R4, abcde, 6), (R4, eabcd, 7), (R4, deabc, 8), (R4, cdeab, 9), (R4, bcdea, 10),
     (R4, abcde, 11), (R4, eabcd, 12), (R4, deabc, 13), (R4, cdeab, 14), (R4, bcdea, 15)
    ]"

definition transform_call ::
  "u32 list \<times> u32 list \<Rightarrow> sha1_round \<times> nat list \<times> nat \<Rightarrow> u32 list \<times> u32 list" where
  "transform_call st call =
     (case st of (block, vars) \<Rightarrow> case call of (r, args, i) \<Rightarrow>
       (case sha1_round_fun r block (vars ! (args ! 0)) (vars ! (args ! 1)) (vars ! (args ! 2))
          (vars ! (args ! 3)) (vars ! (args ! 4)) i of
        (block, w, z) \<Rightarrow> (block, vars[args ! 1 := w, args ! 4 := z])))"

text \<open>\<open>transform\<close> leaves the block changed as well; both its callers see that block.\<close>

definition sha1_transform :: "u32 list \<Rightarrow> u32 list \<Rightarrow> u64 \<Rightarrow> u32 list \<times> u32 list \<times> u64" where
  "sha1_transform dig block trs =
     (case foldl transform_call (block, dig) transform_calls of
        (block, vars) \<Rightarrow> (map2 (+) dig vars, block, trs + 1))"

definition buffer_to_block :: "bytes \<Rightarrow> u32 list" where
  "buffer_to_block buf =
     map (\<lambda>i. ucast (buf ! (4 * i + 3)) OR push_bit 8 (ucast (buf ! (4 * i + 2))) OR
              push_bit 16 (ucast (buf ! (4 * i + 1))) OR push_bit 24 (ucast (buf ! (4 * i + 0))))
         [0..<BLOCK_INTS]"

section \<open>The methods\<close>

text \<open>
  \<open>update(std::istream &)\<close>: \<open>is\<close> is what the stream still holds; \<open>read\<close> and \<open>gcount\<close> give at
  most \<open>BLOCK_BYTES - buffer.size()\<close> bytes of it.
\<close>

function sha1_update :: "sha1 \<Rightarrow> bytes \<Rightarrow> sha1" where
  "sha1_update s is =
     (let n = BLOCK_BYTES - length (buffer s);
          buf = buffer s @ take n is;
          s = s\<lparr>buffer := buf\<rparr>
      in if length buf \<noteq> BLOCK_BYTES then s
         else case sha1_transform (digest s) (buffer_to_block buf) (transforms s) of
           (dig, _, trs) \<Rightarrow>
             sha1_update \<lparr>digest = dig, buffer = [], transforms = trs\<rparr> (drop n is))"
  by pat_completeness auto
termination
  by (relation "measure (\<lambda>(s, is). length (buffer s) + length is)")
    (auto simp: BLOCK_BYTES_def BLOCK_INTS_def)

declare sha1_update.simps [simp del]

definition hex_u32 :: "u32 \<Rightarrow> bytes" where
  "hex_u32 w = map (\<lambda>k. hex_chars ! unat (drop_bit (4 * k) w AND 0xF)) [7, 6, 5, 4, 3, 2, 1, 0]"

text \<open>\<open>final\<close> returns the text and resets the object.\<close>

definition sha1_final :: "sha1 \<Rightarrow> bytes \<times> sha1" where
  "sha1_final s =
     (let total_bits = (transforms s * of_nat BLOCK_BYTES + of_nat (length (buffer s))) * 8;
          buf = buffer s @ [0x80];
          orig_size = length buf;
          buf = buf @ replicate (BLOCK_BYTES - orig_size) 0;
          block = buffer_to_block buf;
          (dig, block, trs) =
            (if orig_size > BLOCK_BYTES - 8
             then (case sha1_transform (digest s) block (transforms s) of
                     (dig, block, trs) \<Rightarrow> (dig, replicate (BLOCK_INTS - 2) 0 @ drop (BLOCK_INTS - 2) block, trs))
             else (digest s, block, transforms s));
          block = block[BLOCK_INTS - 1 := ucast total_bits];
          block = block[BLOCK_INTS - 2 := ucast (drop_bit 32 total_bits)];
          (dig, block, trs) = sha1_transform dig block trs
      in (concat (map hex_u32 dig), sha1_reset))"

text \<open>How the session uses it: \<open>SHA1 sha1; sha1.update(s); sha1.final()\<close>.\<close>

definition sha1_hex :: "bytes \<Rightarrow> bytes" where
  "sha1_hex s = fst (sha1_final (sha1_update sha1_reset s))"

section \<open>The specification: FIPS 180-4\<close>

text \<open>The message schedule, the round functions and constants, and one step of the variables.\<close>

fun fips_W :: "u32 list \<Rightarrow> nat \<Rightarrow> u32" where
  "fips_W M t =
     (if t < 16 then M ! t
      else rol (fips_W M (t - 3) XOR fips_W M (t - 8) XOR fips_W M (t - 14) XOR fips_W M (t - 16)) 1)"

declare fips_W.simps [simp del]

definition fips_f :: "nat \<Rightarrow> u32 \<Rightarrow> u32 \<Rightarrow> u32 \<Rightarrow> u32" where
  "fips_f t x y z =
     (if t < 20 then (x AND y) XOR (NOT x AND z)
      else if t < 40 then x XOR y XOR z
      else if t < 60 then (x AND y) XOR (x AND z) XOR (y AND z)
      else x XOR y XOR z)"

definition fips_K :: "nat \<Rightarrow> u32" where
  "fips_K t =
     (if t < 20 then 0x5a827999 else if t < 40 then 0x6ed9eba1
      else if t < 60 then 0x8f1bbcdc else 0xca62c1d6)"

definition fips_step :: "u32 list \<Rightarrow> nat \<Rightarrow> u32 list \<Rightarrow> u32 list" where
  "fips_step M t s =
     [rol (s ! 0) 5 + fips_f t (s ! 1) (s ! 2) (s ! 3) + s ! 4 + fips_K t + fips_W M t,
      s ! 0, rol (s ! 1) 30, s ! 2, s ! 3]"

definition fips_compress :: "u32 list \<Rightarrow> u32 list \<Rightarrow> u32 list" where
  "fips_compress H M = map2 (+) H (fold (fips_step M) [0..<80] H)"

text \<open>Sixteen big-endian words of a block of 64 bytes; padding; hashing block after block.\<close>

definition fips_words :: "bytes \<Rightarrow> u32 list" where
  "fips_words bs = map (\<lambda>i. object_word BigEndian (slice (4 * i) 4 bs)) [0..<16]"

definition fips_pad :: "bytes \<Rightarrow> bytes" where
  "fips_pad m =
     m @ [0x80] @ replicate ((119 - length m mod 64) mod 64) 0 @
     object_bytes BigEndian 8 (of_nat (8 * length m) :: u64)"

fun fips_hash :: "u32 list \<Rightarrow> bytes \<Rightarrow> u32 list" where
  "fips_hash H m =
     (if length m < 64 then H else fips_hash (fips_compress H (fips_words (take 64 m))) (drop 64 m))"

declare fips_hash.simps [simp del]

definition fips_H0 :: "u32 list" where
  "fips_H0 = [0x67452301, 0xefcdab89, 0x98badcfe, 0x10325476, 0xc3d2e1f0]"

definition fips_sha1 :: "bytes \<Rightarrow> bytes" where
  "fips_sha1 m = concat (map (object_bytes BigEndian 4) (fips_hash fips_H0 (fips_pad m)))"

section \<open>The unrolled rounds compute the compression function\<close>

definition round_at :: "nat \<Rightarrow> sha1_round" where
  "round_at t = (if t < 16 then R0 else if t < 20 then R1 else if t < 40 then R2
     else if t < 60 then R3 else R4)"

definition order_at :: "nat \<Rightarrow> nat list" where
  "order_at t = map (\<lambda>k. (k + 4 * (t mod 5)) mod 5) [0, 1, 2, 3, 4]"

lemma transform_calls_regular:
  "transform_calls = map (\<lambda>t. (round_at t, order_at t, t mod 16)) [0..<80]"
  by code_simp

lemma ch_eq: "((w AND (x XOR y)) XOR y) = (w AND x) XOR (NOT w AND y :: u32)"
  by (rule bit_word_eqI) (auto simp: bit_simps)

lemma maj_eq: "(((w OR x) AND y) OR (w AND x)) = (w AND x) XOR (w AND y) XOR (x AND y :: u32)"
  by (rule bit_word_eqI) (auto simp: bit_simps)

definition block_at :: "nat \<Rightarrow> u32 list \<Rightarrow> u32 list" where
  "block_at t block = (if t < 16 then block else block[t mod 16 := blk block (t mod 16)])"

lemma round_fun_at:
  "sha1_round_fun (round_at t) block v w x y z (t mod 16) =
     (block_at t block, rol w 30,
      rol v 5 + fips_f t w x y + z + fips_K t + block_at t block ! (t mod 16))"
  by (simp add: round_at_def sha1_R0_def sha1_R1_def sha1_R2_def sha1_R3_def sha1_R4_def
      block_at_def fips_f_def fips_K_def Let_def ch_eq maj_eq add_ac)

text \<open>
  Before call \<open>t\<close> the circular block holds the sixteen schedule words up to \<open>max t 16\<close>, and
  the variables, read in the order of call \<open>t\<close>, are those of the specification.
\<close>

definition block_inv :: "u32 list \<Rightarrow> nat \<Rightarrow> u32 list \<Rightarrow> bool" where
  "block_inv M t block \<longleftrightarrow> length block = 16 \<and>
     (\<forall>k. max t 16 - 16 \<le> k \<longrightarrow> k < max t 16 \<longrightarrow> block ! (k mod 16) = fips_W M k)"

lemma block_inv_start: "length M = 16 \<Longrightarrow> block_inv M 0 M"
  by (simp add: block_inv_def fips_W.simps)

lemma mod16_apart: "k < t \<Longrightarrow> t < k + 16 \<Longrightarrow> k mod 16 \<noteq> t mod (16 :: nat)"
  using mod_eq_dvd_iff_nat [of k t 16] nat_dvd_not_less [of "t - k" 16] by auto

lemma block_inv_step:
  assumes "block_inv M t block"
  shows "block_inv M (Suc t) (block_at t block)" "block_at t block ! (t mod 16) = fips_W M t"
proof -
  have len: "length block = 16"
    and at: "\<And>k. max t 16 - 16 \<le> k \<Longrightarrow> k < max t 16 \<Longrightarrow> block ! (k mod 16) = fips_W M k"
    using assms by (auto simp: block_inv_def)
  have new: "blk block (t mod 16) = fips_W M t" if t: "16 \<le> t"
  proof -
    obtain s where s: "t = s + 16" using t by (metis add.commute le_iff_add)
    have e: "t - 3 = s + 13" "t - 8 = s + 8" "t - 14 = s + 2" "t - 16 = s" using s by simp_all
    have m: "(t mod 16 + 13) mod 16 = (t - 3) mod 16" "(t mod 16 + 8) mod 16 = (t - 8) mod 16"
      "(t mod 16 + 2) mod 16 = (t - 14) mod 16" "t mod 16 = (t - 16) mod 16"
      unfolding e by (simp_all only: s mod_add_self2 mod_add_left_eq)
    have w: "block ! ((t - 3) mod 16) = fips_W M (t - 3)" "block ! ((t - 8) mod 16) = fips_W M (t - 8)"
      "block ! ((t - 14) mod 16) = fips_W M (t - 14)" "block ! (t mod 16) = fips_W M (t - 16)"
      using t m(4) by (simp_all add: at)
    show ?thesis
      using t by (simp only: blk_def m(1-3) w fips_W.simps [of M t] not_less [symmetric] if_False)
  qed
  show *: "block_at t block ! (t mod 16) = fips_W M t"
    using len at [of t] new by (simp add: block_at_def)
  show "block_inv M (Suc t) (block_at t block)"
    unfolding block_inv_def
  proof (intro conjI allI impI)
    show "length (block_at t block) = 16" by (simp add: block_at_def len)
    fix k assume k: "max (Suc t) 16 - 16 \<le> k" "k < max (Suc t) 16"
    show "block_at t block ! (k mod 16) = fips_W M k"
    proof (cases "k = t")
      case True
      with * show ?thesis by simp
    next
      case False
      have "k mod 16 \<noteq> t mod 16" if "16 \<le> t"
        using k that False by (intro mod16_apart) auto
      then show ?thesis using k at [of k] False by (auto simp: block_at_def le_max_iff_disj)
    qed
  qed
qed


text \<open>The working variables.\<close>

definition vars_inv :: "u32 list \<Rightarrow> u32 list \<Rightarrow> nat \<Rightarrow> u32 list \<Rightarrow> bool" where
  "vars_inv M H t vars \<longleftrightarrow> length vars = 5 \<and>
     map (\<lambda>k. vars ! k) (order_at t) = fold (fips_step M) [0..<t] H"

lemma list5: "length xs = 5 \<Longrightarrow> \<exists>a b c d e. xs = [a, b, c, d, e]"
  by (auto simp: length_Suc_conv eval_nat_numeral)

lemma order_at_cases:
  "order_at t = abcde \<and> order_at (Suc t) = eabcd \<or> order_at t = eabcd \<and> order_at (Suc t) = deabc \<or>
   order_at t = deabc \<and> order_at (Suc t) = cdeab \<or> order_at t = cdeab \<and> order_at (Suc t) = bcdea \<or>
   order_at t = bcdea \<and> order_at (Suc t) = abcde"
proof -
  have o: "order_at t = order_at (t mod 5)" for t
    by (simp add: order_at_def)
  have s: "order_at (Suc t) = order_at (Suc (t mod 5) mod 5)"
    unfolding mod_Suc_eq by (rule o)
  have "t mod 5 < 5" by simp
  then consider "t mod 5 = 0" | "t mod 5 = 1" | "t mod 5 = 2" | "t mod 5 = 3" | "t mod 5 = 4"
    by linarith
  then show ?thesis
    unfolding s o [of t]
    by cases (simp_all add: order_at_def abcde_def eabcd_def deabc_def cdeab_def bcdea_def)
qed

lemma transform_call_step:
  assumes "block_inv M t block" and v: "vars_inv M H t vars"
    and "transform_call (block, vars) (round_at t, order_at t, t mod 16) = (block', vars')"
  shows "block_inv M (Suc t) block' \<and> vars_inv M H (Suc t) vars'"
proof -
  note b = block_inv_step [OF assms(1)]
  obtain a b c d e where vars: "vars = [a, b, c, d, e]"
    using v list5 [of vars] by (auto simp: vars_inv_def)
  have f: "fold (fips_step M) [0..<Suc t] H = fips_step M t (map ((!) vars) (order_at t))"
    using v by (simp add: vars_inv_def)
  have c: "transform_call (block, vars) (round_at t, order_at t, t mod 16) =
      (block_at t block, vars[order_at t ! 1 := rol (vars ! (order_at t ! 1)) 30,
         order_at t ! 4 := rol (vars ! (order_at t ! 0)) 5 +
           fips_f t (vars ! (order_at t ! 1)) (vars ! (order_at t ! 2)) (vars ! (order_at t ! 3)) +
           vars ! (order_at t ! 4) + fips_K t + fips_W M t])"
    by (simp add: transform_call_def round_fun_at b(2))
  then have v': "vars' = vars[order_at t ! 1 := rol (vars ! (order_at t ! 1)) 30,
         order_at t ! 4 := rol (vars ! (order_at t ! 0)) 5 +
           fips_f t (vars ! (order_at t ! 1)) (vars ! (order_at t ! 2)) (vars ! (order_at t ! 3)) +
           vars ! (order_at t ! 4) + fips_K t + fips_W M t]"
    using assms(3) by simp
  have "vars_inv M H (Suc t) vars'"
    using order_at_cases [of t] unfolding v' vars_inv_def f
    by (elim disjE conjE)
      (simp_all add: vars fips_step_def abcde_def eabcd_def deabc_def cdeab_def bcdea_def)
  then show ?thesis using b assms(3) unfolding c by simp
qed


lemma transform_calls_inv:
  assumes "length M = 16" and "length H = 5"
    and "foldl transform_call (M, H) (map (\<lambda>t. (round_at t, order_at t, t mod 16)) [0..<n]) = (block, vars)"
  shows "block_inv M n block \<and> vars_inv M H n vars"
  using assms(3)
proof (induction n arbitrary: block vars)
  case 0
  obtain a b c d e where "H = [a, b, c, d, e]" using assms(2) list5 [of H] by auto
  with 0 show ?case
    using block_inv_start [OF assms(1)] by (auto simp: vars_inv_def order_at_def)
next
  case (Suc n)
  obtain b v where bv: "foldl transform_call (M, H) (map (\<lambda>t. (round_at t, order_at t, t mod 16)) [0..<n]) = (b, v)"
    by fastforce
  with Suc.prems have "transform_call (b, v) (round_at n, order_at n, n mod 16) = (block, vars)" by simp
  with Suc.IH [OF bv] show ?case using transform_call_step by blast
qed

text \<open>One call of \<open>transform\<close> is one application of the compression function.\<close>

lemma sha1_transform_eq:
  assumes "length M = 16" and "length H = 5"
  obtains block where "sha1_transform H M trs = (fips_compress H M, block, trs + 1)" "length block = 16"
proof -
  obtain block vars where bv: "foldl transform_call (M, H) transform_calls = (block, vars)" by fastforce
  then have i: "block_inv M 80 block" "vars_inv M H 80 vars"
    using transform_calls_inv [OF assms, of 80] by (simp_all add: transform_calls_regular)
  obtain a b c d e where "vars = [a, b, c, d, e]"
    using i(2) list5 [of vars] by (auto simp: vars_inv_def)
  moreover have "order_at 80 = [0, 1, 2, 3, 4]" by (simp add: order_at_def)
  ultimately have "vars = fold (fips_step M) [0..<80] H" using i(2) by (simp add: vars_inv_def)
  with bv i(1) show thesis
    by (intro that [of block]) (simp_all add: sha1_transform_def fips_compress_def block_inv_def)
qed

lemma length_fips_compress: "length H = 5 \<Longrightarrow> length (fips_compress H M) = 5"
proof -
  have "length s = 5 \<Longrightarrow> length (fold (fips_step M) ts s) = 5" for ts s
    by (induction ts arbitrary: s) (simp_all add: fips_step_def)
  then show "length H = 5 \<Longrightarrow> ?thesis" by (simp add: fips_compress_def)
qed

section \<open>Blocks, buffering and padding\<close>

lemma slice4:
  assumes "a + 4 \<le> length xs"
  shows "slice a 4 xs = [xs ! a, xs ! (a + 1), xs ! (a + 2), xs ! (a + 3)]"
proof (rule nth_equalityI)
  fix i assume "i < length (slice a 4 xs)"
  then have "i < 4" using assms by simp
  then consider "i = 0" | "i = 1" | "i = 2" | "i = 3" by linarith
  then show "slice a 4 xs ! i = [xs ! a, xs ! (a + 1), xs ! (a + 2), xs ! (a + 3)] ! i"
    using assms by cases (simp_all add: nth_slice)
qed (use assms in simp)

lemma buffer_to_block_eq: "length buf = 64 \<Longrightarrow> buffer_to_block buf = fips_words buf"
proof -
  assume l: "length buf = 64"
  have "ucast (buf ! (4 * i + 3)) OR push_bit 8 (ucast (buf ! (4 * i + 2))) OR
      push_bit 16 (ucast (buf ! (4 * i + 1))) OR push_bit 24 (ucast (buf ! (4 * i + 0))) =
      (object_word BigEndian (slice (4 * i) 4 buf) :: u32)" if "i < 16" for i
  proof -
    have "4 * i + 4 \<le> length buf" using that l by simp
    from slice4 [OF this] show ?thesis
      by (simp add: object_word_def push_bit_or or.assoc)
  qed
  then show ?thesis by (simp add: buffer_to_block_def fips_words_def BLOCK_INTS_def)
qed

lemma length_fips_words [simp]: "length (fips_words bs) = 16"
  by (simp add: fips_words_def)

lemma length_buffer_to_block [simp]: "length (buffer_to_block buf) = 16"
  by (simp add: buffer_to_block_def BLOCK_INTS_def)

text \<open>
  What an object has absorbed: \<open>m\<close>, hashed from the initial value up to its last full block,
  the rest in the buffer.
\<close>

definition absorbed :: "sha1 \<Rightarrow> bytes \<Rightarrow> bool" where
  "absorbed s m \<longleftrightarrow> length (buffer s) < 64 \<and> length (digest s) = 5 \<and>
     (\<exists>pre. m = pre @ buffer s \<and> 64 dvd length pre \<and> digest s = fips_hash fips_H0 pre \<and>
       transforms s = of_nat (length pre div 64))"


lemma absorbed_reset: "absorbed sha1_reset []"
  by (simp add: absorbed_def sha1_reset_def fips_hash.simps fips_H0_def)

lemma length_fips_hash: "length H = 5 \<Longrightarrow> length (fips_hash H m) = 5"
  by (induction H m rule: fips_hash.induct) (subst fips_hash.simps, simp add: length_fips_compress)

lemma fips_hash_append:
  assumes "64 dvd length pre"
  shows "fips_hash H (pre @ m) = fips_hash (fips_hash H pre) m"
  using assms
proof (induction H pre rule: fips_hash.induct)
  case (1 H pre)
  show ?case
  proof (cases "length pre < 64")
    case True
    then have "pre = []" using "1.prems" nat_dvd_not_less by auto
    then show ?thesis by (simp add: fips_hash.simps [of H "[]"])
  next
    case False
    moreover have "64 dvd length (drop 64 pre)" using "1.prems" False by (auto intro: dvd_diff_nat)
    ultimately show ?thesis
      using "1.IH" by (subst fips_hash.simps) (simp add: fips_hash.simps [of H pre])
  qed
qed

lemma fips_hash_block:
  "length b = 64 \<Longrightarrow> fips_hash H b = fips_compress H (fips_words b)"
  by (simp add: fips_hash.simps [of H b] fips_hash.simps [of _ "[]"])

lemma absorbed_update: "absorbed s m \<Longrightarrow> absorbed (sha1_update s d) (m @ d)"
proof (induction "length d" arbitrary: s d m rule: less_induct)
  case (less d s m)
  let ?n = "64 - length (buffer s)"
  let ?buf = "buffer s @ take ?n d"
  obtain pre where a: "length (buffer s) < 64" "length (digest s) = 5" "m = pre @ buffer s"
      "64 dvd length pre" "digest s = fips_hash fips_H0 pre" "transforms s = of_nat (length pre div 64)"
    using less.prems by (auto simp: absorbed_def)
  show ?case
  proof (cases "length ?buf = 64")
    case False
    then have "length d < ?n" using a(1) by (auto simp: min_def split: if_splits)
    with False a show ?thesis
      by (subst sha1_update.simps) (auto simp: absorbed_def BLOCK_BYTES_def BLOCK_INTS_def)
  next
    case True
    obtain block where t: "sha1_transform (digest s) (buffer_to_block ?buf) (transforms s) =
        (fips_compress (digest s) (buffer_to_block ?buf), block, transforms s + 1)"
      by (rule sha1_transform_eq [OF length_buffer_to_block a(2)])
    let ?s = "\<lparr>digest = fips_compress (digest s) (buffer_to_block ?buf), buffer = [], transforms = transforms s + 1\<rparr>"
    have u: "sha1_update s d = sha1_update ?s (drop ?n d)"
      using True by (subst sha1_update.simps) (simp add: BLOCK_BYTES_def BLOCK_INTS_def t Let_def)
    have "digest ?s = fips_hash fips_H0 (pre @ ?buf)"
      using True a(4,5) by (simp add: fips_hash_append fips_hash_block buffer_to_block_eq)
    moreover have "length (pre @ ?buf) = length pre + 64" using True by simp
    moreover have "(length pre + 64) div 64 = length pre div 64 + 1" by simp
    ultimately have "absorbed ?s (pre @ ?buf)"
      using a(2,4,6) by (simp add: absorbed_def length_fips_hash fips_H0_def)
    then have "absorbed (sha1_update ?s (drop ?n d)) ((pre @ ?buf) @ drop ?n d)"
      using True a(1) by (intro less.hyps) auto
    then show ?thesis by (simp add: u a(3))
  qed
qed


lemma le_word_low: "le_word (le_bytes 4 (w :: u64)) = (ucast w :: u32)"
  by (rule bit_word_eqI)
    (auto simp: bit_le_word nth_le_bytes bit_unsigned_iff bit_drop_bit_eq)

lemma le_bytes_add: "le_bytes (m + n) w = le_bytes m w @ le_bytes n (drop_bit (8 * m) w)"
  by (induction m arbitrary: w) (simp_all add: add.commute)

lemma final_words:
  assumes "length x = 56"
  shows "fips_words (x @ object_bytes BigEndian 8 w) =
    (take 14 (fips_words (x @ y))) @ [ucast (drop_bit 32 w), ucast (w :: u64)]"
proof (rule nth_equalityI)
  show "length (fips_words (x @ object_bytes BigEndian 8 w)) =
      length (take 14 (fips_words (x @ y)) @ [ucast (drop_bit 32 w), ucast w :: u32])"
    by (simp add: fips_words_def)
  have o: "object_bytes BigEndian 8 w = rev (le_bytes 4 (drop_bit 32 w)) @ rev (le_bytes 4 w)"
    using le_bytes_add [of 4 4 w] by (simp add: object_bytes_def)
  fix i assume "i < length (fips_words (x @ object_bytes BigEndian 8 w))"
  then have "i < 16" by (simp add: fips_words_def)
  then consider "i < 14" | "i = 14" | "i = 15" by linarith
  then show "fips_words (x @ object_bytes BigEndian 8 w) ! i =
      (take 14 (fips_words (x @ y)) @ [ucast (drop_bit 32 w), ucast w]) ! i"
  proof cases
    case 1
    then have "slice (4 * i) 4 (x @ z) = slice (4 * i) 4 x" for z
      using assms by (simp add: slice_def)
    with 1 show ?thesis by (simp add: fips_words_def nth_append)
  qed (simp_all add: fips_words_def nth_append o assms slice_def object_word_def le_word_low)
qed

lemma hex_byte_ucast:
  "hex_byte (ucast (drop_bit n (w :: u32))) =
     [hex_chars ! unat (drop_bit (n + 4) w AND 0xF), hex_chars ! unat (drop_bit n w AND 0xF)]"
proof -
  have m: "x mod 256 div 16 = x div 16 mod 16" "x mod 256 mod 16 = x mod 16" for x :: nat
    using mod_mult2_eq [of x 16 16] by simp_all
  have a: "unat (x AND 0xF :: u32) = unat x mod 16" for x
  proof -
    have "x AND 0xF = take_bit 4 x" by (simp add: take_bit_eq_mask mask_eq_exp_minus_1)
    then show ?thesis by (simp only: unsigned_take_bit_eq) (simp add: take_bit_eq_mod)
  qed
  have "unat (ucast (drop_bit n w) :: byte) = unat (drop_bit n w) mod 256"
    by (simp add: unsigned_ucast_eq take_bit_eq_mod)
  moreover have "unat (drop_bit (n + 4) w) = unat (drop_bit n w) div 16"
    by (simp add: unat_drop_bit power_add div_mult2_eq)
  ultimately show ?thesis by (simp only: hex_byte_def a m)
qed

lemma hex_u32_eq: "hex_u32 w = hex_string (object_bytes BigEndian 4 w)"
proof -
  have "object_bytes BigEndian 4 w =
      [ucast (drop_bit 24 w), ucast (drop_bit 16 w), ucast (drop_bit 8 w), ucast (drop_bit 0 w)]"
    by (simp add: object_bytes_def le_bytes_numeral)
  then show ?thesis by (simp add: hex_byte_ucast hex_u32_def del: drop_bit_0)
qed

lemma hex_digest: "concat (map hex_u32 ws) = hex_string (concat (map (object_bytes BigEndian 4) ws))"
  by (induction ws) (simp_all add: hex_u32_eq hex_string_def)

text \<open>The two cases of \<open>final\<close>: the length fits the last block, or needs a block of its own.\<close>

lemma fips_hash_two_blocks:
  "length b = 64 \<Longrightarrow> length b' = 64 \<Longrightarrow>
     fips_hash H (b @ b') = fips_compress (fips_compress H (fips_words b)) (fips_words b')"
  using fips_hash_append [of b H b'] by (simp add: fips_hash_block)


lemma final_block:
  assumes "length x = 56" and "length r = 2"
  shows "(take 14 (fips_words (x @ y)) @ r)[BLOCK_INTS - 1 := ucast w, BLOCK_INTS - 2 := ucast (drop_bit 32 w)] =
    fips_words (x @ object_bytes BigEndian 8 (w :: u64))"
proof -
  obtain p q where r: "r = [p, q]" using assms(2) by (auto simp: length_Suc_conv numeral_2_eq_2)
  have "length (take 14 (fips_words (x @ y))) = 14" by (simp add: fips_words_def)
  then show ?thesis
    by (simp add: BLOCK_INTS_def list_update_append final_words [OF assms(1), of w y] r)
qed

lemma words_split: "length b = 64 \<Longrightarrow> fips_words b = take 14 (fips_words b) @ drop 14 (fips_words b)"
  by simp

lemma zero_words: "take 14 (fips_words (replicate 56 0 @ replicate 8 0)) = replicate 14 0"
  by code_simp

lemma sha1_final_absorbed:
  assumes "absorbed s m"
  shows "fst (sha1_final s) = hex_string (fips_sha1 m)"
proof -
  let ?l = "length (buffer s)"
  obtain pre where a: "?l < 64" "length (digest s) = 5" "m = pre @ buffer s" "64 dvd length pre"
      "digest s = fips_hash fips_H0 pre" "transforms s = of_nat (length pre div 64)"
    using assms by (auto simp: absorbed_def)
  obtain k where k: "length pre = 64 * k" using a(4) by auto
  let ?w = "of_nat (8 * length m) :: u64"
  have total: "(transforms s * of_nat BLOCK_BYTES + of_nat ?l) * 8 = ?w"
    by (simp add: a(3,6) k BLOCK_BYTES_def BLOCK_INTS_def algebra_simps)
  let ?buf = "(buffer s @ [0x80]) @ replicate (63 - ?l) 0"
  have lb: "length ?buf = 64" using a(1) by simp
  have bb: "buffer_to_block ?buf = fips_words ?buf" by (rule buffer_to_block_eq [OF lb])
  have lm: "length m mod 64 = ?l" using a(1) by (simp add: a(3) k)
  have pad: "fips_pad m = pre @ buffer s @ [0x80] @ replicate ((119 - ?l) mod 64) 0 @
      object_bytes BigEndian 8 ?w"
    unfolding fips_pad_def lm by (simp add: a(3))
  have hash: "fips_hash fips_H0 (pre @ t) = fips_hash (digest s) t" for t
    by (simp add: fips_hash_append [OF a(4)] a(5))
  have small: "BLOCK_BYTES - length (buffer s @ [0x80]) = 63 - ?l"
    by (simp add: BLOCK_BYTES_def BLOCK_INTS_def)
  show ?thesis
  proof (cases "?l < 56")
    case True
    let ?x = "buffer s @ [0x80] @ replicate (55 - ?l) 0"
    have x: "length ?x = 56" using True by simp
    have split: "?buf = ?x @ replicate 8 0"
      using True by (simp flip: replicate_add)
    have "(119 - ?l) mod 64 = 55 - ?l" using True by (simp add: mod_if)
    then have p: "fips_pad m = pre @ (?x @ object_bytes BigEndian 8 ?w)" by (simp add: pad)
    have "(fips_words ?buf)[BLOCK_INTS - 1 := ucast ?w, BLOCK_INTS - 2 := ucast (drop_bit 32 ?w)] =
        fips_words (?x @ object_bytes BigEndian 8 ?w)"
      using final_block [OF x, of "drop 14 (fips_words ?buf)" "replicate 8 0" ?w]
      unfolding append_take_drop_id split [symmetric]
      by (simp add: fips_words_def)
    moreover obtain bl where "sha1_transform (digest s) (fips_words (?x @ object_bytes BigEndian 8 ?w)) (transforms s) =
        (fips_compress (digest s) (fips_words (?x @ object_bytes BigEndian 8 ?w)), bl, transforms s + 1)"
      by (rule sha1_transform_eq [OF length_fips_words a(2)])
    moreover have "fips_hash fips_H0 (fips_pad m) =
        fips_compress (digest s) (fips_words (?x @ object_bytes BigEndian 8 ?w))"
      unfolding p hash by (rule trans [OF _ fips_hash_block [of "?x @ object_bytes BigEndian 8 ?w"]])
        (use x in simp_all)
    ultimately show ?thesis
      using True unfolding sha1_final_def total small bb Let_def
      by (simp add: BLOCK_BYTES_def BLOCK_INTS_def hex_digest fips_sha1_def)
  next
    case False
    let ?z = "replicate 56 0 :: bytes"
    have ml: "(119 - ?l) mod 64 = (63 - ?l) + 56" using a(1) False by simp
    have p: "fips_pad m = pre @ ?buf @ ?z @ object_bytes BigEndian 8 ?w"
      unfolding pad ml replicate_add by simp
    let ?H = "fips_compress (digest s) (fips_words ?buf)"
    have H: "length ?H = 5" using a(2) by (rule length_fips_compress)
    obtain bl where t1: "sha1_transform (digest s) (fips_words ?buf) (transforms s) =
        (?H, bl, transforms s + 1)" "length bl = 16"
      by (rule sha1_transform_eq [OF length_fips_words a(2)])
    have z: "(replicate 14 0 @ drop 14 bl)[BLOCK_INTS - 1 := ucast ?w, BLOCK_INTS - 2 := ucast (drop_bit 32 ?w)] =
        fips_words (?z @ object_bytes BigEndian 8 ?w)"
      using final_block [of ?z "drop 14 bl" "replicate 8 0" ?w] t1(2)
      by (simp add: zero_words)
    obtain bl' where t2: "sha1_transform ?H (fips_words (?z @ object_bytes BigEndian 8 ?w)) (transforms s + 1) =
        (fips_compress ?H (fips_words (?z @ object_bytes BigEndian 8 ?w)), bl', transforms s + 1 + 1)"
      by (rule sha1_transform_eq [OF length_fips_words H])
    have "fips_hash fips_H0 (fips_pad m) = fips_compress ?H (fips_words (?z @ object_bytes BigEndian 8 ?w))"
      unfolding p hash by (rule fips_hash_two_blocks [OF lb]) simp
    then show ?thesis
      using False z t1(1) t2 unfolding sha1_final_def total small bb Let_def
      by (simp add: BLOCK_BYTES_def BLOCK_INTS_def hex_digest fips_sha1_def)
  qed
qed


lemma sha1_hex_eq: "sha1_hex m = hex_string (fips_sha1 m)"
proof -
  have "absorbed (sha1_update sha1_reset m) ([] @ m)"
    by (rule absorbed_update [OF absorbed_reset])
  then show ?thesis by (simp add: sha1_hex_def sha1_final_absorbed)
qed

lemma length_fips_sha1: "length (fips_sha1 m) = 20"
proof -
  have "length (concat (map (object_bytes BigEndian 4) ws)) = 4 * length ws" for ws :: "u32 list"
    by (induction ws) simp_all
  then show ?thesis by (simp add: fips_sha1_def length_fips_hash fips_H0_def)
qed

section \<open>Properties\<close>

text \<open>
  (C19) The routine is SHA-1: for every message the hexadecimal text \<open>final\<close> returns after
  \<open>update\<close> is that of the digest FIPS 180-4 defines (schedule of eighty words, rotation of the
  five variables, padding with the bit length modulo \<open>2 ^ 64\<close>).
\<close>

theorem sha1_hex_correct: "sha1_hex m = hex_string (fips_sha1 m)"
  by (rule sha1_hex_eq)

text \<open>
  Hashing is incremental: however a message is cut into calls of \<open>update\<close>, the digest is
  that of the whole message, and \<open>final\<close> leaves a fresh object.
\<close>

theorem sha1_incremental:
  "fst (sha1_final (foldl sha1_update sha1_reset ds)) = sha1_hex (concat ds) \<and>
   snd (sha1_final (foldl sha1_update sha1_reset ds)) = sha1_reset"
proof
  have "absorbed (foldl sha1_update s ds) (m @ concat ds)" if "absorbed s m" for s m
    using that
  proof (induction ds arbitrary: s m)
    case (Cons d ds)
    from Cons.IH [OF absorbed_update [OF Cons.prems, of d]] show ?case by simp
  qed simp
  from this [OF absorbed_reset] show
    "fst (sha1_final (foldl sha1_update sha1_reset ds)) = sha1_hex (concat ds)"
    using absorbed_update [OF absorbed_reset, of "concat ds"]
    by (simp add: sha1_final_absorbed sha1_hex_def)
  show "snd (sha1_final (foldl sha1_update sha1_reset ds)) = sha1_reset"
    by (simp add: sha1_final_def Let_def split: prod.split)
qed

end
