(* ===== verification/PaTypes.thy ===== *)
theory PaTypes
  imports Prelude Complex_Main
begin

text \<open>
  The data of PortAudio's common code (\<open>src/external/portaudio/include/portaudio.h\<close>,
  \<open>src/common/pa_hostapi.h\<close>, \<open>pa_stream.h\<close>, \<open>pa_stream.c\<close>): error codes, sample formats, device
  and host API records, and the stream representation that the front end keeps on the heap.

  A pointer to a stream is a number, \<open>None\<close> is the null pointer. \<open>streams\<close> is the heap: a pointer
  outside its domain is dangling, and dereferencing it is undefined behaviour. A host API reaches
  the front end as function pointers; they act on the \<open>world\<close>, the heap together with the state
  \<open>'d\<close> of the drivers. A function pointer in a stream representation is an index into the table
  of interfaces, which the operations get as the argument \<open>I\<close>.
\<close>

section \<open>Numbers and constants\<close>

type_synonym ptr = nat

text \<open>A \<open>double\<close> that is not a NaN or an infinity is a rational number.\<close>

datatype f64 = NaN | PosInf | NegInf | Fin rat

fun f64_less :: "f64 \<Rightarrow> f64 \<Rightarrow> bool" where
  "f64_less (Fin x) (Fin y) = (x < y)"
| "f64_less NegInf (Fin y) = True"
| "f64_less (Fin x) PosInf = True"
| "f64_less NegInf PosInf = True"
| "f64_less _ _ = False"

text \<open>Conversion to \<open>int\<close>, which is taken modulo \<open>2 ^ 32\<close>.\<close>

definition to_int32 :: "int \<Rightarrow> int" where
  "to_int32 x = sint (word_of_int x :: i32)"

lemma to_int32_id: "- (2 ^ 31) \<le> x \<Longrightarrow> x < 2 ^ 31 \<Longrightarrow> to_int32 x = x"
  by (simp add: to_int32_def sint_sbintrunc' signed_take_bit_int_eq_self)

text \<open>The result of a computation with loops that may not end: \<open>None\<close> is a call that does not return.\<close>

type_synonym 'a comp = "'a result option"

definition bind_c :: "'a comp \<Rightarrow> ('a \<Rightarrow> 'b comp) \<Rightarrow> 'b comp" where
  "bind_c m f = (case m of None \<Rightarrow> None | Some (Inl e) \<Rightarrow> Some (Inl e) | Some (Inr x) \<Rightarrow> f x)"

lemma bind_c_simps [simp]:
  "bind_c None f = None"
  "bind_c (Some (Inl e)) f = Some (Inl e)"
  "bind_c (Some (Inr x)) f = f x"
  by (simp_all add: bind_c_def)

text \<open>\<open>PaErrorCode\<close>: the codes count up from \<open>paNotInitialized\<close>.\<close>

datatype pa_error_code =
    paNoError | paNotInitialized | paUnanticipatedHostError | paInvalidChannelCount
  | paInvalidSampleRate | paInvalidDevice | paInvalidFlag | paSampleFormatNotSupported
  | paBadIODeviceCombination | paInsufficientMemory | paBufferTooBig | paBufferTooSmall
  | paNullCallback | paBadStreamPtr | paTimedOut | paInternalError | paDeviceUnavailable
  | paIncompatibleHostApiSpecificStreamInfo | paStreamIsStopped | paStreamIsNotStopped
  | paInputOverflowed | paOutputUnderflowed | paHostApiNotFound | paInvalidHostApi
  | paCanNotReadFromACallbackStream | paCanNotWriteToACallbackStream
  | paCanNotReadFromAnOutputOnlyStream | paCanNotWriteToAnInputOnlyStream
  | paIncompatibleStreamHostApi | paBadBufferPtr

primrec err :: "pa_error_code \<Rightarrow> int" where
  "err paNoError = 0"
| "err paNotInitialized = -10000"
| "err paUnanticipatedHostError = -9999"
| "err paInvalidChannelCount = -9998"
| "err paInvalidSampleRate = -9997"
| "err paInvalidDevice = -9996"
| "err paInvalidFlag = -9995"
| "err paSampleFormatNotSupported = -9994"
| "err paBadIODeviceCombination = -9993"
| "err paInsufficientMemory = -9992"
| "err paBufferTooBig = -9991"
| "err paBufferTooSmall = -9990"
| "err paNullCallback = -9989"
| "err paBadStreamPtr = -9988"
| "err paTimedOut = -9987"
| "err paInternalError = -9986"
| "err paDeviceUnavailable = -9985"
| "err paIncompatibleHostApiSpecificStreamInfo = -9984"
| "err paStreamIsStopped = -9983"
| "err paStreamIsNotStopped = -9982"
| "err paInputOverflowed = -9981"
| "err paOutputUnderflowed = -9980"
| "err paHostApiNotFound = -9979"
| "err paInvalidHostApi = -9978"
| "err paCanNotReadFromACallbackStream = -9977"
| "err paCanNotWriteToACallbackStream = -9976"
| "err paCanNotReadFromAnOutputOnlyStream = -9975"
| "err paCanNotWriteToAnInputOnlyStream = -9974"
| "err paIncompatibleStreamHostApi = -9973"
| "err paBadBufferPtr = -9972"

type_synonym sample_format = u64

abbreviation paFloat32 :: sample_format where "paFloat32 \<equiv> 0x00000001"
abbreviation paInt32 :: sample_format where "paInt32 \<equiv> 0x00000002"
abbreviation paInt24 :: sample_format where "paInt24 \<equiv> 0x00000004"
abbreviation paInt16 :: sample_format where "paInt16 \<equiv> 0x00000008"
abbreviation paInt8 :: sample_format where "paInt8 \<equiv> 0x00000010"
abbreviation paUInt8 :: sample_format where "paUInt8 \<equiv> 0x00000020"
abbreviation paCustomFormat :: sample_format where "paCustomFormat \<equiv> 0x00010000"
abbreviation paNonInterleaved :: sample_format where "paNonInterleaved \<equiv> 0x80000000"

abbreviation paNoDevice :: int where "paNoDevice \<equiv> -1"
abbreviation paUseHostApiSpecificDeviceSpecification :: int where
  "paUseHostApiSpecificDeviceSpecification \<equiv> -2"

abbreviation paNoFlag :: u64 where "paNoFlag \<equiv> 0"
abbreviation paClipOff :: u64 where "paClipOff \<equiv> 0x00000001"
abbreviation paDitherOff :: u64 where "paDitherOff \<equiv> 0x00000002"
abbreviation paNeverDropInput :: u64 where "paNeverDropInput \<equiv> 0x00000004"
abbreviation paPrimeOutputBuffersUsingStreamCallback :: u64 where
  "paPrimeOutputBuffersUsingStreamCallback \<equiv> 0x00000008"
abbreviation paPlatformSpecificFlags :: u64 where "paPlatformSpecificFlags \<equiv> 0xFFFF0000"

section \<open>Streams\<close>

record stream_rep =
  magic :: u64
  nextOpenStream :: "ptr option"
  streamInterface :: nat
  streamCallback :: "nat option"
  streamFinishedCallback :: "nat option"
  userData :: nat
  inputLatency :: f64
  outputLatency :: f64
  streamSampleRate :: f64

definition PA_STREAM_MAGIC :: u64 where
  "PA_STREAM_MAGIC = 0x18273645"

record 'd world =
  streams :: "ptr \<Rightarrow> stream_rep option"
  driver :: 'd

type_synonym ('a, 'd) host_call = "'d world \<Rightarrow> ('a \<times> 'd world) result"

record 'd stream_interface =
  Close :: "ptr \<Rightarrow> (int, 'd) host_call"
  Start :: "ptr \<Rightarrow> (int, 'd) host_call"
  Stop :: "ptr \<Rightarrow> (int, 'd) host_call"
  Abort :: "ptr \<Rightarrow> (int, 'd) host_call"
  IsStopped :: "ptr \<Rightarrow> (int, 'd) host_call"
  IsActive :: "ptr \<Rightarrow> (int, 'd) host_call"
  GetTime :: "ptr \<Rightarrow> (f64, 'd) host_call"
  GetCpuLoad :: "ptr \<Rightarrow> (f64, 'd) host_call"
  Read :: "ptr \<Rightarrow> ptr option \<Rightarrow> u64 \<Rightarrow> (int, 'd) host_call"
  Write :: "ptr \<Rightarrow> ptr option \<Rightarrow> u64 \<Rightarrow> (int, 'd) host_call"
  GetReadAvailable :: "ptr \<Rightarrow> (int, 'd) host_call"
  GetWriteAvailable :: "ptr \<Rightarrow> (int, 'd) host_call"

text \<open>\<open>pa_stream.c\<close>.\<close>

definition PaUtil_InitializeStreamInterface where
  "PaUtil_InitializeStreamInterface close start stop abort isStopped isActive getTime getCpuLoad
     readf writef getReadAvailable getWriteAvailable =
     \<lparr>Close = close, Start = start, Stop = stop, Abort = abort, IsStopped = isStopped,
      IsActive = isActive, GetTime = getTime, GetCpuLoad = getCpuLoad, Read = readf, Write = writef,
      GetReadAvailable = getReadAvailable, GetWriteAvailable = getWriteAvailable\<rparr>"

definition PaUtil_InitializeStreamRepresentation ::
  "nat \<Rightarrow> nat option \<Rightarrow> nat \<Rightarrow> stream_rep" where
  "PaUtil_InitializeStreamRepresentation iface callback ud =
     \<lparr>magic = PA_STREAM_MAGIC, nextOpenStream = None, streamInterface = iface,
      streamCallback = callback, streamFinishedCallback = None, userData = ud,
      inputLatency = Fin 0, outputLatency = Fin 0, streamSampleRate = Fin 0\<rparr>"

definition PaUtil_TerminateStreamRepresentation :: "stream_rep \<Rightarrow> stream_rep" where
  "PaUtil_TerminateStreamRepresentation rep = rep\<lparr>magic := 0\<rparr>"

definition PaUtil_DummyRead :: "ptr \<Rightarrow> ptr option \<Rightarrow> u64 \<Rightarrow> (int, 'd) host_call" where
  "PaUtil_DummyRead stream buffer frames w = Inr (err paCanNotReadFromACallbackStream, w)"

definition PaUtil_DummyWrite :: "ptr \<Rightarrow> ptr option \<Rightarrow> u64 \<Rightarrow> (int, 'd) host_call" where
  "PaUtil_DummyWrite stream buffer frames w = Inr (err paCanNotWriteToACallbackStream, w)"

definition PaUtil_DummyGetReadAvailable :: "ptr \<Rightarrow> (int, 'd) host_call" where
  "PaUtil_DummyGetReadAvailable stream w = Inr (err paCanNotReadFromACallbackStream, w)"

definition PaUtil_DummyGetWriteAvailable :: "ptr \<Rightarrow> (int, 'd) host_call" where
  "PaUtil_DummyGetWriteAvailable stream w = Inr (err paCanNotWriteToACallbackStream, w)"

definition PaUtil_DummyGetCpuLoad :: "ptr \<Rightarrow> (f64, 'd) host_call" where
  "PaUtil_DummyGetCpuLoad stream w = Inr (Fin 0, w)"

section \<open>Devices and host APIs\<close>

record device_info =
  deviceHostApi :: int
  deviceName :: bytes
  maxInputChannels :: int
  maxOutputChannels :: int
  defaultLowInputLatency :: f64
  defaultLowOutputLatency :: f64
  defaultHighInputLatency :: f64
  defaultHighOutputLatency :: f64
  defaultSampleRate :: f64

record stream_parameters =
  device :: int
  channelCount :: int
  sampleFormat :: sample_format
  suggestedLatency :: f64
  hostApiSpecificStreamInfo :: "int option"

text \<open>
  Of the host specific stream information only the type in its header matters to the front end;
  it is \<open>None\<close> when the pointer is null. The functions of a host API get its index, which stands
  for the pointer to its representation. \<open>OpenStream\<close> yields a code and what it has written to
  \<open>*stream\<close>, if it has.
\<close>

record 'd host_api =
  api_type :: int
  api_name :: bytes
  deviceCount :: int
  defaultInputDevice :: int
  defaultOutputDevice :: int
  baseDeviceIndex :: u64
  deviceInfos :: "device_info list"
  Terminate :: "nat \<Rightarrow> 'd world \<Rightarrow> 'd world result"
  OpenStream :: "nat \<Rightarrow> stream_parameters option \<Rightarrow> stream_parameters option \<Rightarrow> f64 \<Rightarrow> u64 \<Rightarrow> u64 \<Rightarrow>
      nat option \<Rightarrow> nat \<Rightarrow> (int \<times> ptr option, 'd) host_call"
  IsFormatSupported :: "nat \<Rightarrow> stream_parameters option \<Rightarrow> stream_parameters option \<Rightarrow> f64 \<Rightarrow>
      (int, 'd) host_call"

text \<open>An initializer yields a code and the host API, if it is there.\<close>

type_synonym 'd initializer = "nat \<Rightarrow> (int \<times> 'd host_api option, 'd) host_call"

end
