(* ===== verification/PaDevices.thy ===== *)
theory PaDevices
  imports PaTypes
begin

text \<open>
  \<open>src/external/portaudio/src/common/pa_front.c\<close>, first half: the host APIs of PortAudio, their
  initialization, and the mapping between global device indices and the devices of a host API.

  \<open>hostApis\<close> is the array \<open>hostApis_\<close> up to \<open>hostApisCount_\<close>. \<open>alloc\<close> says whether
  \<open>PaUtil_AllocateMemory\<close> succeeds; \<open>inits\<close> is the table \<open>paHostApiInitializers\<close>, which the build
  chooses. The counters are C \<open>int\<close>s that stay far from their limits.
\<close>

section \<open>State\<close>

record 'd pa =
  hostApis :: "'d host_api list"
  defaultHostApiIndex :: int
  initializationCount :: int
  totalDevices :: int
  firstOpenStream :: "ptr option"
  world :: "'d world"

definition pa_start :: "'d world \<Rightarrow> 'd pa" where
  "pa_start w = \<lparr>hostApis = [], defaultHostApiIndex = 0, initializationCount = 0,
     totalDevices = 0, firstOpenStream = None, world = w\<rparr>"

definition PA_IS_INITIALISED :: "'d pa \<Rightarrow> bool" where
  "PA_IS_INITIALISED pa = (initializationCount pa \<noteq> 0)"

definition hostApisCount :: "'d pa \<Rightarrow> int" where
  "hostApisCount pa = int (length (hostApis pa))"

text \<open>\<open>hostApis_[i]\<close>.\<close>

definition hostApi_at :: "'d pa \<Rightarrow> int \<Rightarrow> 'd host_api result" where
  "hostApi_at pa i = (if 0 \<le> i \<and> i < hostApisCount pa then Inr (hostApis pa ! nat i) else Inl Undefined_behaviour)"

section \<open>Initialization and termination of the host APIs\<close>

definition CountHostApiInitializers :: "'d initializer list \<Rightarrow> int" where
  "CountHostApiInitializers inits = int (length inits)"

text \<open>The loop of \<open>TerminateHostApis\<close> runs from the last host API to the first.\<close>

fun terminate_loop :: "'d host_api list \<Rightarrow> 'd world \<Rightarrow> 'd world result" where
  "terminate_loop [] w = Inr w"
| "terminate_loop (h # hs) w = bind_r (Terminate h (length hs) w) (terminate_loop hs)"

definition TerminateHostApis :: "'d pa \<Rightarrow> 'd pa result" where
  "TerminateHostApis pa =
     bind_r (terminate_loop (rev (hostApis pa)) (world pa)) (\<lambda>w.
       Inr (pa\<lparr>hostApis := [], defaultHostApiIndex := 0, totalDevices := 0, world := w\<rparr>))"

text \<open>
  One host API that an initializer has returned: the assertions, the default host API, the shift
  of its default devices to global indices, and its place in the array.
\<close>

definition shift_device :: "int \<Rightarrow> int \<Rightarrow> int" where
  "shift_device base dev = (if dev \<noteq> paNoDevice then dev + base else dev)"

definition add_host_api :: "'d host_api \<Rightarrow> int \<Rightarrow> 'd pa \<Rightarrow> 'd pa result" where
  "add_host_api h base pa =
     (if \<not> defaultInputDevice h < deviceCount h \<or> \<not> defaultOutputDevice h < deviceCount h
      then Inl (Runtime_error ''assert'')
      else Inr (pa\<lparr>
        defaultHostApiIndex :=
          (if defaultHostApiIndex pa = -1 \<and>
              (defaultInputDevice h \<noteq> paNoDevice \<or> defaultOutputDevice h \<noteq> paNoDevice)
           then hostApisCount pa else defaultHostApiIndex pa),
        hostApis := hostApis pa @ [h\<lparr>baseDeviceIndex := of_int base,
          defaultInputDevice := shift_device base (defaultInputDevice h),
          defaultOutputDevice := shift_device base (defaultOutputDevice h)\<rparr>],
        totalDevices := totalDevices pa + deviceCount h\<rparr>))"

fun init_loop :: "'d initializer list \<Rightarrow> int \<Rightarrow> 'd pa \<Rightarrow> (int \<times> 'd pa) result" where
  "init_loop [] base pa = Inr (err paNoError, pa)"
| "init_loop (f # fs) base pa =
     bind_r (f (length (hostApis pa)) (world pa)) (\<lambda>((code, api), w).
       let pa = pa\<lparr>world := w\<rparr> in
       if code \<noteq> err paNoError then Inr (code, pa)
       else (case api of
           None \<Rightarrow> init_loop fs base pa
         | Some h \<Rightarrow> bind_r (add_host_api h base pa) (init_loop fs (base + deviceCount h))))"

definition InitializeHostApis :: "'d initializer list \<Rightarrow> bool \<Rightarrow> 'd pa \<Rightarrow> (int \<times> 'd pa) result" where
  "InitializeHostApis inits alloc pa =
     (if \<not> alloc
      then bind_r (TerminateHostApis pa) (\<lambda>pa. Inr (err paInsufficientMemory, pa))
      else bind_r (init_loop inits 0 (pa\<lparr>hostApis := [], defaultHostApiIndex := -1, totalDevices := 0\<rparr>))
        (\<lambda>(code, pa).
          if code \<noteq> err paNoError then bind_r (TerminateHostApis pa) (\<lambda>pa. Inr (code, pa))
          else Inr (code, if defaultHostApiIndex pa = -1 then pa\<lparr>defaultHostApiIndex := 0\<rparr> else pa)))"

definition Pa_Initialize :: "'d initializer list \<Rightarrow> bool \<Rightarrow> 'd pa \<Rightarrow> (int \<times> 'd pa) result" where
  "Pa_Initialize inits alloc pa =
     (if PA_IS_INITIALISED pa
      then Inr (err paNoError, pa\<lparr>initializationCount := initializationCount pa + 1\<rparr>)
      else bind_r (InitializeHostApis inits alloc pa) (\<lambda>(code, pa).
        if code = err paNoError
        then Inr (code, pa\<lparr>initializationCount := initializationCount pa + 1\<rparr>)
        else Inr (code, pa)))"

section \<open>Host APIs and devices\<close>

text \<open>
  The loop of \<open>FindHostApi\<close>: \<open>hs\<close> are the host APIs from \<open>i\<close> on; the result is the host API index
  and the index of the device in it.
\<close>

fun find_host_api :: "'d host_api list \<Rightarrow> int \<Rightarrow> int \<Rightarrow> (int \<times> int) option" where
  "find_host_api [] i dev = None"
| "find_host_api (h # hs) i dev =
     (if dev \<ge> deviceCount h then find_host_api hs (i + 1) (dev - deviceCount h) else Some (i, dev))"

definition FindHostApi :: "'d pa \<Rightarrow> int \<Rightarrow> (int \<times> int) option" where
  "FindHostApi pa dev =
     (if \<not> PA_IS_INITIALISED pa then None
      else if dev < 0 then None
      else find_host_api (hostApis pa) 0 dev)"

fun find_type :: "'d host_api list \<Rightarrow> int \<Rightarrow> int \<Rightarrow> int option" where
  "find_type [] i t = None"
| "find_type (h # hs) i t = (if api_type h = t then Some i else find_type hs (i + 1) t)"

definition Pa_HostApiTypeIdToHostApiIndex :: "'d pa \<Rightarrow> int \<Rightarrow> int" where
  "Pa_HostApiTypeIdToHostApiIndex pa t =
     (if \<not> PA_IS_INITIALISED pa then err paNotInitialized
      else (case find_type (hostApis pa) 0 t of Some i \<Rightarrow> i | None \<Rightarrow> err paHostApiNotFound))"

definition PaUtil_GetHostApiRepresentation :: "'d pa \<Rightarrow> int \<Rightarrow> int \<times> 'd host_api option" where
  "PaUtil_GetHostApiRepresentation pa t =
     (if \<not> PA_IS_INITIALISED pa then (err paNotInitialized, None)
      else (case find (\<lambda>h. api_type h = t) (hostApis pa) of
          Some h \<Rightarrow> (err paNoError, Some h)
        | None \<Rightarrow> (err paHostApiNotFound, None)))"

text \<open>The subtraction is in \<open>unsigned long\<close>, its result is converted to \<open>int\<close>.\<close>

definition PaUtil_DeviceIndexToHostApiDeviceIndex :: "int \<Rightarrow> 'd host_api \<Rightarrow> int \<times> int option" where
  "PaUtil_DeviceIndexToHostApiDeviceIndex dev h =
     (let x = to_int32 (uint (of_int dev - baseDeviceIndex h)) in
      if x < 0 \<or> x \<ge> deviceCount h then (err paInvalidDevice, None) else (err paNoError, Some x))"

definition Pa_GetHostApiCount :: "'d pa \<Rightarrow> int" where
  "Pa_GetHostApiCount pa = (if \<not> PA_IS_INITIALISED pa then err paNotInitialized else hostApisCount pa)"

definition Pa_GetDefaultHostApi :: "'d pa \<Rightarrow> int" where
  "Pa_GetDefaultHostApi pa =
     (if \<not> PA_IS_INITIALISED pa then err paNotInitialized
      else (let result = defaultHostApiIndex pa in
            if result < 0 \<or> result \<ge> hostApisCount pa then err paInternalError else result))"

text \<open>A pointer into the host API is the host API itself; \<open>None\<close> is the null pointer.\<close>

definition Pa_GetHostApiInfo :: "'d pa \<Rightarrow> int \<Rightarrow> 'd host_api option" where
  "Pa_GetHostApiInfo pa i =
     (if \<not> PA_IS_INITIALISED pa then None
      else if i < 0 \<or> i \<ge> hostApisCount pa then None
      else Some (hostApis pa ! nat i))"

definition Pa_HostApiDeviceIndexToDeviceIndex :: "'d pa \<Rightarrow> int \<Rightarrow> int \<Rightarrow> int" where
  "Pa_HostApiDeviceIndexToDeviceIndex pa i dev =
     (if \<not> PA_IS_INITIALISED pa then err paNotInitialized
      else if i < 0 \<or> i \<ge> hostApisCount pa then err paInvalidHostApi
      else (let h = hostApis pa ! nat i in
            if dev < 0 \<or> dev \<ge> deviceCount h then err paInvalidDevice
            else to_int32 (uint (baseDeviceIndex h + of_int dev))))"

definition Pa_GetDeviceCount :: "'d pa \<Rightarrow> int" where
  "Pa_GetDeviceCount pa = (if \<not> PA_IS_INITIALISED pa then err paNotInitialized else totalDevices pa)"

definition Pa_GetDefaultInputDevice :: "'d pa \<Rightarrow> int result" where
  "Pa_GetDefaultInputDevice pa =
     (let hostApi = Pa_GetDefaultHostApi pa in
      if hostApi < 0 then Inr paNoDevice
      else bind_r (hostApi_at pa hostApi) (\<lambda>h. Inr (defaultInputDevice h)))"

definition Pa_GetDefaultOutputDevice :: "'d pa \<Rightarrow> int result" where
  "Pa_GetDefaultOutputDevice pa =
     (let hostApi = Pa_GetDefaultHostApi pa in
      if hostApi < 0 then Inr paNoDevice
      else bind_r (hostApi_at pa hostApi) (\<lambda>h. Inr (defaultOutputDevice h)))"

definition Pa_GetDeviceInfo :: "'d pa \<Rightarrow> int \<Rightarrow> device_info option result" where
  "Pa_GetDeviceInfo pa dev =
     (case FindHostApi pa dev of
        None \<Rightarrow> Inr None
      | Some (i, d) \<Rightarrow> bind_r (hostApi_at pa i) (\<lambda>h.
          if 0 \<le> d \<and> nat d < length (deviceInfos h) then Inr (Some (deviceInfos h ! nat d))
          else Inl Undefined_behaviour))"

section \<open>Global device indices\<close>

text \<open>
  The devices of the host APIs are numbered one host API after the other: \<open>device_base hs i\<close> is the
  global index of the first device of host API \<open>i\<close>.
\<close>

definition device_base :: "'d host_api list \<Rightarrow> nat \<Rightarrow> int" where
  "device_base hs i = sum_list (map deviceCount (take i hs))"

definition devices_inv :: "'d pa \<Rightarrow> bool" where
  "devices_inv pa \<longleftrightarrow>
     totalDevices pa = device_base (hostApis pa) (length (hostApis pa)) \<and>
     (\<forall>i < length (hostApis pa).
        baseDeviceIndex (hostApis pa ! i) = of_int (device_base (hostApis pa) i))"

definition default_device_ok :: "'d host_api list \<Rightarrow> nat \<Rightarrow> int \<Rightarrow> bool" where
  "default_device_ok hs i dev \<longleftrightarrow> dev = paNoDevice \<or> dev < device_base hs (Suc i)"

lemma device_base_0 [simp]: "device_base hs 0 = 0"
  by (simp add: device_base_def)

lemma device_base_Suc: "i < length hs \<Longrightarrow> device_base hs (Suc i) = device_base hs i + deviceCount (hs ! i)"
  by (simp add: device_base_def take_Suc_conv_app_nth)

lemma device_base_append: "i \<le> length hs \<Longrightarrow> device_base (hs @ hs') i = device_base hs i"
  by (simp add: device_base_def)

lemma device_base_snoc: "device_base (hs @ [h]) (Suc (length hs)) = device_base hs (length hs) + deviceCount h"
  by (simp add: device_base_def)

lemma device_base_Cons: "device_base (h # hs) (Suc i) = deviceCount h + device_base hs i"
  by (simp add: device_base_def)

lemma device_base_mono:
  assumes "\<forall>h \<in> set hs. 0 \<le> deviceCount h" and "i \<le> j"
  shows "device_base hs i \<le> device_base hs j"
proof -
  have "take j hs = take i hs @ take (j - i) (drop i hs)"
    using assms(2) by (metis le_add_diff_inverse take_add)
  moreover have "0 \<le> sum_list (map deviceCount (take (j - i) (drop i hs)))"
    using assms(1) by (intro sum_list_nonneg) (auto dest: in_set_takeD in_set_dropD)
  ultimately show ?thesis by (simp add: device_base_def)
qed

text \<open>\<open>find_host_api\<close> finds the host API whose range of global indices has the device.\<close>

lemma find_host_api_base:
  assumes "\<forall>h \<in> set hs. 0 \<le> deviceCount h" and "i < length hs" and "0 \<le> d" and "d < deviceCount (hs ! i)"
  shows "find_host_api hs k (device_base hs i + d) = Some (k + int i, d)"
  using assms
proof (induction hs arbitrary: i k)
  case Nil
  then show ?case by simp
next
  case (Cons h hs)
  show ?case
  proof (cases i)
    case 0
    then show ?thesis using Cons.prems by simp
  next
    case (Suc j)
    have "0 \<le> device_base hs j" using device_base_mono [of hs 0 j] Cons.prems(1) by simp
    then show ?thesis using Cons.IH [of j "k + 1"] Cons.prems Suc by (simp add: device_base_Cons)
  qed
qed

lemma find_host_api_Some:
  assumes "0 \<le> dev" and "dev < device_base hs (length hs)" and "\<forall>h \<in> set hs. 0 \<le> deviceCount h"
  shows "\<exists>i d. i < length hs \<and> 0 \<le> d \<and> d < deviceCount (hs ! i) \<and> dev = device_base hs i + d \<and>
    find_host_api hs k dev = Some (k + int i, d)"
  using assms
proof (induction hs arbitrary: dev k)
  case Nil
  then show ?case by (simp add: device_base_def)
next
  case (Cons h hs)
  show ?case
  proof (cases "dev < deviceCount h")
    case True
    then show ?thesis using Cons.prems by (intro exI [of _ 0] exI [of _ dev]) simp
  next
    case False
    have "0 \<le> dev - deviceCount h" and "dev - deviceCount h < device_base hs (length hs)"
      using False Cons.prems(2) by (simp_all add: device_base_Cons)
    with Cons.IH [of "dev - deviceCount h" "k + 1"] Cons.prems(3) obtain i d where
      "i < length hs" "0 \<le> d" "d < deviceCount (hs ! i)" "dev - deviceCount h = device_base hs i + d"
      "find_host_api hs (k + 1) (dev - deviceCount h) = Some (k + 1 + int i, d)" by auto
    then show ?thesis using False by (intro exI [of _ "Suc i"] exI [of _ d]) (simp add: device_base_Cons)
  qed
qed

lemma find_host_api_range:
  "find_host_api hs k dev = Some (i, d) \<Longrightarrow> k \<le> i \<and> i < k + int (length hs)"
  by (induction hs k dev rule: find_host_api.induct) (auto split: if_splits)

lemma find_type_range: "find_type hs k t = Some i \<Longrightarrow> k \<le> i \<and> i < k + int (length hs)"
  by (induction hs k t rule: find_type.induct) (auto split: if_splits)

section \<open>Initialization\<close>

text \<open>What the loop keeps: the numbering and the range of the default devices.\<close>

definition api_ok :: "'d pa \<Rightarrow> bool" where
  "api_ok pa \<longleftrightarrow> devices_inv pa \<and>
     (\<forall>i < length (hostApis pa). default_device_ok (hostApis pa) i (defaultInputDevice (hostApis pa ! i)) \<and>
        default_device_ok (hostApis pa) i (defaultOutputDevice (hostApis pa ! i)))"

lemma api_ok_add:
  assumes "api_ok pa" and "add_host_api h (totalDevices pa) pa = Inr pa'"
  shows "api_ok pa' \<and> totalDevices pa' = totalDevices pa + deviceCount h"
proof -
  let ?n = "length (hostApis pa)"
  obtain g where apis: "hostApis pa' = hostApis pa @ [g]" and tot: "totalDevices pa' = totalDevices pa + deviceCount h"
    and g: "baseDeviceIndex g = of_int (totalDevices pa)" "deviceCount g = deviceCount h"
      "defaultInputDevice g = shift_device (totalDevices pa) (defaultInputDevice h)"
      "defaultOutputDevice g = shift_device (totalDevices pa) (defaultOutputDevice h)"
    and le: "defaultInputDevice h < deviceCount h" "defaultOutputDevice h < deviceCount h"
    using assms(2) by (auto simp: add_host_api_def split: if_splits)
  have total: "device_base (hostApis pa) ?n = totalDevices pa"
    and base: "\<And>i. i < ?n \<Longrightarrow> baseDeviceIndex (hostApis pa ! i) = of_int (device_base (hostApis pa) i)"
    using assms(1) by (simp_all add: api_ok_def devices_inv_def)
  have old: "device_base (hostApis pa @ [g]) i = device_base (hostApis pa) i" if "i \<le> ?n" for i
    using that by (simp add: device_base_append)
  have new: "device_base (hostApis pa @ [g]) (Suc ?n) = totalDevices pa + deviceCount h"
    by (simp add: total g device_base_snoc)
  have "devices_inv pa'"
    unfolding devices_inv_def apis tot using base
    by (auto simp: old new g total nth_append less_Suc_eq)
  moreover have "default_device_ok (hostApis pa') i (defaultInputDevice (hostApis pa' ! i)) \<and>
      default_device_ok (hostApis pa') i (defaultOutputDevice (hostApis pa' ! i))" if "i < Suc ?n" for i
  proof (cases "i = ?n")
    case True
    then show ?thesis using le by (auto simp: default_device_ok_def apis new g shift_device_def)
  next
    case False
    with that have i: "i < ?n" by simp
    then have "device_base (hostApis pa @ [g]) (Suc i) = device_base (hostApis pa) (Suc i)" by (intro old) simp
    then show ?thesis using assms(1) i by (simp add: api_ok_def default_device_ok_def apis nth_append)
  qed
  ultimately show ?thesis using tot by (simp add: api_ok_def apis)
qed

lemma init_loop_ok:
  assumes "api_ok pa" and "init_loop inits (totalDevices pa) pa = Inr (0, pa')"
  shows "api_ok pa'"
  using assms
proof (induction inits arbitrary: pa)
  case Nil
  then show ?case by simp
next
  case (Cons f fs)
  obtain code api w where c: "f (length (hostApis pa)) (world pa) = Inr ((code, api), w)"
    using Cons.prems(2) by auto
  let ?pa = "pa\<lparr>world := w\<rparr>"
  have ok: "api_ok ?pa" using Cons.prems(1) by (simp add: api_ok_def devices_inv_def)
  have code: "code = 0" using Cons.prems(2) c by (cases "code = 0") (simp_all add: Let_def)
  show ?case
  proof (cases api)
    case None
    then show ?thesis using Cons.IH [OF ok] Cons.prems(2) c code by simp
  next
    case (Some h)
    then obtain pa1 where a: "add_host_api h (totalDevices ?pa) ?pa = Inr pa1"
      "init_loop fs (totalDevices pa + deviceCount h) pa1 = Inr (0, pa')"
      using Cons.prems(2) c code by auto
    from api_ok_add [OF ok a(1)] show ?thesis using Cons.IH [of pa1] a(2) by simp
  qed
qed


lemma api_ok_cong:
  "hostApis pa' = hostApis pa \<Longrightarrow> totalDevices pa' = totalDevices pa \<Longrightarrow> api_ok pa' = api_ok pa"
  by (simp add: api_ok_def devices_inv_def)

definition same_front :: "'d pa \<Rightarrow> 'd pa \<Rightarrow> bool" where
  "same_front pa pa' \<longleftrightarrow> initializationCount pa' = initializationCount pa \<and> firstOpenStream pa' = firstOpenStream pa"

lemma init_loop_same_front: "init_loop inits base pa = Inr (code, pa') \<Longrightarrow> same_front pa pa'"
proof (induction inits arbitrary: base pa)
  case Nil
  then show ?case by (simp add: same_front_def)
next
  case (Cons f fs)
  obtain c api w where c: "f (length (hostApis pa)) (world pa) = Inr ((c, api), w)"
    using Cons.prems by auto
  show ?case
  proof (cases "c = 0 \<and> api \<noteq> None")
    case True
    then obtain h pa1 where "add_host_api h base (pa\<lparr>world := w\<rparr>) = Inr pa1"
      "init_loop fs (base + deviceCount h) pa1 = Inr (code, pa')"
      using Cons.prems c by auto
    then show ?thesis using Cons.IH by (fastforce simp: add_host_api_def same_front_def split: if_splits)
  next
    case False
    then show ?thesis using Cons.IH [of base "pa\<lparr>world := w\<rparr>"] Cons.prems c
      by (cases "c = 0") (auto simp: same_front_def Let_def)
  qed
qed

lemma TerminateHostApis_same_front: "TerminateHostApis pa = Inr pa' \<Longrightarrow> same_front pa pa'"
  by (auto simp: TerminateHostApis_def same_front_def)

lemma Pa_Initialize_ok:
  assumes "\<not> PA_IS_INITIALISED pa" and "Pa_Initialize inits alloc pa = Inr (0, pa')"
  shows "api_ok pa' \<and> PA_IS_INITIALISED pa'"
proof -
  let ?pa = "pa\<lparr>hostApis := [], defaultHostApiIndex := -1, totalDevices := 0\<rparr>"
  have a: alloc using assms by (cases alloc) (auto simp: Pa_Initialize_def InitializeHostApis_def)
  obtain pa1 where i: "InitializeHostApis inits alloc pa = Inr (0, pa1)"
    and pa': "pa' = pa1\<lparr>initializationCount := initializationCount pa1 + 1\<rparr>"
    using assms by (auto simp: Pa_Initialize_def split: if_splits)
  obtain code pa2 where l: "init_loop inits 0 ?pa = Inr (code, pa2)" using i a
    by (auto simp: InitializeHostApis_def)
  have "code = 0" using i a l by (cases "code = 0") (auto simp: InitializeHostApis_def)
  moreover have "api_ok ?pa" by (simp add: api_ok_def devices_inv_def)
  ultimately have "api_ok pa2" using init_loop_ok [of ?pa inits pa2] l by simp
  moreover have "hostApis pa1 = hostApis pa2" "totalDevices pa1 = totalDevices pa2"
    "initializationCount pa1 = initializationCount pa2"
    using i a l \<open>code = 0\<close> by (auto simp: InitializeHostApis_def split: if_splits)
  moreover have "same_front ?pa pa2" by (rule init_loop_same_front [OF l])
  ultimately show ?thesis using api_ok_cong [of pa' pa2] pa' assms(1)
    by (simp add: PA_IS_INITIALISED_def same_front_def)
qed

section \<open>Properties\<close>

lemma nth_count:
  assumes "\<forall>h \<in> set (hostApis pa). 0 \<le> deviceCount h" and "api_ok pa" and "totalDevices pa < 2 ^ 31"
    and "i < length (hostApis pa)" and "0 \<le> d" and "d < deviceCount (hostApis pa ! i)"
  shows "0 \<le> device_base (hostApis pa) i \<and> device_base (hostApis pa) i + d < totalDevices pa \<and>
    baseDeviceIndex (hostApis pa ! i) = of_int (device_base (hostApis pa) i)"
proof -
  have "device_base (hostApis pa) (Suc i) \<le> totalDevices pa"
    using device_base_mono [OF assms(1), of "Suc i" "length (hostApis pa)"] assms(2,4)
    by (simp add: api_ok_def devices_inv_def)
  then show ?thesis using device_base_mono [OF assms(1), of 0 i] assms
    by (simp add: device_base_Suc api_ok_def devices_inv_def)
qed

lemma to_int32_of_int: "0 \<le> x \<Longrightarrow> x < 2 ^ 31 \<Longrightarrow> to_int32 (uint (of_int x :: u64)) = x"
  by (simp add: to_int32_id uint_word_of_int)

lemma device_index_maps:
  assumes "PA_IS_INITIALISED pa" and "api_ok pa"
    and "\<forall>h \<in> set (hostApis pa). 0 \<le> deviceCount h" and "totalDevices pa < 2 ^ 31"
    and "i < length (hostApis pa)" and "0 \<le> d" and "d < deviceCount (hostApis pa ! i)"
  shows "Pa_HostApiDeviceIndexToDeviceIndex pa (int i) d = device_base (hostApis pa) i + d \<and>
    FindHostApi pa (device_base (hostApis pa) i + d) = Some (int i, d) \<and>
    PaUtil_DeviceIndexToHostApiDeviceIndex (device_base (hostApis pa) i + d) (hostApis pa ! i) = (0, Some d)"
proof -
  note n = nth_count [OF assms(3,2,4-7)]
  have "0 \<le> device_base (hostApis pa) i + d" "device_base (hostApis pa) i + d < 2 ^ 31" and d: "d < 2 ^ 31"
    using n assms(4,6) by simp_all
  note r = to_int32_of_int [OF this(1,2)] and r' = to_int32_of_int [OF assms(6) d]
  have "of_int (device_base (hostApis pa) i) + (of_int d :: u64) = of_int (device_base (hostApis pa) i + d)"
    by simp
  then have "to_int32 (uint (baseDeviceIndex (hostApis pa ! i) + of_int d)) = device_base (hostApis pa) i + d"
    by (simp only: n r)
  then have a: "Pa_HostApiDeviceIndexToDeviceIndex pa (int i) d = device_base (hostApis pa) i + d"
    using assms by (simp add: Pa_HostApiDeviceIndexToDeviceIndex_def hostApisCount_def)
  have b: "FindHostApi pa (device_base (hostApis pa) i + d) = Some (int i, d)"
    using find_host_api_base [OF assms(3,5-7), of 0] n assms(1,6) by (simp add: FindHostApi_def)
  have "of_int (device_base (hostApis pa) i + d) - (of_int (device_base (hostApis pa) i) :: u64) = of_int d"
    by simp
  then have "to_int32 (uint (of_int (device_base (hostApis pa) i + d) - baseDeviceIndex (hostApis pa ! i))) = d"
    by (simp only: n r')
  then have "PaUtil_DeviceIndexToHostApiDeviceIndex (device_base (hostApis pa) i + d) (hostApis pa ! i) = (0, Some d)"
    using assms(6,7) by (simp only: PaUtil_DeviceIndexToHostApiDeviceIndex_def Let_def) simp
  with a b show ?thesis by simp
qed

text \<open>A build with two host APIs, of two and three devices.\<close>

definition idle_api :: "int \<Rightarrow> nat \<Rightarrow> int \<Rightarrow> unit host_api" where
  "idle_api t n dev = \<lparr>api_type = t, api_name = [], deviceCount = int n, defaultInputDevice = dev,
     defaultOutputDevice = dev, baseDeviceIndex = 0,
     deviceInfos = replicate n \<lparr>deviceHostApi = 0, deviceName = [], maxInputChannels = 1, maxOutputChannels = 2,
       defaultLowInputLatency = Fin 0, defaultLowOutputLatency = Fin 0, defaultHighInputLatency = Fin 1,
       defaultHighOutputLatency = Fin 1, defaultSampleRate = Fin 44100\<rparr>,
     Terminate = (\<lambda>_ w. Inr w), OpenStream = (\<lambda>_ _ _ _ _ _ _ _ w. Inr ((err paDeviceUnavailable, None), w)),
     IsFormatSupported = (\<lambda>_ _ _ _ w. Inr (err paDeviceUnavailable, w))\<rparr>"

definition two_inits :: "unit initializer list" where
  "two_inits = [\<lambda>_ w. Inr ((0, Some (idle_api 8 2 (-1))), w), \<lambda>_ w. Inr ((0, Some (idle_api 7 3 1)), w)]"

definition two_apis :: "unit pa" where
  "two_apis = (case Pa_Initialize two_inits True (pa_start \<lparr>streams = \<lambda>_. None, driver = ()\<rparr>) of
     Inr (_, pa) \<Rightarrow> pa)"

lemma two_apis_init:
  "Pa_Initialize two_inits True (pa_start \<lparr>streams = \<lambda>_. None, driver = ()\<rparr>) = Inr (0, two_apis)"
  by (simp add: two_apis_def Pa_Initialize_def InitializeHostApis_def pa_start_def PA_IS_INITIALISED_def
      two_inits_def Let_def add_host_api_def idle_api_def)

lemma two_apis_values:
  "map deviceCount (hostApis two_apis) = [2, 3]" "totalDevices two_apis = 5" "defaultHostApiIndex two_apis = 1"
  "initializationCount two_apis = 1" "map defaultInputDevice (hostApis two_apis) = [-1, 3]"
  by (simp_all add: two_apis_def Pa_Initialize_def InitializeHostApis_def pa_start_def PA_IS_INITIALISED_def
      two_inits_def Let_def add_host_api_def idle_api_def hostApisCount_def shift_device_def)

text \<open>
  (C35) Device numbering: after initialization the global index of a device of a host API and
  \<open>FindHostApi\<close> are inverse to each other, in both directions: every index below
  \<open>Pa_GetDeviceCount\<close> is found, in the host API and under the number it was made of.
\<close>

theorem device_index_roundtrip:
  assumes "Pa_Initialize inits alloc pa0 = Inr (0, pa)" and "initializationCount pa0 = 0"
    and "\<forall>h \<in> set (hostApis pa). 0 \<le> deviceCount h" and "Pa_GetDeviceCount pa < 2 ^ 31"
  shows "(\<forall>i < length (hostApis pa). \<forall>d. 0 \<le> d \<and> d < deviceCount (hostApis pa ! i) \<longrightarrow>
      FindHostApi pa (Pa_HostApiDeviceIndexToDeviceIndex pa (int i) d) = Some (int i, d) \<and>
      PaUtil_DeviceIndexToHostApiDeviceIndex (Pa_HostApiDeviceIndexToDeviceIndex pa (int i) d)
        (hostApis pa ! i) = (0, Some d)) \<and>
    (\<forall>dev. 0 \<le> dev \<and> dev < Pa_GetDeviceCount pa \<longrightarrow>
      (\<exists>i d. FindHostApi pa dev = Some (i, d) \<and> Pa_HostApiDeviceIndexToDeviceIndex pa i d = dev))"
proof -
  have ok: "api_ok pa" and init: "PA_IS_INITIALISED pa"
    using Pa_Initialize_ok [OF _ assms(1)] assms(2) by (simp_all add: PA_IS_INITIALISED_def)
  then have total: "Pa_GetDeviceCount pa = totalDevices pa" by (simp add: Pa_GetDeviceCount_def)
  note maps = device_index_maps [OF init ok assms(3)]
  have tot: "totalDevices pa = device_base (hostApis pa) (length (hostApis pa))"
    using ok by (simp add: api_ok_def devices_inv_def)
  have "\<exists>i d. FindHostApi pa dev = Some (i, d) \<and> Pa_HostApiDeviceIndexToDeviceIndex pa i d = dev"
    if "0 \<le> dev" "dev < totalDevices pa" for dev
  proof -
    from that obtain i d where "i < length (hostApis pa)" "0 \<le> d" "d < deviceCount (hostApis pa ! i)"
      "dev = device_base (hostApis pa) i + d"
      using find_host_api_Some [of dev "hostApis pa" 0] assms(3) tot by auto
    then show ?thesis using maps [of i d] assms(4) total by auto
  qed
  then show ?thesis using maps assms(4) total by auto
qed

theorem device_index_roundtrip_witness:
  "FindHostApi two_apis (Pa_HostApiDeviceIndexToDeviceIndex two_apis 1 2) = Some (1, 2)"
proof -
  have c: "length (hostApis two_apis) = 2" "deviceCount (hostApis two_apis ! 1) = 3"
    using two_apis_values(1) arg_cong [OF two_apis_values(1), of length] by (auto simp: map_eq_Cons_conv)
  have nn: "\<forall>h \<in> set (hostApis two_apis). 0 \<le> deviceCount h"
    using two_apis_values(1) by (auto simp: map_eq_Cons_conv)
  have "Pa_GetDeviceCount two_apis < 2 ^ 31"
    by (simp add: Pa_GetDeviceCount_def PA_IS_INITIALISED_def two_apis_values)
  from device_index_roundtrip [OF two_apis_init _ nn this]
  show ?thesis using c by (auto simp: pa_start_def dest: spec [of _ 1])
qed

text \<open>
  Default devices: after initialization the default input device is \<open>paNoDevice\<close> or the
  index of an existing device, whose information can be looked up without a fault.
\<close>

theorem default_input_device_exists:
  assumes "Pa_Initialize inits alloc pa0 = Inr (0, pa)" and "initializationCount pa0 = 0"
    and "\<forall>h \<in> set (hostApis pa). 0 \<le> deviceCount h \<and> -1 \<le> defaultInputDevice h \<and>
       int (length (deviceInfos h)) = deviceCount h"
  shows "\<exists>dev. Pa_GetDefaultInputDevice pa = Inr dev \<and>
    (dev = paNoDevice \<or> 0 \<le> dev \<and> dev < Pa_GetDeviceCount pa \<and>
       (\<exists>info. Pa_GetDeviceInfo pa dev = Inr (Some info)))"
proof -
  have ok: "api_ok pa" and init: "PA_IS_INITIALISED pa"
    using Pa_Initialize_ok [OF _ assms(1)] assms(2) by (simp_all add: PA_IS_INITIALISED_def)
  show ?thesis
  proof (cases "Pa_GetDefaultHostApi pa < 0")
    case True
    then show ?thesis by (simp add: Pa_GetDefaultInputDevice_def Let_def)
  next
    case False
    let ?i = "Pa_GetDefaultHostApi pa" and ?n = "length (hostApis pa)"
    have i: "0 \<le> ?i" "?i < int ?n"
      using False init by (auto simp: Pa_GetDefaultHostApi_def hostApisCount_def Let_def split: if_splits)
    let ?h = "hostApis pa ! nat ?i"
    have h: "?h \<in> set (hostApis pa)" using i by simp
    have dev: "Pa_GetDefaultInputDevice pa = Inr (defaultInputDevice ?h)"
      using i by (simp add: Pa_GetDefaultInputDevice_def Let_def hostApi_at_def hostApisCount_def)
    have "default_device_ok (hostApis pa) (nat ?i) (defaultInputDevice ?h)"
      using ok i by (simp add: api_ok_def)
    moreover have "device_base (hostApis pa) (Suc (nat ?i)) \<le> totalDevices pa"
      using device_base_mono [of "hostApis pa" "Suc (nat ?i)" ?n] ok assms(3) i
      by (simp add: api_ok_def devices_inv_def)
    ultimately have lt: "defaultInputDevice ?h = paNoDevice \<or> defaultInputDevice ?h < totalDevices pa"
      by (auto simp: default_device_ok_def)
    have info: "\<exists>info. Pa_GetDeviceInfo pa d = Inr (Some info)" if d: "0 \<le> d" "d < totalDevices pa" for d
    proof -
      obtain j e where j: "j < ?n" "0 \<le> e" "e < deviceCount (hostApis pa ! j)"
        "find_host_api (hostApis pa) 0 d = Some (int j, e)"
        using find_host_api_Some [of d "hostApis pa" 0] d ok assms(3) by (auto simp: api_ok_def devices_inv_def)
      moreover from j(1) have "int (length (deviceInfos (hostApis pa ! j))) = deviceCount (hostApis pa ! j)"
        using assms(3) nth_mem by blast
      ultimately show ?thesis using init d
        by (simp add: Pa_GetDeviceInfo_def FindHostApi_def hostApi_at_def hostApisCount_def)
    qed
    show ?thesis
      using dev lt info [of "defaultInputDevice ?h"] assms(3) h init
      by (cases "defaultInputDevice ?h = -1") (auto simp: Pa_GetDeviceCount_def dest!: bspec [OF _ h])
  qed
qed

theorem default_input_device_exists_witness:
  "\<exists>dev. Pa_GetDefaultInputDevice two_apis = Inr dev \<and> dev = 3 \<and> dev < Pa_GetDeviceCount two_apis"
proof -
  have "\<forall>h \<in> set (hostApis two_apis). 0 \<le> deviceCount h \<and> -1 \<le> defaultInputDevice h \<and>
       int (length (deviceInfos h)) = deviceCount h"
    by (simp add: two_apis_def Pa_Initialize_def InitializeHostApis_def pa_start_def PA_IS_INITIALISED_def
      two_inits_def Let_def add_host_api_def idle_api_def shift_device_def)
  from default_input_device_exists [OF two_apis_init _ this]
  have "\<exists>dev. Pa_GetDefaultInputDevice two_apis = Inr dev \<and> (dev = -1 \<or> dev < Pa_GetDeviceCount two_apis)"
    by (auto simp: pa_start_def)
  moreover have "Pa_GetDefaultInputDevice two_apis = Inr 3"
    by (simp add: two_apis_def Pa_Initialize_def InitializeHostApis_def pa_start_def PA_IS_INITIALISED_def
      two_inits_def Let_def add_host_api_def idle_api_def shift_device_def Pa_GetDefaultInputDevice_def
      Pa_GetDefaultHostApi_def hostApi_at_def hostApisCount_def)
  ultimately show ?thesis by auto
qed

end
