(* ===== verification/PaFront.thy ===== *)
theory PaFront
  imports PaDevices
begin

text \<open>
  \<open>src/external/portaudio/src/common/pa_front.c\<close>, second half: the list of open streams, the
  validation of parameters, and the operations on streams.

  \<open>I\<close> is the table of stream interfaces.
\<close>

section \<open>The heap and the host\<close>

text \<open>Reading and writing the representation a stream pointer points to.\<close>

definition stream_at :: "'d pa \<Rightarrow> ptr option \<Rightarrow> stream_rep result" where
  "stream_at pa s = (case s of None \<Rightarrow> Inl Undefined_behaviour
     | Some p \<Rightarrow> (case streams (world pa) p of None \<Rightarrow> Inl Undefined_behaviour | Some r \<Rightarrow> Inr r))"

definition update_stream :: "ptr \<Rightarrow> (stream_rep \<Rightarrow> stream_rep) \<Rightarrow> 'd pa \<Rightarrow> 'd pa" where
  "update_stream p f pa = pa\<lparr>world := (world pa)\<lparr>streams := (streams (world pa))(p := map_option f (streams (world pa) p))\<rparr>\<rparr>"

text \<open>A call of a function of the interface of a stream (\<open>PA_STREAM_INTERFACE\<close>).\<close>

definition host_call :: "(nat \<Rightarrow> 'd stream_interface) \<Rightarrow> ('d stream_interface \<Rightarrow> ptr \<Rightarrow> ('a, 'd) host_call) \<Rightarrow>
    ptr option \<Rightarrow> 'd pa \<Rightarrow> ('a \<times> 'd pa) result" where
  "host_call I f s pa =
     bind_r (stream_at pa s) (\<lambda>r.
       bind_r (f (I (streamInterface r)) (the s) (world pa)) (\<lambda>(x, w). Inr (x, pa\<lparr>world := w\<rparr>)))"

section \<open>The list of open streams\<close>

definition AddOpenStream :: "ptr \<Rightarrow> 'd pa \<Rightarrow> 'd pa result" where
  "AddOpenStream stream pa =
     bind_r (stream_at pa (Some stream)) (\<lambda>_.
       Inr ((update_stream stream (\<lambda>r. r\<lparr>nextOpenStream := firstOpenStream pa\<rparr>) pa)\<lparr>firstOpenStream := Some stream\<rparr>))"

partial_function (option) remove_loop ::
  "ptr option \<Rightarrow> ptr option \<Rightarrow> ptr option \<Rightarrow> 'd pa \<Rightarrow> 'd pa comp" where
  "remove_loop stream previous current pa =
     (case current of
        None \<Rightarrow> Some (Inr pa)
      | Some c \<Rightarrow>
          (case stream_at pa current of
             Inl e \<Rightarrow> Some (Inl e)
           | Inr r \<Rightarrow>
               if current = stream
               then Some (case previous of
                   None \<Rightarrow> Inr (pa\<lparr>firstOpenStream := nextOpenStream r\<rparr>)
                 | Some q \<Rightarrow> Inr (update_stream q (\<lambda>r'. r'\<lparr>nextOpenStream := nextOpenStream r\<rparr>) pa))
               else remove_loop stream current (nextOpenStream r) pa))"

definition RemoveOpenStream :: "ptr option \<Rightarrow> 'd pa \<Rightarrow> 'd pa comp" where
  "RemoveOpenStream stream pa = remove_loop stream None (firstOpenStream pa) pa"

section \<open>Opening streams\<close>

definition PaUtil_ValidateStreamPointer :: "ptr option \<Rightarrow> 'd pa \<Rightarrow> int result" where
  "PaUtil_ValidateStreamPointer stream pa =
     (if \<not> PA_IS_INITIALISED pa then Inr (err paNotInitialized)
      else if stream = None then Inr (err paBadStreamPtr)
      else bind_r (stream_at pa stream) (\<lambda>r.
        if magic r \<noteq> PA_STREAM_MAGIC then Inr (err paBadStreamPtr) else Inr (err paNoError)))"

definition SampleFormatIsValid :: "sample_format \<Rightarrow> bool" where
  "SampleFormatIsValid format =
     (format AND NOT paNonInterleaved \<in>
        {paFloat32, paInt16, paInt32, paInt24, paInt8, paUInt8, paCustomFormat})"

text \<open>
  What \<open>ValidateOpenStreamParameters\<close> does for one of the two sides: the error code, the index of
  its host API and the device in it, from \<open>-1\<close> and \<open>paNoDevice\<close> on.
\<close>

definition validate_input :: "'d pa \<Rightarrow> stream_parameters option \<Rightarrow> (int \<times> int \<times> int) result" where
  "validate_input pa params =
     (case params of
        None \<Rightarrow> Inr (err paNoError, -1, paNoDevice)
      | Some ps \<Rightarrow>
          if device ps = paUseHostApiSpecificDeviceSpecification
          then (case hostApiSpecificStreamInfo ps of
                  Some t \<Rightarrow>
                    (let index = Pa_HostApiTypeIdToHostApiIndex pa t in
                     if index \<noteq> -1
                     then bind_r (hostApi_at pa index) (\<lambda>_.
                       Inr (err paNoError, index, paUseHostApiSpecificDeviceSpecification))
                     else Inr (err paInvalidDevice, index, paNoDevice))
                | None \<Rightarrow> Inr (err paInvalidDevice, -1, paNoDevice))
          else if device ps < 0 \<or> device ps \<ge> totalDevices pa then Inr (err paInvalidDevice, -1, paNoDevice)
          else (case FindHostApi pa (device ps) of
                  None \<Rightarrow> Inr (err paInternalError, -1, paNoDevice)
                | Some (index, dev) \<Rightarrow>
                    bind_r (hostApi_at pa index) (\<lambda>h.
                      if channelCount ps \<le> 0 then Inr (err paInvalidChannelCount, index, dev)
                      else if \<not> SampleFormatIsValid (sampleFormat ps)
                      then Inr (err paSampleFormatNotSupported, index, dev)
                      else (case hostApiSpecificStreamInfo ps of
                          Some t \<Rightarrow>
                            if t \<noteq> api_type h
                            then Inr (err paIncompatibleHostApiSpecificStreamInfo, index, dev)
                            else Inr (err paNoError, index, dev)
                        | None \<Rightarrow> Inr (err paNoError, index, dev)))))"

text \<open>The second copy of that code, for the output.\<close>

definition validate_output :: "'d pa \<Rightarrow> stream_parameters option \<Rightarrow> (int \<times> int \<times> int) result" where
  "validate_output pa params = validate_input pa params"

text \<open>The result: the error code, the host API to use, and the devices of the two sides in it.\<close>

definition ValidateOpenStreamParameters ::
  "'d pa \<Rightarrow> stream_parameters option \<Rightarrow> stream_parameters option \<Rightarrow> f64 \<Rightarrow> u64 \<Rightarrow> u64 \<Rightarrow> nat option \<Rightarrow>
     (int \<times> int \<times> int \<times> int) result" where
  "ValidateOpenStreamParameters pa inputParameters outputParameters sampleRate framesPerBuffer
       streamFlags callback =
     (if inputParameters = None \<and> outputParameters = None
      then Inr (err paInvalidDevice, -1, paNoDevice, paNoDevice)
      else bind_r (validate_input pa inputParameters) (\<lambda>(code, inIndex, inDev).
        if code \<noteq> err paNoError then Inr (code, -1, paNoDevice, paNoDevice)
        else bind_r (validate_output pa outputParameters) (\<lambda>(code, outIndex, outDev).
          let hostApi = (if outputParameters = None then inIndex else outIndex);
              fail = (\<lambda>c. Inr (err c, hostApi, inDev, outDev)) in
          if code \<noteq> err paNoError then Inr (code, -1, paNoDevice, paNoDevice)
          else if inputParameters \<noteq> None \<and> outputParameters \<noteq> None \<and> inIndex \<noteq> outIndex
          then fail paBadIODeviceCombination
          else if f64_less sampleRate (Fin 1000) \<or> f64_less (Fin 384000) sampleRate
          then fail paInvalidSampleRate
          else if (streamFlags AND NOT paPlatformSpecificFlags) AND
              NOT (paClipOff OR paDitherOff OR paNeverDropInput OR paPrimeOutputBuffersUsingStreamCallback) \<noteq> 0
          then fail paInvalidFlag
          else if streamFlags AND paNeverDropInput \<noteq> 0 \<and>
              (callback = None \<or> inputParameters = None \<or> outputParameters = None \<or> framesPerBuffer \<noteq> 0)
          then fail paInvalidFlag
          else fail paNoError)))"

text \<open>The parameters the host API gets: those of the caller, with its own device index.\<close>

definition host_parameters :: "stream_parameters option \<Rightarrow> int \<Rightarrow> stream_parameters option" where
  "host_parameters params dev = map_option (\<lambda>ps. ps\<lparr>device := dev\<rparr>) params"

definition Pa_IsFormatSupported ::
  "stream_parameters option \<Rightarrow> stream_parameters option \<Rightarrow> f64 \<Rightarrow> 'd pa \<Rightarrow> (int \<times> 'd pa) result" where
  "Pa_IsFormatSupported inputParameters outputParameters sampleRate pa =
     (if \<not> PA_IS_INITIALISED pa then Inr (err paNotInitialized, pa)
      else bind_r (ValidateOpenStreamParameters pa inputParameters outputParameters sampleRate 0 paNoFlag None)
        (\<lambda>(code, hostApi, inDev, outDev).
          if code \<noteq> err paNoError then Inr (code, pa)
          else bind_r (hostApi_at pa hostApi) (\<lambda>h.
            bind_r (IsFormatSupported h (nat hostApi) (host_parameters inputParameters inDev)
                (host_parameters outputParameters outDev) sampleRate (world pa))
              (\<lambda>(code, w). Inr (code, pa\<lparr>world := w\<rparr>)))))"

text \<open>
  \<open>s\<close> is the variable \<open>*stream\<close> of the caller, whose value is part of the result; \<open>nonnull\<close> says
  that the pointer to it is not null.
\<close>

definition Pa_OpenStream ::
  "bool \<Rightarrow> ptr option \<Rightarrow> stream_parameters option \<Rightarrow> stream_parameters option \<Rightarrow> f64 \<Rightarrow> u64 \<Rightarrow> u64 \<Rightarrow>
     nat option \<Rightarrow> nat \<Rightarrow> 'd pa \<Rightarrow> ((int \<times> ptr option) \<times> 'd pa) result" where
  "Pa_OpenStream nonnull s inputParameters outputParameters sampleRate framesPerBuffer streamFlags
       callback ud pa =
     (if \<not> PA_IS_INITIALISED pa then Inr ((err paNotInitialized, s), pa)
      else if \<not> nonnull then Inr ((err paBadStreamPtr, s), pa)
      else bind_r (ValidateOpenStreamParameters pa inputParameters outputParameters sampleRate
            framesPerBuffer streamFlags callback)
        (\<lambda>(code, hostApi, inDev, outDev).
          if code \<noteq> err paNoError then Inr ((code, s), pa)
          else bind_r (hostApi_at pa hostApi) (\<lambda>h.
            bind_r (OpenStream h (nat hostApi) (host_parameters inputParameters inDev)
                (host_parameters outputParameters outDev) sampleRate framesPerBuffer streamFlags
                callback ud (world pa))
              (\<lambda>((code, new), w).
                let pa = pa\<lparr>world := w\<rparr>; s = (case new of None \<Rightarrow> s | Some p \<Rightarrow> Some p) in
                if code = err paNoError
                then (case s of
                    None \<Rightarrow> Inl Undefined_behaviour
                  | Some p \<Rightarrow> bind_r (AddOpenStream p pa) (\<lambda>pa. Inr ((code, s), pa)))
                else Inr ((code, s), pa)))))"

text \<open>One side of \<open>Pa_OpenDefaultStream\<close>; \<open>None\<close> is the return with \<open>paDeviceUnavailable\<close>.\<close>

definition default_parameters ::
  "int \<Rightarrow> int result \<Rightarrow> (device_info \<Rightarrow> f64) \<Rightarrow> sample_format \<Rightarrow> 'd pa \<Rightarrow> stream_parameters option option result" where
  "default_parameters channels dflt latency format pa =
     (if channels > 0
      then bind_r dflt (\<lambda>dev.
        if dev = paNoDevice then Inr None
        else bind_r (Pa_GetDeviceInfo pa dev) (\<lambda>info.
          case info of
            None \<Rightarrow> Inl Undefined_behaviour
          | Some i \<Rightarrow> Inr (Some (Some \<lparr>device = dev, channelCount = channels, sampleFormat = format,
              suggestedLatency = latency i, hostApiSpecificStreamInfo = None\<rparr>))))
      else Inr (Some None))"

definition Pa_OpenDefaultStream ::
  "bool \<Rightarrow> ptr option \<Rightarrow> int \<Rightarrow> int \<Rightarrow> sample_format \<Rightarrow> f64 \<Rightarrow> u64 \<Rightarrow> nat option \<Rightarrow> nat \<Rightarrow> 'd pa \<Rightarrow>
     ((int \<times> ptr option) \<times> 'd pa) result" where
  "Pa_OpenDefaultStream nonnull s inputChannelCount outputChannelCount format sampleRate
       framesPerBuffer callback ud pa =
     bind_r (default_parameters inputChannelCount (Pa_GetDefaultInputDevice pa) defaultHighInputLatency format pa)
       (\<lambda>inp. case inp of
          None \<Rightarrow> Inr ((err paDeviceUnavailable, s), pa)
        | Some inputParameters \<Rightarrow>
            bind_r (default_parameters outputChannelCount (Pa_GetDefaultOutputDevice pa)
                defaultHighOutputLatency format pa)
              (\<lambda>out. case out of
                 None \<Rightarrow> Inr ((err paDeviceUnavailable, s), pa)
               | Some outputParameters \<Rightarrow>
                   Pa_OpenStream nonnull s inputParameters outputParameters sampleRate
                     framesPerBuffer paNoFlag callback ud pa))"

section \<open>Operations on streams\<close>

text \<open>The part of \<open>Pa_CloseStream\<close> that aborts the stream if it is not stopped.\<close>

definition abort_if_running ::
  "(nat \<Rightarrow> 'd stream_interface) \<Rightarrow> ptr option \<Rightarrow> 'd pa \<Rightarrow> (int \<times> 'd pa) result" where
  "abort_if_running I stream pa =
     bind_r (host_call I IsStopped stream pa) (\<lambda>(result, pa).
       if result = 1 then Inr (err paNoError, pa)
       else if result = 0 then host_call I Abort stream pa
       else Inr (result, pa))"

definition Pa_CloseStream ::
  "(nat \<Rightarrow> 'd stream_interface) \<Rightarrow> ptr option \<Rightarrow> 'd pa \<Rightarrow> (int \<times> 'd pa) comp" where
  "Pa_CloseStream I stream pa =
     bind_c (Some (PaUtil_ValidateStreamPointer stream pa)) (\<lambda>result.
       bind_c (RemoveOpenStream stream pa) (\<lambda>pa.
         Some (if result \<noteq> err paNoError then Inr (result, pa)
           else bind_r (abort_if_running I stream pa) (\<lambda>(result, pa).
             if result = err paNoError then host_call I Close stream pa
             else Inr (result, pa)))))"

partial_function (option) CloseOpenStreams ::
  "(nat \<Rightarrow> 'd stream_interface) \<Rightarrow> 'd pa \<Rightarrow> 'd pa comp" where
  "CloseOpenStreams I pa =
     (case firstOpenStream pa of
        None \<Rightarrow> Some (Inr pa)
      | Some p \<Rightarrow>
          (case Pa_CloseStream I (Some p) pa of
             None \<Rightarrow> None
           | Some r \<Rightarrow> (case r of Inl e \<Rightarrow> Some (Inl e) | Inr (result, pa) \<Rightarrow> CloseOpenStreams I pa)))"

definition Pa_Terminate :: "(nat \<Rightarrow> 'd stream_interface) \<Rightarrow> 'd pa \<Rightarrow> (int \<times> 'd pa) comp" where
  "Pa_Terminate I pa =
     (if PA_IS_INITIALISED pa
      then bind_c (if initializationCount pa = 1
          then bind_c (CloseOpenStreams I pa) (\<lambda>pa. Some (TerminateHostApis pa))
          else Some (Inr pa))
        (\<lambda>pa. Some (Inr (err paNoError, pa\<lparr>initializationCount := initializationCount pa - 1\<rparr>)))
      else Some (Inr (err paNotInitialized, pa)))"

definition Pa_SetStreamFinishedCallback ::
  "(nat \<Rightarrow> 'd stream_interface) \<Rightarrow> ptr option \<Rightarrow> nat option \<Rightarrow> 'd pa \<Rightarrow> (int \<times> 'd pa) result" where
  "Pa_SetStreamFinishedCallback I stream callback pa =
     bind_r (PaUtil_ValidateStreamPointer stream pa) (\<lambda>result.
       if result \<noteq> err paNoError then Inr (result, pa)
       else bind_r (host_call I IsStopped stream pa) (\<lambda>(result, pa).
         if result = 0 then Inr (err paStreamIsNotStopped, pa)
         else if result = 1
         then bind_r (stream_at pa stream) (\<lambda>_.
           Inr (err paNoError, update_stream (the stream) (\<lambda>r. r\<lparr>streamFinishedCallback := callback\<rparr>) pa))
         else Inr (result, pa)))"

definition Pa_StartStream ::
  "(nat \<Rightarrow> 'd stream_interface) \<Rightarrow> ptr option \<Rightarrow> 'd pa \<Rightarrow> (int \<times> 'd pa) result" where
  "Pa_StartStream I stream pa =
     bind_r (PaUtil_ValidateStreamPointer stream pa) (\<lambda>result.
       if result \<noteq> err paNoError then Inr (result, pa)
       else bind_r (host_call I IsStopped stream pa) (\<lambda>(result, pa).
         if result = 0 then Inr (err paStreamIsNotStopped, pa)
         else if result = 1 then host_call I Start stream pa
         else Inr (result, pa)))"

definition Pa_StopStream ::
  "(nat \<Rightarrow> 'd stream_interface) \<Rightarrow> ptr option \<Rightarrow> 'd pa \<Rightarrow> (int \<times> 'd pa) result" where
  "Pa_StopStream I stream pa =
     bind_r (PaUtil_ValidateStreamPointer stream pa) (\<lambda>result.
       if result \<noteq> err paNoError then Inr (result, pa)
       else bind_r (host_call I IsStopped stream pa) (\<lambda>(result, pa).
         if result = 0 then host_call I Stop stream pa
         else if result = 1 then Inr (err paStreamIsStopped, pa)
         else Inr (result, pa)))"

definition Pa_AbortStream ::
  "(nat \<Rightarrow> 'd stream_interface) \<Rightarrow> ptr option \<Rightarrow> 'd pa \<Rightarrow> (int \<times> 'd pa) result" where
  "Pa_AbortStream I stream pa =
     bind_r (PaUtil_ValidateStreamPointer stream pa) (\<lambda>result.
       if result \<noteq> err paNoError then Inr (result, pa)
       else bind_r (host_call I IsStopped stream pa) (\<lambda>(result, pa).
         if result = 0 then host_call I Abort stream pa
         else if result = 1 then Inr (err paStreamIsStopped, pa)
         else Inr (result, pa)))"

definition Pa_IsStreamStopped ::
  "(nat \<Rightarrow> 'd stream_interface) \<Rightarrow> ptr option \<Rightarrow> 'd pa \<Rightarrow> (int \<times> 'd pa) result" where
  "Pa_IsStreamStopped I stream pa =
     bind_r (PaUtil_ValidateStreamPointer stream pa) (\<lambda>result.
       if result \<noteq> err paNoError then Inr (result, pa) else host_call I IsStopped stream pa)"

definition Pa_IsStreamActive ::
  "(nat \<Rightarrow> 'd stream_interface) \<Rightarrow> ptr option \<Rightarrow> 'd pa \<Rightarrow> (int \<times> 'd pa) result" where
  "Pa_IsStreamActive I stream pa =
     bind_r (PaUtil_ValidateStreamPointer stream pa) (\<lambda>result.
       if result \<noteq> err paNoError then Inr (result, pa) else host_call I IsActive stream pa)"

text \<open>The stream information is a part of the representation; \<open>None\<close> is the null pointer.\<close>

definition Pa_GetStreamInfo :: "ptr option \<Rightarrow> 'd pa \<Rightarrow> (f64 \<times> f64 \<times> f64) option result" where
  "Pa_GetStreamInfo stream pa =
     bind_r (PaUtil_ValidateStreamPointer stream pa) (\<lambda>error.
       if error \<noteq> err paNoError then Inr None
       else bind_r (stream_at pa stream) (\<lambda>r.
         Inr (Some (inputLatency r, outputLatency r, streamSampleRate r))))"

definition Pa_GetStreamTime ::
  "(nat \<Rightarrow> 'd stream_interface) \<Rightarrow> ptr option \<Rightarrow> 'd pa \<Rightarrow> (f64 \<times> 'd pa) result" where
  "Pa_GetStreamTime I stream pa =
     bind_r (PaUtil_ValidateStreamPointer stream pa) (\<lambda>error.
       if error \<noteq> err paNoError then Inr (Fin 0, pa) else host_call I GetTime stream pa)"

definition Pa_GetStreamCpuLoad ::
  "(nat \<Rightarrow> 'd stream_interface) \<Rightarrow> ptr option \<Rightarrow> 'd pa \<Rightarrow> (f64 \<times> 'd pa) result" where
  "Pa_GetStreamCpuLoad I stream pa =
     bind_r (PaUtil_ValidateStreamPointer stream pa) (\<lambda>error.
       if error \<noteq> err paNoError then Inr (Fin 0, pa) else host_call I GetCpuLoad stream pa)"

definition Pa_ReadStream ::
  "(nat \<Rightarrow> 'd stream_interface) \<Rightarrow> ptr option \<Rightarrow> ptr option \<Rightarrow> u64 \<Rightarrow> 'd pa \<Rightarrow> (int \<times> 'd pa) result" where
  "Pa_ReadStream I stream buffer frames pa =
     bind_r (PaUtil_ValidateStreamPointer stream pa) (\<lambda>result.
       if result \<noteq> err paNoError then Inr (result, pa)
       else if frames = 0 then Inr (err paNoError, pa)
       else if buffer = None then Inr (err paBadBufferPtr, pa)
       else bind_r (host_call I IsStopped stream pa) (\<lambda>(result, pa).
         if result = 0 then host_call I (\<lambda>i s. Read i s buffer frames) stream pa
         else if result = 1 then Inr (err paStreamIsStopped, pa)
         else Inr (result, pa)))"

definition Pa_WriteStream ::
  "(nat \<Rightarrow> 'd stream_interface) \<Rightarrow> ptr option \<Rightarrow> ptr option \<Rightarrow> u64 \<Rightarrow> 'd pa \<Rightarrow> (int \<times> 'd pa) result" where
  "Pa_WriteStream I stream buffer frames pa =
     bind_r (PaUtil_ValidateStreamPointer stream pa) (\<lambda>result.
       if result \<noteq> err paNoError then Inr (result, pa)
       else if frames = 0 then Inr (err paNoError, pa)
       else if buffer = None then Inr (err paBadBufferPtr, pa)
       else bind_r (host_call I IsStopped stream pa) (\<lambda>(result, pa).
         if result = 0 then host_call I (\<lambda>i s. Write i s buffer frames) stream pa
         else if result = 1 then Inr (err paStreamIsStopped, pa)
         else Inr (result, pa)))"

definition Pa_GetStreamReadAvailable ::
  "(nat \<Rightarrow> 'd stream_interface) \<Rightarrow> ptr option \<Rightarrow> 'd pa \<Rightarrow> (int \<times> 'd pa) result" where
  "Pa_GetStreamReadAvailable I stream pa =
     bind_r (PaUtil_ValidateStreamPointer stream pa) (\<lambda>error.
       if error \<noteq> err paNoError then Inr (0, pa) else host_call I GetReadAvailable stream pa)"

definition Pa_GetStreamWriteAvailable ::
  "(nat \<Rightarrow> 'd stream_interface) \<Rightarrow> ptr option \<Rightarrow> 'd pa \<Rightarrow> (int \<times> 'd pa) result" where
  "Pa_GetStreamWriteAvailable I stream pa =
     bind_r (PaUtil_ValidateStreamPointer stream pa) (\<lambda>error.
       if error \<noteq> err paNoError then Inr (0, pa) else host_call I GetWriteAvailable stream pa)"

definition Pa_GetSampleSize :: "sample_format \<Rightarrow> int" where
  "Pa_GetSampleSize format =
     (let f = format AND NOT paNonInterleaved in
      if f \<in> {paUInt8, paInt8} then 1
      else if f = paInt16 then 2
      else if f = paInt24 then 3
      else if f \<in> {paFloat32, paInt32} then 4
      else err paSampleFormatNotSupported)"

text \<open>\<open>Pa_GetErrorText\<close>.\<close>

primrec error_text :: "pa_error_code \<Rightarrow> string" where
  "error_text paNoError = ''Success''"
| "error_text paNotInitialized = ''PortAudio not initialized''"
| "error_text paUnanticipatedHostError = ''Unanticipated host error''"
| "error_text paInvalidChannelCount = ''Invalid number of channels''"
| "error_text paInvalidSampleRate = ''Invalid sample rate''"
| "error_text paInvalidDevice = ''Invalid device''"
| "error_text paInvalidFlag = ''Invalid flag''"
| "error_text paSampleFormatNotSupported = ''Sample format not supported''"
| "error_text paBadIODeviceCombination = ''Illegal combination of I/O devices''"
| "error_text paInsufficientMemory = ''Insufficient memory''"
| "error_text paBufferTooBig = ''Buffer too big''"
| "error_text paBufferTooSmall = ''Buffer too small''"
| "error_text paNullCallback = ''No callback routine specified''"
| "error_text paBadStreamPtr = ''Invalid stream pointer''"
| "error_text paTimedOut = ''Wait timed out''"
| "error_text paInternalError = ''Internal PortAudio error''"
| "error_text paDeviceUnavailable = ''Device unavailable''"
| "error_text paIncompatibleHostApiSpecificStreamInfo = ''Incompatible host API specific stream info''"
| "error_text paStreamIsStopped = ''Stream is stopped''"
| "error_text paStreamIsNotStopped = ''Stream is not stopped''"
| "error_text paInputOverflowed = ''Input overflowed''"
| "error_text paOutputUnderflowed = ''Output underflowed''"
| "error_text paHostApiNotFound = ''Host API not found''"
| "error_text paInvalidHostApi = ''Invalid host API''"
| "error_text paCanNotReadFromACallbackStream = ''Can't read from a callback stream''"
| "error_text paCanNotWriteToACallbackStream = ''Can't write to a callback stream''"
| "error_text paCanNotReadFromAnOutputOnlyStream = ''Can't read from an output only stream''"
| "error_text paCanNotWriteToAnInputOnlyStream = ''Can't write to an input only stream''"
| "error_text paIncompatibleStreamHostApi = ''Incompatible stream host API''"
| "error_text paBadBufferPtr = ''Bad buffer pointer''"

definition all_error_codes :: "pa_error_code list" where
  "all_error_codes = [paNoError, paNotInitialized, paUnanticipatedHostError, paInvalidChannelCount,
     paInvalidSampleRate, paInvalidDevice, paInvalidFlag, paSampleFormatNotSupported,
     paBadIODeviceCombination, paInsufficientMemory, paBufferTooBig, paBufferTooSmall,
     paNullCallback, paBadStreamPtr, paTimedOut, paInternalError, paDeviceUnavailable,
     paIncompatibleHostApiSpecificStreamInfo, paStreamIsStopped, paStreamIsNotStopped,
     paInputOverflowed, paOutputUnderflowed, paHostApiNotFound, paInvalidHostApi,
     paCanNotReadFromACallbackStream, paCanNotWriteToACallbackStream,
     paCanNotReadFromAnOutputOnlyStream, paCanNotWriteToAnInputOnlyStream,
     paIncompatibleStreamHostApi, paBadBufferPtr]"

definition Pa_GetErrorText :: "int \<Rightarrow> string" where
  "Pa_GetErrorText errorCode =
     (case find (\<lambda>c. err c = errorCode) all_error_codes of
        Some c \<Rightarrow> error_text c
      | None \<Rightarrow> if errorCode > 0 then ''Invalid error code (value greater than zero)''
                else ''Invalid error code'')"

end
