(* ===== verification/PaMemory.thy ===== *)
theory PaMemory
  imports PaTypes
begin

text \<open>
  \<open>src/external/portaudio/src/os/unix/pa_unix_util.c\<close>: the allocator of PortAudio, a wrapper of
  \<open>malloc\<close> and \<open>free\<close>. The memory knows the live blocks and their sizes; a block gets an address
  never used before. \<open>oom n\<close> says whether the \<open>n\<close>-th request fails, which nothing can foresee.
  Freeing a block that is not live is undefined behaviour.
\<close>

record mem =
  blocks :: "ptr \<Rightarrow> u64 option"
  requests :: nat
  oom :: "nat \<Rightarrow> bool"

definition PaUtil_AllocateMemory :: "u64 \<Rightarrow> mem \<Rightarrow> ptr option \<times> mem" where
  "PaUtil_AllocateMemory n m =
     (if oom m (requests m) then (None, m\<lparr>requests := Suc (requests m)\<rparr>)
      else (Some (requests m), m\<lparr>blocks := (blocks m)(requests m := Some n), requests := Suc (requests m)\<rparr>))"

definition PaUtil_FreeMemory :: "ptr option \<Rightarrow> mem \<Rightarrow> mem result" where
  "PaUtil_FreeMemory block m =
     (case block of
        None \<Rightarrow> Inr m
      | Some p \<Rightarrow> if blocks m p = None then Inl Undefined_behaviour else Inr (m\<lparr>blocks := (blocks m)(p := None)\<rparr>))"

text \<open>Addresses not given out yet are not in use.\<close>

definition mem_ok :: "mem \<Rightarrow> bool" where
  "mem_ok m \<longleftrightarrow> (\<forall>p. requests m \<le> p \<longrightarrow> blocks m p = None)"

lemma alloc_ok: "mem_ok m \<Longrightarrow> PaUtil_AllocateMemory n m = (p, m') \<Longrightarrow> mem_ok m'"
  by (auto simp: PaUtil_AllocateMemory_def mem_ok_def split: if_splits)

lemma alloc_new:
  assumes "mem_ok m" and "PaUtil_AllocateMemory n m = (Some p, m')"
  shows "blocks m p = None" and "blocks m' = (blocks m)(p \<mapsto> n)"
  using assms by (auto simp: PaUtil_AllocateMemory_def mem_ok_def split: if_splits)

lemma alloc_fails: "PaUtil_AllocateMemory n m = (None, m') \<Longrightarrow> blocks m' = blocks m"
  by (auto simp: PaUtil_AllocateMemory_def split: if_splits)

lemma free_ok: "mem_ok m \<Longrightarrow> PaUtil_FreeMemory p m = Inr m' \<Longrightarrow> mem_ok m'"
  by (auto simp: PaUtil_FreeMemory_def mem_ok_def split: option.splits if_splits)

text \<open>Freeing the non-null ones of a list of pointers, one after the other.\<close>

fun free_all :: "ptr option list \<Rightarrow> mem \<Rightarrow> mem result" where
  "free_all [] m = Inr m"
| "free_all (p # ps) m = bind_r (PaUtil_FreeMemory p m) (free_all ps)"

definition nonnull :: "ptr option list \<Rightarrow> ptr list" where
  "nonnull ps = map the (filter (\<lambda>p. p \<noteq> None) ps)"

lemma nonnull_simps [simp]:
  "nonnull [] = []"
  "nonnull (None # ps) = nonnull ps"
  "nonnull (Some p # ps) = p # nonnull ps"
  by (simp_all add: nonnull_def)

lemma free_all_live:
  assumes "distinct (nonnull ps)" and "\<forall>p \<in> set (nonnull ps). blocks m p \<noteq> None"
  shows "\<exists>m'. free_all ps m = Inr m' \<and> requests m' = requests m \<and> oom m' = oom m \<and>
    blocks m' = (\<lambda>p. if p \<in> set (nonnull ps) then None else blocks m p)"
  using assms
proof (induction ps arbitrary: m)
  case Nil
  then show ?case by simp
next
  case (Cons p ps)
  show ?case
  proof (cases p)
    case None
    then show ?thesis using Cons by (simp add: PaUtil_FreeMemory_def)
  next
    case (Some q)
    let ?m = "m\<lparr>blocks := (blocks m)(q := None)\<rparr>"
    have "\<forall>p \<in> set (nonnull ps). blocks ?m p \<noteq> None" using Cons.prems Some by auto
    then obtain m' where "free_all ps ?m = Inr m'" "requests m' = requests m" "oom m' = oom m"
      "blocks m' = (\<lambda>p. if p \<in> set (nonnull ps) then None else blocks ?m p)"
      using Cons.IH [of ?m] Cons.prems Some by auto
    then show ?thesis using Some Cons.prems by (auto simp: PaUtil_FreeMemory_def)
  qed
qed

end
