(* ===== verification/PaFormats.thy ===== *)
theory PaFormats
  imports PaTypes
begin

text \<open>
  The choice of a host sample format and of a converter
  (\<open>src/external/portaudio/src/common/pa_converters.c\<close>), and the dither generator
  (\<open>pa_dither.c\<close>).
\<close>

section \<open>The closest available format\<close>

text \<open>
  The two scanning loops. They shift before they test; \<open>None\<close> is a loop that never ends.
\<close>

partial_function (option) scan_better :: "u64 \<Rightarrow> u64 \<Rightarrow> u64 option" where
  "scan_better available r =
     (let r = drop_bit 1 r in
      if r AND available = 0 \<and> r \<noteq> 0 then scan_better available r else Some r)"

partial_function (option) scan_worse :: "u64 \<Rightarrow> u64 \<Rightarrow> u64 option" where
  "scan_worse available r =
     (let r = push_bit 1 r in
      if r AND available = 0 \<and> r \<noteq> paCustomFormat then scan_worse available r else Some r)"

definition PaUtil_SelectClosestAvailableFormat :: "u64 \<Rightarrow> u64 \<Rightarrow> u64 option" where
  "PaUtil_SelectClosestAvailableFormat availableFormats format =
     (let format = format AND NOT paNonInterleaved;
          available = availableFormats AND NOT paNonInterleaved in
      if format AND available = 0
      then Option.bind (if format \<noteq> 1 then scan_better available format else Some 0) (\<lambda>result.
        if result = 0
        then Option.bind (scan_worse available format) (\<lambda>result.
          Some (if result AND available = 0 then of_int (err paSampleFormatNotSupported) else result))
        else Some result)
      else Some format)"

section \<open>The converter table\<close>

datatype sample_type = Float32 | Int32 | Int24 | Int16 | Int8 | UInt8

text \<open>
  A converter of the table \<open>paConverters\<close>: \<open>Source_To_Destination\<close> with \<open>_Dither\<close>, \<open>_Clip\<close> or
  \<open>_DitherClip\<close>, or a copy of samples of so many bits.
\<close>

datatype converter = Convert sample_type sample_type bool bool | Copy nat

definition select_format :: "sample_format \<Rightarrow> sample_type option" where
  "select_format format =
     (let f = format AND NOT paNonInterleaved in
      if f = paFloat32 then Some Float32 else if f = paInt32 then Some Int32
      else if f = paInt24 then Some Int24 else if f = paInt16 then Some Int16
      else if f = paInt8 then Some Int8 else if f = paUInt8 then Some UInt8 else None)"

fun select_converter :: "sample_type \<Rightarrow> sample_type \<Rightarrow> bool \<Rightarrow> bool \<Rightarrow> converter" where
  "select_converter Float32 Float32 dither clip = Copy 32"
| "select_converter Float32 d dither clip = Convert Float32 d dither clip"
| "select_converter Int32 Float32 dither clip = Convert Int32 Float32 False False"
| "select_converter Int32 Int32 dither clip = Copy 32"
| "select_converter Int32 d dither clip = Convert Int32 d dither False"
| "select_converter Int24 Float32 dither clip = Convert Int24 Float32 False False"
| "select_converter Int24 Int32 dither clip = Convert Int24 Int32 False False"
| "select_converter Int24 Int24 dither clip = Copy 24"
| "select_converter Int24 d dither clip = Convert Int24 d dither False"
| "select_converter Int16 Int16 dither clip = Copy 16"
| "select_converter Int16 Int8 dither clip = Convert Int16 Int8 dither False"
| "select_converter Int16 UInt8 dither clip = Convert Int16 UInt8 dither False"
| "select_converter Int16 d dither clip = Convert Int16 d False False"
| "select_converter Int8 Int8 dither clip = Copy 8"
| "select_converter Int8 d dither clip = Convert Int8 d False False"
| "select_converter UInt8 UInt8 dither clip = Copy 8"
| "select_converter UInt8 d dither clip = Convert UInt8 d False False"

definition PaUtil_SelectConverter :: "sample_format \<Rightarrow> sample_format \<Rightarrow> u64 \<Rightarrow> converter option" where
  "PaUtil_SelectConverter sourceFormat destinationFormat flags =
     (case (select_format sourceFormat, select_format destinationFormat) of
        (Some s, Some d) \<Rightarrow> Some (select_converter s d (flags AND paDitherOff = 0) (flags AND paClipOff = 0))
      | _ \<Rightarrow> None)"

datatype zeroer = ZeroU8 | Zero8 | Zero16 | Zero24 | Zero32

definition PaUtil_SelectZeroer :: "sample_format \<Rightarrow> zeroer option" where
  "PaUtil_SelectZeroer destinationFormat =
     map_option (\<lambda>t. case t of Float32 \<Rightarrow> Zero32 | Int32 \<Rightarrow> Zero32 | Int24 \<Rightarrow> Zero24 | Int16 \<Rightarrow> Zero16
        | Int8 \<Rightarrow> Zero8 | UInt8 \<Rightarrow> ZeroU8) (select_format destinationFormat)"

section \<open>Dither\<close>

text \<open>
  The seeds wrap at 32 bits; \<open>previous\<close> and the results are signed, and their overflow would be
  undefined. \<open>>>\<close> on a negative number shifts the sign in.
\<close>

record dither_generator =
  previous :: int
  randSeed1 :: u32
  randSeed2 :: u32

definition PaUtil_InitializeTriangularDitherState :: dither_generator where
  "PaUtil_InitializeTriangularDitherState = \<lparr>previous = 0, randSeed1 = 22222, randSeed2 = 5555555\<rparr>"

definition PA_DITHER_BITS :: nat where "PA_DITHER_BITS = 15"
definition DITHER_SHIFT :: nat where "DITHER_SHIFT = 4 * 8 - PA_DITHER_BITS + 1"

definition int32_result :: "int \<Rightarrow> int result" where
  "int32_result x = (if - (2 ^ 31) \<le> x \<and> x < 2 ^ 31 then Inr x else Inl Undefined_behaviour)"

definition PaUtil_Generate16BitTriangularDither :: "dither_generator \<Rightarrow> (int \<times> dither_generator) result" where
  "PaUtil_Generate16BitTriangularDither state =
     (let state = state\<lparr>randSeed1 := randSeed1 state * 196314165 + 907633515\<rparr>;
          state = state\<lparr>randSeed2 := randSeed2 state * 196314165 + 907633515\<rparr> in
      bind_r (int32_result (sint (signed_drop_bit DITHER_SHIFT (randSeed1 state)) +
          sint (signed_drop_bit DITHER_SHIFT (randSeed2 state)))) (\<lambda>current.
        bind_r (int32_result (current - previous state)) (\<lambda>highPass.
          Inr (highPass, state\<lparr>previous := current\<rparr>))))"

section \<open>What the scans find\<close>

definition one_bit :: "nat \<Rightarrow> u64" where
  "one_bit k = 2 ^ k"

lemma one_bit_iff: "bit (one_bit k) j \<longleftrightarrow> k = j \<and> j < 64"
  by (auto simp: one_bit_def bit_simps)

lemma one_bit_and [simp]: "k < 64 \<Longrightarrow> one_bit k AND a = 0 \<longleftrightarrow> \<not> bit a k"
  using and_exp_eq_0_iff_not_bit [of a k] by (simp add: one_bit_def and.commute)

lemma one_bit_eq [simp]: "i < 64 \<Longrightarrow> j < 64 \<Longrightarrow> one_bit i = one_bit j \<longleftrightarrow> i = j"
  by (auto simp: bit_eq_iff one_bit_iff)

lemma one_bit_nonzero [simp]: "k < 64 \<Longrightarrow> one_bit k \<noteq> 0"
  by (auto simp: bit_eq_iff one_bit_iff)

lemma custom_bit: "paCustomFormat = one_bit 16"
  by (simp add: one_bit_def)

lemma double_one_bit [simp]: "one_bit k * 2 = one_bit (Suc k)"
  by (simp add: one_bit_def)

lemma drop_one_bit [simp]: "Suc k < 64 \<Longrightarrow> drop_bit (Suc 0) (one_bit (Suc k)) = one_bit k"
  by (rule bit_word_eqI) (auto simp: bit_drop_bit_eq one_bit_iff)

lemma drop_one_bit_0 [simp]: "drop_bit (Suc 0) (one_bit 0) = 0"
  by (rule bit_word_eqI) (auto simp: bit_drop_bit_eq one_bit_iff)

text \<open>The best format among those before \<open>k\<close>, and the best among those from \<open>k\<close> to \<open>16\<close>.\<close>

definition last_bit :: "u64 \<Rightarrow> nat \<Rightarrow> u64" where
  "last_bit a k = (case filter (bit a) (rev [0..<k]) of [] \<Rightarrow> 0 | j # _ \<Rightarrow> one_bit j)"

definition first_bit :: "u64 \<Rightarrow> nat \<Rightarrow> u64 option" where
  "first_bit a k = (case filter (bit a) [k..<17] of [] \<Rightarrow> None | j # _ \<Rightarrow> Some (one_bit j))"

lemma scan_better_eq: "k < 64 \<Longrightarrow> 0 < k \<Longrightarrow> scan_better a (one_bit k) = Some (last_bit a k)"
proof (induction k)
  case 0
  then show ?case by simp
next
  case (Suc k)
  show ?case
  proof (cases "bit a k")
    case True
    then show ?thesis using Suc.prems
      by (subst scan_better.simps) (simp add: Let_def last_bit_def)
  next
    case False
    have next_bit: "scan_better a (one_bit (Suc k)) = scan_better a (one_bit k)"
      using False Suc.prems by (subst scan_better.simps) (simp add: Let_def)
    show ?thesis
    proof (cases "k = 0")
      case True
      have "scan_better a (one_bit 0) = Some 0" by (subst scan_better.simps) (simp add: Let_def)
      then show ?thesis using next_bit True False by (simp add: last_bit_def)
    next
      case k: False
      then show ?thesis using Suc False next_bit by (simp add: last_bit_def)
    qed
  qed
qed

lemma scan_worse_eq:
  "k < 16 \<Longrightarrow> scan_worse a (one_bit k) = Some (case first_bit a (Suc k) of None \<Rightarrow> one_bit 16 | Some r \<Rightarrow> r)"
proof (induction "16 - k" arbitrary: k)
  case 0
  then show ?case by simp
next
  case (Suc n)
  show ?case
  proof (cases "bit a (Suc k)")
    case True
    then have "first_bit a (Suc k) = Some (one_bit (Suc k))"
      using Suc.prems by (simp add: first_bit_def upt_conv_Cons)
    then show ?thesis using True Suc.prems by (subst scan_worse.simps) (simp add: Let_def)
  next
    case False
    then have skip: "first_bit a (Suc k) = first_bit a (Suc (Suc k))"
      using Suc.prems by (simp add: first_bit_def upt_conv_Cons)
    show ?thesis
    proof (cases "Suc k = 16")
      case True
      then have "first_bit a (Suc (Suc k)) = None" by (simp add: first_bit_def)
      then show ?thesis using skip True
        by (subst scan_worse.simps) (simp add: Let_def custom_bit)
    next
      case k: False
      then have "scan_worse a (one_bit k) = scan_worse a (one_bit (Suc k))"
        using False Suc.prems by (subst scan_worse.simps) (simp add: Let_def custom_bit)
      then show ?thesis using Suc k skip by simp
    qed
  qed
qed

lemma filter_first:
  assumes "filter P xs = y # ys"
  shows "P y \<and> y \<in> set xs"
proof -
  have "y \<in> set (filter P xs)" by (simp add: assms)
  then show ?thesis by simp
qed

lemma last_bit_0: "k \<le> 64 \<Longrightarrow> last_bit a k = 0 \<longleftrightarrow> (\<forall>j < k. \<not> bit a j)"
  by (auto simp: last_bit_def filter_empty_conv dest!: filter_first split: list.splits)

lemma first_bit_available: "first_bit a k = Some r \<Longrightarrow> r AND a \<noteq> 0"
  by (auto simp: first_bit_def dest!: filter_first split: list.splits)

lemma first_bit_None: "first_bit a k = None \<Longrightarrow> k \<le> 16 \<Longrightarrow> \<not> bit a 16"
  by (auto simp: first_bit_def filter_empty_conv split: list.splits)

section \<open>Properties\<close>

text \<open>
  The choice of a host format terminates for each of the standard formats, whatever the host
  offers, and is the format itself if it is available, else the next better available one, else
  the next worse one, else \<open>paSampleFormatNotSupported\<close>.
\<close>

theorem closest_format:
  assumes "format AND NOT paNonInterleaved = one_bit k" and "k < 16"
    and "a = availableFormats AND NOT paNonInterleaved"
  shows "PaUtil_SelectClosestAvailableFormat availableFormats format =
    Some (if bit a k then one_bit k
          else if \<exists>j < k. bit a j then last_bit a k
          else case first_bit a (Suc k) of Some r \<Rightarrow> r | None \<Rightarrow> of_int (err paSampleFormatNotSupported))"
proof -
  have better: "(if one_bit k \<noteq> 1 then scan_better a (one_bit k) else Some 0) = Some (last_bit a k)"
  proof (cases "k = 0")
    case True
    then show ?thesis by (simp add: one_bit_def last_bit_def)
  next
    case False
    then have "one_bit k \<noteq> one_bit 0" using assms(2) by simp
    moreover have "one_bit 0 = 1" by (simp add: one_bit_def)
    ultimately show ?thesis using False assms(2) scan_better_eq by simp
  qed
  show ?thesis
    using assms(2) first_bit_None [of a "Suc k"] first_bit_available [of a "Suc k"]
    unfolding PaUtil_SelectClosestAvailableFormat_def Let_def assms(1) assms(3) [symmetric] better
    by (auto simp: last_bit_0 scan_worse_eq split: option.splits)
qed

theorem closest_format_witness:
  "PaUtil_SelectClosestAvailableFormat (paInt16 OR paInt8) paFloat32 = Some paInt16"
proof -
  have "paFloat32 AND NOT paNonInterleaved = one_bit 0" by (simp add: one_bit_def)
  from closest_format [OF this _ refl, of "paInt16 OR paInt8"] show ?thesis
    by (simp add: first_bit_def upt_conv_Cons one_bit_def bit_numeral_rec)
qed

lemma sint_shift_bounds: "- 8192 \<le> sint (signed_drop_bit 18 (w :: u32)) \<and> sint (signed_drop_bit 18 w) \<le> 8191"
proof -
  have "sint (signed_drop_bit 18 w) = drop_bit 18 (sint w)"
    by (rule sint_signed_drop_bit_eq)
  also have "\<dots> = sint w div 2 ^ 18" by (simp add: drop_bit_eq_div)
  finally have "sint (signed_drop_bit 18 w) = sint w div 262144" by simp
  moreover have "- 2147483648 \<le> sint w" "sint w \<le> 2147483647" using sint_range_size [of w] by (simp_all add: word_size)
  then have "- 2147483648 div 262144 \<le> sint w div 262144" "sint w div 262144 \<le> 2147483647 div 262144"
    by (simp_all only: zdiv_mono1)
  ultimately show ?thesis by simp
qed

lemma dither_step:
  assumes "- 16384 \<le> previous g" and "previous g \<le> 16382"
  shows "\<exists>h g'. PaUtil_Generate16BitTriangularDither g = Inr (h, g') \<and> \<bar>h\<bar> \<le> 32766 \<and>
    - 16384 \<le> previous g' \<and> previous g' \<le> 16382"
proof -
  let ?c = "sint (signed_drop_bit 18 (randSeed1 g * 196314165 + 907633515)) +
      sint (signed_drop_bit 18 (randSeed2 g * 196314165 + 907633515))"
  have c: "- 16384 \<le> ?c" "?c \<le> 16382"
    using sint_shift_bounds [of "randSeed1 g * 196314165 + 907633515"]
      sint_shift_bounds [of "randSeed2 g * 196314165 + 907633515"] by linarith+
  then have "int32_result ?c = Inr ?c" "int32_result (?c - previous g) = Inr (?c - previous g)"
    using assms by (auto simp: int32_result_def)
  then have "PaUtil_Generate16BitTriangularDither g = Inr (?c - previous g,
      g\<lparr>randSeed1 := randSeed1 g * 196314165 + 907633515, randSeed2 := randSeed2 g * 196314165 + 907633515,
        previous := ?c\<rparr>)"
    by (simp add: PaUtil_Generate16BitTriangularDither_def DITHER_SHIFT_def PA_DITHER_BITS_def Let_def)
  then show ?thesis using c assms by auto
qed

fun dither_sequence :: "nat \<Rightarrow> dither_generator \<Rightarrow> int list result" where
  "dither_sequence 0 g = Inr []"
| "dither_sequence (Suc n) g =
     bind_r (PaUtil_Generate16BitTriangularDither g) (\<lambda>(h, g).
       bind_r (dither_sequence n g) (\<lambda>hs. Inr (h # hs)))"

text \<open>
  Dither noise of any length is computed without signed overflow, and every value lies
  between \<open>-32766\<close> and \<open>32766\<close>: scaled by \<open>1 / 32767\<close> it stays strictly between \<open>-1\<close> and \<open>1\<close>.
\<close>

theorem dither_bounded:
  "\<exists>hs. dither_sequence n PaUtil_InitializeTriangularDitherState = Inr hs \<and> length hs = n \<and>
    list_all (\<lambda>h. \<bar>h\<bar> \<le> 32766) hs"
proof -
  have "\<exists>hs. dither_sequence n g = Inr hs \<and> length hs = n \<and> list_all (\<lambda>h. \<bar>h\<bar> \<le> 32766) hs"
    if "- 16384 \<le> previous g" "previous g \<le> 16382" for g
    using that
  proof (induction n arbitrary: g)
    case 0
    then show ?case by simp
  next
    case (Suc n)
    from dither_step [OF Suc.prems] Suc.IH show ?case by fastforce
  qed
  then show ?thesis by (simp add: PaUtil_InitializeTriangularDitherState_def)
qed

end
