(* ===== verification/PaProcess.thy ===== *)
theory PaProcess
  imports PaFront PaMemory PaFormats
begin

text \<open>
  \<open>src/external/portaudio/src/common/pa_process.c\<close>, first half: the buffer processor that adapts
  the buffer size and the sample format of a host to those of the user. Here are its set-up, with
  the latency it needs, its release, and the configuration of the host buffers.

  An assertion that fails is the error \<open>Runtime_error ''assert''\<close>. A buffer is known by its block in
  the memory; arrays of channel descriptors are lists.
\<close>

section \<open>The frame shift\<close>

lemma unat_mod_less: "b \<noteq> 0 \<Longrightarrow> unat (a mod b) < unat (b :: u64)"
  by (simp add: unat_mod unat_gt_0)

function pa_gcd :: "u64 \<Rightarrow> u64 \<Rightarrow> u64" where
  "pa_gcd a b = (if b = 0 then a else pa_gcd b (a mod b))"
  by auto

termination
  by (relation "measure (\<lambda>(a, b). unat b)") (simp_all add: unat_mod_less)

declare pa_gcd.simps [simp del]

definition pa_lcm :: "u64 \<Rightarrow> u64 \<Rightarrow> u64" where
  "pa_lcm a b = a * b div pa_gcd a b"

definition PA_MAX :: "u64 \<Rightarrow> u64 \<Rightarrow> u64" where
  "PA_MAX a b = (if a > b then a else b)"

text \<open>The loop of \<open>CalculateFrameShift\<close>, whose counter may wrap.\<close>

partial_function (option) shift_loop :: "u64 \<Rightarrow> u64 \<Rightarrow> u64 \<Rightarrow> u64 \<Rightarrow> u64 \<Rightarrow> u64 option" where
  "shift_loop M N l i res = (if i < l then shift_loop M N l (i + M) (PA_MAX res (i mod N)) else Some res)"

definition CalculateFrameShift :: "u64 \<Rightarrow> u64 \<Rightarrow> u64 comp" where
  "CalculateFrameShift M N =
     (if \<not> M > 0 \<or> \<not> N > 0 then Some (Inl (Runtime_error ''assert''))
      else map_option Inr (shift_loop M N (pa_lcm M N) M 0))"

section \<open>The buffer processor\<close>

datatype host_buffer_size_mode =
    paUtilFixedHostBufferSize | paUtilBoundedHostBufferSize | paUtilUnknownHostBufferSize
  | paUtilVariableHostBufferSizePartialUsageAllowed

text \<open>A field of a channel descriptor that was not written yet is \<open>None\<close>.\<close>

record channel_descriptor =
  data :: "ptr option option"
  stride :: "u32 option"

definition raw_descriptor :: channel_descriptor where
  "raw_descriptor = \<lparr>data = None, stride = None\<rparr>"

record buffer_processor =
  framesPerUserBuffer :: u64
  framesPerHostBuffer :: u64
  hostBufferSizeMode :: host_buffer_size_mode
  useNonAdaptingProcess :: bool
  userOutputSampleFormatIsEqualToHost :: bool
  userInputSampleFormatIsEqualToHost :: bool
  framesPerTempBuffer :: u64
  inputChannelCount :: u32
  bytesPerHostInputSample :: u32
  bytesPerUserInputSample :: u32
  userInputIsInterleaved :: bool
  inputConverter :: "converter option"
  inputZeroer :: "zeroer option"
  outputChannelCount :: u32
  bytesPerHostOutputSample :: u32
  bytesPerUserOutputSample :: u32
  userOutputIsInterleaved :: bool
  outputConverter :: "converter option"
  outputZeroer :: "zeroer option"
  initialFramesInTempInputBuffer :: u64
  tempInputBuffer :: "ptr option"
  tempInputBufferPtrs :: "ptr option"
  framesInTempInputBuffer :: u64
  initialFramesInTempOutputBuffer :: u64
  tempOutputBuffer :: "ptr option"
  tempOutputBufferPtrs :: "ptr option"
  framesInTempOutputBuffer :: u64
  inputBufferAdcTime :: f64
  outputBufferDacTime :: f64
  callbackStatusFlags :: u64
  hostInputIsInterleaved :: bool
  hostInputFrameCount :: "u64 \<times> u64"
  hostInputBlock :: "ptr option"
  hostInputChannels :: "channel_descriptor list \<times> channel_descriptor list"
  hostOutputIsInterleaved :: bool
  hostOutputFrameCount :: "u64 \<times> u64"
  hostOutputBlock :: "ptr option"
  hostOutputChannels :: "channel_descriptor list \<times> channel_descriptor list"
  ditherGenerator :: dither_generator
  samplePeriod :: f64
  bpStreamCallback :: "nat option"
  bpUserData :: nat

abbreviation paFramesPerBufferUnspecified :: u64 where "paFramesPerBufferUnspecified \<equiv> 0"

definition PA_FRAMES_PER_TEMP_BUFFER_WHEN_HOST_BUFFER_SIZE_IS_UNKNOWN :: u64 where
  "PA_FRAMES_PER_TEMP_BUFFER_WHEN_HOST_BUFFER_SIZE_IS_UNKNOWN = 1024"

text \<open>
  The choice of the adaption: whether none is needed, the frames per temporary buffer, and the
  frames the temporary input and output buffers start with.
\<close>

definition bp_adaption ::
  "bool \<Rightarrow> u64 \<Rightarrow> u64 \<Rightarrow> host_buffer_size_mode \<Rightarrow> (bool \<times> u64 \<times> u64 \<times> u64) comp" where
  "bp_adaption fullDuplex user host mode =
     (if user = 0
      then Some (Inr (True,
        if mode = paUtilFixedHostBufferSize \<or> mode = paUtilBoundedHostBufferSize then host
        else PA_FRAMES_PER_TEMP_BUFFER_WHEN_HOST_BUFFER_SIZE_IS_UNKNOWN, 0, 0))
      else if mode = paUtilFixedHostBufferSize \<and> host mod user = 0
      then Some (Inr (True, user, 0, 0))
      else if fullDuplex
      then (if mode = paUtilFixedHostBufferSize
            then bind_c (CalculateFrameShift host user) (\<lambda>frameShift.
              if user > host then Some (Inr (False, user, frameShift, 0))
              else Some (Inr (False, user, 0, frameShift)))
            else Some (Inr (False, user, 0, user)))
      else Some (Inr (False, user, 0, 0)))"

text \<open>\<open>1. / x\<close>.\<close>

fun f64_inverse :: "f64 \<Rightarrow> f64" where
  "f64_inverse (Fin x) = (if x = 0 then PosInf else Fin (1 / x))"
| "f64_inverse NaN = NaN"
| "f64_inverse _ = Fin 0"

text \<open>
  The allocations for the input side: the code, the processor and the memory as they are when the
  side is done or fails. \<open>n\<close> is \<open>inputChannelCount\<close>, an \<open>int\<close> above 0.
\<close>

definition bp_input ::
  "int \<Rightarrow> sample_format \<Rightarrow> sample_format \<Rightarrow> u64 \<Rightarrow> buffer_processor \<Rightarrow> mem \<Rightarrow> int \<times> buffer_processor \<times> mem" where
  "bp_input n user host streamFlags bp m =
     (let hostBytes = Pa_GetSampleSize host; userBytes = Pa_GetSampleSize user in
      if \<not> hostBytes > 0 then (hostBytes, bp, m)
      else let bp = bp\<lparr>bytesPerHostInputSample := of_int hostBytes\<rparr> in
      if \<not> userBytes > 0 then (userBytes, bp, m)
      else
        let flags = (if streamFlags AND paDitherOff = 0 \<and> host AND paInt32 \<noteq> 0 \<and> user AND paInt24 \<noteq> 0
              then streamFlags OR paDitherOff else streamFlags);
            bp = bp\<lparr>bytesPerUserInputSample := of_int userBytes,
              inputConverter := PaUtil_SelectConverter host user flags,
              inputZeroer := PaUtil_SelectZeroer user,
              userInputIsInterleaved := (user AND paNonInterleaved = 0),
              hostInputIsInterleaved := (host AND paNonInterleaved = 0),
              userInputSampleFormatIsEqualToHost := (user AND NOT paNonInterleaved = host AND NOT paNonInterleaved)\<rparr>;
            (block, m) = PaUtil_AllocateMemory (framesPerTempBuffer bp * of_int userBytes * of_int n) m;
            bp = bp\<lparr>tempInputBuffer := block\<rparr> in
        if block = None then (err paInsufficientMemory, bp, m)
        else
          let (ptrs, m) = (if user AND paNonInterleaved \<noteq> 0 then PaUtil_AllocateMemory (8 * of_int n) m else (None, m));
              bp = bp\<lparr>tempInputBufferPtrs := ptrs\<rparr> in
          if user AND paNonInterleaved \<noteq> 0 \<and> ptrs = None then (err paInsufficientMemory, bp, m)
          else
            let (chans, m) = PaUtil_AllocateMemory (16 * of_int n * 2) m;
                bp = bp\<lparr>hostInputBlock := chans\<rparr> in
            if chans = None then (err paInsufficientMemory, bp, m)
            else (err paNoError,
              bp\<lparr>hostInputChannels := (replicate (nat n) raw_descriptor, replicate (nat n) raw_descriptor)\<rparr>, m))"

definition bp_output ::
  "int \<Rightarrow> sample_format \<Rightarrow> sample_format \<Rightarrow> u64 \<Rightarrow> buffer_processor \<Rightarrow> mem \<Rightarrow> int \<times> buffer_processor \<times> mem" where
  "bp_output n user host streamFlags bp m =
     (let hostBytes = Pa_GetSampleSize host; userBytes = Pa_GetSampleSize user in
      if \<not> hostBytes > 0 then (hostBytes, bp, m)
      else let bp = bp\<lparr>bytesPerHostOutputSample := of_int hostBytes\<rparr> in
      if \<not> userBytes > 0 then (userBytes, bp, m)
      else
        let bp = bp\<lparr>bytesPerUserOutputSample := of_int userBytes,
              outputConverter := PaUtil_SelectConverter user host streamFlags,
              outputZeroer := PaUtil_SelectZeroer host,
              userOutputIsInterleaved := (user AND paNonInterleaved = 0),
              hostOutputIsInterleaved := (host AND paNonInterleaved = 0),
              userOutputSampleFormatIsEqualToHost := (user AND NOT paNonInterleaved = host AND NOT paNonInterleaved)\<rparr>;
            (block, m) = PaUtil_AllocateMemory (framesPerTempBuffer bp * of_int userBytes * of_int n) m;
            bp = bp\<lparr>tempOutputBuffer := block\<rparr> in
        if block = None then (err paInsufficientMemory, bp, m)
        else
          let (ptrs, m) = (if user AND paNonInterleaved \<noteq> 0 then PaUtil_AllocateMemory (8 * of_int n) m else (None, m));
              bp = bp\<lparr>tempOutputBufferPtrs := ptrs\<rparr> in
          if user AND paNonInterleaved \<noteq> 0 \<and> ptrs = None then (err paInsufficientMemory, bp, m)
          else
            let (chans, m) = PaUtil_AllocateMemory (16 * of_int n * 2) m;
                bp = bp\<lparr>hostOutputBlock := chans\<rparr> in
            if chans = None then (err paInsufficientMemory, bp, m)
            else (err paNoError,
              bp\<lparr>hostOutputChannels := (replicate (nat n) raw_descriptor, replicate (nat n) raw_descriptor)\<rparr>, m))"

text \<open>What the error exit and \<open>PaUtil_TerminateBufferProcessor\<close> free, in their order.\<close>

definition bp_blocks :: "buffer_processor \<Rightarrow> ptr option list" where
  "bp_blocks bp = [tempInputBuffer bp, tempInputBufferPtrs bp, hostInputBlock bp,
     tempOutputBuffer bp, tempOutputBufferPtrs bp, hostOutputBlock bp]"

definition PaUtil_TerminateBufferProcessor :: "buffer_processor \<Rightarrow> mem \<Rightarrow> mem result" where
  "PaUtil_TerminateBufferProcessor bp m = free_all (bp_blocks bp) m"

definition PaUtil_InitializeBufferProcessor ::
  "buffer_processor \<Rightarrow> int \<Rightarrow> sample_format \<Rightarrow> sample_format \<Rightarrow> int \<Rightarrow> sample_format \<Rightarrow> sample_format \<Rightarrow>
     f64 \<Rightarrow> u64 \<Rightarrow> u64 \<Rightarrow> u64 \<Rightarrow> host_buffer_size_mode \<Rightarrow> nat option \<Rightarrow> nat \<Rightarrow> mem \<Rightarrow>
     (int \<times> buffer_processor \<times> mem) comp" where
  "PaUtil_InitializeBufferProcessor bp inputChannels userInputFormat hostInputFormat
       outputChannels userOutputFormat hostOutputFormat sampleRate streamFlags
       userFrames hostFrames mode callback ud m =
     (if streamFlags AND paNeverDropInput \<noteq> 0 \<and>
         (callback = None \<or> \<not> (inputChannels > 0 \<and> outputChannels > 0) \<or> userFrames \<noteq> paFramesPerBufferUnspecified)
      then Some (Inr (err paInvalidFlag, bp, m))
      else bind_c (bp_adaption (inputChannels > 0 \<and> outputChannels > 0) userFrames hostFrames mode)
        (\<lambda>(nonAdapting, perTemp, initialIn, initialOut).
          let bp = bp\<lparr>tempInputBuffer := None, tempInputBufferPtrs := None, tempOutputBuffer := None,
                tempOutputBufferPtrs := None, framesPerUserBuffer := userFrames,
                framesPerHostBuffer := hostFrames, inputChannelCount := of_int inputChannels,
                outputChannelCount := of_int outputChannels, hostBufferSizeMode := mode,
                hostInputBlock := None, hostOutputBlock := None,
                useNonAdaptingProcess := nonAdapting, framesPerTempBuffer := perTemp,
                initialFramesInTempInputBuffer := initialIn, initialFramesInTempOutputBuffer := initialOut,
                framesInTempInputBuffer := initialIn, framesInTempOutputBuffer := initialOut\<rparr>;
              (result, bp, m) =
                (if inputChannels > 0 then bp_input inputChannels userInputFormat hostInputFormat streamFlags bp m
                 else (err paNoError, bp, m));
              (result, bp, m) =
                (if result = err paNoError \<and> outputChannels > 0
                 then bp_output outputChannels userOutputFormat hostOutputFormat streamFlags bp m
                 else (result, bp, m)) in
          if result \<noteq> err paNoError
          then Some (bind_r (free_all (bp_blocks bp) m) (\<lambda>m. Inr (result, bp, m)))
          else Some (Inr (err paNoError,
            bp\<lparr>ditherGenerator := PaUtil_InitializeTriangularDitherState,
               samplePeriod := f64_inverse sampleRate, bpStreamCallback := callback, bpUserData := ud\<rparr>, m))))"

text \<open>
  \<open>PaUtil_ResetBufferProcessor\<close> also clears the temporary buffers, whose contents are not modelled.
\<close>

definition PaUtil_ResetBufferProcessor :: "buffer_processor \<Rightarrow> buffer_processor" where
  "PaUtil_ResetBufferProcessor bp =
     bp\<lparr>framesInTempInputBuffer := initialFramesInTempInputBuffer bp,
        framesInTempOutputBuffer := initialFramesInTempOutputBuffer bp\<rparr>"

definition PaUtil_GetBufferProcessorInputLatencyFrames :: "buffer_processor \<Rightarrow> u64" where
  "PaUtil_GetBufferProcessorInputLatencyFrames bp = initialFramesInTempInputBuffer bp"

definition PaUtil_GetBufferProcessorOutputLatencyFrames :: "buffer_processor \<Rightarrow> u64" where
  "PaUtil_GetBufferProcessorOutputLatencyFrames bp = initialFramesInTempOutputBuffer bp"

section \<open>The host buffers\<close>

definition check :: "bool \<Rightarrow> 'a result \<Rightarrow> 'a result" where
  "check b r = (if b then r else Inl (Runtime_error ''assert''))"

text \<open>\<open>channels[i]\<close>, written.\<close>

definition set_descriptor ::
  "channel_descriptor list \<Rightarrow> u32 \<Rightarrow> (channel_descriptor \<Rightarrow> channel_descriptor) \<Rightarrow> channel_descriptor list result" where
  "set_descriptor cs i f =
     (if unat i < length cs then Inr (cs[unat i := f (cs ! unat i)]) else Inl Undefined_behaviour)"

definition put_channel ::
  "u32 \<Rightarrow> ptr option \<Rightarrow> u32 \<Rightarrow> channel_descriptor list \<Rightarrow> channel_descriptor list result" where
  "put_channel channel d s cs = set_descriptor cs channel (\<lambda>c. c\<lparr>data := Some d, stride := Some s\<rparr>)"

text \<open>The loops over interleaved channels: \<open>p\<close> advances by the size of a sample; adding to a null pointer is undefined.\<close>

fun put_interleaved ::
  "nat \<Rightarrow> u32 \<Rightarrow> ptr option \<Rightarrow> u32 \<Rightarrow> u32 \<Rightarrow> channel_descriptor list \<Rightarrow> channel_descriptor list result" where
  "put_interleaved 0 channel p bytes count cs = Inr cs"
| "put_interleaved (Suc n) channel p bytes count cs =
     bind_r (put_channel channel p count cs) (\<lambda>cs.
       case p of
         None \<Rightarrow> Inl Undefined_behaviour
       | Some q \<Rightarrow> put_interleaved n (channel + 1) (Some (q + unat bytes)) bytes count cs)"

definition PaUtil_SetInputFrameCount :: "u64 \<Rightarrow> buffer_processor \<Rightarrow> buffer_processor" where
  "PaUtil_SetInputFrameCount frameCount bp =
     bp\<lparr>hostInputFrameCount := (if frameCount = 0 then framesPerHostBuffer bp else frameCount, snd (hostInputFrameCount bp))\<rparr>"

definition PaUtil_SetNoInput :: "buffer_processor \<Rightarrow> buffer_processor result" where
  "PaUtil_SetNoInput bp =
     check (inputChannelCount bp > 0)
       (bind_r (set_descriptor (fst (hostInputChannels bp)) 0 (\<lambda>c. c\<lparr>data := Some None\<rparr>)) (\<lambda>cs.
         Inr (bp\<lparr>hostInputChannels := (cs, snd (hostInputChannels bp))\<rparr>)))"

definition PaUtil_SetInputChannel :: "u32 \<Rightarrow> ptr option \<Rightarrow> u32 \<Rightarrow> buffer_processor \<Rightarrow> buffer_processor result" where
  "PaUtil_SetInputChannel channel d s bp =
     check (channel < inputChannelCount bp)
       (bind_r (put_channel channel d s (fst (hostInputChannels bp))) (\<lambda>cs.
         Inr (bp\<lparr>hostInputChannels := (cs, snd (hostInputChannels bp))\<rparr>)))"

definition PaUtil_SetInterleavedInputChannels ::
  "u32 \<Rightarrow> ptr option \<Rightarrow> u32 \<Rightarrow> buffer_processor \<Rightarrow> buffer_processor result" where
  "PaUtil_SetInterleavedInputChannels firstChannel d count bp =
     (let count = (if count = 0 then inputChannelCount bp else count) in
      check (firstChannel < inputChannelCount bp \<and> firstChannel + count \<le> inputChannelCount bp \<and> hostInputIsInterleaved bp)
        (bind_r (put_interleaved (unat count) firstChannel d (bytesPerHostInputSample bp) count (fst (hostInputChannels bp)))
          (\<lambda>cs. Inr (bp\<lparr>hostInputChannels := (cs, snd (hostInputChannels bp))\<rparr>))))"

definition PaUtil_SetNonInterleavedInputChannel :: "u32 \<Rightarrow> ptr option \<Rightarrow> buffer_processor \<Rightarrow> buffer_processor result" where
  "PaUtil_SetNonInterleavedInputChannel channel d bp =
     check (channel < inputChannelCount bp \<and> \<not> hostInputIsInterleaved bp)
       (bind_r (put_channel channel d 1 (fst (hostInputChannels bp))) (\<lambda>cs.
         Inr (bp\<lparr>hostInputChannels := (cs, snd (hostInputChannels bp))\<rparr>)))"

definition PaUtil_Set2ndInputFrameCount :: "u64 \<Rightarrow> buffer_processor \<Rightarrow> buffer_processor" where
  "PaUtil_Set2ndInputFrameCount frameCount bp =
     bp\<lparr>hostInputFrameCount := (fst (hostInputFrameCount bp), frameCount)\<rparr>"

definition PaUtil_Set2ndInputChannel :: "u32 \<Rightarrow> ptr option \<Rightarrow> u32 \<Rightarrow> buffer_processor \<Rightarrow> buffer_processor result" where
  "PaUtil_Set2ndInputChannel channel d s bp =
     check (channel < inputChannelCount bp)
       (bind_r (put_channel channel d s (snd (hostInputChannels bp))) (\<lambda>cs.
         Inr (bp\<lparr>hostInputChannels := (fst (hostInputChannels bp), cs)\<rparr>)))"

definition PaUtil_Set2ndInterleavedInputChannels ::
  "u32 \<Rightarrow> ptr option \<Rightarrow> u32 \<Rightarrow> buffer_processor \<Rightarrow> buffer_processor result" where
  "PaUtil_Set2ndInterleavedInputChannels firstChannel d count bp =
     (let count = (if count = 0 then inputChannelCount bp else count) in
      check (firstChannel < inputChannelCount bp \<and> firstChannel + count \<le> inputChannelCount bp \<and> hostInputIsInterleaved bp)
        (bind_r (put_interleaved (unat count) firstChannel d (bytesPerHostInputSample bp) count (snd (hostInputChannels bp)))
          (\<lambda>cs. Inr (bp\<lparr>hostInputChannels := (fst (hostInputChannels bp), cs)\<rparr>))))"

definition PaUtil_Set2ndNonInterleavedInputChannel :: "u32 \<Rightarrow> ptr option \<Rightarrow> buffer_processor \<Rightarrow> buffer_processor result" where
  "PaUtil_Set2ndNonInterleavedInputChannel channel d bp =
     check (channel < inputChannelCount bp \<and> \<not> hostInputIsInterleaved bp)
       (bind_r (put_channel channel d 1 (snd (hostInputChannels bp))) (\<lambda>cs.
         Inr (bp\<lparr>hostInputChannels := (fst (hostInputChannels bp), cs)\<rparr>)))"

definition PaUtil_SetOutputFrameCount :: "u64 \<Rightarrow> buffer_processor \<Rightarrow> buffer_processor" where
  "PaUtil_SetOutputFrameCount frameCount bp =
     bp\<lparr>hostOutputFrameCount := (if frameCount = 0 then framesPerHostBuffer bp else frameCount, snd (hostOutputFrameCount bp))\<rparr>"

definition PaUtil_SetNoOutput :: "buffer_processor \<Rightarrow> buffer_processor result" where
  "PaUtil_SetNoOutput bp =
     check (outputChannelCount bp > 0)
       (bind_r (set_descriptor (fst (hostOutputChannels bp)) 0 (\<lambda>c. c\<lparr>data := Some None\<rparr>)) (\<lambda>cs.
         Inr (bp\<lparr>hostOutputChannels := (cs, snd (hostOutputChannels bp))\<rparr>)))"

definition PaUtil_SetOutputChannel :: "u32 \<Rightarrow> ptr option \<Rightarrow> u32 \<Rightarrow> buffer_processor \<Rightarrow> buffer_processor result" where
  "PaUtil_SetOutputChannel channel d s bp =
     check (channel < outputChannelCount bp \<and> d \<noteq> None)
       (bind_r (put_channel channel d s (fst (hostOutputChannels bp))) (\<lambda>cs.
         Inr (bp\<lparr>hostOutputChannels := (cs, snd (hostOutputChannels bp))\<rparr>)))"

fun set_output_loop :: "nat \<Rightarrow> u32 \<Rightarrow> ptr option \<Rightarrow> u32 \<Rightarrow> buffer_processor \<Rightarrow> buffer_processor result" where
  "set_output_loop 0 channel p count bp = Inr bp"
| "set_output_loop (Suc n) channel p count bp =
     bind_r (PaUtil_SetOutputChannel channel p count bp) (\<lambda>bp.
       set_output_loop n (channel + 1) (map_option (\<lambda>q. q + unat (bytesPerHostOutputSample bp)) p) count bp)"

definition PaUtil_SetInterleavedOutputChannels ::
  "u32 \<Rightarrow> ptr option \<Rightarrow> u32 \<Rightarrow> buffer_processor \<Rightarrow> buffer_processor result" where
  "PaUtil_SetInterleavedOutputChannels firstChannel d count bp =
     (let count = (if count = 0 then outputChannelCount bp else count) in
      check (firstChannel < outputChannelCount bp \<and> firstChannel + count \<le> outputChannelCount bp \<and> hostOutputIsInterleaved bp)
        (set_output_loop (unat count) firstChannel d count bp))"

definition PaUtil_SetNonInterleavedOutputChannel :: "u32 \<Rightarrow> ptr option \<Rightarrow> buffer_processor \<Rightarrow> buffer_processor result" where
  "PaUtil_SetNonInterleavedOutputChannel channel d bp =
     check (channel < outputChannelCount bp \<and> \<not> hostOutputIsInterleaved bp) (PaUtil_SetOutputChannel channel d 1 bp)"

definition PaUtil_Set2ndOutputFrameCount :: "u64 \<Rightarrow> buffer_processor \<Rightarrow> buffer_processor" where
  "PaUtil_Set2ndOutputFrameCount frameCount bp =
     bp\<lparr>hostOutputFrameCount := (fst (hostOutputFrameCount bp), frameCount)\<rparr>"

definition PaUtil_Set2ndOutputChannel :: "u32 \<Rightarrow> ptr option \<Rightarrow> u32 \<Rightarrow> buffer_processor \<Rightarrow> buffer_processor result" where
  "PaUtil_Set2ndOutputChannel channel d s bp =
     check (channel < outputChannelCount bp \<and> d \<noteq> None)
       (bind_r (put_channel channel d s (snd (hostOutputChannels bp))) (\<lambda>cs.
         Inr (bp\<lparr>hostOutputChannels := (fst (hostOutputChannels bp), cs)\<rparr>)))"

fun set_2nd_output_loop :: "nat \<Rightarrow> u32 \<Rightarrow> ptr option \<Rightarrow> u32 \<Rightarrow> buffer_processor \<Rightarrow> buffer_processor result" where
  "set_2nd_output_loop 0 channel p count bp = Inr bp"
| "set_2nd_output_loop (Suc n) channel p count bp =
     bind_r (PaUtil_Set2ndOutputChannel channel p count bp) (\<lambda>bp.
       set_2nd_output_loop n (channel + 1) (map_option (\<lambda>q. q + unat (bytesPerHostOutputSample bp)) p) count bp)"

definition PaUtil_Set2ndInterleavedOutputChannels ::
  "u32 \<Rightarrow> ptr option \<Rightarrow> u32 \<Rightarrow> buffer_processor \<Rightarrow> buffer_processor result" where
  "PaUtil_Set2ndInterleavedOutputChannels firstChannel d count bp =
     (let count = (if count = 0 then outputChannelCount bp else count) in
      check (firstChannel < outputChannelCount bp \<and> firstChannel + count \<le> outputChannelCount bp \<and> hostOutputIsInterleaved bp)
        (set_2nd_output_loop (unat count) firstChannel d count bp))"

definition PaUtil_Set2ndNonInterleavedOutputChannel :: "u32 \<Rightarrow> ptr option \<Rightarrow> buffer_processor \<Rightarrow> buffer_processor result" where
  "PaUtil_Set2ndNonInterleavedOutputChannel channel d bp =
     check (channel < outputChannelCount bp \<and> \<not> hostOutputIsInterleaved bp) (PaUtil_Set2ndOutputChannel channel d 1 bp)"

end
