(* ===== verification/PaShift.thy ===== *)
theory PaShift
  imports PaProcess
begin

text \<open>
  The latency the buffer processor adds (\<open>pa_process.c\<close>): what \<open>CalculateFrameShift\<close> computes by
  search is a closed formula; and its memory: an initialization that fails leaves nothing behind,
  one that succeeds is undone by the termination.
\<close>

section \<open>The frame shift\<close>

lemma unat_pa_gcd: "unat (pa_gcd a b) = gcd (unat a) (unat b)"
proof (induction a b rule: pa_gcd.induct)
  case (1 a b)
  show ?case
  proof (cases "b = 0")
    case True
    then show ?thesis by (simp add: pa_gcd.simps)
  next
    case False
    then have "unat (pa_gcd a b) = gcd (unat b) (unat (a mod b))"
      using 1 by (subst pa_gcd.simps) simp
    then show ?thesis by (simp add: unat_mod gcd.commute flip: gcd_red_nat)
  qed
qed

lemma unat_pa_lcm:
  assumes "unat a * unat b < 2 ^ 64"
  shows "unat (pa_lcm a b) = lcm (unat a) (unat b)"
proof -
  have "unat (a * b) = unat a * unat b" using assms by (simp add: unat_mult_lem [THEN iffD1])
  then show ?thesis by (simp add: pa_lcm_def unat_div unat_pa_gcd lcm_nat_def)
qed

lemma fold_max:
  fixes r :: nat
  shows "r \<le> fold (\<lambda>j r. max r (f j)) xs r \<and> (\<forall>j \<in> set xs. f j \<le> fold (\<lambda>j r. max r (f j)) xs r) \<and>
    fold (\<lambda>j r. max r (f j)) xs r \<in> insert r (f ` set xs)"
proof (induction xs arbitrary: r)
  case Nil
  then show ?case by simp
next
  case (Cons x xs)
  from Cons.IH [of "max r (f x)"] show ?case by (auto simp: max_def split: if_splits)
qed

text \<open>The loop as a fold over the multiples of \<open>M\<close>.\<close>

lemma shift_loop_fold:
  assumes "k \<le> n" and "unat M * n < 2 ^ 64" and "0 < unat M" and "l = of_nat (unat M * n)"
  shows "\<exists>r'. shift_loop M N l (of_nat (unat M * k)) r = Some r' \<and>
    unat r' = fold (\<lambda>j r. max r (unat M * j mod unat N)) [k..<n] (unat r)"
  using assms(1)
proof (induction "n - k" arbitrary: k r)
  case 0
  then show ?case by (subst shift_loop.simps) (simp add: assms(4))
next
  case (Suc d)
  then have k: "k < n" by simp
  have lt: "unat M * k < 2 ^ 64" using k assms(2) by (metis less_imp_le_nat mult_le_mono2 order_le_less_trans)
  have u: "unat (of_nat (unat M * k) :: u64) = unat M * k" "unat l = unat M * n"
    using lt assms(2,4) by (simp_all add: unat_of_nat64 del: of_nat_mult)
  have less: "(of_nat (unat M * k) :: u64) < l"
    using k assms(3) by (simp add: word_less_nat_alt u del: of_nat_mult)
  have next_i: "(of_nat (unat M * k) :: u64) + M = of_nat (unat M * Suc k)"
    by (simp add: algebra_simps)
  have next_r: "unat (PA_MAX r (of_nat (unat M * k) mod N)) = max (unat r) (unat M * k mod unat N)"
    by (simp add: PA_MAX_def word_less_nat_alt unat_mod u max_def del: of_nat_mult)
  obtain r' where "shift_loop M N l (of_nat (unat M * Suc k)) (PA_MAX r (of_nat (unat M * k) mod N)) = Some r'"
    "unat r' = fold (\<lambda>j r. max r (unat M * j mod unat N)) [Suc k..<n] (unat (PA_MAX r (of_nat (unat M * k) mod N)))"
    using Suc.hyps(1) [of "Suc k"] Suc.hyps(2) k by (metis Suc_diff_Suc Suc_leI diff_Suc_1)
  then show ?case
    using k less by (subst shift_loop.simps) (simp add: next_i next_r upt_conv_Cons del: of_nat_mult)
qed

text \<open>The largest remainder of the multiples of \<open>M\<close> below the least common multiple.\<close>

lemma largest_remainder:
  fixes M N :: nat
  assumes "0 < M" and "0 < N"
  shows "fold (\<lambda>j r. max r (M * j mod N)) [1..<N div gcd M N] 0 = (if N dvd M then 0 else N - gcd M N)"
proof -
  let ?g = "gcd M N" and ?n = "N div gcd M N"
  let ?m = "fold (\<lambda>j r. max r (M * j mod N)) [1..<?n] 0"
  note fm = fold_max [where f = "\<lambda>j. M * j mod N" and xs = "[1..<?n]" and r = 0]
  have g: "0 < ?g" using assms by simp
  have Nn: "N = ?g * ?n" by simp
  have bound: "M * j mod N \<le> N - ?g" for j
  proof -
    have "?g dvd M * j mod N" by (metis dvd_mod dvd_mult2 gcd_dvd1 gcd_dvd2)
    then obtain q where q: "M * j mod N = ?g * q" by blast
    have "?g * q < ?g * ?n" using q Nn mod_less_divisor [OF assms(2), of "M * j"] by simp
    then have "q < ?n" by (rule nat_mult_less_cancel1 [OF g, THEN iffD1])
    then have "q \<le> ?n - 1" by simp
    then have "?g * q \<le> ?g * (?n - 1)" by simp
    then show ?thesis using q Nn by (simp add: diff_mult_distrib2)
  qed
  show ?thesis
  proof (cases "N dvd M")
    case True
    then have "?g = N" by (simp add: gcd_proj2_iff)
    then show ?thesis using True assms(2) by simp
  next
    case False
    obtain x y where xy: "N * x = M * y + ?g"
      using bezout_nat [of N M] assms(2) by (auto simp: gcd.commute)
    then have x: "0 < x" using g by (cases x) auto
    have "?g \<le> N" using assms(2) by (simp add: dvd_imp_le)
    moreover obtain z where "x = Suc z" using x by (cases x) auto
    ultimately have "M * y = N * z + (N - ?g)" using xy by simp
    then have "M * y mod N = (N * z + (N - ?g)) mod N" by (simp only:)
    also have "\<dots> = (N - ?g) mod N" by (rule mod_mult_self4)
    finally have y: "M * y mod N = N - ?g" using g assms(2) by simp
    let ?r = "y mod ?n"
    have "N dvd M * ?n" by (metis Nn dvd_triv_right gcd_dvd1 mult.commute mult_dvd_mono dvd_refl)
    then have "M * (?n * (y div ?n)) mod N = 0" by (metis dvd_imp_mod_0 dvd_mult2 mult.assoc)
    moreover have "M * y = M * (?n * (y div ?n)) + M * ?r" by (metis add_mult_distrib2 mult_div_mod_eq)
    ultimately have r: "M * ?r mod N = N - ?g" using y by (metis mod_add_left_eq add_0)
    have "?g \<noteq> N" using False by (metis gcd_dvd1)
    then have "?g < N" using assms(2) by (metis dvd_imp_le gcd_dvd2 le_neq_implies_less)
    then have "?r \<noteq> 0" using r by (metis mod_0 mult_0_right not_less0 zero_less_diff)
    moreover have "?r < ?n" using Nn assms(2) by (simp add: div_greater_zero_iff dvd_imp_le)
    ultimately have "?r \<in> set [1..<?n]" by simp
    then have "N - ?g \<le> ?m" using fm r by metis
    moreover have "?m \<le> N - ?g" using fm bound by auto
    ultimately show ?thesis using False by simp
  qed
qed

lemma CalculateFrameShift_eq:
  assumes "0 < M" and "0 < N" and "unat M * unat N < 2 ^ 64"
  shows "\<exists>s. CalculateFrameShift M N = Some (Inr s) \<and>
    unat s = (if unat N dvd unat M then 0 else unat N - gcd (unat M) (unat N))"
proof -
  let ?n = "unat N div gcd (unat M) (unat N)"
  have MN: "0 < unat M" "0 < unat N" using assms(1,2) by (simp_all add: word_less_nat_alt)
  have lcm: "lcm (unat M) (unat N) = unat M * ?n" by (simp add: lcm_nat_def div_mult_swap)
  then have ul: "unat (pa_lcm M N) = unat M * ?n" using unat_pa_lcm [OF assms(3)] by simp
  then have small: "unat M * ?n < 2 ^ 64" and l: "pa_lcm M N = of_nat (unat M * ?n)"
    by (simp_all only: flip: ul) (simp_all add: order_less_le_trans [OF unsigned_less])
  have "?n \<ge> 1" using MN by (simp add: Suc_le_eq div_greater_zero_iff dvd_imp_le)
  from shift_loop_fold [OF this small MN(1) l, of N 0] largest_remainder [OF MN]
  show ?thesis using assms(1,2) by (auto simp: CalculateFrameShift_def)
qed

section \<open>Memory of a buffer processor\<close>

text \<open>
  From \<open>m\<close> to \<open>m'\<close> exactly the blocks \<open>ps\<close> have come to life.
\<close>

definition owns :: "mem \<Rightarrow> mem \<Rightarrow> ptr option list \<Rightarrow> bool" where
  "owns m m' ps \<longleftrightarrow> mem_ok m' \<and> distinct (nonnull ps) \<and>
     (\<forall>p \<in> set (nonnull ps). blocks m p = None \<and> blocks m' p \<noteq> None) \<and>
     (\<forall>p. p \<notin> set (nonnull ps) \<longrightarrow> blocks m' p = blocks m p)"

lemma nonnull_append [simp]: "nonnull (ps @ qs) = nonnull ps @ nonnull qs"
  by (simp add: nonnull_def)

lemma owns_nothing: "mem_ok m \<Longrightarrow> owns m m []"
  by (simp add: owns_def)

lemma owns_None [simp]: "owns m m' (ps @ [None]) = owns m m' ps"
  by (simp add: owns_def)

lemma owns_pad: "owns m m' ps \<Longrightarrow> owns m m' (ps @ [None, None, None])"
  by (simp add: owns_def)

lemma owns_alloc:
  assumes "owns m0 m ps" and "PaUtil_AllocateMemory n m = (p, m')"
  shows "owns m0 m' (ps @ [p])"
proof (cases p)
  case None
  have "mem_ok m'" using alloc_ok assms owns_def by blast
  then show ?thesis using None alloc_fails [of n m m'] assms by (simp add: owns_def)
next
  case (Some q)
  have "mem_ok m" "mem_ok m'" using alloc_ok assms owns_def by blast+
  moreover have "blocks m q = None" "blocks m' = (blocks m)(q \<mapsto> n)"
    using alloc_new assms(2) Some \<open>mem_ok m\<close> by auto
  ultimately show ?thesis using assms(1) Some unfolding owns_def by auto
qed

lemma owns_free:
  assumes "owns m0 m ps"
  shows "\<exists>m'. free_all ps m = Inr m' \<and> blocks m' = blocks m0"
proof -
  obtain m' where "free_all ps m = Inr m'" "blocks m' = (\<lambda>p. if p \<in> set (nonnull ps) then None else blocks m p)"
    using free_all_live [of ps m] assms by (auto simp: owns_def)
  then show ?thesis using assms by (auto simp: owns_def)
qed

lemma bp_input_owns:
  assumes "owns m0 m []" and "bp_input n user host flags bp m = (code, bp', m')"
    and "tempInputBuffer bp = None" "tempInputBufferPtrs bp = None" "hostInputBlock bp = None"
  shows "owns m0 m' [tempInputBuffer bp', tempInputBufferPtrs bp', hostInputBlock bp'] \<and>
    tempOutputBuffer bp' = tempOutputBuffer bp \<and> tempOutputBufferPtrs bp' = tempOutputBufferPtrs bp \<and>
    hostOutputBlock bp' = hostOutputBlock bp"
proof -
  obtain b1 m1 where a1: "PaUtil_AllocateMemory (framesPerTempBuffer bp * of_int (Pa_GetSampleSize user) * of_int n) m = (b1, m1)"
    by fastforce
  obtain b2 m2 where a2: "(if user AND paNonInterleaved \<noteq> 0 then PaUtil_AllocateMemory (8 * of_int n) m1 else (None, m1)) = (b2, m2)"
    by fastforce
  obtain b3 m3 where a3: "PaUtil_AllocateMemory (16 * of_int n * 2) m2 = (b3, m3)"
    by fastforce
  have o1: "owns m0 m1 [b1]" using owns_alloc [OF assms(1) a1] by simp
  have o2: "owns m0 m2 [b1, b2]"
    using owns_alloc [OF o1, of "8 * of_int n" b2 m2] a2 o1 owns_None [of m0 m1 "[b1]"] by (auto split: if_splits)
  have o3: "owns m0 m3 [b1, b2, b3]" using owns_alloc [OF o2 a3] by simp
  have none_first: "owns m0 m [None, None, None]" using assms(1) by (simp add: owns_def)
  have none: "b1 = None \<Longrightarrow> owns m0 m1 [None, None, None]" using o1 by (simp add: owns_def)
  have n2: "owns m0 m2 [b1, b2, None]" using o2 by (cases b1; cases b2) (simp_all add: owns_def)
  show ?thesis
  proof (cases "Pa_GetSampleSize host > 0 \<and> Pa_GetSampleSize user > 0")
    case False
    then show ?thesis using assms none_first by (auto simp: bp_input_def Let_def split: if_splits)
  next
    case True
    note run = assms(2) [unfolded bp_input_def Let_def]
    show ?thesis
    proof (cases "b1 = None \<or> (user AND paNonInterleaved \<noteq> 0 \<and> b2 = None)")
      case b: True
      show ?thesis using run True a1 a2 b none n2 assms(3-5) by (auto split: if_splits)
    next
      case b: False
      then show ?thesis using run True a1 a2 a3 o3 by (auto split: if_splits)
    qed
  qed
qed

lemma bp_output_owns:
  assumes "owns m0 m ps" and "bp_output n user host flags bp m = (code, bp', m')"
    and "tempOutputBuffer bp = None" "tempOutputBufferPtrs bp = None" "hostOutputBlock bp = None"
  shows "owns m0 m' (ps @ [tempOutputBuffer bp', tempOutputBufferPtrs bp', hostOutputBlock bp']) \<and>
    tempInputBuffer bp' = tempInputBuffer bp \<and> tempInputBufferPtrs bp' = tempInputBufferPtrs bp \<and>
    hostInputBlock bp' = hostInputBlock bp"
proof -
  obtain b1 m1 where a1: "PaUtil_AllocateMemory (framesPerTempBuffer bp * of_int (Pa_GetSampleSize user) * of_int n) m = (b1, m1)"
    by fastforce
  obtain b2 m2 where a2: "(if user AND paNonInterleaved \<noteq> 0 then PaUtil_AllocateMemory (8 * of_int n) m1 else (None, m1)) = (b2, m2)"
    by fastforce
  obtain b3 m3 where a3: "PaUtil_AllocateMemory (16 * of_int n * 2) m2 = (b3, m3)"
    by fastforce
  have o1: "owns m0 m1 (ps @ [b1])" using owns_alloc [OF assms(1) a1] by simp
  have o2: "owns m0 m2 (ps @ [b1, b2])"
    using owns_alloc [OF o1, of "8 * of_int n" b2 m2] a2 o1 owns_None [of m0 m1 "ps @ [b1]"] by (auto split: if_splits)
  have o3: "owns m0 m3 (ps @ [b1, b2, b3])" using owns_alloc [OF o2 a3] by simp
  have none_first: "owns m0 m (ps @ [None, None, None])" using assms(1) by (simp add: owns_def)
  have none: "b1 = None \<Longrightarrow> owns m0 m1 (ps @ [None, None, None])" using o1 by (simp add: owns_def)
  have n2: "owns m0 m2 (ps @ [b1, b2, None])" using o2 by (cases b1; cases b2) (simp_all add: owns_def)
  show ?thesis
  proof (cases "Pa_GetSampleSize host > 0 \<and> Pa_GetSampleSize user > 0")
    case False
    then show ?thesis using assms none_first by (auto simp: bp_output_def Let_def split: if_splits)
  next
    case True
    note run = assms(2) [unfolded bp_output_def Let_def]
    show ?thesis
    proof (cases "b1 = None \<or> (user AND paNonInterleaved \<noteq> 0 \<and> b2 = None)")
      case b: True
      show ?thesis using run True a1 a2 b none n2 assms(3-5) by (auto split: if_splits)
    next
      case b: False
      then show ?thesis using run True a1 a2 a3 o3 by (auto split: if_splits)
    qed
  qed
qed


definition no_blocks :: "buffer_processor \<Rightarrow> bool" where
  "no_blocks bp \<longleftrightarrow> list_all (\<lambda>p. p = None) (bp_blocks bp)"

text \<open>Both sides, one after the other.\<close>

lemma bp_sides_owns:
  assumes "mem_ok m" and "no_blocks bp"
    and "(if ic > 0 then bp_input ic uif hif flags bp m else (0, bp, m)) = (c1, bp1, m1)"
    and "(if c1 = 0 \<and> oc > 0 then bp_output oc uof hof flags bp1 m1 else (c1, bp1, m1)) = (c2, bp2, m2)"
  shows "owns m m2 (bp_blocks bp2)"
proof -
  have none: "tempInputBuffer bp = None" "tempInputBufferPtrs bp = None" "hostInputBlock bp = None"
    "tempOutputBuffer bp = None" "tempOutputBufferPtrs bp = None" "hostOutputBlock bp = None"
    using assms(2) by (simp_all add: no_blocks_def bp_blocks_def)
  have o: "owns m m []" by (rule owns_nothing [OF assms(1)])
  have 1: "owns m m1 [tempInputBuffer bp1, tempInputBufferPtrs bp1, hostInputBlock bp1] \<and>
      tempOutputBuffer bp1 = None \<and> tempOutputBufferPtrs bp1 = None \<and> hostOutputBlock bp1 = None"
  proof (cases "ic > 0")
    case True
    then show ?thesis using bp_input_owns [OF o, of ic uif hif flags bp c1 bp1 m1] assms(3) none by simp
  next
    case False
    then show ?thesis using assms(3) none o by (auto simp: owns_def)
  qed
  show ?thesis
  proof (cases "c1 = 0 \<and> oc > 0")
    case True
    then show ?thesis using bp_output_owns [OF conjunct1 [OF 1], of oc uof hof flags bp1 c2 bp2 m2] 1 assms(4)
      by (simp add: bp_blocks_def)
  next
    case False
    then have "bp2 = bp1 \<and> m2 = m1" using assms(4) by auto
    then show ?thesis using owns_pad [OF conjunct1 [OF 1]] 1 by (simp add: bp_blocks_def)
  qed
qed

lemma PaUtil_InitializeBufferProcessor_owns:
  assumes "mem_ok m"
    and "PaUtil_InitializeBufferProcessor bp ic uif hif oc uof hof rate flags uf hf mode cb ud m =
      Some (Inr (code, bp', m'))"
  shows "(code \<noteq> 0 \<longrightarrow> blocks m' = blocks m) \<and> (code = 0 \<longrightarrow> owns m m' (bp_blocks bp'))"
proof (cases "flags AND paNeverDropInput \<noteq> 0 \<and>
    (cb = None \<or> \<not> (ic > 0 \<and> oc > 0) \<or> uf \<noteq> paFramesPerBufferUnspecified)")
  case True
  then show ?thesis using assms(2) unfolding PaUtil_InitializeBufferProcessor_def if_P [OF True] by simp
next
  case False
  note run = assms(2) [unfolded PaUtil_InitializeBufferProcessor_def if_not_P [OF False]]
  obtain na pt ii io where a: "bp_adaption (ic > 0 \<and> oc > 0) uf hf mode = Some (Inr (na, pt, ii, io))"
    using run by (cases "bp_adaption (ic > 0 \<and> oc > 0) uf hf mode") (auto simp: bind_c_def split: sum.splits)
  let ?bp = "bp\<lparr>tempInputBuffer := None, tempInputBufferPtrs := None, tempOutputBuffer := None,
      tempOutputBufferPtrs := None, framesPerUserBuffer := uf, framesPerHostBuffer := hf,
      inputChannelCount := of_int ic, outputChannelCount := of_int oc, hostBufferSizeMode := mode,
      hostInputBlock := None, hostOutputBlock := None, useNonAdaptingProcess := na,
      framesPerTempBuffer := pt, initialFramesInTempInputBuffer := ii,
      initialFramesInTempOutputBuffer := io, framesInTempInputBuffer := ii, framesInTempOutputBuffer := io\<rparr>"
  obtain c1 bp1 m1 where 1: "(if ic > 0 then bp_input ic uif hif flags ?bp m else (0, ?bp, m)) = (c1, bp1, m1)"
    using prod_cases3 by blast
  obtain c2 bp2 m2 where 2: "(if c1 = 0 \<and> oc > 0 then bp_output oc uof hof flags bp1 m1 else (c1, bp1, m1)) = (c2, bp2, m2)"
    using prod_cases3 by blast
  have "no_blocks ?bp" by (simp add: no_blocks_def bp_blocks_def)
  from bp_sides_owns [OF assms(1) this 1 2] have own: "owns m m2 (bp_blocks bp2)" .
  have res: "(if c2 \<noteq> 0 then Some (bind_r (free_all (bp_blocks bp2) m2) (\<lambda>m. Inr (c2, bp2, m)))
      else Some (Inr (0, bp2\<lparr>ditherGenerator := PaUtil_InitializeTriangularDitherState,
               samplePeriod := f64_inverse rate, bpStreamCallback := cb, bpUserData := ud\<rparr>, m2))) =
      Some (Inr (code, bp', m'))"
    using run unfolding a bind_c_simps Let_def prod.case err.simps 1 2 .
  show ?thesis
  proof (cases "c2 = 0")
    case True
    then show ?thesis using res own by (auto simp: bp_blocks_def)
  next
    case False
    obtain m3 where "free_all (bp_blocks bp2) m2 = Inr m3" "blocks m3 = blocks m"
      using owns_free [OF own] by blast
    then show ?thesis using res False by auto
  qed
qed

section \<open>Properties\<close>

text \<open>
  (C36) \<open>CalculateFrameShift\<close>, which searches the multiples of \<open>M\<close>, computes \<open>N - gcd M N\<close>, or 0
  when \<open>N\<close> divides \<open>M\<close>: so much latency is needed to adapt host buffers of \<open>M\<close> frames to user
  buffers of \<open>N\<close> frames. The search ends, unless the product of the sizes overflows.
\<close>

theorem frame_shift_closed_form:
  assumes "0 < M" and "0 < N" and "unat M * unat N < 2 ^ 64"
  shows "\<exists>s. CalculateFrameShift M N = Some (Inr s) \<and>
    unat s = (if unat N dvd unat M then 0 else unat N - gcd (unat M) (unat N))"
  by (rule CalculateFrameShift_eq [OF assms])

theorem frame_shift_closed_form_witness: "\<exists>s. CalculateFrameShift 4096 441 = Some (Inr s) \<and> unat s = 440"
proof -
  have "gcd 4096 441 = (1 :: nat)" by (simp add: gcd_nat.simps [of 4096] gcd_non_0_nat)
  moreover have "\<not> (441 :: nat) dvd 4096" by presburger
  ultimately show ?thesis using frame_shift_closed_form [of 4096 441] by simp
qed

text \<open>
  (C37) The memory of a buffer processor: an initialization that fails, for whatever reason and at
  whatever allocation, leaves the memory as it was; after one that succeeds the termination frees
  every block once, and the memory is again as before.
\<close>

theorem buffer_processor_memory:
  assumes "mem_ok m"
    and "PaUtil_InitializeBufferProcessor bp ic uif hif oc uof hof rate flags uf hf mode cb ud m =
      Some (Inr (code, bp', m'))"
  shows "if code = err paNoError
    then \<exists>m''. PaUtil_TerminateBufferProcessor bp' m' = Inr m'' \<and> blocks m'' = blocks m
    else blocks m' = blocks m"
  using PaUtil_InitializeBufferProcessor_owns [OF assms] owns_free [of m m' "bp_blocks bp'"]
  by (auto simp: PaUtil_TerminateBufferProcessor_def)

definition start_mem :: "(nat \<Rightarrow> bool) \<Rightarrow> mem" where
  "start_mem f = \<lparr>blocks = (\<lambda>_. None), requests = 0, oom = f\<rparr>"

lemma start_mem_ok [simp]: "mem_ok (start_mem f)"
  by (simp add: start_mem_def mem_ok_def)

theorem buffer_processor_memory_witness:
  "\<forall>bp. \<exists>bp' m'. PaUtil_InitializeBufferProcessor bp 1 paInt16 paInt16 0 0 0 (Fin 44100) 0 64 64
      paUtilFixedHostBufferSize (Some 1) 0 (start_mem (\<lambda>n. n = 1)) = Some (Inr (err paInsufficientMemory, bp', m')) \<and>
    blocks m' = blocks (start_mem (\<lambda>n. n = 1))"
proof
  fix bp
  have "\<exists>bp' m'. PaUtil_InitializeBufferProcessor bp 1 paInt16 paInt16 0 0 0 (Fin 44100) 0 64 64
      paUtilFixedHostBufferSize (Some 1) 0 (start_mem (\<lambda>n. n = 1)) = Some (Inr (err paInsufficientMemory, bp', m'))"
    by (simp add: PaUtil_InitializeBufferProcessor_def bp_adaption_def bp_input_def bp_blocks_def Let_def
        Pa_GetSampleSize_def PaUtil_AllocateMemory_def PaUtil_FreeMemory_def start_mem_def)
  then show "\<exists>bp' m'. PaUtil_InitializeBufferProcessor bp 1 paInt16 paInt16 0 0 0 (Fin 44100) 0 64 64
      paUtilFixedHostBufferSize (Some 1) 0 (start_mem (\<lambda>n. n = 1)) = Some (Inr (err paInsufficientMemory, bp', m')) \<and>
    blocks m' = blocks (start_mem (\<lambda>n. n = 1))"
    using buffer_processor_memory [OF start_mem_ok] by fastforce
qed

end
