(* ===== verification/PaAlloc.thy ===== *)
theory PaAlloc
  imports PaShift "HOL-Library.Multiset"
begin

text \<open>
  \<open>src/external/portaudio/src/common/pa_allocation.c\<close>: allocation groups, which remember what was
  allocated through them so that all of it can be freed at once. A group keeps three linked lists
  of links, here lists: the blocks the links live in, the spare links, and the links in use, each
  with the buffer it holds. A link is known by its block and its index in it.
\<close>

section \<open>Operations\<close>

type_synonym link = "ptr \<times> nat"

record alloc_group =
  group_block :: ptr
  linkCount :: nat
  linkBlocks :: "ptr list"
  spareLinks :: "link list"
  allocations :: "(link \<times> ptr) list"

definition PA_INITIAL_LINK_COUNT :: nat where "PA_INITIAL_LINK_COUNT = 16"

text \<open>The first link of a new block is the link of the block itself, the others are spare.\<close>

definition AllocateLinks :: "nat \<Rightarrow> ptr list \<Rightarrow> link list \<Rightarrow> mem \<Rightarrow> (ptr list \<times> link list) option \<times> mem" where
  "AllocateLinks n nextBlock nextSpare m =
     (case PaUtil_AllocateMemory (16 * of_nat n) m of
        (None, m) \<Rightarrow> (None, m)
      | (Some b, m) \<Rightarrow> (Some (b # nextBlock, map (Pair b) [1..<n] @ nextSpare), m))"

definition PaUtil_CreateAllocationGroup :: "mem \<Rightarrow> (alloc_group option \<times> mem) result" where
  "PaUtil_CreateAllocationGroup m =
     (case AllocateLinks PA_INITIAL_LINK_COUNT [] [] m of
        (None, m) \<Rightarrow> Inr (None, m)
      | (Some (bs, spare), m) \<Rightarrow>
          (case PaUtil_AllocateMemory 32 m of
             (Some g, m) \<Rightarrow> Inr (Some \<lparr>group_block = g, linkCount = PA_INITIAL_LINK_COUNT, linkBlocks = bs,
                 spareLinks = spare, allocations = []\<rparr>, m)
           | (None, m) \<Rightarrow> bind_r (PaUtil_FreeMemory (Some (hd bs)) m) (\<lambda>m. Inr (None, m))))"

definition PaUtil_DestroyAllocationGroup :: "alloc_group \<Rightarrow> mem \<Rightarrow> mem result" where
  "PaUtil_DestroyAllocationGroup g m =
     bind_r (free_all (map Some (linkBlocks g)) m) (PaUtil_FreeMemory (Some (group_block g)))"

definition more_links :: "alloc_group \<Rightarrow> mem \<Rightarrow> alloc_group \<times> mem" where
  "more_links g m =
     (if spareLinks g = []
      then (case AllocateLinks (linkCount g) (linkBlocks g) (spareLinks g) m of
              (None, m) \<Rightarrow> (g, m)
            | (Some (bs, spare), m) \<Rightarrow>
                (g\<lparr>linkCount := linkCount g + linkCount g, linkBlocks := bs, spareLinks := spare\<rparr>, m))
      else (g, m))"

definition PaUtil_GroupAllocateMemory :: "u64 \<Rightarrow> alloc_group \<Rightarrow> mem \<Rightarrow> ptr option \<times> alloc_group \<times> mem" where
  "PaUtil_GroupAllocateMemory n g m =
     (case more_links g m of (g, m) \<Rightarrow>
        (case spareLinks g of
           [] \<Rightarrow> (None, g, m)
         | l # ls \<Rightarrow>
             (case PaUtil_AllocateMemory n m of
                (None, m) \<Rightarrow> (None, g, m)
              | (Some p, m) \<Rightarrow> (Some p, g\<lparr>spareLinks := ls, allocations := (l, p) # allocations g\<rparr>, m))))"

text \<open>The loop of \<open>PaUtil_GroupFreeMemory\<close> takes the first link with the buffer out of the list.\<close>

fun take_link :: "ptr \<Rightarrow> (link \<times> ptr) list \<Rightarrow> (link option \<times> (link \<times> ptr) list)" where
  "take_link p [] = (None, [])"
| "take_link p ((l, q) # xs) =
     (if q = p then (Some l, xs) else (case take_link p xs of (r, ys) \<Rightarrow> (r, (l, q) # ys)))"

definition PaUtil_GroupFreeMemory :: "ptr option \<Rightarrow> alloc_group \<Rightarrow> mem \<Rightarrow> (alloc_group \<times> mem) result" where
  "PaUtil_GroupFreeMemory buffer g m =
     (case buffer of
        None \<Rightarrow> Inr (g, m)
      | Some p \<Rightarrow>
          (let g = (case take_link p (allocations g) of
                (None, xs) \<Rightarrow> g
              | (Some l, xs) \<Rightarrow> g\<lparr>allocations := xs, spareLinks := l # spareLinks g\<rparr>)
           in bind_r (PaUtil_FreeMemory (Some p) m) (\<lambda>m. Inr (g, m))))"

definition PaUtil_FreeAllAllocations :: "alloc_group \<Rightarrow> mem \<Rightarrow> (alloc_group \<times> mem) result" where
  "PaUtil_FreeAllAllocations g m =
     bind_r (free_all (map (Some \<circ> snd) (allocations g)) m) (\<lambda>m.
       Inr (g\<lparr>spareLinks := map fst (allocations g) @ spareLinks g, allocations := []\<rparr>, m))"

section \<open>What a group owns\<close>

definition group_blocks :: "alloc_group \<Rightarrow> ptr list" where
  "group_blocks g = group_block g # linkBlocks g @ map snd (allocations g)"

text \<open>From \<open>m0\<close>, before the group was made, to \<open>m\<close> exactly the group's blocks have come to life.\<close>

definition group_inv :: "mem \<Rightarrow> alloc_group \<Rightarrow> mem \<Rightarrow> bool" where
  "group_inv m0 g m \<longleftrightarrow> owns m0 m (map Some (group_blocks g))"

lemma nonnull_Some [simp]: "nonnull (map Some ps) = ps"
  by (induction ps) auto

lemma owns_perm: "owns m0 m (map Some ps) \<Longrightarrow> mset ps = mset qs \<Longrightarrow> owns m0 m (map Some qs)"
  using mset_eq_imp_distinct_iff [of ps qs] mset_eq_setD [of ps qs] by (simp add: owns_def)

lemma owns_alloc_Some:
  assumes "owns m0 m (map Some ps)" and "PaUtil_AllocateMemory n m = (Some p, m')"
  shows "owns m0 m' (map Some (p # ps))"
  using owns_perm [of m0 m' "ps @ [p]" "p # ps"] owns_alloc [OF assms] by simp

lemma owns_alloc_fails:
  assumes "owns m0 m (map Some ps)" and "PaUtil_AllocateMemory n m = (None, m')"
  shows "owns m0 m' (map Some ps)"
  using owns_alloc [OF assms] by simp

lemma owns_free_one:
  assumes "owns m0 m (map Some (p # ps))"
  shows "\<exists>m'. PaUtil_FreeMemory (Some p) m = Inr m' \<and> owns m0 m' (map Some ps)"
proof -
  have p: "blocks m p \<noteq> None" "blocks m0 p = None" "p \<notin> set ps" using assms by (auto simp: owns_def)
  let ?m = "m\<lparr>blocks := (blocks m)(p := None)\<rparr>"
  have "PaUtil_FreeMemory (Some p) m = Inr ?m" using p by (auto simp: PaUtil_FreeMemory_def)
  moreover have "owns m0 ?m (map Some ps)"
    using assms p by (auto simp: owns_def mem_ok_def)
  ultimately show ?thesis by blast
qed

lemma owns_free_list:
  "owns m0 m (map Some (ps @ qs)) \<Longrightarrow> \<exists>m'. free_all (map Some ps) m = Inr m' \<and> owns m0 m' (map Some qs)"
proof (induction ps arbitrary: m)
  case Nil
  then show ?case by simp
next
  case (Cons p ps)
  then obtain m1 where "PaUtil_FreeMemory (Some p) m = Inr m1" "owns m0 m1 (map Some (ps @ qs))"
    using owns_free_one [of m0 m p "ps @ qs"] by auto
  with Cons.IH show ?case by auto
qed

lemma create_inv:
  assumes "mem_ok m"
  shows "\<exists>r m'. PaUtil_CreateAllocationGroup m = Inr (r, m') \<and>
    (case r of None \<Rightarrow> blocks m' = blocks m | Some g \<Rightarrow> group_inv m g m')"
proof -
  have o0: "owns m m (map Some [])" using owns_nothing [OF assms] by simp
  show ?thesis
  proof (cases "PaUtil_AllocateMemory (16 * of_nat 16) m")
    case (Pair r m1)
    show ?thesis
    proof (cases r)
      case None
      then show ?thesis using Pair alloc_fails [of _ m m1]
        by (auto simp: PaUtil_CreateAllocationGroup_def AllocateLinks_def PA_INITIAL_LINK_COUNT_def)
    next
      case (Some b)
      have o1: "owns m m1 (map Some [b])" using owns_alloc_Some [OF o0] Pair Some by blast
      obtain r2 m2 where a2: "PaUtil_AllocateMemory 32 m1 = (r2, m2)" by fastforce
      show ?thesis
      proof (cases r2)
        case None
        then have "owns m m2 (map Some [b])" using owns_alloc_fails [OF o1] a2 by blast
        from owns_free_one [OF this] obtain m3 where "PaUtil_FreeMemory (Some b) m2 = Inr m3" "owns m m3 []"
          by auto
        then show ?thesis using Pair Some a2 None
          by (auto simp: PaUtil_CreateAllocationGroup_def AllocateLinks_def PA_INITIAL_LINK_COUNT_def owns_def)
      next
        case g: (Some g)
        then have "owns m m2 (map Some [g, b])" using owns_alloc_Some [OF o1] a2 by blast
        then show ?thesis using Pair Some a2 g
          by (auto simp: PaUtil_CreateAllocationGroup_def AllocateLinks_def PA_INITIAL_LINK_COUNT_def
              group_inv_def group_blocks_def)
      qed
    qed
  qed
qed

lemma more_links_inv:
  assumes "group_inv m0 g m" and "more_links g m = (g', m')"
  shows "group_inv m0 g' m' \<and> allocations g' = allocations g"
proof (cases "spareLinks g = []")
  case False
  then show ?thesis using assms by (simp add: more_links_def)
next
  case True
  have own: "owns m0 m (map Some (group_blocks g))" using assms(1) by (simp add: group_inv_def)
  obtain r m1 where a: "PaUtil_AllocateMemory (16 * of_nat (linkCount g)) m = (r, m1)" by fastforce
  show ?thesis
  proof (cases r)
    case None
    then show ?thesis using assms(2) True a owns_alloc_fails [OF own]
      by (simp add: more_links_def AllocateLinks_def group_inv_def)
  next
    case (Some b)
    have "owns m0 m1 (map Some (b # group_blocks g))" using owns_alloc_Some [OF own] a Some by blast
    then have "owns m0 m1 (map Some (group_block g # (b # linkBlocks g) @ map snd (allocations g)))"
      by (rule owns_perm) (simp add: group_blocks_def)
    then show ?thesis using assms(2) True a Some
      by (auto simp: more_links_def AllocateLinks_def group_inv_def group_blocks_def)
  qed
qed

lemma group_alloc_inv:
  assumes "group_inv m0 g m" and "PaUtil_GroupAllocateMemory n g m = (r, g', m')"
  shows "group_inv m0 g' m' \<and> map snd (allocations g') = (case r of None \<Rightarrow> [] | Some p \<Rightarrow> [p]) @ map snd (allocations g)"
proof -
  obtain g1 m1 where ml: "more_links g m = (g1, m1)" by fastforce
  have i: "group_inv m0 g1 m1" "allocations g1 = allocations g" using more_links_inv [OF assms(1) ml] by auto
  show ?thesis
  proof (cases "spareLinks g1")
    case Nil
    then show ?thesis using assms(2) ml i by (auto simp: PaUtil_GroupAllocateMemory_def)
  next
    case (Cons l ls)
    obtain r2 m2 where a: "PaUtil_AllocateMemory n m1 = (r2, m2)" by fastforce
    show ?thesis
    proof (cases r2)
      case None
      then show ?thesis using assms(2) ml i Cons a owns_alloc_fails
        by (auto simp: PaUtil_GroupAllocateMemory_def group_inv_def)
    next
      case (Some p)
      have "owns m0 m2 (map Some (p # group_blocks g1))" using owns_alloc_Some i(1) a Some group_inv_def by blast
      then have "owns m0 m2 (map Some (group_blocks (g1\<lparr>spareLinks := ls, allocations := (l, p) # allocations g1\<rparr>)))"
        by (rule owns_perm) (simp add: group_blocks_def)
      then show ?thesis using assms(2) ml i Cons a Some
        by (auto simp: PaUtil_GroupAllocateMemory_def group_inv_def)
    qed
  qed
qed

lemma take_link_found:
  "p \<in> snd ` set xs \<Longrightarrow> \<exists>l ys. take_link p xs = (Some l, ys) \<and> mset (map snd xs) = add_mset p (mset (map snd ys))"
proof (induction xs)
  case Nil
  then show ?case by simp
next
  case (Cons lq xs)
  obtain l q where lq: "lq = (l, q)" by fastforce
  show ?case
  proof (cases "q = p")
    case True
    then show ?thesis by (simp add: lq)
  next
    case False
    then show ?thesis using Cons by (cases "take_link p xs") (auto simp: lq)
  qed
qed

lemma group_free_inv:
  assumes "group_inv m0 g m" and "p \<in> snd ` set (allocations g)"
  shows "\<exists>g' m'. PaUtil_GroupFreeMemory (Some p) g m = Inr (g', m') \<and> group_inv m0 g' m' \<and>
    mset (map snd (allocations g)) = add_mset p (mset (map snd (allocations g')))"
proof -
  obtain l ys where t: "take_link p (allocations g) = (Some l, ys)"
    "mset (map snd (allocations g)) = add_mset p (mset (map snd ys))" using take_link_found [OF assms(2)] by blast
  let ?g = "g\<lparr>allocations := ys, spareLinks := l # spareLinks g\<rparr>"
  have "owns m0 m (map Some (group_blocks g))" using assms(1) by (simp add: group_inv_def)
  then have "owns m0 m (map Some (p # group_blocks ?g))"
    by (rule owns_perm) (use t(2) in \<open>simp add: group_blocks_def\<close>)
  from owns_free_one [OF this] obtain m' where "PaUtil_FreeMemory (Some p) m = Inr m'" "owns m0 m' (map Some (group_blocks ?g))"
    by auto
  then show ?thesis using t by (auto simp: PaUtil_GroupFreeMemory_def group_inv_def Let_def)
qed

lemma free_all_inv:
  assumes "group_inv m0 g m"
  shows "\<exists>g' m' m''. PaUtil_FreeAllAllocations g m = Inr (g', m') \<and>
    PaUtil_DestroyAllocationGroup g' m' = Inr m'' \<and> blocks m'' = blocks m0"
proof -
  have "owns m0 m (map Some (group_blocks g))" using assms by (simp add: group_inv_def)
  then have "owns m0 m (map Some (map snd (allocations g) @ linkBlocks g @ [group_block g]))"
    by (rule owns_perm) (simp add: group_blocks_def)
  then obtain m1 where m1: "free_all (map (Some \<circ> snd) (allocations g)) m = Inr m1"
    "owns m0 m1 (map Some (linkBlocks g @ [group_block g]))"
    using owns_free_list [of m0 m "map snd (allocations g)" "linkBlocks g @ [group_block g]"] by (auto simp: o_def)
  obtain m2 where m2: "free_all (map Some (linkBlocks g)) m1 = Inr m2" "owns m0 m2 (map Some [group_block g])"
    using owns_free_list [OF m1(2)] by blast
  from owns_free_one [of m0 m2 "group_block g" "[]"] m2(2)
  obtain m3 where "PaUtil_FreeMemory (Some (group_block g)) m2 = Inr m3" "owns m0 m3 []" by auto
  then show ?thesis using m1(1) m2(1)
    by (auto simp: PaUtil_FreeAllAllocations_def PaUtil_DestroyAllocationGroup_def owns_def)
qed

section \<open>Properties\<close>

text \<open>A client allocates through the group and now and then frees the \<open>i\<close>-th buffer it still has.\<close>

datatype group_op = Allocate u64 | Release nat

fun run_group :: "group_op list \<Rightarrow> alloc_group \<Rightarrow> mem \<Rightarrow> (alloc_group \<times> mem) result" where
  "run_group [] g m = Inr (g, m)"
| "run_group (Allocate n # ops) g m =
     (case PaUtil_GroupAllocateMemory n g m of (_, g, m) \<Rightarrow> run_group ops g m)"
| "run_group (Release i # ops) g m =
     (if i < length (allocations g)
      then bind_r (PaUtil_GroupFreeMemory (Some (snd (allocations g ! i))) g m) (\<lambda>(g, m). run_group ops g m)
      else run_group ops g m)"

lemma run_group_inv:
  "group_inv m0 g m \<Longrightarrow> \<exists>g' m'. run_group ops g m = Inr (g', m') \<and> group_inv m0 g' m'"
proof (induction ops g m rule: run_group.induct)
  case (1 g m)
  then show ?case by simp
next
  case (2 n ops g m)
  obtain r g1 m1 where a: "PaUtil_GroupAllocateMemory n g m = (r, g1, m1)" using prod_cases3 by blast
  then show ?case using 2 group_alloc_inv [OF 2(2) a] by simp
next
  case (3 i ops g m)
  show ?case
  proof (cases "i < length (allocations g)")
    case True
    then have "snd (allocations g ! i) \<in> snd ` set (allocations g)" by simp
    from group_free_inv [OF 3(3) this] obtain g1 m1 where
      "PaUtil_GroupFreeMemory (Some (snd (allocations g ! i))) g m = Inr (g1, m1)" "group_inv m0 g1 m1" by blast
    then show ?thesis using True 3(1) by simp
  next
    case False
    then show ?thesis using 3 by simp
  qed
qed

text \<open>
  An allocation group frees what was allocated through it: after any sequence of allocations,
  some of which may fail, and single releases, freeing all allocations and destroying the group
  is free of faults (no block is freed twice) and leaves the memory as it was before the group.
\<close>

theorem allocation_group_releases:
  assumes "mem_ok m" and "PaUtil_CreateAllocationGroup m = Inr (Some g, m1)"
  shows "\<exists>g2 m2 g3 m3 m4. run_group ops g m1 = Inr (g2, m2) \<and>
    PaUtil_FreeAllAllocations g2 m2 = Inr (g3, m3) \<and>
    PaUtil_DestroyAllocationGroup g3 m3 = Inr m4 \<and> blocks m4 = blocks m"
proof -
  have "group_inv m g m1" using create_inv [OF assms(1)] assms(2) by auto
  then obtain g2 m2 where "run_group ops g m1 = Inr (g2, m2)" "group_inv m g2 m2"
    using run_group_inv by blast
  with free_all_inv show ?thesis by blast
qed

theorem allocation_group_releases_witness:
  "\<exists>g m1 g2 m2 g3 m3 m4. PaUtil_CreateAllocationGroup (start_mem (\<lambda>n. n = 3)) = Inr (Some g, m1) \<and>
    run_group [Allocate 8, Allocate 8, Release 0, Allocate 1] g m1 = Inr (g2, m2) \<and>
    PaUtil_FreeAllAllocations g2 m2 = Inr (g3, m3) \<and>
    PaUtil_DestroyAllocationGroup g3 m3 = Inr m4 \<and> blocks m4 = (\<lambda>_. None)"
proof -
  have "\<exists>g m1. PaUtil_CreateAllocationGroup (start_mem (\<lambda>n. n = 3)) = Inr (Some g, m1)"
    by (simp add: PaUtil_CreateAllocationGroup_def AllocateLinks_def PaUtil_AllocateMemory_def start_mem_def)
  moreover have "blocks (start_mem (\<lambda>n. n = 3)) = (\<lambda>_. None)" by (simp add: start_mem_def)
  ultimately show ?thesis using allocation_group_releases [OF start_mem_ok] by metis
qed

end
