(* ===== verification/PaStreams.thy ===== *)
theory PaStreams
  imports PaFront
begin

text \<open>
  The open streams of \<open>pa_front.c\<close>: the singly linked list that runs through the stream
  representations refines a list of pointers, and what follows for closing and terminating, given
  what a host API promises.
\<close>

section \<open>The linked list\<close>

definition next_of :: "(ptr \<Rightarrow> stream_rep option) \<Rightarrow> ptr \<Rightarrow> ptr option option" where
  "next_of h x = map_option nextOpenStream (h x)"

text \<open>\<open>seg n p xs q\<close>: following the links from \<open>p\<close> one meets \<open>xs\<close> and then \<open>q\<close>.\<close>

fun seg :: "(ptr \<Rightarrow> ptr option option) \<Rightarrow> ptr option \<Rightarrow> ptr list \<Rightarrow> ptr option \<Rightarrow> bool" where
  "seg n p [] q \<longleftrightarrow> p = q"
| "seg n p (x # xs) q \<longleftrightarrow> p = Some x \<and> (\<exists>p'. n x = Some p' \<and> seg n p' xs q)"

definition open_streams :: "'d pa \<Rightarrow> ptr list \<Rightarrow> bool" where
  "open_streams pa xs \<longleftrightarrow> seg (next_of (streams (world pa))) (firstOpenStream pa) xs None \<and> distinct xs"

lemma seg_append: "seg n p (xs @ ys) q \<longleftrightarrow> (\<exists>r. seg n p xs r \<and> seg n r ys q)"
  by (induction xs arbitrary: p) auto

lemma seg_upd [simp]: "x \<notin> set xs \<Longrightarrow> seg (n(x := v)) p xs q = seg n p xs q"
  by (induction xs arbitrary: p) auto

lemma seg_cong: "(\<And>x. x \<in> set xs \<Longrightarrow> n' x = n x) \<Longrightarrow> seg n' p xs q = seg n p xs q"
  by (induction xs arbitrary: p) auto

lemma seg_live: "seg n p xs q \<Longrightarrow> x \<in> set xs \<Longrightarrow> n x \<noteq> None"
  by (induction xs arbitrary: p) auto

lemma open_streams_live: "open_streams pa xs \<Longrightarrow> x \<in> set xs \<Longrightarrow> \<exists>r. streams (world pa) x = Some r"
  using seg_live unfolding open_streams_def next_of_def by fastforce

lemma open_streams_first:
  "open_streams pa xs \<Longrightarrow> firstOpenStream pa = (case xs of [] \<Rightarrow> None | x # _ \<Rightarrow> Some x)"
  by (cases xs) (auto simp: open_streams_def)

lemma streams_update [simp]:
  "streams (world (update_stream p f pa)) = (streams (world pa))(p := map_option f (streams (world pa) p))"
  by (simp add: update_stream_def)

lemma update_stream_frame [simp]:
  "firstOpenStream (update_stream p f pa) = firstOpenStream pa"
  "initializationCount (update_stream p f pa) = initializationCount pa"
  "hostApis (update_stream p f pa) = hostApis pa"
  "driver (world (update_stream p f pa)) = driver (world pa)"
  by (simp_all add: update_stream_def)

lemma next_of_upd [simp]: "next_of (h(p := v)) = (next_of h)(p := map_option nextOpenStream v)"
  by (rule ext) (simp add: next_of_def)

lemma next_of_Some: "next_of h c = Some q \<longleftrightarrow> (\<exists>r. h c = Some r \<and> nextOpenStream r = q)"
  by (auto simp: next_of_def)

lemma AddOpenStream_list:
  assumes "open_streams pa xs" and "streams (world pa) p = Some r" and "p \<notin> set xs"
  shows "\<exists>pa'. AddOpenStream p pa = Inr pa' \<and> open_streams pa' (p # xs)"
  using assms by (auto simp: AddOpenStream_def stream_at_def open_streams_def)

definition links_only :: "'d pa \<Rightarrow> 'd pa \<Rightarrow> bool" where
  "links_only pa pa' \<longleftrightarrow>
     hostApis pa' = hostApis pa \<and> initializationCount pa' = initializationCount pa \<and>
     driver (world pa') = driver (world pa) \<and>
     (\<forall>p. map_option (\<lambda>r. r\<lparr>nextOpenStream := None\<rparr>) (streams (world pa') p) =
          map_option (\<lambda>r. r\<lparr>nextOpenStream := None\<rparr>) (streams (world pa) p))"

lemma links_only_dom: "links_only pa pa' \<Longrightarrow> streams (world pa') p = None \<longleftrightarrow> streams (world pa) p = None"
  unfolding links_only_def by (metis option.map_disc_iff)

lemma remove_loop_list:
  assumes "seg (next_of (streams (world pa))) (firstOpenStream pa) (ys @ zs) None" and "distinct (ys @ zs)"
    and "seg (next_of (streams (world pa))) p zs None"
    and "previous = (if ys = [] then None else Some (last ys))" and "\<forall>x. stream = Some x \<longrightarrow> x \<notin> set ys"
  shows "\<exists>pa'. remove_loop stream previous p pa = Some (Inr pa') \<and>
    open_streams pa' (filter (\<lambda>x. Some x \<noteq> stream) (ys @ zs)) \<and> links_only pa pa'"
  using assms
proof (induction zs arbitrary: ys p previous)
  case Nil
  then have "filter (\<lambda>x. Some x \<noteq> stream) ys = ys" by (auto simp: filter_id_conv)
  then show ?case using Nil
    by (subst remove_loop.simps) (auto simp: open_streams_def links_only_def)
next
  case (Cons c zs)
  let ?h = "streams (world pa)"
  from Cons.prems(3) obtain r where p: "p = Some c" and r: "?h c = Some r"
    and rest: "seg (next_of ?h) (nextOpenStream r) zs None" by (auto simp: next_of_Some)
  show ?case
  proof (cases "stream = Some c")
    case True
    have c: "c \<notin> set ys" "c \<notin> set zs" using Cons.prems(2) by auto
    then have "filter (\<lambda>x. x \<noteq> c) ys = ys" "filter (\<lambda>x. x \<noteq> c) zs = zs"
      by (auto intro!: filter_True)
    then have list: "filter (\<lambda>x. Some x \<noteq> stream) (ys @ c # zs) = ys @ zs"
      using True by simp
    show ?thesis
    proof (cases "ys = []")
      case empty: True
      then show ?thesis unfolding list using Cons.prems(2,4) p r rest True
        by (subst remove_loop.simps) (simp add: stream_at_def open_streams_def links_only_def)
    next
      case False
      then obtain us u where ys: "ys = us @ [u]" by (meson rev_exhaust)
      have u: "u \<notin> set us" "u \<notin> set zs" using Cons.prems(2) ys by auto
      from Cons.prems(1) have "seg (next_of ?h) (firstOpenStream pa) us (Some u)" and "next_of ?h u \<noteq> None"
        by (auto simp: ys seg_append)
      moreover from this(2) obtain ru where ru: "?h u = Some ru" by (auto simp: next_of_Some)
      ultimately have "seg ((next_of ?h)(u := Some (nextOpenStream r))) (firstOpenStream pa) (ys @ zs) None"
        using rest u by (auto simp: ys seg_append)
      then have "open_streams (update_stream u (\<lambda>r'. r'\<lparr>nextOpenStream := nextOpenStream r\<rparr>) pa) (ys @ zs)"
        using Cons.prems(2) by (simp add: open_streams_def ru)
      moreover have "links_only pa (update_stream u (\<lambda>r'. r'\<lparr>nextOpenStream := nextOpenStream r\<rparr>) pa)"
        by (simp add: links_only_def ru)
      ultimately show ?thesis unfolding list using Cons.prems(4) p r True ys
        by (subst remove_loop.simps) (simp add: stream_at_def)
    qed
  next
    case False
    have "\<exists>pa'. remove_loop stream (Some c) (nextOpenStream r) pa = Some (Inr pa') \<and>
        open_streams pa' (filter (\<lambda>x. Some x \<noteq> stream) ((ys @ [c]) @ zs)) \<and> links_only pa pa'"
      by (rule Cons.IH) (use Cons.prems rest False in auto)
    then show ?thesis using p r False by (subst remove_loop.simps) (simp add: stream_at_def)
  qed
qed

lemma RemoveOpenStream_list:
  assumes "open_streams pa xs"
  shows "\<exists>pa'. RemoveOpenStream stream pa = Some (Inr pa') \<and>
    open_streams pa' (filter (\<lambda>x. Some x \<noteq> stream) xs) \<and> links_only pa pa'"
  using remove_loop_list [of pa "[]" xs "firstOpenStream pa" None stream] assms
  by (simp add: RemoveOpenStream_def open_streams_def)

section \<open>What a host API promises\<close>

text \<open>
  The functions of a stream interface work on a live stream, and leave the representations of all
  streams alone, except that \<open>Close\<close> frees its own: always when it reports success, possibly when
  it does not.
\<close>

definition leaves_streams :: "('d world \<Rightarrow> bool) \<Rightarrow> (ptr \<Rightarrow> (int, 'd) host_call) \<Rightarrow> bool" where
  "leaves_streams winv f \<longleftrightarrow> (\<forall>p w. winv w \<and> streams w p \<noteq> None \<longrightarrow>
     (\<exists>x w'. f p w = Inr (x, w') \<and> streams w' = streams w \<and> winv w'))"

text \<open>
  \<open>winv\<close> is what the host API keeps of its own state; it must not depend on the links of the list,
  which belong to the front end.
\<close>

locale host_streams =
  fixes I :: "nat \<Rightarrow> 'd stream_interface" and winv :: "'d world \<Rightarrow> bool"
  assumes is_stopped: "leaves_streams winv (IsStopped (I i))"
    and start: "leaves_streams winv (Start (I i))"
    and stop: "leaves_streams winv (Stop (I i))"
    and abort: "leaves_streams winv (Abort (I i))"
    and close: "winv w \<Longrightarrow> streams w p \<noteq> None \<Longrightarrow> \<exists>x w'. Close (I i) p w = Inr (x, w') \<and> winv w' \<and>
      (streams w' = (streams w)(p := None) \<or> x \<noteq> 0 \<and> streams w' = streams w)"
    and links: "winv w \<Longrightarrow> driver w' = driver w \<Longrightarrow>
      (\<forall>p. map_option (\<lambda>r. r\<lparr>nextOpenStream := None\<rparr>) (streams w' p) =
          map_option (\<lambda>r. r\<lparr>nextOpenStream := None\<rparr>) (streams w p)) \<Longrightarrow> winv w'"
begin

lemma leaves_call:
  assumes "\<And>i. leaves_streams winv (f (I i))" and "streams (world pa) p \<noteq> None" and "winv (world pa)"
  obtains x w' where "host_call I f (Some p) pa = Inr (x, pa\<lparr>world := w'\<rparr>)"
    and "streams w' = streams (world pa)" and "winv w'"
proof -
  obtain r where r: "streams (world pa) p = Some r" using assms(2) by blast
  obtain x w' where "f (I (streamInterface r)) p (world pa) = Inr (x, w') \<and> streams w' = streams (world pa) \<and> winv w'"
    using assms unfolding leaves_streams_def by meson
  with r that show thesis by (simp add: host_call_def stream_at_def)
qed

lemma abort_call:
  assumes "streams (world pa) p \<noteq> None" and "winv (world pa)"
  shows "\<exists>y w. abort_if_running I (Some p) pa = Inr (y, pa\<lparr>world := w\<rparr>) \<and> streams w = streams (world pa) \<and> winv w"
proof -
  obtain x w where s: "host_call I IsStopped (Some p) pa = Inr (x, pa\<lparr>world := w\<rparr>)" "streams w = streams (world pa)" "winv w"
    using leaves_call [of IsStopped, OF is_stopped assms] .
  obtain y w1 where "host_call I Abort (Some p) (pa\<lparr>world := w\<rparr>) = Inr (y, pa\<lparr>world := w1\<rparr>)"
    "streams w1 = streams w" "winv w1"
    using leaves_call [of Abort, OF abort, of "pa\<lparr>world := w\<rparr>" p] assms s(2,3) by auto
  then show ?thesis using s by (auto simp: abort_if_running_def)
qed

lemma stop_call:
  assumes "streams (world pa) p \<noteq> None" and "winv (world pa)"
  shows "\<exists>x w. Pa_StopStream I (Some p) pa = Inr (x, pa\<lparr>world := w\<rparr>) \<and> streams w = streams (world pa) \<and> winv w"
proof -
  obtain code where v: "PaUtil_ValidateStreamPointer (Some p) pa = Inr code"
    using assms(1) by (cases "PA_IS_INITIALISED pa"; cases "streams (world pa) p";
        cases "magic (the (streams (world pa) p)) = PA_STREAM_MAGIC")
      (simp_all add: PaUtil_ValidateStreamPointer_def stream_at_def)
  show ?thesis
  proof (cases "code = 0")
    case False
    then show ?thesis using v assms(2) by (intro exI [of _ code] exI [of _ "world pa"]) (simp add: Pa_StopStream_def)
  next
    case True
    obtain x w where s: "host_call I IsStopped (Some p) pa = Inr (x, pa\<lparr>world := w\<rparr>)" "streams w = streams (world pa)" "winv w"
      using leaves_call [of IsStopped, OF is_stopped assms] .
    obtain y w1 where "host_call I Stop (Some p) (pa\<lparr>world := w\<rparr>) = Inr (y, pa\<lparr>world := w1\<rparr>)"
      "streams w1 = streams w" "winv w1"
      using leaves_call [of Stop, OF stop, of "pa\<lparr>world := w\<rparr>" p] assms s(2,3) by auto
    then show ?thesis using s True v by (cases "x = 0") (auto simp: Pa_StopStream_def)
  qed
qed

lemma close_call:
  assumes "streams (world pa) p \<noteq> None" and "winv (world pa)"
  obtains x w' where "host_call I Close (Some p) pa = Inr (x, pa\<lparr>world := w'\<rparr>)" and "winv w'"
    and "streams w' = (streams (world pa))(p := None) \<or> x \<noteq> 0 \<and> streams w' = streams (world pa)"
proof -
  obtain r where r: "streams (world pa) p = Some r" using assms by blast
  with close [OF assms(2,1), of "streamInterface r"] that show thesis
    by (auto simp: host_call_def stream_at_def)
qed

lemma open_streams_world:
  "open_streams pa xs \<Longrightarrow> (\<And>x. x \<in> set xs \<Longrightarrow> streams w x = streams (world pa) x) \<Longrightarrow>
    open_streams (pa\<lparr>world := w\<rparr>) xs"
  using seg_cong [of xs "next_of (streams w)" "next_of (streams (world pa))"]
  by (simp add: open_streams_def next_of_def)

lemma validate_defined:
  "streams (world pa) p \<noteq> None \<Longrightarrow> \<exists>code. PaUtil_ValidateStreamPointer (Some p) pa = Inr code"
  by (cases "PA_IS_INITIALISED pa"; cases "streams (world pa) p"; cases "magic (the (streams (world pa) p)) = PA_STREAM_MAGIC")
    (simp_all add: PaUtil_ValidateStreamPointer_def stream_at_def)

text \<open>What closing a live stream does, whatever the host answers.\<close>

definition closed :: "ptr \<Rightarrow> int \<Rightarrow> 'd pa \<Rightarrow> 'd pa \<Rightarrow> bool" where
  "closed p code pa pa' \<longleftrightarrow>
     hostApis pa' = hostApis pa \<and> initializationCount pa' = initializationCount pa \<and>
     (\<forall>q. q \<noteq> p \<longrightarrow> (streams (world pa') q = None \<longleftrightarrow> streams (world pa) q = None)) \<and>
     (code = 0 \<longrightarrow> streams (world pa') p = None) \<and> winv (world pa')"

lemma links_inv: "winv (world pa) \<Longrightarrow> links_only pa pa' \<Longrightarrow> winv (world pa')"
  using links unfolding links_only_def by blast

lemma close_stream:
  assumes "open_streams pa xs" and "streams (world pa) p \<noteq> None" and "winv (world pa)"
  shows "\<exists>code pa'. Pa_CloseStream I (Some p) pa = Some (Inr (code, pa')) \<and>
    open_streams pa' (filter (\<lambda>x. x \<noteq> p) xs) \<and> closed p code pa pa'"
proof -
  let ?xs = "filter (\<lambda>x. x \<noteq> p) xs"
  obtain code where v: "PaUtil_ValidateStreamPointer (Some p) pa = Inr code"
    using assms(2) validate_defined by blast
  obtain pa1 where rem: "RemoveOpenStream (Some p) pa = Some (Inr pa1)" and o1: "open_streams pa1 ?xs"
    and l1: "links_only pa pa1"
    using RemoveOpenStream_list [OF assms(1), of "Some p"] by auto
  have live: "streams (world pa1) p \<noteq> None" using links_only_dom [OF l1] assms(2) by simp
  have inv1: "winv (world pa1)" by (rule links_inv [OF assms(3) l1])
  have keep: "closed p c pa (pa1\<lparr>world := w\<rparr>)"
    if "\<And>q. q \<noteq> p \<Longrightarrow> streams w q = streams (world pa1) q" "c = 0 \<longrightarrow> streams w p = None" "winv w" for w c
    using l1 links_only_dom [OF l1] that by (auto simp: closed_def links_only_def)
  have opened: "open_streams (pa1\<lparr>world := w\<rparr>) ?xs" if "\<And>q. q \<noteq> p \<Longrightarrow> streams w q = streams (world pa1) q" for w
    using that by (intro open_streams_world [OF o1]) auto
  show ?thesis
  proof (cases "code = 0")
    case False
    then have "Pa_CloseStream I (Some p) pa = Some (Inr (code, pa1))"
      by (simp add: Pa_CloseStream_def v rem)
    moreover have "closed p code pa pa1" using keep [of "world pa1"] False inv1 by simp
    ultimately show ?thesis using o1 by blast
  next
    case True
    obtain y w1 where a: "abort_if_running I (Some p) pa1 = Inr (y, pa1\<lparr>world := w1\<rparr>)"
      "streams w1 = streams (world pa1)" "winv w1" using abort_call [OF live inv1] by blast
    have cl: "Pa_CloseStream I (Some p) pa = Some (if y = 0 then host_call I Close (Some p) (pa1\<lparr>world := w1\<rparr>)
        else Inr (y, pa1\<lparr>world := w1\<rparr>))"
      using True a by (simp add: Pa_CloseStream_def v rem)
    show ?thesis
    proof (cases "y = 0")
      case False
      then show ?thesis using cl keep [of w1 y] opened [of w1] a(2,3) by auto
    next
      case True
      obtain z w2 where "host_call I Close (Some p) (pa1\<lparr>world := w1\<rparr>) = Inr (z, pa1\<lparr>world := w2\<rparr>)" "winv w2"
        "streams w2 = (streams w1)(p := None) \<or> z \<noteq> 0 \<and> streams w2 = streams w1"
        using close_call [of "pa1\<lparr>world := w1\<rparr>" p] live a(2,3) by auto
      then show ?thesis using cl True keep [of w2 z] opened [of w2] a(2) by auto
    qed
  qed
qed

text \<open>The loop of \<open>CloseOpenStreams\<close> ends: each turn takes the first stream off the list.\<close>

lemma close_all:
  assumes "open_streams pa xs" and "winv (world pa)"
  shows "\<exists>pa'. CloseOpenStreams I pa = Some (Inr pa') \<and> firstOpenStream pa' = None \<and>
    hostApis pa' = hostApis pa \<and> initializationCount pa' = initializationCount pa \<and>
    (\<forall>q. q \<notin> set xs \<longrightarrow> (streams (world pa') q = None \<longleftrightarrow> streams (world pa) q = None)) \<and> winv (world pa')"
  using assms
proof (induction xs arbitrary: pa)
  case Nil
  then show ?case by (subst CloseOpenStreams.simps) (simp add: open_streams_def)
next
  case (Cons x xs)
  have first: "firstOpenStream pa = Some x" and live: "streams (world pa) x \<noteq> None"
    using open_streams_first [OF Cons.prems(1)] open_streams_live [OF Cons.prems(1), of x] by auto
  have "x \<notin> set xs" using Cons.prems by (simp add: open_streams_def)
  then have list: "filter (\<lambda>y. y \<noteq> x) (x # xs) = xs" by (auto intro!: filter_True)
  obtain code pa1 where c: "Pa_CloseStream I (Some x) pa = Some (Inr (code, pa1))"
    "open_streams pa1 xs" "closed x code pa pa1"
    using close_stream [OF Cons.prems(1) live Cons.prems(2)] unfolding list by blast
  show ?case using Cons.IH [OF c(2)] c first
    by (subst CloseOpenStreams.simps) (auto simp: closed_def)
qed

end

end
