(* ===== verification/PaSkeleton.thy ===== *)
theory PaSkeleton
  imports PaAlloc PaStreams
begin

text \<open>
  \<open>src/external/portaudio/src/hostapi/skeleton/pa_hostapi_skeleton.c\<close>: the host API that comes
  with PortAudio as a starting point for new ones, and the part of \<open>pa_cpuload.c\<close> it uses. It
  provides what the front end relies on.

  \<open>infos\<close> are the devices of the host API; the file itself lists none, a host API made from it lists
  its own. A call that does not return is the error \<open>no_return\<close>. Arithmetic on doubles is exact:
  the latencies and periods it yields are compared with nothing. Sizes of structures are those of a
  64-bit build.
\<close>

section \<open>State\<close>

text \<open>The start of a measurement is not set before one begins.\<close>

record cpu_load_measurer =
  samplingPeriod :: f64
  measurementStartTime :: "f64 option"
  averageLoad :: f64

record skeleton_stream =
  cpuLoadMeasurer :: cpu_load_measurer
  bufferProcessor :: buffer_processor
  framesPerHostCallback :: u64

record skel =
  memory :: mem
  skel_streams :: "ptr \<Rightarrow> skeleton_stream option"
  skel_apis :: "nat \<Rightarrow> (ptr \<times> alloc_group) option"

type_synonym skel_world = "skel world"

definition no_return :: cpp_error where
  "no_return = Runtime_error ''no return''"

definition returns :: "'a comp \<Rightarrow> 'a result" where
  "returns c = (case c of None \<Rightarrow> Inl no_return | Some r \<Rightarrow> r)"

definition put_memory :: "mem \<Rightarrow> skel_world \<Rightarrow> skel_world" where
  "put_memory m w = w\<lparr>driver := (driver w)\<lparr>memory := m\<rparr>\<rparr>"

definition PaUtil_InitializeCpuLoadMeasurer :: "f64 \<Rightarrow> cpu_load_measurer result" where
  "PaUtil_InitializeCpuLoadMeasurer sampleRate =
     check (f64_less (Fin 0) sampleRate) (Inr \<lparr>samplingPeriod = f64_inverse sampleRate, measurementStartTime = None, averageLoad = Fin 0\<rparr>)"

definition PaUtil_GetCpuLoad :: "cpu_load_measurer \<Rightarrow> f64" where
  "PaUtil_GetCpuLoad measurer = averageLoad measurer"

section \<open>The host API\<close>

definition skel_Terminate :: "nat \<Rightarrow> skel_world \<Rightarrow> skel_world result" where
  "skel_Terminate hostApi w =
     (case skel_apis (driver w) hostApi of
        None \<Rightarrow> Inl Undefined_behaviour
      | Some (block, grp) \<Rightarrow>
          bind_r (PaUtil_FreeAllAllocations grp (memory (driver w))) (\<lambda>(grp, m).
            bind_r (PaUtil_DestroyAllocationGroup grp m) (\<lambda>m.
              bind_r (PaUtil_FreeMemory (Some block) m) (\<lambda>m.
                Inr (w\<lparr>driver := (driver w)\<lparr>memory := m, skel_apis := (skel_apis (driver w))(hostApi := None)\<rparr>\<rparr>)))))"

definition device_at :: "device_info list \<Rightarrow> int \<Rightarrow> device_info result" where
  "device_at infos i = (if 0 \<le> i \<and> nat i < length infos then Inr (infos ! nat i) else Inl Undefined_behaviour)"

text \<open>The checks for one side; \<open>maxChannels\<close> is the field for the side.\<close>

definition skel_check_format ::
  "device_info list \<Rightarrow> (device_info \<Rightarrow> int) \<Rightarrow> stream_parameters option \<Rightarrow> int result" where
  "skel_check_format infos maxChannels params =
     (case params of
        None \<Rightarrow> Inr (err paNoError)
      | Some ps \<Rightarrow>
          if sampleFormat ps AND paCustomFormat \<noteq> 0 then Inr (err paSampleFormatNotSupported)
          else if device ps = paUseHostApiSpecificDeviceSpecification then Inr (err paInvalidDevice)
          else bind_r (device_at infos (device ps)) (\<lambda>i.
            if channelCount ps > maxChannels i then Inr (err paInvalidChannelCount)
            else if hostApiSpecificStreamInfo ps \<noteq> None then Inr (err paIncompatibleHostApiSpecificStreamInfo)
            else Inr (err paNoError)))"

definition skel_IsFormatSupported ::
  "device_info list \<Rightarrow> nat \<Rightarrow> stream_parameters option \<Rightarrow> stream_parameters option \<Rightarrow> f64 \<Rightarrow> (int, skel) host_call" where
  "skel_IsFormatSupported infos hostApi inputParameters outputParameters sampleRate w =
     bind_r (skel_check_format infos maxInputChannels inputParameters) (\<lambda>code.
       if code \<noteq> err paNoError then Inr (code, w)
       else bind_r (skel_check_format infos maxOutputChannels outputParameters) (\<lambda>code. Inr (code, w)))"

text \<open>
  One side of \<open>OpenStream\<close>: an error code, or the channel count and the user and host formats.
\<close>

definition skel_side ::
  "device_info list \<Rightarrow> (device_info \<Rightarrow> int) \<Rightarrow> stream_parameters option \<Rightarrow> (int + int \<times> u64 \<times> u64) result" where
  "skel_side infos maxChannels params =
     (case params of
        None \<Rightarrow> Inr (Inr (0, paInt16, paInt16))
      | Some ps \<Rightarrow>
          if device ps = paUseHostApiSpecificDeviceSpecification then Inr (Inl (err paInvalidDevice))
          else bind_r (device_at infos (device ps)) (\<lambda>i.
            if channelCount ps > maxChannels i then Inr (Inl (err paInvalidChannelCount))
            else if hostApiSpecificStreamInfo ps \<noteq> None
            then Inr (Inl (err paIncompatibleHostApiSpecificStreamInfo))
            else bind_r (returns (map_option Inr (PaUtil_SelectClosestAvailableFormat paInt16 (sampleFormat ps))))
              (\<lambda>host. Inr (Inr (channelCount ps, sampleFormat ps, host)))))"

definition f64_of_frames :: "u64 \<Rightarrow> f64 \<Rightarrow> f64" where
  "f64_of_frames n rate = (case rate of Fin r \<Rightarrow> if r = 0 then NaN else Fin (of_nat (unat n) / r) | NaN \<Rightarrow> NaN | _ \<Rightarrow> Fin 0)"

text \<open>
  The part of \<open>OpenStream\<close> behind the checks: the allocation and set-up of the stream. \<open>raw\<close> is the
  content of the new block.
\<close>

definition skel_create ::
  "buffer_processor \<Rightarrow> int \<times> u64 \<times> u64 \<Rightarrow> int \<times> u64 \<times> u64 \<Rightarrow> f64 \<Rightarrow> u64 \<Rightarrow> u64 \<Rightarrow> nat option \<Rightarrow> nat \<Rightarrow>
     (int \<times> ptr option, skel) host_call" where
  "skel_create raw inp out sampleRate framesPerBuffer streamFlags callback ud w =
     (case (inp, out) of ((ic, uif, hif), (oc, uof, hof)) \<Rightarrow>
       (case PaUtil_AllocateMemory 416 (memory (driver w)) of
          (None, m) \<Rightarrow> Inr ((err paInsufficientMemory, None), put_memory m w)
        | (Some p, m) \<Rightarrow>
            bind_r (PaUtil_InitializeCpuLoadMeasurer sampleRate) (\<lambda>cpu.
              bind_r (returns (PaUtil_InitializeBufferProcessor raw ic uif hif oc uof hof sampleRate streamFlags
                  framesPerBuffer framesPerBuffer paUtilFixedHostBufferSize callback ud m)) (\<lambda>(code, bp, m).
                if code \<noteq> err paNoError
                then bind_r (PaUtil_FreeMemory (Some p) m) (\<lambda>m. Inr ((code, None), put_memory m w))
                else
                  let rep = PaUtil_InitializeStreamRepresentation (if callback \<noteq> None then 0 else 1) callback ud;
                      rep = rep\<lparr>inputLatency := f64_of_frames (PaUtil_GetBufferProcessorInputLatencyFrames bp) sampleRate,
                        outputLatency := f64_of_frames (PaUtil_GetBufferProcessorOutputLatencyFrames bp) sampleRate,
                        streamSampleRate := sampleRate\<rparr>
                  in Inr ((err paNoError, Some p),
                    w\<lparr>streams := (streams w)(p \<mapsto> rep),
                      driver := (driver w)\<lparr>memory := m, skel_streams := (skel_streams (driver w))(p \<mapsto>
                        \<lparr>cpuLoadMeasurer = cpu, bufferProcessor = bp, framesPerHostCallback = framesPerBuffer\<rparr>)\<rparr>\<rparr>)))))"

definition skel_OpenStream ::
  "buffer_processor \<Rightarrow> device_info list \<Rightarrow> nat \<Rightarrow> stream_parameters option \<Rightarrow> stream_parameters option \<Rightarrow> f64 \<Rightarrow>
     u64 \<Rightarrow> u64 \<Rightarrow> nat option \<Rightarrow> nat \<Rightarrow> (int \<times> ptr option, skel) host_call" where
  "skel_OpenStream raw infos hostApi inputParameters outputParameters sampleRate framesPerBuffer
       streamFlags callback ud w =
     bind_r (skel_side infos maxInputChannels inputParameters) (\<lambda>inp.
       case inp of Inl code \<Rightarrow> Inr ((code, None), w)
       | Inr inp \<Rightarrow>
           bind_r (skel_side infos maxOutputChannels outputParameters) (\<lambda>out.
             case out of Inl code \<Rightarrow> Inr ((code, None), w)
             | Inr out \<Rightarrow>
                 if streamFlags AND paPlatformSpecificFlags \<noteq> 0 then Inr ((err paInvalidFlag, None), w)
                 else skel_create raw inp out sampleRate framesPerBuffer streamFlags callback ud w))"

definition PaSkeleton_Initialize :: "buffer_processor \<Rightarrow> skel initializer" where
  "PaSkeleton_Initialize raw index w =
     (case PaUtil_AllocateMemory 272 (memory (driver w)) of
        (None, m) \<Rightarrow> Inr ((err paInsufficientMemory, None), put_memory m w)
      | (Some b, m) \<Rightarrow>
          bind_r (PaUtil_CreateAllocationGroup m) (\<lambda>(grp, m).
            case grp of
              None \<Rightarrow> bind_r (PaUtil_FreeMemory (Some b) m) (\<lambda>m. Inr ((err paInsufficientMemory, None), put_memory m w))
            | Some g \<Rightarrow> Inr ((err paNoError, Some \<lparr>api_type = 0, api_name = cstr ''skeleton implementation'',
                  deviceCount = 0, defaultInputDevice = paNoDevice, defaultOutputDevice = paNoDevice,
                  baseDeviceIndex = 0, deviceInfos = [], Terminate = skel_Terminate,
                  OpenStream = skel_OpenStream raw [], IsFormatSupported = skel_IsFormatSupported []\<rparr>),
                w\<lparr>driver := (driver w)\<lparr>memory := m, skel_apis := (skel_apis (driver w))(index \<mapsto> (b, g))\<rparr>\<rparr>)))"

section \<open>The stream interface\<close>

text \<open>The stream structure behind a pointer.\<close>

definition skel_stream :: "ptr \<Rightarrow> skel_world \<Rightarrow> (stream_rep \<times> skeleton_stream) result" where
  "skel_stream s w = (case (streams w s, skel_streams (driver w) s) of
     (Some r, Some t) \<Rightarrow> Inr (r, t) | _ \<Rightarrow> Inl Undefined_behaviour)"

definition skel_CloseStream :: "ptr \<Rightarrow> (int, skel) host_call" where
  "skel_CloseStream s w =
     bind_r (skel_stream s w) (\<lambda>(rep, t).
       bind_r (PaUtil_TerminateBufferProcessor (bufferProcessor t) (memory (driver w))) (\<lambda>m.
         let w = w\<lparr>streams := (streams w)(s \<mapsto> PaUtil_TerminateStreamRepresentation rep)\<rparr> in
         bind_r (PaUtil_FreeMemory (Some s) m) (\<lambda>m.
           Inr (err paNoError, w\<lparr>streams := (streams w)(s := None),
             driver := (driver w)\<lparr>memory := m, skel_streams := (skel_streams (driver w))(s := None)\<rparr>\<rparr>))))"

definition skel_StartStream :: "ptr \<Rightarrow> (int, skel) host_call" where
  "skel_StartStream s w =
     bind_r (skel_stream s w) (\<lambda>(rep, t).
       Inr (err paNoError, w\<lparr>driver := (driver w)\<lparr>skel_streams := (skel_streams (driver w))(s \<mapsto>
         t\<lparr>bufferProcessor := PaUtil_ResetBufferProcessor (bufferProcessor t)\<rparr>)\<rparr>\<rparr>))"

definition skel_StopStream :: "ptr \<Rightarrow> (int, skel) host_call" where
  "skel_StopStream s w = Inr (err paNoError, w)"

definition skel_AbortStream :: "ptr \<Rightarrow> (int, skel) host_call" where
  "skel_AbortStream s w = Inr (err paNoError, w)"

definition skel_IsStreamStopped :: "ptr \<Rightarrow> (int, skel) host_call" where
  "skel_IsStreamStopped s w = Inr (0, w)"

definition skel_IsStreamActive :: "ptr \<Rightarrow> (int, skel) host_call" where
  "skel_IsStreamActive s w = Inr (0, w)"

definition skel_GetStreamTime :: "ptr \<Rightarrow> (f64, skel) host_call" where
  "skel_GetStreamTime s w = Inr (Fin 0, w)"

definition skel_GetStreamCpuLoad :: "ptr \<Rightarrow> (f64, skel) host_call" where
  "skel_GetStreamCpuLoad s w = bind_r (skel_stream s w) (\<lambda>(rep, t). Inr (PaUtil_GetCpuLoad (cpuLoadMeasurer t), w))"

definition skel_ReadStream :: "ptr \<Rightarrow> ptr option \<Rightarrow> u64 \<Rightarrow> (int, skel) host_call" where
  "skel_ReadStream s buffer frames w = Inr (err paNoError, w)"

definition skel_WriteStream :: "ptr \<Rightarrow> ptr option \<Rightarrow> u64 \<Rightarrow> (int, skel) host_call" where
  "skel_WriteStream s buffer frames w = Inr (err paNoError, w)"

definition skel_GetStreamReadAvailable :: "ptr \<Rightarrow> (int, skel) host_call" where
  "skel_GetStreamReadAvailable s w = Inr (0, w)"

definition skel_GetStreamWriteAvailable :: "ptr \<Rightarrow> (int, skel) host_call" where
  "skel_GetStreamWriteAvailable s w = Inr (0, w)"

text \<open>The two interfaces: 0 is \<open>callbackStreamInterface\<close>, any other index \<open>blockingStreamInterface\<close>.\<close>

definition skel_interfaces :: "nat \<Rightarrow> skel stream_interface" where
  "skel_interfaces i =
     (if i = 0
      then PaUtil_InitializeStreamInterface skel_CloseStream skel_StartStream skel_StopStream skel_AbortStream
        skel_IsStreamStopped skel_IsStreamActive skel_GetStreamTime skel_GetStreamCpuLoad
        PaUtil_DummyRead PaUtil_DummyWrite PaUtil_DummyGetReadAvailable PaUtil_DummyGetWriteAvailable
      else PaUtil_InitializeStreamInterface skel_CloseStream skel_StartStream skel_StopStream skel_AbortStream
        skel_IsStreamStopped skel_IsStreamActive skel_GetStreamTime PaUtil_DummyGetCpuLoad
        skel_ReadStream skel_WriteStream skel_GetStreamReadAvailable skel_GetStreamWriteAvailable)"

end
