(* ===== verification/PaLifecycle.thy ===== *)
theory PaLifecycle
  imports PaSkeleton
begin

text \<open>
  The skeleton host API keeps what the front end asks of a host API, and with it the life of
  streams: opening, closing, use after closing, and the termination of the library.
\<close>

section \<open>What the skeleton keeps\<close>

definition stream_blocks :: "ptr \<Rightarrow> skeleton_stream \<Rightarrow> ptr list" where
  "stream_blocks p t = p # nonnull (bp_blocks (bufferProcessor t))"

text \<open>Every stream owns its structure and the blocks of its buffer processor, all live, no two streams the same.\<close>

definition skel_inv :: "skel_world \<Rightarrow> bool" where
  "skel_inv w \<longleftrightarrow> mem_ok (memory (driver w)) \<and>
     (\<forall>p. streams w p = None \<longleftrightarrow> skel_streams (driver w) p = None) \<and>
     (\<forall>p t. skel_streams (driver w) p = Some t \<longrightarrow> distinct (stream_blocks p t) \<and>
        (\<forall>b \<in> set (stream_blocks p t). blocks (memory (driver w)) b \<noteq> None)) \<and>
     (\<forall>p q t u. p \<noteq> q \<longrightarrow> skel_streams (driver w) p = Some t \<longrightarrow> skel_streams (driver w) q = Some u \<longrightarrow>
        set (stream_blocks p t) \<inter> set (stream_blocks q u) = {})"

lemma skel_inv_cong:
  "driver w' = driver w \<Longrightarrow> (\<And>p. streams w' p = None \<longleftrightarrow> streams w p = None) \<Longrightarrow> skel_inv w' = skel_inv w"
  by (simp add: skel_inv_def)

lemma skel_live:
  assumes "skel_inv w" and "streams w p \<noteq> None"
  obtains r t where "streams w p = Some r" and "skel_streams (driver w) p = Some t"
  using assms unfolding skel_inv_def by (meson not_None_eq)

lemma skel_close:
  assumes "skel_inv w" and "streams w p \<noteq> None"
  shows "\<exists>w'. skel_CloseStream p w = Inr (0, w') \<and> skel_inv w' \<and> streams w' = (streams w)(p := None)"
proof -
  let ?m = "memory (driver w)"
  obtain r t where rt: "streams w p = Some r" "skel_streams (driver w) p = Some t"
    using skel_live [OF assms] .
  have live: "distinct (stream_blocks p t)" "\<forall>b \<in> set (stream_blocks p t). blocks ?m b \<noteq> None"
    using assms(1) rt(2) by (auto simp: skel_inv_def)
  obtain m1 where m1: "free_all (bp_blocks (bufferProcessor t)) ?m = Inr m1" "requests m1 = requests ?m"
    "blocks m1 = (\<lambda>b. if b \<in> set (nonnull (bp_blocks (bufferProcessor t))) then None else blocks ?m b)"
    using free_all_live [of "bp_blocks (bufferProcessor t)" ?m] live by (auto simp: stream_blocks_def)
  let ?m2 = "m1\<lparr>blocks := (blocks m1)(p := None)\<rparr>"
  have f: "PaUtil_FreeMemory (Some p) m1 = Inr ?m2"
    using m1(3) live by (auto simp: PaUtil_FreeMemory_def stream_blocks_def)
  have b2: "blocks ?m2 = (\<lambda>b. if b \<in> set (stream_blocks p t) then None else blocks ?m b)"
    using m1(3) by (auto simp: stream_blocks_def)
  let ?w = "w\<lparr>streams := (streams w)(p := None),
     driver := (driver w)\<lparr>memory := ?m2, skel_streams := (skel_streams (driver w))(p := None)\<rparr>\<rparr>"
  have "skel_CloseStream p w = Inr (0, ?w)"
    using rt m1(1) f by (simp add: skel_CloseStream_def skel_stream_def PaUtil_TerminateBufferProcessor_def Let_def)
  moreover have "skel_inv ?w"
  proof -
    have disj: "set (stream_blocks p t) \<inter> set (stream_blocks q u) = {}"
      if "skel_streams (driver w) q = Some u" "q \<noteq> p" for q u
      using assms(1) rt(2) that unfolding skel_inv_def by blast
    have ok: "mem_ok ?m2" using assms(1) m1(2) by (auto simp: mem_ok_def skel_inv_def b2 simp del: fun_upd_apply)
    have lives: "\<forall>b \<in> set (stream_blocks q u). blocks ?m2 b \<noteq> None" if "skel_streams (driver w) q = Some u" "q \<noteq> p" for q u
      using disj [OF that] assms(1) that by (auto simp: b2 skel_inv_def simp del: fun_upd_apply)
    show ?thesis using assms(1) ok lives unfolding skel_inv_def by auto
  qed
  ultimately show ?thesis by auto
qed

lemma skel_close_leaves: "leaves_streams skel_inv skel_StartStream"
  unfolding leaves_streams_def
proof (intro allI impI)
  fix p and w :: skel_world
  assume w: "skel_inv w \<and> streams w p \<noteq> None"
  moreover obtain r t where rt: "streams w p = Some r" "skel_streams (driver w) p = Some t"
    using skel_live w by blast
  moreover have "bp_blocks (PaUtil_ResetBufferProcessor bp) = bp_blocks bp" for bp
    by (simp add: bp_blocks_def PaUtil_ResetBufferProcessor_def)
  ultimately show "\<exists>x w'. skel_StartStream p w = Inr (x, w') \<and> streams w' = streams w \<and> skel_inv w'"
    by (auto simp: skel_StartStream_def skel_stream_def skel_inv_def stream_blocks_def)
qed

interpretation skeleton: host_streams skel_interfaces skel_inv
proof
  fix i
  show "leaves_streams skel_inv (Start (skel_interfaces i))"
    using skel_close_leaves by (simp add: skel_interfaces_def PaUtil_InitializeStreamInterface_def)
  show "leaves_streams skel_inv (IsStopped (skel_interfaces i))"
    "leaves_streams skel_inv (Stop (skel_interfaces i))" "leaves_streams skel_inv (Abort (skel_interfaces i))"
    by (simp_all add: skel_interfaces_def PaUtil_InitializeStreamInterface_def leaves_streams_def
        skel_IsStreamStopped_def skel_StopStream_def skel_AbortStream_def)
next
  fix i p and w :: skel_world
  assume w: "skel_inv w" "streams w p \<noteq> None"
  have "Close (skel_interfaces i) = skel_CloseStream"
    by (simp add: skel_interfaces_def PaUtil_InitializeStreamInterface_def)
  with skel_close [OF w] show "\<exists>x w'. Close (skel_interfaces i) p w = Inr (x, w') \<and> skel_inv w' \<and>
      (streams w' = (streams w)(p := None) \<or> x \<noteq> 0 \<and> streams w' = streams w)" by auto
next
  fix w w' :: skel_world
  assume "skel_inv w" "driver w' = driver w"
    and l: "\<forall>p. map_option (\<lambda>r. r\<lparr>nextOpenStream := None\<rparr>) (streams w' p) =
          map_option (\<lambda>r. r\<lparr>nextOpenStream := None\<rparr>) (streams w p)"
  moreover have "streams w' p = None \<longleftrightarrow> streams w p = None" for p using l by (metis option.map_disc_iff)
  ultimately show "skel_inv w'" using skel_inv_cong by blast
qed

section \<open>Properties\<close>

text \<open>
  (C33) The linked list of open streams on the heap refines a list of pointers: adding a stream puts
  it in front, removing one takes it out wherever it is, ends, and changes nothing but links.
\<close>

theorem open_stream_list:
  assumes "open_streams pa xs" and "streams (world pa) p \<noteq> None" and "p \<notin> set xs"
  shows "\<exists>pa1. AddOpenStream p pa = Inr pa1 \<and> open_streams pa1 (p # xs) \<and>
    (\<forall>stream. \<exists>pa2. RemoveOpenStream stream pa1 = Some (Inr pa2) \<and>
       open_streams pa2 (filter (\<lambda>x. Some x \<noteq> stream) (p # xs)) \<and> links_only pa1 pa2)"
proof -
  obtain r where "streams (world pa) p = Some r" using assms(2) by blast
  from AddOpenStream_list [OF assms(1) this assms(3)] obtain pa1 where
    "AddOpenStream p pa = Inr pa1" and pa1: "open_streams pa1 (p # xs)" by blast
  with RemoveOpenStream_list [OF pa1] show ?thesis by blast
qed

definition silent_rep :: stream_rep where
  "silent_rep = PaUtil_InitializeStreamRepresentation 0 None 0"

definition streams_at :: "ptr set \<Rightarrow> skel_world" where
  "streams_at ps = \<lparr>streams = (\<lambda>p. if p \<in> ps then Some silent_rep else None),
     driver = \<lparr>memory = start_mem (\<lambda>_. False), skel_streams = (\<lambda>_. None), skel_apis = (\<lambda>_. None)\<rparr>\<rparr>"

theorem open_stream_list_witness:
  "\<exists>pa1. AddOpenStream 7 (pa_start (streams_at {7})) = Inr pa1 \<and> open_streams pa1 [7] \<and>
    (\<exists>pa2. RemoveOpenStream (Some 7) pa1 = Some (Inr pa2) \<and> open_streams pa2 [])"
proof -
  have "open_streams (pa_start (streams_at {7})) []" by (simp add: open_streams_def pa_start_def)
  moreover have "streams (world (pa_start (streams_at {7}))) 7 \<noteq> None" by (simp add: pa_start_def streams_at_def)
  ultimately obtain pa1 where "AddOpenStream 7 (pa_start (streams_at {7})) = Inr pa1" "open_streams pa1 [7]"
    "\<forall>stream. \<exists>pa2. RemoveOpenStream stream pa1 = Some (Inr pa2) \<and>
       open_streams pa2 (filter (\<lambda>x. Some x \<noteq> stream) [7]) \<and> links_only pa1 pa2"
    using open_stream_list [of "pa_start (streams_at {7})" "[]" 7] by auto
  moreover from this(3) obtain pa2 where "RemoveOpenStream (Some 7) pa1 = Some (Inr pa2)" "open_streams pa2 []"
    by (auto dest: spec [of _ "Some 7"])
  ultimately show ?thesis by blast
qed

text \<open>
  (C34) The last \<open>Pa_Terminate\<close> returns, whatever the host API answers when its streams are aborted
  and closed: no stream stays in the list, no host API is left, and the library is not initialized.
\<close>

theorem terminate_closes_streams:
  assumes "host_streams I winv" and "open_streams pa xs" and "winv (world pa)"
    and "initializationCount pa = 1"
    and "\<forall>w. winv w \<longrightarrow> (\<exists>w'. terminate_loop (rev (hostApis pa)) w = Inr w')"
  shows "\<exists>pa'. Pa_Terminate I pa = Some (Inr (0, pa')) \<and> initializationCount pa' = 0 \<and>
    firstOpenStream pa' = None \<and> hostApis pa' = []"
proof -
  obtain pa1 where c: "CloseOpenStreams I pa = Some (Inr pa1)" "firstOpenStream pa1 = None"
    "hostApis pa1 = hostApis pa" "initializationCount pa1 = 1" "winv (world pa1)"
    using host_streams.close_all [OF assms(1-3)] assms(4) by auto
  obtain w where "terminate_loop (rev (hostApis pa1)) (world pa1) = Inr w" using assms(5) c(3,5) by metis
  then show ?thesis using assms(4) c
    by (simp add: Pa_Terminate_def PA_IS_INITIALISED_def TerminateHostApis_def)
qed

definition one_stream :: "buffer_processor \<Rightarrow> skel pa" where
  "one_stream bp = \<lparr>hostApis = [], defaultHostApiIndex = 0, initializationCount = 1, totalDevices = 0,
     firstOpenStream = Some 0, world = \<lparr>streams = [0 \<mapsto> silent_rep],
       driver = \<lparr>memory = \<lparr>blocks = [0 \<mapsto> 416], requests = 1, oom = (\<lambda>_. False)\<rparr>,
         skel_streams = [0 \<mapsto> \<lparr>cpuLoadMeasurer = \<lparr>samplingPeriod = Fin 1, measurementStartTime = None, averageLoad = Fin 0\<rparr>,
           bufferProcessor = bp\<lparr>tempInputBuffer := None, tempInputBufferPtrs := None, hostInputBlock := None,
             tempOutputBuffer := None, tempOutputBufferPtrs := None, hostOutputBlock := None\<rparr>,
           framesPerHostCallback = 64\<rparr>], skel_apis = (\<lambda>_. None)\<rparr>\<rparr>\<rparr>"

lemma one_stream_ok: "open_streams (one_stream bp) [0]" "skel_inv (world (one_stream bp))"
  by (auto simp: one_stream_def open_streams_def next_of_def silent_rep_def
      PaUtil_InitializeStreamRepresentation_def skel_inv_def mem_ok_def stream_blocks_def bp_blocks_def)

theorem terminate_closes_streams_witness:
  "\<forall>bp. \<exists>pa'. Pa_Terminate skel_interfaces (one_stream bp) = Some (Inr (0, pa')) \<and> firstOpenStream pa' = None"
proof
  fix bp
  have "initializationCount (one_stream bp) = 1" "hostApis (one_stream bp) = []" by (simp_all add: one_stream_def)
  then show "\<exists>pa'. Pa_Terminate skel_interfaces (one_stream bp) = Some (Inr (0, pa')) \<and> firstOpenStream pa' = None"
    using terminate_closes_streams [OF skeleton.host_streams_axioms one_stream_ok [of bp]] by auto
qed

text \<open>
  A stream pointer is dead once \<open>Pa_CloseStream\<close> has succeeded: as long as the library is
  initialized, starting, stopping or closing it again reads freed memory, because the check of the
  pointer itself does. Only when the library is not initialized are the calls refused.
\<close>

theorem use_after_close:
  assumes "host_streams I winv" and "open_streams pa xs" and "winv (world pa)" and "p \<in> set xs"
    and "Pa_CloseStream I (Some p) pa = Some (Inr (0, pa'))" and "initializationCount pa \<noteq> 0"
  shows "Pa_StartStream I (Some p) pa' = Inl Undefined_behaviour \<and>
    Pa_StopStream I (Some p) pa' = Inl Undefined_behaviour \<and>
    Pa_CloseStream I (Some p) pa' = Some (Inl Undefined_behaviour) \<and>
    Pa_StopStream I (Some p) (pa'\<lparr>initializationCount := 0\<rparr>) =
      Inr (err paNotInitialized, pa'\<lparr>initializationCount := 0\<rparr>)"
proof -
  have "streams (world pa) p \<noteq> None" using open_streams_live [OF assms(2,4)] by auto
  from host_streams.close_stream [OF assms(1,2) this assms(3)] assms(1,5)
  have "streams (world pa') p = None" and "initializationCount pa' = initializationCount pa"
    by (auto simp: host_streams.closed_def)
  then have "PaUtil_ValidateStreamPointer (Some p) pa' = Inl Undefined_behaviour"
    using assms(6) by (simp add: PaUtil_ValidateStreamPointer_def PA_IS_INITIALISED_def stream_at_def)
  moreover have "PaUtil_ValidateStreamPointer (Some p) (pa'\<lparr>initializationCount := 0\<rparr>) = Inr (err paNotInitialized)"
    by (simp add: PaUtil_ValidateStreamPointer_def PA_IS_INITIALISED_def)
  ultimately show ?thesis by (simp add: Pa_StartStream_def Pa_StopStream_def Pa_CloseStream_def)
qed

theorem use_after_close_witness:
  "\<forall>bp. \<exists>pa'. Pa_CloseStream skel_interfaces (Some 0) (one_stream bp) = Some (Inr (0, pa')) \<and>
     Pa_StopStream skel_interfaces (Some 0) pa' = Inl Undefined_behaviour"
proof
  fix bp
  have "streams (world (one_stream bp)) 0 \<noteq> None" by (simp add: one_stream_def)
  from skeleton.close_stream [OF one_stream_ok(1) [of bp] this one_stream_ok(2) [of bp]]
  obtain code pa' where c: "Pa_CloseStream skel_interfaces (Some 0) (one_stream bp) = Some (Inr (code, pa'))" by blast
  have "code = 0"
    using c by (simp add: one_stream_def Pa_CloseStream_def PaUtil_ValidateStreamPointer_def PA_IS_INITIALISED_def
        stream_at_def silent_rep_def PaUtil_InitializeStreamRepresentation_def RemoveOpenStream_def
        remove_loop.simps abort_if_running_def host_call_def skel_interfaces_def
        PaUtil_InitializeStreamInterface_def skel_IsStreamStopped_def skel_AbortStream_def
        skel_CloseStream_def skel_stream_def Let_def PaUtil_TerminateBufferProcessor_def bp_blocks_def
        PaUtil_FreeMemory_def)
  moreover have "initializationCount (one_stream bp) \<noteq> 0" by (simp add: one_stream_def)
  ultimately show "\<exists>pa'. Pa_CloseStream skel_interfaces (Some 0) (one_stream bp) = Some (Inr (0, pa')) \<and>
      Pa_StopStream skel_interfaces (Some 0) pa' = Inl Undefined_behaviour"
    using use_after_close [OF skeleton.host_streams_axioms one_stream_ok [of bp] _ c [unfolded \<open>code = 0\<close>]] c by auto
qed

end
