(* ===== verification/Float32.thy ===== *)
theory Float32
  imports Main
begin

text \<open>
  The single-precision arithmetic the audio code uses: \<open>float\<close> of an \<open>int\<close>, product, sum,
  difference, and the conversion back, each rounded to 24 significant bits, ties to even (IEEE
  754 binary32 as the Dockerfile's x86-64 image evaluates it, operation by operation).

  \<open>Fl m e\<close> is the number \<open>m / 2 ^ e\<close>. The values of the program lie between \<open>2 ^ -27\<close> and
  \<open>2 ^ 17\<close> in magnitude (or are zero), far from the overflow and underflow thresholds, which are
  therefore not represented.
\<close>

datatype float32 = Fl (num: int) (scale: nat)

text \<open>\<open>a / b\<close> and the truncation of a float, both towards zero, as in C++.\<close>

definition quot_c :: "int \<Rightarrow> int \<Rightarrow> int" where
  "quot_c a b = sgn a * sgn b * (\<bar>a\<bar> div \<bar>b\<bar>)"

text \<open>\<open>m / 2 ^ k\<close> rounded to the nearest integer, ties to even.\<close>

definition round_div :: "int \<Rightarrow> nat \<Rightarrow> int" where
  "round_div m k =
     (let q = m div 2 ^ k; r = 2 * (m mod 2 ^ k)
      in if r < 2 ^ k then q else if r > 2 ^ k then q + 1 else if even q then q else q + 1)"

fun bit_length :: "nat \<Rightarrow> nat" where
  "bit_length n = (if n = 0 then 0 else Suc (bit_length (n div 2)))"

declare bit_length.simps [simp del]

definition round24 :: "int \<Rightarrow> int" where
  "round24 m =
     (let k = bit_length (nat \<bar>m\<bar>) - 24 in round_div m k * 2 ^ k)"

definition fl_of_int :: "int \<Rightarrow> float32" where
  "fl_of_int n = Fl (round24 n) 0"

definition fl_mul :: "float32 \<Rightarrow> float32 \<Rightarrow> float32" where
  "fl_mul x y = Fl (round24 (num x * num y)) (scale x + scale y)"

definition fl_add :: "float32 \<Rightarrow> float32 \<Rightarrow> float32" where
  "fl_add x y =
     (let e = max (scale x) (scale y)
      in Fl (round24 (num x * 2 ^ (e - scale x) + num y * 2 ^ (e - scale y))) e)"

definition fl_sub :: "float32 \<Rightarrow> float32 \<Rightarrow> float32" where
  "fl_sub x y = fl_add x (Fl (- num y) (scale y))"

definition fl_trunc :: "float32 \<Rightarrow> int" where
  "fl_trunc x = quot_c (num x) (2 ^ scale x)"

text \<open>The literals \<open>0.5f\<close> and \<open>0.1f\<close> (the float nearest to one tenth).\<close>

definition half_f :: float32 where
  "half_f = Fl 1 1"

definition tenth_f :: float32 where
  "tenth_f = Fl 13421773 27"

section \<open>Rounding\<close>

lemma quot_c_pos: "0 \<le> a \<Longrightarrow> 0 < b \<Longrightarrow> quot_c a b = a div b"
  by (cases "a = 0") (simp_all add: quot_c_def)

lemma quot_c_neg: "a \<le> 0 \<Longrightarrow> 0 < b \<Longrightarrow> quot_c a b = - ((- a) div b)"
  by (cases "a = 0") (simp_all add: quot_c_def)

lemma div_le: "0 < b \<Longrightarrow> a < (u + 1) * b \<Longrightarrow> a div b \<le> (u :: int)"
proof (rule ccontr)
  assume b: "0 < b" "a < (u + 1) * b" and "\<not> a div b \<le> u"
  then have "(u + 1) * b \<le> a div b * b" by (intro mult_right_mono) auto
  also have "\<dots> \<le> a" using b(1) pos_mod_sign [of b a] div_mult_mod_eq [of a b] by linarith
  finally show False using b(2) by simp
qed

lemma quot_c_bounds:
  assumes "0 < b"
  shows "l \<le> 0 \<Longrightarrow> (l - 1) * b < a \<Longrightarrow> l \<le> quot_c a b" "0 \<le> u \<Longrightarrow> a < (u + 1) * b \<Longrightarrow> quot_c a b \<le> u"
proof -
  show "l \<le> quot_c a b" if "l \<le> 0" "(l - 1) * b < a"
  proof (cases "0 \<le> a")
    case True
    then show ?thesis using that assms by (simp add: quot_c_pos pos_imp_zdiv_nonneg_iff order_trans [of l 0])
  next
    case False
    have "- a < (- l + 1) * b" using that by (simp add: algebra_simps)
    from div_le [OF assms this] show ?thesis using False assms by (simp add: quot_c_neg)
  qed
  show "quot_c a b \<le> u" if "0 \<le> u" "a < (u + 1) * b"
  proof (cases "0 \<le> a")
    case True
    then show ?thesis using div_le [OF assms that(2)] assms by (simp add: quot_c_pos)
  next
    case False
    then have "0 \<le> (- a) div b" using assms by (simp add: pos_imp_zdiv_nonneg_iff)
    then show ?thesis using False assms that by (simp add: quot_c_neg)
  qed
qed

lemma bit_length_le: "n < 2 ^ k \<Longrightarrow> bit_length n \<le> k"
proof (induction k arbitrary: n)
  case 0
  then show ?case by (simp add: bit_length.simps)
next
  case (Suc k)
  then have "bit_length (n div 2) \<le> k" by (intro Suc.IH) auto
  then show ?case by (subst bit_length.simps) simp
qed

lemma round24_small: "\<bar>m\<bar> < 2 ^ 24 \<Longrightarrow> round24 m = m"
proof -
  assume "\<bar>m\<bar> < 2 ^ 24"
  then have "nat \<bar>m\<bar> < 2 ^ 24" by (simp add: nat_less_iff)
  then have "bit_length (nat \<bar>m\<bar>) - 24 = 0" using bit_length_le [of "nat \<bar>m\<bar>" 24] by simp
  then show ?thesis by (simp add: round24_def round_div_def Let_def)
qed

text \<open>The error of a rounding: half a unit of the last place kept.\<close>

lemma round_div_error: "2 * \<bar>round_div m k * 2 ^ k - m\<bar> \<le> 2 ^ k"
proof -
  let ?q = "m div 2 ^ k" and ?r = "m mod 2 ^ k"
  have m: "m = ?q * 2 ^ k + ?r" by (rule div_mult_mod_eq [symmetric])
  have r: "0 \<le> ?r" "?r < 2 ^ k" by simp_all
  have "round_div m k = ?q \<and> 2 * ?r \<le> 2 ^ k \<or> round_div m k = ?q + 1 \<and> 2 ^ k \<le> 2 * ?r"
    by (auto simp: round_div_def Let_def)
  then show ?thesis
  proof
    assume "round_div m k = ?q \<and> 2 * ?r \<le> 2 ^ k"
    then have "round_div m k * 2 ^ k = ?q * 2 ^ k" by simp
    then have "round_div m k * 2 ^ k - m = - ?r" using m by linarith
    with r \<open>_ \<and> _\<close> show ?thesis by simp
  next
    assume a: "round_div m k = ?q + 1 \<and> 2 ^ k \<le> 2 * ?r"
    then have "round_div m k * 2 ^ k = ?q * 2 ^ k + 2 ^ k" by (simp add: algebra_simps)
    then have "round_div m k * 2 ^ k - m = 2 ^ k - ?r" using m by linarith
    moreover have "2 * \<bar>P - x\<bar> \<le> P" if "0 \<le> x" "x < P" "P \<le> 2 * x" for P x :: int
      using that by (simp add: abs_if)
    ultimately show ?thesis using r conjunct2 [OF a] by (simp only:)
  qed
qed

lemma round24_error:
  assumes "\<bar>m\<bar> < 2 ^ (24 + k)"
  shows "2 * \<bar>round24 m - m\<bar> \<le> 2 ^ k"
proof -
  let ?k = "bit_length (nat \<bar>m\<bar>) - 24"
  have "nat \<bar>m\<bar> < 2 ^ (24 + k)" using assms by (simp add: nat_less_iff)
  then have "?k \<le> k" using bit_length_le by fastforce
  then have "(2 :: int) ^ ?k \<le> 2 ^ k" by simp
  moreover have "2 * \<bar>round24 m - m\<bar> \<le> 2 ^ ?k"
    using round_div_error [of m ?k] by (simp add: round24_def Let_def)
  ultimately show ?thesis by linarith
qed

section \<open>The two expressions of the program\<close>

text \<open>\<open>static_cast<int32_t>(sample * 0.5f)\<close> halves towards zero.\<close>

lemma half_exact: "\<bar>n\<bar> < 2 ^ 24 \<Longrightarrow> fl_trunc (fl_mul (fl_of_int n) half_f) = quot_c n 2"
  by (simp add: fl_trunc_def fl_mul_def fl_of_int_def half_f_def round24_small)

text \<open>
  \<open>prev + SMOOTHING_FACTOR * (current - prev)\<close> for two samples, truncated: it stays in the range
  of a sample, and lies within one unit of the point one tenth of the way.
\<close>

definition smooth_step :: "int \<Rightarrow> int \<Rightarrow> int" where
  "smooth_step prev current =
     fl_trunc (fl_add (fl_of_int prev) (fl_mul tenth_f (fl_sub (fl_of_int current) (fl_of_int prev))))"

definition int16_range :: "int \<Rightarrow> bool" where
  "int16_range n \<longleftrightarrow> - 32768 \<le> n \<and> n \<le> 32767"

lemma smooth_step_num:
  assumes "int16_range p" and "int16_range c"
  obtains N where "smooth_step p c = quot_c N (2 ^ 27)"
    "\<bar>N - (p * 2 ^ 27 + 13421773 * (c - p))\<bar> \<le> 2 ^ 19"
proof -
  let ?P = "round24 (13421773 * (c - p))"
  let ?N = "round24 (p * 2 ^ 27 + ?P)"
  have r: "round24 p = p" "round24 c = c" "round24 (c - p) = c - p"
    using assms by (auto simp: int16_range_def intro!: round24_small)
  have "smooth_step p c = quot_c ?N (2 ^ 27)"
    using r by (simp add: smooth_step_def fl_trunc_def fl_add_def fl_mul_def fl_sub_def fl_of_int_def
        tenth_f_def Let_def)
  moreover have "\<bar>13421773 * (c - p)\<bar> < 2 ^ (24 + 16)"
    using assms by (simp add: int16_range_def) linarith
  then have P: "2 * \<bar>?P - 13421773 * (c - p)\<bar> \<le> 2 ^ 16" by (rule round24_error)
  moreover have "\<bar>p * 2 ^ 27 + ?P\<bar> < 2 ^ (24 + 19)"
    using assms P by (simp add: int16_range_def) linarith
  then have "2 * \<bar>?N - (p * 2 ^ 27 + ?P)\<bar> \<le> 2 ^ 19" by (rule round24_error)
  ultimately have "\<bar>?N - (p * 2 ^ 27 + 13421773 * (c - p))\<bar> \<le> 2 ^ 19" by simp
  then show thesis using that [of ?N] \<open>smooth_step p c = quot_c ?N (2 ^ 27)\<close> by simp
qed

lemma smooth_step_range:
  assumes "int16_range p" and "int16_range c"
  shows "int16_range (smooth_step p c)"
proof -
  obtain N where N: "smooth_step p c = quot_c N (2 ^ 27)"
    "\<bar>N - (p * 2 ^ 27 + 13421773 * (c - p))\<bar> \<le> 2 ^ 19"
    using smooth_step_num [OF assms] .
  have "(- 32768 - 1) * 2 ^ 27 < N" "N < (32767 + 1) * 2 ^ 27"
    using N(2) assms by (simp_all add: int16_range_def) linarith+
  then have "- 32768 \<le> quot_c N (2 ^ 27)" "quot_c N (2 ^ 27) \<le> 32767"
    using quot_c_bounds [of "2 ^ 27"] by simp_all
  with N(1) show ?thesis by (simp add: int16_range_def)
qed

end
