(* ===== verification/AudioMixer.thy ===== *)
theory AudioMixer
  imports Prelude Float32 "HOL-Library.Multiset"
begin

text \<open>
  \<open>src/common/AudioPacket.h\<close> and \<open>src/server/AudioMixer.h\<close>: packets of 16-bit samples and the
  mixer. A packet is its vector of bytes; its samples are read in the byte order of the machine
  (\<open>reinterpret_cast<const int16_t*>\<close>). The accumulators are \<open>int32_t\<close> and \<open>int\<close>, whose overflow
  is undefined; the scaling by \<open>0.5f\<close> is evaluated in single precision (theory \<open>Float32\<close>).
\<close>

section \<open>Packets\<close>

type_synonym audio_packet = bytes

definition packet_of :: "bytes \<Rightarrow> nat \<Rightarrow> audio_packet" where
  "packet_of data n = take n data"

definition packet_empty :: "audio_packet \<Rightarrow> bool" where
  "packet_empty pk = (pk = [])"

text \<open>\<open>packet.size() / sizeof(int16_t)\<close> and the samples: a trailing odd byte is no sample.\<close>

definition sample_count :: "audio_packet \<Rightarrow> nat" where
  "sample_count pk = length pk div 2"

definition packet_samples :: "platform \<Rightarrow> audio_packet \<Rightarrow> int list" where
  "packet_samples p pk =
     map (\<lambda>i. sint (object_word (byte_order p) (slice (2 * i) 2 pk) :: i16)) [0..<sample_count pk]"

definition samples_bytes :: "platform \<Rightarrow> int list \<Rightarrow> bytes" where
  "samples_bytes p xs = concat (map (\<lambda>x. object_bytes (byte_order p) 2 (of_int x :: i16)) xs)"

section \<open>The mixer\<close>

definition add_int32 :: "int \<Rightarrow> int \<Rightarrow> int result" where
  "add_int32 a b =
     (if - 2147483648 \<le> a + b \<and> a + b \<le> 2147483647 then Inr (a + b) else Inl Undefined_behaviour)"

definition max_sample_count :: "audio_packet list \<Rightarrow> nat" where
  "max_sample_count packets = foldl (\<lambda>m pk. max m (sample_count pk)) 0 packets"

text \<open>The inner loop, over the samples of a packet from position \<open>i\<close> on.\<close>

fun mix_samples :: "int list \<Rightarrow> nat \<Rightarrow> int list \<Rightarrow> int list \<Rightarrow> (int list \<times> int list) result" where
  "mix_samples [] i mixBuffer sampleCounts = Inr (mixBuffer, sampleCounts)"
| "mix_samples (x # xs) i mixBuffer sampleCounts =
     bind_r (add_int32 (mixBuffer ! i) x) (\<lambda>m.
     bind_r (add_int32 (sampleCounts ! i) 1) (\<lambda>c.
       mix_samples xs (Suc i) (mixBuffer[i := m]) (sampleCounts[i := c])))"

fun mix_packets :: "platform \<Rightarrow> audio_packet list \<Rightarrow> int list \<Rightarrow> int list \<Rightarrow> (int list \<times> int list) result" where
  "mix_packets p [] mixBuffer sampleCounts = Inr (mixBuffer, sampleCounts)"
| "mix_packets p (pk # pks) mixBuffer sampleCounts =
     bind_r (mix_samples (packet_samples p pk) 0 mixBuffer sampleCounts) (\<lambda>(m, c).
       mix_packets p pks m c)"

definition clamp_to :: "int \<Rightarrow> int \<Rightarrow> int \<Rightarrow> int" where
  "clamp_to v lo hi = (if v < lo then lo else if hi < v then hi else v)"

definition normalize_sample :: "int \<Rightarrow> int \<Rightarrow> int" where
  "normalize_sample m c =
     (if c > 0
      then (let sample = quot_c m c;
                scaled_sample = fl_trunc (fl_mul (fl_of_int sample) half_f)
            in clamp_to scaled_sample (- 32768) 32767)
      else 0)"

definition audio_mix :: "platform \<Rightarrow> audio_packet list \<Rightarrow> audio_packet result" where
  "audio_mix p packets =
     (if packets = [] then Inr []
      else (let n = max_sample_count packets in
        bind_r (mix_packets p packets (replicate n 0) (replicate n 0)) (\<lambda>(mixBuffer, sampleCounts).
          let outputBuffer = map2 normalize_sample mixBuffer sampleCounts
          in Inr (packet_of (samples_bytes p outputBuffer) (2 * length outputBuffer)))))"

section \<open>What the mixer should compute\<close>

text \<open>
  At every position, half of the mean of the samples of those packets that reach so far, both
  divisions towards zero.
\<close>

definition column :: "int list list \<Rightarrow> nat \<Rightarrow> int list" where
  "column xss i = map (\<lambda>xs. xs ! i) (filter (\<lambda>xs. i < length xs) xss)"

definition mix_spec :: "int list list \<Rightarrow> int list" where
  "mix_spec xss =
     map (\<lambda>i. quot_c (quot_c (sum_list (column xss i)) (int (length (column xss i)))) 2)
       [0..<Max (insert 0 (length ` set xss))]"

section \<open>Samples and bytes\<close>

lemma length_packet_samples [simp]: "length (packet_samples p pk) = sample_count pk"
  by (simp add: packet_samples_def)

lemma sint_i16_range: "int16_range (sint (w :: i16))"
  using sint_ge [of w] sint_lt [of w] by (simp add: int16_range_def)

lemma packet_samples_range: "x \<in> set (packet_samples p pk) \<Longrightarrow> int16_range x"
  by (auto simp: packet_samples_def sint_i16_range)

lemma length_samples_bytes [simp]: "length (samples_bytes p xs) = 2 * length xs"
  by (induction xs) (simp_all add: samples_bytes_def)

lemma sint_of_int16: "int16_range x \<Longrightarrow> sint (of_int x :: i16) = x"
  by (simp add: int16_range_def signed_of_int signed_take_bit_int_eq_self_iff)

lemma slice_samples_bytes:
  "i < length xs \<Longrightarrow> slice (2 * i) 2 (samples_bytes p xs) = object_bytes (byte_order p) 2 (of_int (xs ! i) :: i16)"
proof (induction xs arbitrary: i)
  case (Cons x xs)
  show ?case
  proof (cases i)
    case 0
    then show ?thesis by (simp add: samples_bytes_def slice_def)
  next
    case (Suc j)
    then show ?thesis using Cons.IH [of j] Cons.prems by (simp add: samples_bytes_def slice_def)
  qed
qed simp

text \<open>Writing samples and reading them back.\<close>

lemma packet_samples_bytes:
  "list_all int16_range xs \<Longrightarrow> packet_samples p (samples_bytes p xs) = xs"
  by (rule nth_equalityI)
    (auto simp: packet_samples_def sample_count_def slice_samples_bytes sint_of_int16 list_all_length)

section \<open>The accumulation loops\<close>

text \<open>
  What the buffers hold after some packets: at each position the sum and the number of the
  samples there.
\<close>

definition acc_sum :: "int list list \<Rightarrow> nat \<Rightarrow> int" where
  "acc_sum xss i = sum_list (column xss i)"

definition acc_count :: "int list list \<Rightarrow> nat \<Rightarrow> int" where
  "acc_count xss i = int (length (column xss i))"

lemma column_simps [simp]:
  "column [] i = []"
  "column (xs # xss) i = (if i < length xs then xs ! i # column xss i else column xss i)"
  "column (xss @ yss) i = column xss i @ column yss i"
  by (simp_all add: column_def)

lemma acc_bounds:
  assumes "\<And>xs. xs \<in> set xss \<Longrightarrow> list_all int16_range xs"
  shows "\<bar>acc_sum xss i\<bar> \<le> 32768 * acc_count xss i" "acc_count xss i \<le> int (length xss)"
    "0 \<le> acc_count xss i"
proof -
  show "\<bar>acc_sum xss i\<bar> \<le> 32768 * acc_count xss i" using assms
  proof (induction xss)
    case (Cons xs xss)
    have "int16_range (xs ! i)" if "i < length xs"
      using Cons.prems [of xs] that by (simp add: list_all_length)
    moreover have "\<bar>acc_sum xss i\<bar> \<le> 32768 * acc_count xss i"
      using Cons.prems by (intro Cons.IH) simp
    ultimately show ?case by (auto simp: acc_sum_def acc_count_def int16_range_def)
  qed (simp add: acc_sum_def acc_count_def)
  show "acc_count xss i \<le> int (length xss)"
    by (simp add: acc_count_def column_def)
qed (simp add: acc_count_def)

lemma map_nth_id: "(\<And>k. k < length xs \<Longrightarrow> f k = xs ! k) \<Longrightarrow> map f [0..<length xs] = xs"
  by (rule nth_equalityI) simp_all

text \<open>The inner loop adds one packet to the positions from \<open>i\<close> on.\<close>

lemma mix_samples_eq:
  assumes "i + length xs \<le> length m" "length c = length m"
    and "\<And>k. k < length xs \<Longrightarrow> \<bar>m ! (i + k) + xs ! k\<bar> \<le> 2147483647"
    and "\<And>k. k < length xs \<Longrightarrow> 0 \<le> c ! (i + k) \<and> c ! (i + k) < 2147483647"
  shows "mix_samples xs i m c =
    Inr (map (\<lambda>k. if i \<le> k \<and> k < i + length xs then m ! k + xs ! (k - i) else m ! k) [0..<length m],
         map (\<lambda>k. if i \<le> k \<and> k < i + length xs then c ! k + 1 else c ! k) [0..<length m])"
  using assms
proof (induction xs arbitrary: i m c)
  case Nil
  have "map (\<lambda>k. if i \<le> k \<and> k < i + length [] then f k else xs ! k) [0..<length xs] = xs"
    for f and xs :: "int list"
    by (rule map_nth_id) auto
  from this [of _ m] this [of _ c] show ?case using Nil.prems(2) by simp
next
  case (Cons x xs)
  have s: "add_int32 (m ! i) x = Inr (m ! i + x)" "add_int32 (c ! i) 1 = Inr (c ! i + 1)"
    using Cons.prems(3) [of 0] Cons.prems(4) [of 0] by (auto simp: add_int32_def)
  let ?m = "m[i := m ! i + x]" and ?c = "c[i := c ! i + 1]"
  have "mix_samples xs (Suc i) ?m ?c =
    Inr (map (\<lambda>k. if Suc i \<le> k \<and> k < Suc i + length xs then ?m ! k + xs ! (k - Suc i) else ?m ! k) [0..<length ?m],
         map (\<lambda>k. if Suc i \<le> k \<and> k < Suc i + length xs then ?c ! k + 1 else ?c ! k) [0..<length ?m])"
    using Cons.prems(1,2) Cons.prems(3) [of "Suc k" for k] Cons.prems(4) [of "Suc k" for k]
    by (intro Cons.IH) auto
  moreover have "map (\<lambda>k. if Suc i \<le> k \<and> k < Suc i + length xs then ?m ! k + xs ! (k - Suc i) else ?m ! k) [0..<length ?m] =
      map (\<lambda>k. if i \<le> k \<and> k < i + length (x # xs) then m ! k + (x # xs) ! (k - i) else m ! k) [0..<length m]"
    using Cons.prems(1,2) by (auto simp: nth_list_update nth_Cons' not_le less_Suc_eq Suc_le_eq)
  moreover have "map (\<lambda>k. if Suc i \<le> k \<and> k < Suc i + length xs then ?c ! k + 1 else ?c ! k) [0..<length ?m] =
      map (\<lambda>k. if i \<le> k \<and> k < i + length (x # xs) then c ! k + 1 else c ! k) [0..<length m]"
    using Cons.prems(1,2) by (auto simp: nth_list_update)
  ultimately show ?case by (simp add: s)
qed

lemma mix_packets_eq:
  assumes "\<And>xs. xs \<in> set (pre @ map (packet_samples p) packets) \<Longrightarrow> list_all int16_range xs \<and> length xs \<le> n"
    and "length pre + length packets < 65536"
  shows "mix_packets p packets (map (acc_sum pre) [0..<n]) (map (acc_count pre) [0..<n]) =
    Inr (map (acc_sum (pre @ map (packet_samples p) packets)) [0..<n],
         map (acc_count (pre @ map (packet_samples p) packets)) [0..<n])"
  using assms
proof (induction packets arbitrary: pre)
  case Nil
  then show ?case by simp
next
  case (Cons pk pks)
  let ?xs = "packet_samples p pk"
  have xs: "list_all int16_range ?xs" "length ?xs \<le> n" using Cons.prems(1) [of ?xs] by simp_all
  have pre: "\<And>ys. ys \<in> set pre \<Longrightarrow> list_all int16_range ys" using Cons.prems(1) by simp
  note b = acc_bounds [of pre, OF pre]
  have small: "acc_count pre k < 65535" for k
    using b(2) [of k] Cons.prems(2) by simp
  have "mix_samples ?xs 0 (map (acc_sum pre) [0..<n]) (map (acc_count pre) [0..<n]) =
      Inr (map (\<lambda>k. if 0 \<le> k \<and> k < 0 + length ?xs then map (acc_sum pre) [0..<n] ! k + ?xs ! (k - 0)
                  else map (acc_sum pre) [0..<n] ! k) [0..<length (map (acc_sum pre) [0..<n])],
           map (\<lambda>k. if 0 \<le> k \<and> k < 0 + length ?xs then map (acc_count pre) [0..<n] ! k + 1
                  else map (acc_count pre) [0..<n] ! k) [0..<length (map (acc_sum pre) [0..<n])])"
  proof (rule mix_samples_eq)
    fix k assume k: "k < length ?xs"
    then have "int16_range (?xs ! k)" using xs(1) by (simp only: list_all_length)
    then show "\<bar>map (acc_sum pre) [0..<n] ! (0 + k) + ?xs ! k\<bar> \<le> 2147483647"
      using b(1) [of k] small [of k] k xs(2) by (simp add: int16_range_def) linarith
    show "0 \<le> map (acc_count pre) [0..<n] ! (0 + k) \<and> map (acc_count pre) [0..<n] ! (0 + k) < 2147483647"
      using b(3) [of k] small [of k] k xs(2) by simp
  qed (use xs in simp_all)
  also have "\<dots> = Inr (map (acc_sum (pre @ [?xs])) [0..<n], map (acc_count (pre @ [?xs])) [0..<n])"
    by (auto simp: acc_sum_def acc_count_def)
  finally have step: "mix_samples ?xs 0 (map (acc_sum pre) [0..<n]) (map (acc_count pre) [0..<n]) =
      Inr (map (acc_sum (pre @ [?xs])) [0..<n], map (acc_count (pre @ [?xs])) [0..<n])" .
  have "mix_packets p pks (map (acc_sum (pre @ [?xs])) [0..<n]) (map (acc_count (pre @ [?xs])) [0..<n]) =
    Inr (map (acc_sum ((pre @ [?xs]) @ map (packet_samples p) pks)) [0..<n],
         map (acc_count ((pre @ [?xs]) @ map (packet_samples p) pks)) [0..<n])"
    by (rule Cons.IH) (use Cons.prems in auto)
  then show ?case by (simp add: step)
qed

lemma max_sample_count_eq:
  "max_sample_count packets = Max (insert 0 (length ` set (map (packet_samples p) packets)))"
proof -
  have "foldl (\<lambda>m pk. max m (sample_count pk)) a ps = Max (insert a (sample_count ` set ps))" for a ps
  proof (induction ps arbitrary: a)
    case (Cons q ps)
    have "Max (insert (max a b) S) = Max (insert a (insert b S))" if "finite S" for b S
      using that by (cases "S = {}") (simp_all add: max.assoc)
    then show ?case unfolding foldl_Cons Cons.IH by simp
  qed simp
  then show ?thesis by (simp add: max_sample_count_def image_image)
qed

section \<open>Normalisation\<close>

lemma column_range:
  assumes "\<And>xs. xs \<in> set xss \<Longrightarrow> list_all int16_range xs" and "x \<in> set (column xss i)"
  shows "int16_range x"
proof -
  obtain xs where "xs \<in> set xss" "i < length xs" "x = xs ! i" using assms(2) by (auto simp: column_def)
  with assms(1) [of xs] show ?thesis by (simp add: list_all_length)
qed

lemma mean_bounds:
  assumes "- 32768 * n \<le> s" "s \<le> 32767 * n" "0 < (n :: int)"
  shows "(- 32768 - 1) * n < s" "s < (32767 + 1) * n"
  using assms by simp_all

lemma mean_range:
  assumes "\<And>x. x \<in> set xs \<Longrightarrow> int16_range x"
  shows "int16_range (quot_c (sum_list xs) (int (length xs)))"
proof (cases "xs = []")
  case True
  then show ?thesis by (simp add: quot_c_def int16_range_def)
next
  case False
  have "- 32768 * int (length xs) \<le> sum_list xs \<and> sum_list xs \<le> 32767 * int (length xs)"
    using assms by (induction xs) (force simp: int16_range_def)+
  then have "- 32768 * int (length xs) \<le> sum_list xs" "sum_list xs \<le> 32767 * int (length xs)" by auto
  moreover have "0 < int (length xs)" using False by simp
  ultimately have "(- 32768 - 1) * int (length xs) < sum_list xs" "sum_list xs < (32767 + 1) * int (length xs)"
    by (simp_all only: mean_bounds)
  then have "- 32768 \<le> quot_c (sum_list xs) (int (length xs))" "quot_c (sum_list xs) (int (length xs)) \<le> 32767"
    using False quot_c_bounds [of "int (length xs)"] by simp_all
  then show ?thesis by (simp add: int16_range_def)
qed

lemma half_range: "int16_range n \<Longrightarrow> - 16384 \<le> quot_c n 2 \<and> quot_c n 2 \<le> 16383"
  using quot_c_bounds(1) [of 2 "- 16384" n] quot_c_bounds(2) [of 2 16383 n]
  by (simp add: int16_range_def)

lemma normalize_column:
  assumes "\<And>xs. xs \<in> set xss \<Longrightarrow> list_all int16_range xs"
  shows "normalize_sample (acc_sum xss i) (acc_count xss i) =
    quot_c (quot_c (sum_list (column xss i)) (int (length (column xss i)))) 2"
proof -
  let ?q = "quot_c (sum_list (column xss i)) (int (length (column xss i)))"
  have q: "int16_range ?q" by (rule mean_range, rule column_range [OF assms])
  then have "fl_trunc (fl_mul (fl_of_int ?q) half_f) = quot_c ?q 2"
    by (intro half_exact) (simp add: int16_range_def abs_if)
  moreover have "?q = 0" if "column xss i = []" using that by (simp add: quot_c_def)
  moreover have "quot_c 0 2 = 0" by (simp add: quot_c_def)
  ultimately show ?thesis
    using half_range [OF q]
    by (auto simp: normalize_sample_def acc_sum_def acc_count_def clamp_to_def Let_def)
qed

lemma mix_spec_range:
  assumes "\<And>xs. xs \<in> set xss \<Longrightarrow> list_all int16_range xs" and "y \<in> set (mix_spec xss)"
  shows "- 16384 \<le> y \<and> y \<le> 16383"
proof -
  obtain i where y: "y = quot_c (quot_c (sum_list (column xss i)) (int (length (column xss i)))) 2"
    using assms(2) by (auto simp: mix_spec_def)
  have "int16_range (quot_c (sum_list (column xss i)) (int (length (column xss i))))"
    by (rule mean_range, rule column_range [OF assms(1)])
  from half_range [OF this] show ?thesis unfolding y .
qed

lemma samples_all_range: "list_all int16_range (packet_samples p pk)"
  by (simp add: list_all_iff packet_samples_range)

lemma audio_mix_eq:
  assumes "length packets < 65536"
  shows "audio_mix p packets = Inr (samples_bytes p (mix_spec (map (packet_samples p) packets)))"
proof (cases "packets = []")
  case True
  then show ?thesis by (simp add: audio_mix_def mix_spec_def samples_bytes_def)
next
  case False
  let ?xss = "map (packet_samples p) packets"
  let ?n = "max_sample_count packets"
  have all: "\<And>xs. xs \<in> set ?xss \<Longrightarrow> list_all int16_range xs" by (auto simp: samples_all_range)
  have len: "length xs \<le> ?n" if "xs \<in> set ?xss" for xs
    unfolding max_sample_count_eq [of packets p] using that by (intro Max_ge) auto
  have zero: "map (acc_sum []) [0..<?n] = replicate ?n 0" "map (acc_count []) [0..<?n] = replicate ?n 0"
    by (auto simp: acc_sum_def acc_count_def intro!: nth_equalityI)
  have "mix_packets p packets (map (acc_sum []) [0..<?n]) (map (acc_count []) [0..<?n]) =
      Inr (map (acc_sum ([] @ ?xss)) [0..<?n], map (acc_count ([] @ ?xss)) [0..<?n])"
    by (rule mix_packets_eq) (use assms len all in auto)
  then have mix: "mix_packets p packets (replicate ?n 0) (replicate ?n 0) =
      Inr (map (acc_sum ?xss) [0..<?n], map (acc_count ?xss) [0..<?n])"
    by (simp only: zero append_Nil)
  have norm: "normalize_sample (acc_sum ?xss i) (acc_count ?xss i) =
      quot_c (quot_c (sum_list (column ?xss i)) (int (length (column ?xss i)))) 2" for i
    by (rule normalize_column [OF all])
  have "map2 normalize_sample (map (acc_sum ?xss) [0..<?n]) (map (acc_count ?xss) [0..<?n]) = mix_spec ?xss"
    unfolding mix_spec_def max_sample_count_eq [of packets p, symmetric]
    by (rule nth_equalityI) (simp_all add: norm)
  then show ?thesis
    using False by (simp add: audio_mix_def mix Let_def packet_of_def)
qed

lemma mix_spec_order: "mset xss = mset yss \<Longrightarrow> mix_spec xss = mix_spec yss"
proof -
  assume m: "mset xss = mset yss"
  have "mset (column xss i) = mset (column yss i)" for i
    using m by (simp add: column_def)
  then have "sum_list (column xss i) = sum_list (column yss i)" "length (column xss i) = length (column yss i)" for i
    by (metis sum_mset_sum_list, metis size_mset)
  moreover have "set xss = set yss" using m by (rule mset_eq_setD)
  ultimately show ?thesis by (simp add: mix_spec_def)
qed

section \<open>Properties\<close>

text \<open>
  (C4) The mixer, on fewer than 65536 packets, overflows nowhere and returns the packet whose
  samples are, at every position, half of the mean of the samples of the packets that reach it;
  read back, every sample lies between -16384 and 16383, so the clamp never cuts one.
\<close>

theorem audio_mix_correct:
  assumes "length packets < 65536"
  shows "\<exists>out. audio_mix p packets = Inr out \<and>
    packet_samples p out = mix_spec (map (packet_samples p) packets) \<and>
    list_all (\<lambda>y. - 16384 \<le> y \<and> y \<le> 16383) (packet_samples p out)"
proof -
  let ?xss = "map (packet_samples p) packets"
  have all: "\<And>xs. xs \<in> set ?xss \<Longrightarrow> list_all int16_range xs" by (auto simp: samples_all_range)
  have r: "list_all (\<lambda>y. - 16384 \<le> y \<and> y \<le> 16383) (mix_spec ?xss)"
    unfolding list_all_iff using mix_spec_range [OF all] by blast
  then have "list_all int16_range (mix_spec ?xss)"
    by (rule list.pred_mono_strong) (simp add: int16_range_def)
  then have "packet_samples p (samples_bytes p (mix_spec ?xss)) = mix_spec ?xss"
    by (rule packet_samples_bytes)
  with r show ?thesis
    using audio_mix_eq [OF assms, of p] by (intro exI [of _ "samples_bytes p (mix_spec ?xss)"]) simp
qed

theorem audio_mix_correct_witness:
  "\<exists>out. audio_mix x86_64 [[100, 0, 0, 128], [50, 0]] = Inr out \<and>
     packet_samples x86_64 out = [37, - 16384]"
proof -
  let ?pks = "[[100, 0, 0, 128], [50, 0]] :: bytes list"
  have s: "packet_samples x86_64 [100, 0, 0, 128] = [100, - 32768]" "packet_samples x86_64 [50, 0] = [50]"
    by (simp_all add: packet_samples_def sample_count_def upt_rec slice_def object_word_def x86_64_def
        sint_cases)
  have "mix_spec (map (packet_samples x86_64) ?pks) = [37, - 16384]"
    by (simp add: s mix_spec_def upt_rec column_def quot_c_def)
  with audio_mix_correct [of ?pks x86_64] show ?thesis by auto
qed

text \<open>
  The order of the packets does not matter, so neither does the iteration order of the hash
  maps the packets come from.
\<close>

theorem audio_mix_order:
  assumes "mset packets = mset packets'" and "length packets < 65536"
  shows "audio_mix p packets = audio_mix p packets'"
proof -
  have perm: "mset (map (packet_samples p) packets) = mset (map (packet_samples p) packets')"
    using assms(1) by simp
  have "length packets' < 65536" using assms mset_eq_length by metis
  then show ?thesis using assms(2) mix_spec_order [OF perm] by (simp only: audio_mix_eq)
qed

theorem audio_mix_order_witness:
  "audio_mix x86_64 [[1, 2], [3, 4, 5, 6], [7]] = audio_mix x86_64 [[7], [1, 2], [3, 4, 5, 6]]"
  by (rule audio_mix_order) simp_all

text \<open>
  Copies of one packet mix to what the packet mixes to alone: mixing is a mean, not a sum,
  and a lone speaker is heard at half amplitude.
\<close>

theorem audio_mix_copies:
  assumes "0 < n" and "n < 65536"
  shows "audio_mix p (replicate n pk) =
    Inr (samples_bytes p (map (\<lambda>x. quot_c x 2) (packet_samples p pk)))"
proof -
  let ?xs = "packet_samples p pk"
  have col: "column (replicate n ?xs) i = replicate n (?xs ! i)" if "i < length ?xs" for i
    using that by (simp add: column_def)
  have mean: "quot_c (int n * x) (int n) = x" for x
    using assms(1) by (simp add: quot_c_def sgn_mult abs_mult sgn_mult_abs)
  have "Max (insert 0 (length ` set (replicate n ?xs))) = length ?xs"
    using assms(1) by (simp add: set_replicate_conv_if)
  then have "mix_spec (map (packet_samples p) (replicate n pk)) = map (\<lambda>x. quot_c x 2) ?xs"
    by (intro nth_equalityI) (simp_all add: mix_spec_def col sum_list_replicate mean)
  then show ?thesis using audio_mix_eq [of "replicate n pk" p] assms(2) by simp
qed

theorem audio_mix_copies_witness:
  "audio_mix x86_64 [[6, 0], [6, 0], [6, 0]] = Inr (samples_bytes x86_64 [3])"
proof -
  have "packet_samples x86_64 [6, 0] = [6]"
    by (simp add: packet_samples_def sample_count_def upt_rec slice_def object_word_def x86_64_def
        sint_cases)
  then show ?thesis
    using audio_mix_copies [of 3 x86_64 "[6, 0]"] by (simp add: eval_nat_numeral quot_c_def)
qed

end
