(* ===== verification/RoomManager.thy ===== *)
theory RoomManager
  imports AudioMixer "HOL-Library.AList"
begin

text \<open>
  \<open>src/server/RoomManager.h\<close>: the room of a voice server. Its three hash maps are association
  lists with distinct keys, whose order is the iteration order (which the standard leaves open;
  the sends of a mix are shown not to depend on it). A client is a value of type \<open>'c\<close>; what
  \<open>mixAndSendAudio\<close> asks of it, \<open>client->send(packet)\<close>, is an entry of the result. Time is the
  steady clock in nanoseconds, passed in as \<open>now\<close>.

  The timer: \<open>armed\<close> says that a wait is pending on it, \<open>ready\<close> lists the completion handlers
  that are queued to run, each with its error flag (\<open>True\<close> is \<open>operation_aborted\<close>).
\<close>

section \<open>State and operations\<close>

type_synonym 'a hash_map = "(bytes \<times> 'a) list"

record 'c room =
  clients :: "'c hash_map"
  audioBuffers :: "audio_packet list hash_map"
  clientLastActivity :: "int hash_map"
  armed :: bool
  ready :: "bool list"

definition new_room :: "'c room" where
  "new_room = \<lparr>clients = [], audioBuffers = [], clientLastActivity = [], armed = False, ready = []\<rparr>"

definition MAX_BUFFER_SIZE :: nat where "MAX_BUFFER_SIZE = 50"
definition ACTIVITY_TIMEOUT :: int where "ACTIVITY_TIMEOUT = 5 * 1000000000"

text \<open>\<open>expires_after\<close> cancels the pending wait, whose handler is queued with an error.\<close>

definition startMixingTimer :: "'c room \<Rightarrow> 'c room" where
  "startMixingTimer r =
     (let r = (if armed r then r\<lparr>ready := ready r @ [True]\<rparr> else r) in r\<lparr>armed := True\<rparr>)"

definition addClient :: "'c room \<Rightarrow> bytes \<Rightarrow> 'c \<Rightarrow> 'c room" where
  "addClient r clientId client =
     (let r = r\<lparr>clients := AList.update clientId client (clients r)\<rparr>
      in if length (clients r) = 1 then startMixingTimer r else r)"

definition removeClient :: "'c room \<Rightarrow> bytes \<Rightarrow> 'c room" where
  "removeClient r clientId =
     r\<lparr>clients := AList.delete clientId (clients r),
       audioBuffers := AList.delete clientId (audioBuffers r)\<rparr>"

definition getClient :: "'c room \<Rightarrow> bytes \<Rightarrow> 'c option" where
  "getClient r clientId = map_of (clients r) clientId"

text \<open>\<open>buffer.push_back(packet)\<close> and the limit.\<close>

definition push_limited :: "audio_packet list \<Rightarrow> audio_packet \<Rightarrow> audio_packet list" where
  "push_limited q pk = (let q = q @ [pk] in if length q > MAX_BUFFER_SIZE then tl q else q)"

definition lookup_default :: "'a \<Rightarrow> 'a hash_map \<Rightarrow> bytes \<Rightarrow> 'a" where
  "lookup_default d m k = (case map_of m k of None \<Rightarrow> d | Some x \<Rightarrow> x)"

definition processAudio :: "'c room \<Rightarrow> bytes \<Rightarrow> audio_packet \<Rightarrow> int \<Rightarrow> 'c room" where
  "processAudio r senderId packet now =
     r\<lparr>audioBuffers :=
         AList.update senderId (push_limited (lookup_default [] (audioBuffers r) senderId) packet)
           (audioBuffers r),
       clientLastActivity := AList.update senderId now (clientLastActivity r)\<rparr>"

section \<open>Mixing\<close>

text \<open>
  The inner loop, over the buffers: it collects the packets of the others. \<open>operator[]\<close> on the
  activity map inserts the epoch for a key that is missing.
\<close>

fun packetsToMix ::
  "int \<Rightarrow> bytes \<Rightarrow> audio_packet list hash_map \<Rightarrow> int hash_map \<Rightarrow> audio_packet list \<times> int hash_map" where
  "packetsToMix now clientId [] act = ([], act)"
| "packetsToMix now clientId ((bufferId, buffer) # bs) act =
     (let lastActivity = lookup_default 0 act bufferId;
          act = (if map_of act bufferId = None then AList.update bufferId 0 act else act);
          here = (if bufferId \<noteq> clientId \<and> buffer \<noteq> [] \<and> now - lastActivity \<le> ACTIVITY_TIMEOUT
                  then buffer else []);
          (rest, act) = packetsToMix now clientId bs act
      in (here @ rest, act))"

text \<open>The outer loop, over the clients; the result lists the calls of \<open>client->send\<close>.\<close>

fun mix_clients ::
  "platform \<Rightarrow> int \<Rightarrow> 'c hash_map \<Rightarrow> audio_packet list hash_map \<Rightarrow> int hash_map \<Rightarrow>
     ((bytes \<times> 'c \<times> audio_packet) list \<times> int hash_map) result" where
  "mix_clients p now [] bufs act = Inr ([], act)"
| "mix_clients p now ((clientId, client) # cs) bufs act =
     (case packetsToMix now clientId bufs act of (packets, act) \<Rightarrow>
        if packets \<noteq> []
        then bind_r (audio_mix p packets) (\<lambda>mixedPacket.
             bind_r (mix_clients p now cs bufs act) (\<lambda>(sends, act).
               Inr ((clientId, client, mixedPacket) # sends, act)))
        else mix_clients p now cs bufs act)"

text \<open>The cleaning loop, over the activity map.\<close>

fun clean_inactive :: "int \<Rightarrow> int hash_map \<Rightarrow> audio_packet list hash_map \<Rightarrow> int hash_map \<times> audio_packet list hash_map" where
  "clean_inactive now [] bufs = ([], bufs)"
| "clean_inactive now ((k, t) # act) bufs =
     (if now - t > ACTIVITY_TIMEOUT
      then clean_inactive now act (AList.delete k bufs)
      else (case clean_inactive now act bufs of (act, bufs) \<Rightarrow> ((k, t) # act, bufs)))"

definition mixAndSendAudio ::
  "platform \<Rightarrow> 'c room \<Rightarrow> int \<Rightarrow> ((bytes \<times> 'c \<times> audio_packet) list \<times> 'c room) result" where
  "mixAndSendAudio p r now =
     bind_r (mix_clients p now (clients r) (audioBuffers r) (clientLastActivity r)) (\<lambda>(sends, act).
       let bufs = map (\<lambda>(k, b). (k, [])) (audioBuffers r);
           (act, bufs) = clean_inactive now act bufs
       in Inr (sends, r\<lparr>audioBuffers := bufs, clientLastActivity := act\<rparr>))"

text \<open>The wait expires; the first queued handler runs.\<close>

definition timer_expires :: "'c room \<Rightarrow> 'c room" where
  "timer_expires r = (if armed r then r\<lparr>armed := False, ready := ready r @ [False]\<rparr> else r)"

definition run_handler ::
  "platform \<Rightarrow> 'c room \<Rightarrow> int \<Rightarrow> ((bytes \<times> 'c \<times> audio_packet) list \<times> 'c room) result" where
  "run_handler p r now =
     (case ready r of
        [] \<Rightarrow> Inr ([], r)
      | ec # rest \<Rightarrow>
          (let r = r\<lparr>ready := rest\<rparr> in
           if \<not> ec then bind_r (mixAndSendAudio p r now) (\<lambda>(sends, r). Inr (sends, startMixingTimer r))
           else Inr ([], r)))"

section \<open>Bounded buffers\<close>

text \<open>
  The contract of a buffer that keeps the newest \<open>cap\<close> elements: the room's packet buffers (an
  \<open>if\<close> after the push) and the client's playback buffer (a \<open>while\<close>) both promise it.
\<close>

locale bounded_buffer =
  fixes push :: "'a list \<Rightarrow> 'a \<Rightarrow> 'a list" and cap :: nat
  assumes push_room: "length q < cap \<Longrightarrow> push q x = q @ [x]"
    and push_full: "length q = cap \<Longrightarrow> push q x = tl (q @ [x])"
begin

lemma push_length: "length q \<le> cap \<Longrightarrow> length (push q x) \<le> cap"
  using push_room [of q x] push_full [of q x] by (cases "length q < cap") auto

lemma push_newest: "length q \<le> cap \<Longrightarrow> push q x = drop (length (q @ [x]) - cap) (q @ [x])"
  using push_room [of q x] push_full [of q x]
  by (cases "length q < cap"; cases q) auto

text \<open>After any number of pushes the buffer holds the newest elements, in order.\<close>

lemma pushes_newest:
  "length q \<le> cap \<Longrightarrow> foldl push q xs = drop (length (q @ xs) - cap) (q @ xs)"
proof (induction xs rule: rev_induct)
  case Nil
  then show ?case by simp
next
  case (snoc x xs)
  let ?q = "drop (length (q @ xs) - cap) (q @ xs)"
  have "foldl push q (xs @ [x]) = push ?q x" using snoc by simp
  also have "\<dots> = drop (length (?q @ [x]) - cap) (?q @ [x])" by (rule push_newest) simp
  also have "\<dots> = drop (length (q @ xs @ [x]) - cap) (q @ xs @ [x])"
  proof (cases "length (q @ xs) \<le> cap")
    case True
    then show ?thesis by simp
  next
    case False
    then have "?q @ [x] = drop (length (q @ xs) - cap) (q @ xs @ [x])" by simp
    moreover have "length (?q @ [x]) - cap = 1" using False by simp
    moreover have "1 + (length (q @ xs) - cap) = length (q @ xs @ [x]) - cap" using False by simp
    ultimately show ?thesis by (simp only: drop_drop)
  qed
  finally show ?case .
qed

lemma pushes_length: "length q \<le> cap \<Longrightarrow> length (foldl push q xs) \<le> cap"
  by (simp add: pushes_newest)

end

interpretation room_buffer: bounded_buffer push_limited MAX_BUFFER_SIZE
  by unfold_locales (auto simp: push_limited_def MAX_BUFFER_SIZE_def)

section \<open>Who hears what\<close>

text \<open>
  What a client is to hear at a mix: the buffered packets of the others that have been active
  within the timeout.
\<close>

definition active :: "int \<Rightarrow> int hash_map \<Rightarrow> bytes \<Rightarrow> bool" where
  "active now act k = (now - lookup_default 0 act k \<le> ACTIVITY_TIMEOUT)"

definition heard :: "int \<Rightarrow> int hash_map \<Rightarrow> bytes \<Rightarrow> audio_packet list hash_map \<Rightarrow> audio_packet list" where
  "heard now act clientId bufs =
     concat (map snd (filter (\<lambda>(k, b). k \<noteq> clientId \<and> active now act k) bufs))"

definition keys :: "'a hash_map \<Rightarrow> bytes set" where
  "keys m = fst ` set m"

lemma map_of_keys: "map_of m k = None \<longleftrightarrow> k \<notin> keys m"
  by (simp add: keys_def map_of_eq_None_iff)

lemma packetsToMix_eq:
  "keys bufs \<subseteq> keys act \<Longrightarrow> packetsToMix now clientId bufs act = (heard now act clientId bufs, act)"
proof (induction bufs)
  case Nil
  then show ?case by (simp add: heard_def)
next
  case (Cons kb bufs)
  obtain k b where kb: "kb = (k, b)" by fastforce
  have sub: "keys bufs \<subseteq> keys act" and "map_of act k \<noteq> None"
    using Cons.prems kb by (auto simp: keys_def map_of_eq_None_iff)
  then show ?case
    using Cons.IH [OF sub] kb by (auto simp: heard_def active_def Let_def)
qed

definition room_inv :: "'c room \<Rightarrow> bool" where
  "room_inv r \<longleftrightarrow> distinct (map fst (clients r)) \<and> distinct (map fst (audioBuffers r)) \<and>
     distinct (map fst (clientLastActivity r)) \<and>
     list_all (\<lambda>(k, b). length b \<le> MAX_BUFFER_SIZE) (audioBuffers r) \<and>
     keys (audioBuffers r) \<subseteq> keys (clientLastActivity r)"

definition mixed :: "platform \<Rightarrow> audio_packet list \<Rightarrow> audio_packet" where
  "mixed p packets = samples_bytes p (mix_spec (map (packet_samples p) packets))"

text \<open>What the mixer promises the room.\<close>

locale mixer =
  fixes mix :: "audio_packet list \<Rightarrow> audio_packet result"
    and spec :: "audio_packet list \<Rightarrow> audio_packet" and limit :: nat
  assumes mix_spec: "length ps < limit \<Longrightarrow> mix ps = Inr (spec ps)"
    and spec_order: "mset ps = mset qs \<Longrightarrow> spec ps = spec qs"
begin

lemma mix_order: "mset ps = mset qs \<Longrightarrow> length ps < limit \<Longrightarrow> mix ps = mix qs"
  using mix_spec [of ps] mix_spec [of qs] spec_order [of ps qs] mset_eq_length [of ps qs] by simp

lemma heard_order: "mset bufs = mset bufs' \<Longrightarrow> spec (heard now act k bufs) = spec (heard now act k bufs')"
proof (rule spec_order)
  assume b: "mset bufs = mset bufs'"
  have m: "mset (heard now act k bs) =
      sum_mset (image_mset (mset \<circ> snd) (filter_mset (\<lambda>(k', b). k' \<noteq> k \<and> active now act k') (mset bs)))" for bs
    by (simp add: heard_def mset_concat flip: mset_map mset_filter sum_mset_sum_list)
  show "mset (heard now act k bufs) = mset (heard now act k bufs')" by (simp only: m b)
qed

end

interpretation room_mixer: mixer "audio_mix p" "mixed p" 65536 for p
proof
  fix ps qs :: "audio_packet list"
  show "length ps < 65536 \<Longrightarrow> audio_mix p ps = Inr (mixed p ps)"
    unfolding mixed_def by (rule audio_mix_eq)
  show "mset ps = mset qs \<Longrightarrow> mixed p ps = mixed p qs"
    unfolding mixed_def
    using mix_spec_order [of "map (packet_samples p) ps" "map (packet_samples p) qs"] by simp
qed

section \<open>The loops of a mix\<close>

lemma length_heard:
  assumes "list_all (\<lambda>(k, b). length b \<le> n) bufs"
  shows "length (heard now act clientId bufs) \<le> n * length bufs"
  using assms by (induction bufs) (auto simp: heard_def split: prod.splits)

lemma mix_clients_eq:
  assumes "keys bufs \<subseteq> keys act" and "list_all (\<lambda>(k, b). length b \<le> MAX_BUFFER_SIZE) bufs"
    and "length bufs \<le> 1310"
  shows "mix_clients p now cs bufs act =
    Inr (map (\<lambda>(k, c). (k, c, mixed p (heard now act k bufs)))
           (filter (\<lambda>(k, c). heard now act k bufs \<noteq> []) cs), act)"
proof (induction cs)
  case Nil
  then show ?case by simp
next
  case (Cons kc cs)
  obtain k c where kc: "kc = (k, c)" by fastforce
  have "length (heard now act k bufs) < 65536"
    using length_heard [OF assms(2), of now act k] assms(3) by (simp add: MAX_BUFFER_SIZE_def)
  then have "audio_mix p (heard now act k bufs) = Inr (mixed p (heard now act k bufs))"
    by (rule room_mixer.mix_spec)
  then show ?case using Cons kc by (simp add: packetsToMix_eq [OF assms(1)])
qed

definition fresh :: "int \<Rightarrow> int \<Rightarrow> bool" where
  "fresh now t = (now - t \<le> ACTIVITY_TIMEOUT)"

lemma clean_inactive_eq:
  "distinct (map fst act) \<Longrightarrow> clean_inactive now act bufs =
     (filter (\<lambda>(k, t). fresh now t) act,
      filter (\<lambda>(k, b). \<forall>t. (k, t) \<in> set act \<longrightarrow> fresh now t) bufs)"
proof (induction act arbitrary: bufs)
  case Nil
  then show ?case by simp
next
  case (Cons kt act)
  obtain k t where kt: "kt = (k, t)" by fastforce
  have k: "(k, u) \<notin> set act" for u using Cons.prems kt by force
  have IH: "clean_inactive now act bs =
     (filter (\<lambda>(k, t). fresh now t) act,
      filter (\<lambda>(k, b). \<forall>t. (k, t) \<in> set act \<longrightarrow> fresh now t) bs)" for bs
    using Cons by simp
  show ?case
  proof (cases "fresh now t")
    case True
    then show ?thesis using IH kt
      by (auto simp: fresh_def intro!: filter_cong)
  next
    case False
    have "filter (\<lambda>(j, b). \<forall>t. (j, t) \<in> set act \<longrightarrow> fresh now t) (AList.delete k bufs) =
        filter (\<lambda>(j, b). \<forall>t. (j, t) \<in> set (kt # act) \<longrightarrow> fresh now t) bufs"
      using False kt by (auto simp: AList.delete_eq filter_filter intro!: filter_cong)
    then show ?thesis using IH False kt by (simp add: fresh_def)
  qed
qed

lemma map_of_key_filter:
  "map_of (filter (\<lambda>(k, b). P k) m) k = (if P k then map_of m k else None)"
  by (induction m) auto

lemma filter_cleared:
  "(\<And>k b. (k, b) \<in> set m \<Longrightarrow> P k \<longleftrightarrow> Q k) \<Longrightarrow>
     filter (\<lambda>(k, b). P k) (map (\<lambda>(k, b). (k, [])) m) = map (\<lambda>(k, b). (k, [])) (filter (\<lambda>(k, b). Q k) m)"
  by (induction m) auto

text \<open>A mix, in one equation: the sends, the buffers and the activity map it leaves.\<close>

lemma mixAndSendAudio_eq:
  assumes inv: "room_inv r" and small: "length (audioBuffers r) \<le> 1310"
    and h: "h = (\<lambda>k. heard now (clientLastActivity r) k (audioBuffers r))"
  shows "mixAndSendAudio p r now =
    Inr (map (\<lambda>(k, c). (k, c, mixed p (h k))) (filter (\<lambda>(k, c). h k \<noteq> []) (clients r)),
         r\<lparr>audioBuffers := map (\<lambda>(k, b). (k, []))
               (filter (\<lambda>(k, b). active now (clientLastActivity r) k) (audioBuffers r)),
           clientLastActivity := filter (\<lambda>(k, t). fresh now t) (clientLastActivity r)\<rparr>)"
proof -
  let ?act = "clientLastActivity r" and ?bufs = "audioBuffers r"
  have i: "keys ?bufs \<subseteq> keys ?act" "list_all (\<lambda>(k, b). length b \<le> MAX_BUFFER_SIZE) ?bufs"
      "distinct (map fst ?act)"
    using inv by (simp_all add: room_inv_def)
  have act: "(\<forall>t. (k, t) \<in> set ?act \<longrightarrow> fresh now t) \<longleftrightarrow> active now ?act k" if "(k, b) \<in> set ?bufs" for k b
  proof -
    have "k \<in> keys ?act" using that i(1) by (force simp: keys_def)
    then obtain t where t: "(k, t) \<in> set ?act" by (auto simp: keys_def)
    have m: "map_of ?act k = Some u" if "(k, u) \<in> set ?act" for u
      using i(3) that by (rule map_of_is_SomeI)
    have "u = t" if "(k, u) \<in> set ?act" for u using m [OF that] m [OF t] by simp
    with t have "(\<forall>u. (k, u) \<in> set ?act \<longrightarrow> fresh now u) \<longleftrightarrow> fresh now t" by blast
    then show ?thesis using m [OF t] by (simp add: active_def lookup_default_def fresh_def)
  qed
  have "filter (\<lambda>(k, b). \<forall>t. (k, t) \<in> set ?act \<longrightarrow> fresh now t)
        (map (\<lambda>(k, b). (k, [] :: audio_packet list)) ?bufs) =
      map (\<lambda>(k, b). (k, [])) (filter (\<lambda>(k, b). active now ?act k) ?bufs)"
    by (rule filter_cleared) (rule act)
  then show ?thesis
    unfolding mixAndSendAudio_def mix_clients_eq [OF i(1,2) small]
    by (simp add: clean_inactive_eq [OF i(3)] h split: prod.split)
qed

section \<open>The invariant of the room\<close>

lemma keys_update [simp]: "keys (AList.update k v m) = insert k (keys m)"
  by (auto simp: keys_def dom_update image_iff)

lemma distinct_update [simp]: "distinct (map fst m) \<Longrightarrow> distinct (map fst (AList.update k v m))"
  by (rule AList.distinct_update)

lemma list_all_update:
  "list_all (\<lambda>(k, b). P b) m \<Longrightarrow> P v \<Longrightarrow> list_all (\<lambda>(k, b). P b) (AList.update k v m)"
  by (induction m) auto

lemma lookup_default_all: "list_all (\<lambda>(k, b). P b) m \<Longrightarrow> P d \<Longrightarrow> P (lookup_default d m k)"
  by (induction m) (auto simp: lookup_default_def)

lemma room_inv_new: "room_inv new_room"
  by (simp add: room_inv_def new_room_def keys_def)

lemma startMixingTimer_simps [simp]:
  "clients (startMixingTimer r) = clients r" "audioBuffers (startMixingTimer r) = audioBuffers r"
  "clientLastActivity (startMixingTimer r) = clientLastActivity r" "armed (startMixingTimer r)"
  "ready (startMixingTimer r) = ready r @ (if armed r then [True] else [])"
  by (simp_all add: startMixingTimer_def Let_def)

lemma room_inv_addClient: "room_inv r \<Longrightarrow> room_inv (addClient r k c)"
  by (simp add: room_inv_def addClient_def Let_def)

lemma room_inv_removeClient: "room_inv r \<Longrightarrow> room_inv (removeClient r k)"
  by (auto simp: room_inv_def removeClient_def AList.delete_eq distinct_map_filter keys_def list_all_iff)

lemma room_inv_processAudio: "room_inv r \<Longrightarrow> room_inv (processAudio r k pk now)"
proof -
  assume i: "room_inv r"
  then have "length (lookup_default [] (audioBuffers r) k) \<le> MAX_BUFFER_SIZE"
    by (intro lookup_default_all [where P = "\<lambda>b. length b \<le> MAX_BUFFER_SIZE"]) (simp_all add: room_inv_def)
  then have "length (push_limited (lookup_default [] (audioBuffers r) k) pk) \<le> MAX_BUFFER_SIZE"
    by (rule room_buffer.push_length)
  with i show ?thesis
    by (auto simp: room_inv_def processAudio_def intro: list_all_update [where P = "\<lambda>b. length b \<le> MAX_BUFFER_SIZE"])
qed

lemma fst_cleared:
  "map fst (map (\<lambda>(k, b). (k, [] :: audio_packet list)) m) = map fst (m :: audio_packet list hash_map)"
  by (induction m) auto

lemma keys_cleared:
  "keys (map (\<lambda>(k, b). (k, [] :: audio_packet list)) m) = keys (m :: audio_packet list hash_map)"
  unfolding keys_def by (simp only: set_map [symmetric] fst_cleared)

lemma room_inv_mix:
  "room_inv r \<Longrightarrow> length (audioBuffers r) \<le> 1310 \<Longrightarrow> mixAndSendAudio p r now = Inr (sends, r') \<Longrightarrow> room_inv r'"
proof -
  assume i: "room_inv r" and small: "length (audioBuffers r) \<le> 1310"
    and m: "mixAndSendAudio p r now = Inr (sends, r')"
  let ?act = "clientLastActivity r"
  have r': "r' = r\<lparr>audioBuffers := map (\<lambda>(k, b). (k, [])) (filter (\<lambda>(k, b). active now ?act k) (audioBuffers r)),
      clientLastActivity := filter (\<lambda>(k, t). fresh now t) ?act\<rparr>"
    using m mixAndSendAudio_eq [OF i small refl, of p now] by simp
  have "keys (filter (\<lambda>(k, b). active now ?act k) (audioBuffers r)) \<subseteq> keys (filter (\<lambda>(k, t). fresh now t) ?act)"
  proof
    fix k assume "k \<in> keys (filter (\<lambda>(k, b). active now ?act k) (audioBuffers r))"
    then have k: "active now ?act k" "k \<in> keys ?act" using i by (force simp: keys_def room_inv_def)+
    then obtain t where t: "map_of ?act k = Some t"
      using map_of_keys [of ?act k] by (cases "map_of ?act k") auto
    then have "fresh now t" using k(1) by (simp add: active_def lookup_default_def fresh_def)
    with map_of_SomeD [OF t] show "k \<in> keys (filter (\<lambda>(k, t). fresh now t) ?act)"
      by (force simp: keys_def)
  qed
  moreover have "list_all (\<lambda>(k, b). length b \<le> MAX_BUFFER_SIZE) (map (\<lambda>(k, b). (k, [] :: audio_packet list)) m)"
    for m :: "audio_packet list hash_map"
    by (simp add: list_all_iff split_def)
  ultimately show ?thesis
    using i unfolding r' by (simp add: room_inv_def distinct_map_filter keys_cleared fst_cleared del: map_map)
qed

lemma room_inv_ready [simp]: "room_inv (r\<lparr>ready := q\<rparr>) = room_inv r" "room_inv (r\<lparr>armed := b\<rparr>) = room_inv r"
  by (simp_all add: room_inv_def)

lemma room_inv_timer [simp]: "room_inv (startMixingTimer r) = room_inv r" "room_inv (timer_expires r) = room_inv r"
  by (simp_all add: startMixingTimer_def timer_expires_def Let_def)

section \<open>Runs of a room\<close>

text \<open>
  What the server does with its room: a packet of a known or of a new client, the expiry of the
  timer, a queued handler. (\<open>removeClient\<close> is never called.)
\<close>

inductive room_step :: "platform \<Rightarrow> 'c room \<Rightarrow> 'c room \<Rightarrow> bool" for p where
  add: "getClient r k = None \<Longrightarrow> room_step p r (addClient r k c)"
| audio: "room_step p r (processAudio r k pk now)"
| expire: "room_step p r (timer_expires r)"
| handler: "length (audioBuffers r) \<le> 1310 \<Longrightarrow> run_handler p r now = Inr (sends, r') \<Longrightarrow> room_step p r r'"

inductive room_reachable :: "platform \<Rightarrow> 'c room \<Rightarrow> bool" for p where
  init: "room_reachable p new_room"
| step: "room_reachable p r \<Longrightarrow> room_step p r r' \<Longrightarrow> room_reachable p r'"

inductive_cases room_stepE: "room_step p r r'"

definition timer_inv :: "'c room \<Rightarrow> bool" where
  "timer_inv r \<longleftrightarrow>
     (if clients r = [] then \<not> armed r \<and> ready r = []
      else armed r \<and> ready r = [] \<or> \<not> armed r \<and> ready r = [False])"

lemma update_not_Nil [simp]: "AList.update k v m \<noteq> []"
  by (cases m) auto

lemma length_update_new: "map_of m k = None \<Longrightarrow> length (AList.update k v m) = Suc (length m)"
  by (induction m) (auto split: if_splits)

lemma length_update_le: "length (AList.update k v m) \<le> Suc (length m)"
  by (induction m) auto

lemma mix_timer:
  assumes "mixAndSendAudio p r now = Inr (sends, r')"
  shows "clients r' = clients r \<and> armed r' = armed r \<and> ready r' = ready r"
  using assms by (auto simp: mixAndSendAudio_def Let_def split_beta)

lemma room_step_invs:
  assumes "room_step p r r'" and "room_inv r" and "timer_inv r"
  shows "room_inv r' \<and> timer_inv r'"
  using assms(1)
proof (cases rule: room_step.cases)
  case (add k c)
  have "length (AList.update k c (clients r)) = Suc (length (clients r))"
    using add by (intro length_update_new) (simp add: getClient_def)
  then have "timer_inv r'" using add assms(3) by (auto simp: timer_inv_def addClient_def Let_def)
  then show ?thesis using add(1) assms(2) by (simp add: room_inv_addClient)
next
  case (audio k pk now)
  then have "timer_inv r'" using assms(3) by (simp add: timer_inv_def processAudio_def)
  with audio assms(2) show ?thesis by (simp add: room_inv_processAudio)
next
  case expire
  with assms(2,3) show ?thesis by (auto simp: timer_inv_def timer_expires_def split: if_splits)
next
  case (handler now sends)
  show ?thesis
  proof (cases "ready r")
    case Nil
    with handler assms show ?thesis by (simp add: run_handler_def)
  next
    case (Cons ec rest)
    then have c: "clients r \<noteq> []" "\<not> armed r" "\<not> ec" "rest = []"
      using assms(3) by (auto simp: timer_inv_def split: if_splits)
    then obtain q where q: "mixAndSendAudio p (r\<lparr>ready := []\<rparr>) now = Inr (sends, q)" "r' = startMixingTimer q"
      using handler(2) Cons by (auto simp: run_handler_def Let_def)
    have "room_inv q" by (rule room_inv_mix [OF _ _ q(1)]) (use assms(2) handler(1) in simp_all)
    then show ?thesis using mix_timer [OF q(1)] c q(2) by (simp add: timer_inv_def)
  qed
qed

lemma room_reachable_invs: "room_reachable p r \<Longrightarrow> room_inv r \<and> timer_inv r"
proof (induction rule: room_reachable.induct)
  case init
  have "timer_inv new_room" by (simp add: timer_inv_def new_room_def)
  then show ?case by (simp add: room_inv_new)
next
  case (step r r')
  then show ?case using room_step_invs by blast
qed

section \<open>Properties\<close>

lemma heard_cleared: "heard now act k (map (\<lambda>(k, b). (k, [] :: audio_packet list)) m) = []"
  by (induction m) (auto simp: heard_def)

lemma lookup_update: "lookup_default d (AList.update k v m) j = (if j = k then v else lookup_default d m j)"
  by (simp add: lookup_default_def update_conv' )

lemma heard_processAudio:
  "heard now (AList.update k t act) k (AList.update k b bufs) = heard now act k bufs"
proof -
  have a: "j \<noteq> k \<and> active now (AList.update k t act) j \<longleftrightarrow> j \<noteq> k \<and> active now act j" for j
    by (auto simp: active_def lookup_update)
  have "filter (\<lambda>(j, b). j \<noteq> k \<and> P j) (AList.update k b bufs) = filter (\<lambda>(j, b). j \<noteq> k \<and> P j) bufs" for P
    by (induction bufs) auto
  then show ?thesis unfolding heard_def a by simp
qed

text \<open>
  (C10) The state of the room, after any sequence of new clients, packets, timer expiries and
  handlers: no map has a key twice, no buffer exceeds fifty packets, every buffer has an activity
  time; and exactly one mixing timer is alive once there is a client, none before: a wait is
  pending or its handler is queued, never two, and none was ever cancelled.
\<close>

theorem room_invariant:
  assumes "room_reachable p r"
  shows "distinct (map fst (clients r)) \<and> distinct (map fst (audioBuffers r)) \<and>
    distinct (map fst (clientLastActivity r)) \<and>
    list_all (\<lambda>(k, b). length b \<le> 50) (audioBuffers r) \<and>
    keys (audioBuffers r) \<subseteq> keys (clientLastActivity r) \<and>
    (if clients r = [] then \<not> armed r \<and> ready r = []
     else armed r \<and> ready r = [] \<or> \<not> armed r \<and> ready r = [False])"
  using room_reachable_invs [OF assms] unfolding room_inv_def timer_inv_def MAX_BUFFER_SIZE_def by blast

theorem room_invariant_witness:
  "ready (timer_expires (addClient new_room [1] (0 :: nat))) = [False] \<and>
   (if clients (timer_expires (addClient new_room [1] (0 :: nat))) = [] then False
    else armed (timer_expires (addClient new_room [1] (0 :: nat))) \<and>
         ready (timer_expires (addClient new_room [1] (0 :: nat))) = [] \<or>
         \<not> armed (timer_expires (addClient new_room [1] (0 :: nat))) \<and>
         ready (timer_expires (addClient new_room [1] (0 :: nat))) = [False])"
proof -
  have "getClient new_room [1] = (None :: nat option)" by (simp add: getClient_def new_room_def)
  then have "room_reachable p (timer_expires (addClient new_room [1] (0 :: nat)))" for p
    by (intro room_reachable.step [OF room_reachable.step [OF room_reachable.init room_step.add] room_step.expire])
  from room_invariant [OF this] show ?thesis
    by (simp add: timer_expires_def addClient_def startMixingTimer_def new_room_def Let_def)
qed

text \<open>
  (C2) One mix, exactly: every client to whom some other, recently active client has something to
  say is sent one packet, the mix of all packets buffered for the others; nobody else is sent
  anything. All buffers are emptied; senders silent for more than five seconds are forgotten.
\<close>

theorem mix_sends:
  assumes "room_reachable p r" and "length (audioBuffers r) \<le> 1310"
  shows "\<exists>r'. mixAndSendAudio p r now =
      Inr (map (\<lambda>(k, c). (k, c, mixed p (heard now (clientLastActivity r) k (audioBuffers r))))
             (filter (\<lambda>(k, c). heard now (clientLastActivity r) k (audioBuffers r) \<noteq> []) (clients r)), r') \<and>
    list_all (\<lambda>(k, b). b = []) (audioBuffers r') \<and> clients r' = clients r \<and>
    clientLastActivity r' = filter (\<lambda>(k, t). now - t \<le> 5000000000) (clientLastActivity r)"
proof -
  have "room_inv r" using room_reachable_invs [OF assms(1)] by simp
  from mixAndSendAudio_eq [OF this assms(2) refl] show ?thesis
    by (auto simp: list_all_iff fresh_def ACTIVITY_TIMEOUT_def)
qed

definition two_speakers :: "nat room" where
  "two_speakers =
     processAudio (processAudio (addClient (addClient new_room [1] 10) [2] 20) [1] [4, 0] 7) [2] [8, 0] 9"

lemma two_speakers_reachable: "room_reachable p two_speakers"
  unfolding two_speakers_def
  by (intro room_reachable.step [OF _ room_step.audio] room_reachable.step [OF _ room_step.add]
      room_reachable.init)
    (simp_all add: getClient_def addClient_def startMixingTimer_def new_room_def Let_def)

lemma two_speakers_eq:
  "two_speakers = \<lparr>clients = [([1], 10), ([2], 20)], audioBuffers = [([1], [[4, 0]]), ([2], [[8, 0]])],
     clientLastActivity = [([1], 7), ([2], 9)], armed = True, ready = []\<rparr>"
  by (simp add: two_speakers_def processAudio_def addClient_def startMixingTimer_def new_room_def
      Let_def push_limited_def lookup_default_def MAX_BUFFER_SIZE_def)

theorem mix_sends_witness:
  "\<forall>p. \<exists>r'. mixAndSendAudio p two_speakers 10 =
     Inr ([([1], 10, mixed p [[8, 0]]), ([2], 20, mixed p [[4, 0]])], r')"
  using mix_sends [OF two_speakers_reachable, of _ 10]
  by (fastforce simp: two_speakers_eq heard_def active_def lookup_default_def ACTIVITY_TIMEOUT_def)

text \<open>
  (C11) Nobody hears himself: what a client is sent at the next mix does not depend on the packets
  he has contributed since.
\<close>

theorem no_self_hearing:
  assumes "room_reachable p r" and "Suc (length (audioBuffers r)) \<le> 1310"
    and "mixAndSendAudio p r now = Inr (sends, r1)"
    and "mixAndSendAudio p (processAudio r k pk t) now = Inr (sends', r2)"
  shows "filter (\<lambda>(j, c, q). j = k) sends' = filter (\<lambda>(j, c, q). j = k) sends"
proof -
  have i: "room_inv r" using room_reachable_invs [OF assms(1)] by simp
  have len: "length (audioBuffers (processAudio r k pk t)) \<le> 1310"
    using assms(2) by (simp add: processAudio_def order_trans [OF length_update_le])
  let ?h = "\<lambda>j. heard now (clientLastActivity r) j (audioBuffers r)"
  let ?h' = "\<lambda>j. heard now (clientLastActivity (processAudio r k pk t)) j (audioBuffers (processAudio r k pk t))"
  have s: "sends = map (\<lambda>(j, c). (j, c, mixed p (?h j))) (filter (\<lambda>(j, c). ?h j \<noteq> []) (clients r))"
    using mixAndSendAudio_eq [OF i _ refl, of p now] assms(2,3) by simp
  have s': "sends' = map (\<lambda>(j, c). (j, c, mixed p (?h' j))) (filter (\<lambda>(j, c). ?h' j \<noteq> []) (clients r))"
    using mixAndSendAudio_eq [OF room_inv_processAudio [OF i] len refl, of p now] assms(4)
    by (simp add: processAudio_def)
  have "?h' k = ?h k" by (simp add: processAudio_def heard_processAudio)
  then have "filter (\<lambda>(j, c, q). j = k) (map (\<lambda>(j, c). (j, c, mixed p (?h' j))) (filter (\<lambda>(j, c). ?h' j \<noteq> []) cs)) =
      filter (\<lambda>(j, c, q). j = k) (map (\<lambda>(j, c). (j, c, mixed p (?h j))) (filter (\<lambda>(j, c). ?h j \<noteq> []) cs))" for cs
    by (induction cs) auto
  then show ?thesis unfolding s s' .
qed

theorem no_self_hearing_witness:
  "\<exists>sends sends' r1 r2. mixAndSendAudio x86_64 two_speakers 10 = Inr (sends, r1) \<and>
     mixAndSendAudio x86_64 (processAudio two_speakers [1] [99, 99] 8) 10 = Inr (sends', r2) \<and>
     filter (\<lambda>(j, c, q). j = [1]) sends' = filter (\<lambda>(j, c, q). j = [1]) sends"
proof -
  have i: "room_inv two_speakers" using room_reachable_invs [OF two_speakers_reachable] by blast
  have l: "length (audioBuffers two_speakers) \<le> 1310"
    "length (audioBuffers (processAudio two_speakers [1] [99, 99] 8)) \<le> 1310"
    by (simp_all add: two_speakers_eq processAudio_def)
  obtain sends r1 where m: "mixAndSendAudio x86_64 two_speakers 10 = Inr (sends, r1)"
    using mixAndSendAudio_eq [OF i l(1) refl] by blast
  obtain sends' r2 where m': "mixAndSendAudio x86_64 (processAudio two_speakers [1] [99, 99] 8) 10 = Inr (sends', r2)"
    using mixAndSendAudio_eq [OF room_inv_processAudio [OF i] l(2) refl] by blast
  have "Suc (length (audioBuffers two_speakers)) \<le> 1310" by (simp add: two_speakers_eq)
  from no_self_hearing [OF two_speakers_reachable this m m'] m m' show ?thesis by blast
qed

lemma processAudio_buffer:
  "map_of (audioBuffers (processAudio r k pk t)) k = Some (push_limited (lookup_default [] (audioBuffers r) k) pk)"
  by (simp add: processAudio_def update_conv')

text \<open>
  A buffer between two mixes keeps the newest fifty packets of its sender, in order, however
  many arrive; older ones are dropped.
\<close>

theorem buffer_keeps_newest:
  assumes "room_reachable p r" and "pks \<noteq> []"
  shows "map_of (audioBuffers (foldl (\<lambda>r (pk, t). processAudio r k pk t) r pks)) k =
    Some (drop (length (lookup_default [] (audioBuffers r) k @ map fst pks) - 50)
            (lookup_default [] (audioBuffers r) k @ map fst pks))"
proof -
  have look: "lookup_default [] (audioBuffers (foldl (\<lambda>r (pk, t). processAudio r k pk t) r xs)) k =
      foldl push_limited (lookup_default [] (audioBuffers r) k) (map fst xs)" for xs
    by (induction xs rule: rev_induct)
      (auto simp: lookup_default_def processAudio_def update_conv' split: prod.splits)
  have "room_inv r" using room_reachable_invs [OF assms(1)] by simp
  then have "length (lookup_default [] (audioBuffers r) k) \<le> MAX_BUFFER_SIZE"
    by (intro lookup_default_all [where P = "\<lambda>b. length b \<le> MAX_BUFFER_SIZE"]) (simp_all add: room_inv_def)
  from room_buffer.pushes_newest [OF this] have
    l: "lookup_default [] (audioBuffers (foldl (\<lambda>r (pk, t). processAudio r k pk t) r pks)) k =
      drop (length (lookup_default [] (audioBuffers r) k @ map fst pks) - 50)
        (lookup_default [] (audioBuffers r) k @ map fst pks)"
    unfolding look by (simp add: MAX_BUFFER_SIZE_def)
  obtain xs pk t where "pks = xs @ [(pk, t)]" using assms(2) by (metis rev_exhaust surj_pair)
  then obtain b where "map_of (audioBuffers (foldl (\<lambda>r (pk, t). processAudio r k pk t) r pks)) k = Some b"
    by (simp add: processAudio_buffer)
  then show ?thesis using l by (simp add: lookup_default_def)
qed

theorem buffer_keeps_newest_witness:
  "map_of (audioBuffers (foldl (\<lambda>r (pk, t). processAudio r [1] pk t) (new_room :: nat room)
     (map (\<lambda>i. ([of_nat i], 0)) [0..<60]))) [1] = Some (map (\<lambda>i. [of_nat i]) [10..<60])"
  using buffer_keeps_newest [OF room_reachable.init, of "map (\<lambda>i. ([of_nat i], 0)) [0..<60]" "[1]"]
  by (simp add: new_room_def lookup_default_def o_def drop_map)

text \<open>
  Every packet is heard at one mix only: a mix right after a mix sends nothing.
\<close>

theorem heard_once:
  assumes "room_reachable p r" and "length (audioBuffers r) \<le> 1310"
    and "mixAndSendAudio p r now = Inr (sends, r1)"
  shows "\<exists>r2. mixAndSendAudio p r1 now' = Inr ([], r2)"
proof -
  have i: "room_inv r" using room_reachable_invs [OF assms(1)] by simp
  note eq = mixAndSendAudio_eq [OF i assms(2) refl, of p now]
  have "room_inv r1" by (rule room_inv_mix [OF i assms(2,3)])
  moreover have bufs: "audioBuffers r1 = map (\<lambda>(k, b). (k, []))
      (filter (\<lambda>(k, b). active now (clientLastActivity r) k) (audioBuffers r))"
    using eq assms(3) by auto
  then have "length (audioBuffers r1) \<le> 1310"
    using assms(2) by (simp add: le_trans [OF length_filter_le])
  moreover have "heard now' act k (audioBuffers r1) = []" for act k
    unfolding bufs by (rule heard_cleared)
  ultimately show ?thesis using mixAndSendAudio_eq [of r, OF _ _ refl] by (simp add: mixAndSendAudio_eq)
qed

theorem heard_once_witness:
  "\<exists>sends r1 r2. mixAndSendAudio x86_64 two_speakers 10 = Inr (sends, r1) \<and> sends \<noteq> [] \<and>
     mixAndSendAudio x86_64 r1 11 = Inr ([], r2)"
proof -
  have i: "room_inv two_speakers" using room_reachable_invs [OF two_speakers_reachable] by blast
  have l: "length (audioBuffers two_speakers) \<le> 1310" by (simp add: two_speakers_eq)
  obtain sends r1 where m: "mixAndSendAudio x86_64 two_speakers 10 = Inr (sends, r1)" "sends \<noteq> []"
    using mixAndSendAudio_eq [OF i l refl, of x86_64 10]
    by (auto simp: two_speakers_eq heard_def active_def lookup_default_def ACTIVITY_TIMEOUT_def)
  from heard_once [OF two_speakers_reachable l m(1)] m show ?thesis by blast
qed



end
