(* ===== verification/AudioManager.thy ===== *)
theory AudioManager
  imports PaLifecycle RoomManager
begin

text \<open>
  \<open>src/client/AudioManager.h\<close>: capture and playback of the client, over PortAudio's front end.
  The two stream callbacks run on PortAudio's threads; each holds the mutex of the buffer it uses,
  so calls on one buffer come one after the other.

  The callbacks given to PortAudio are the numbers 0 (\<open>inputCallback\<close>) and 1
  (\<open>outputCallback\<close>), \<open>userData\<close> is the one manager, 0. The samples a callback gets are numbers
  in the range of \<open>int16_t\<close>.
\<close>

section \<open>State\<close>

record audio_manager =
  input_stream :: "ptr option"
  output_stream :: "ptr option"
  input_buffer :: bytes
  output_buffer :: "audio_packet list"

definition new_audio_manager :: audio_manager where
  "new_audio_manager = \<lparr>input_stream = None, output_stream = None, input_buffer = [], output_buffer = []\<rparr>"

definition SAMPLE_RATE :: f64 where "SAMPLE_RATE = Fin 44100"
definition FRAMES_PER_BUFFER :: u64 where "FRAMES_PER_BUFFER = 4096"
definition PLAYBACK_BUFFER_SIZE :: nat where "PLAYBACK_BUFFER_SIZE = 10"

section \<open>Streams\<close>

text \<open>A call whose result is only compared with \<open>paNoError\<close>, or not used at all.\<close>

definition startStreams ::
  "(nat \<Rightarrow> 'd stream_interface) \<Rightarrow> audio_manager \<Rightarrow> 'd pa \<Rightarrow> (bool \<times> 'd pa) comp" where
  "startStreams I am pa =
     bind_c (Some (Pa_StartStream I (input_stream am) pa)) (\<lambda>(e, pa).
       if e \<noteq> err paNoError
       then bind_c (Pa_CloseStream I (input_stream am) pa) (\<lambda>(_, pa).
            bind_c (Pa_CloseStream I (output_stream am) pa) (\<lambda>(_, pa).
            bind_c (Pa_Terminate I pa) (\<lambda>(_, pa). Some (Inr (False, pa)))))
       else bind_c (Some (Pa_StartStream I (output_stream am) pa)) (\<lambda>(e, pa).
         if e \<noteq> err paNoError
         then bind_c (Some (Pa_StopStream I (input_stream am) pa)) (\<lambda>(_, pa).
              bind_c (Pa_CloseStream I (input_stream am) pa) (\<lambda>(_, pa).
              bind_c (Pa_CloseStream I (output_stream am) pa) (\<lambda>(_, pa).
              bind_c (Pa_Terminate I pa) (\<lambda>(_, pa). Some (Inr (False, pa))))))
         else Some (Inr (True, pa))))"

definition am_initialize ::
  "(nat \<Rightarrow> 'd stream_interface) \<Rightarrow> 'd initializer list \<Rightarrow> bool \<Rightarrow> audio_manager \<Rightarrow> 'd pa \<Rightarrow>
     (bool \<times> audio_manager \<times> 'd pa) comp" where
  "am_initialize I inits alloc am pa =
     bind_c (Some (Pa_Initialize inits alloc pa)) (\<lambda>(e, pa).
       if e \<noteq> err paNoError then Some (Inr (False, am, pa))
       else bind_c (Some (Pa_OpenDefaultStream True (input_stream am) 1 0 paInt16 SAMPLE_RATE
              FRAMES_PER_BUFFER (Some 0) 0 pa)) (\<lambda>((e, s), pa).
         let am = am\<lparr>input_stream := s\<rparr> in
         if e \<noteq> err paNoError
         then bind_c (Pa_Terminate I pa) (\<lambda>(_, pa). Some (Inr (False, am, pa)))
         else bind_c (Some (Pa_OpenDefaultStream True (output_stream am) 0 1 paInt16 SAMPLE_RATE
                FRAMES_PER_BUFFER (Some 1) 0 pa)) (\<lambda>((e, s), pa).
           let am = am\<lparr>output_stream := s\<rparr> in
           if e \<noteq> err paNoError
           then bind_c (Pa_CloseStream I (input_stream am) pa) (\<lambda>(_, pa).
                bind_c (Pa_Terminate I pa) (\<lambda>(_, pa). Some (Inr (False, am, pa))))
           else bind_c (startStreams I am pa) (\<lambda>(ok, pa). Some (Inr (ok, am, pa))))))"

text \<open>The destructor.\<close>

definition stop_and_close ::
  "(nat \<Rightarrow> 'd stream_interface) \<Rightarrow> ptr option \<Rightarrow> 'd pa \<Rightarrow> 'd pa comp" where
  "stop_and_close I s pa =
     (if s \<noteq> None
      then bind_c (Some (Pa_StopStream I s pa)) (\<lambda>(_, pa).
           bind_c (Pa_CloseStream I s pa) (\<lambda>(_, pa). Some (Inr pa)))
      else Some (Inr pa))"

definition am_destroy ::
  "(nat \<Rightarrow> 'd stream_interface) \<Rightarrow> audio_manager \<Rightarrow> 'd pa \<Rightarrow> 'd pa comp" where
  "am_destroy I am pa =
     bind_c (stop_and_close I (input_stream am) pa) (\<lambda>pa.
     bind_c (stop_and_close I (output_stream am) pa) (\<lambda>pa.
     bind_c (Pa_Terminate I pa) (\<lambda>(_, pa). Some (Inr pa))))"

section \<open>Buffers\<close>

fun drop_oldest :: "audio_packet list \<Rightarrow> audio_packet list" where
  "drop_oldest q = (if length q > PLAYBACK_BUFFER_SIZE then drop_oldest (tl q) else q)"

declare drop_oldest.simps [simp del]

definition addOutputData :: "audio_packet \<Rightarrow> audio_manager \<Rightarrow> audio_manager" where
  "addOutputData packet am = am\<lparr>output_buffer := drop_oldest (output_buffer am @ [packet])\<rparr>"

definition getInputData :: "audio_manager \<Rightarrow> audio_packet \<times> audio_manager" where
  "getInputData am = (packet_of (input_buffer am) (length (input_buffer am)), am\<lparr>input_buffer := []\<rparr>)"

text \<open>\<open>inn\<close> are the samples of the host buffer, of which the first \<open>framesPerBuffer\<close> are taken.\<close>

definition inputCallback :: "platform \<Rightarrow> int list \<Rightarrow> nat \<Rightarrow> audio_manager \<Rightarrow> audio_manager result" where
  "inputCallback p inn framesPerBuffer am =
     (if framesPerBuffer \<le> length inn
      then Inr (am\<lparr>input_buffer := input_buffer am @ samples_bytes p (take framesPerBuffer inn)\<rparr>)
      else Inl Undefined_behaviour)"

text \<open>
  The smoothing loop: \<open>prev\<close> is 0 for the first sample, else the sample written before. The
  conversion to \<open>int16_t\<close> of a number outside its range is undefined.
\<close>

fun smooth :: "int \<Rightarrow> int list \<Rightarrow> int list result" where
  "smooth prev [] = Inr []"
| "smooth prev (current # xs) =
     (let s = smooth_step prev current in
      if int16_range s then bind_r (smooth s xs) (\<lambda>ys. Inr (s # ys)) else Inl Undefined_behaviour)"

text \<open>
  \<open>out\<close> is the host buffer as it is when the callback is called, in bytes; it has room for
  \<open>framesPerBuffer\<close> samples. The result is the buffer the callback leaves.
\<close>

definition outputCallback ::
  "platform \<Rightarrow> bytes \<Rightarrow> nat \<Rightarrow> audio_manager \<Rightarrow> (bytes \<times> audio_manager) result" where
  "outputCallback p out framesPerBuffer am =
     (case output_buffer am of
        packet # rest \<Rightarrow>
          (let bytesToCopy = min (length packet) (framesPerBuffer * 2);
               samples = bytesToCopy div 2 in
           bind_r (smooth 0 (take samples (packet_samples p packet))) (\<lambda>ys.
             let out = samples_bytes p ys @ drop (2 * samples) out;
                 out = (if bytesToCopy < framesPerBuffer * 2
                   then take bytesToCopy out @ replicate (framesPerBuffer * 2 - bytesToCopy) 0
                   else out)
             in Inr (out, am\<lparr>output_buffer := rest\<rparr>)))
      | [] \<Rightarrow> Inr (replicate (framesPerBuffer * 2) 0 @ drop (framesPerBuffer * 2) out, am))"

section \<open>The playback buffer\<close>

definition push_playback :: "audio_packet list \<Rightarrow> audio_packet \<Rightarrow> audio_packet list" where
  "push_playback q pk = drop_oldest (q @ [pk])"

interpretation playback: bounded_buffer push_playback PLAYBACK_BUFFER_SIZE
proof
  fix q :: "audio_packet list" and x
  show "length q < PLAYBACK_BUFFER_SIZE \<Longrightarrow> push_playback q x = q @ [x]"
    by (simp add: push_playback_def drop_oldest.simps)
  assume "length q = PLAYBACK_BUFFER_SIZE"
  then show "push_playback q x = tl (q @ [x])"
    by (simp add: push_playback_def drop_oldest.simps [of "q @ [x]"] drop_oldest.simps [of "tl (q @ [x])"])
qed

lemma addOutputData_eq: "addOutputData pk am = am\<lparr>output_buffer := push_playback (output_buffer am) pk\<rparr>"
  by (simp add: addOutputData_def push_playback_def)

lemma smooth_defined:
  "int16_range prev \<Longrightarrow> list_all int16_range xs \<Longrightarrow>
     \<exists>ys. smooth prev xs = Inr ys \<and> length ys = length xs \<and> list_all int16_range ys"
proof (induction xs arbitrary: prev)
  case Nil
  then show ?case by simp
next
  case (Cons x xs)
  have s: "int16_range (smooth_step prev x)" using Cons.prems by (intro smooth_step_range) simp_all
  obtain ys where "smooth (smooth_step prev x) xs = Inr ys" "length ys = length xs" "list_all int16_range ys"
    using Cons.IH [OF s] Cons.prems(2) by auto
  with s show ?case by (simp add: Let_def)
qed

section \<open>What the front end keeps\<close>

lemma host_call_frame:
  "host_call I f s pa = Inr (x, pa') \<Longrightarrow>
     initializationCount pa' = initializationCount pa \<and> firstOpenStream pa' = firstOpenStream pa"
  by (auto simp: host_call_def)

lemma remove_loop_count:
  assumes "remove_loop s q c pa = Some r"
  shows "\<forall>pa'. r = Inr pa' \<longrightarrow> initializationCount pa' = initializationCount pa"
  by (rule remove_loop.raw_induct [where P = "\<lambda>s q c pa r. \<forall>pa'. r = Inr pa' \<longrightarrow>
        initializationCount pa' = initializationCount pa", OF _ assms])
    (auto split: option.splits sum.splits if_splits)

lemma close_count:
  assumes "Pa_CloseStream I s pa = Some (Inr (x, pa'))"
  shows "initializationCount pa' = initializationCount pa"
proof -
  obtain result pa1 where v: "PaUtil_ValidateStreamPointer s pa = Inr result"
    and r: "RemoveOpenStream s pa = Some (Inr pa1)"
    and x: "(if result \<noteq> err paNoError then Inr (result, pa1)
       else bind_r (abort_if_running I s pa1) (\<lambda>(result, pa).
         if result = err paNoError then host_call I Close s pa else Inr (result, pa))) = Inr (x, pa')"
    using assms by (auto simp: Pa_CloseStream_def bind_c_def split: option.splits sum.splits)
  have c1: "initializationCount pa1 = initializationCount pa"
    using r remove_loop_count unfolding RemoveOpenStream_def by blast
  show ?thesis
  proof (cases "result = err paNoError")
    case False
    then show ?thesis using x c1 by simp
  next
    case True
    then obtain y pa2 where a: "abort_if_running I s pa1 = Inr (y, pa2)"
      and t: "(if y = err paNoError then host_call I Close s pa2 else Inr (y, pa2)) = Inr (x, pa')"
      using x by (cases "abort_if_running I s pa1") auto
    have "initializationCount pa2 = initializationCount pa1"
      using a by (auto simp: abort_if_running_def dest!: host_call_frame split: if_splits)
    moreover have "initializationCount pa' = initializationCount pa2"
      using t host_call_frame [of I Close s pa2 x pa'] by (cases "y = err paNoError") simp_all
    ultimately show ?thesis using c1 by simp
  qed
qed

lemma stop_count:
  "Pa_StopStream I s pa = Inr (x, pa') \<Longrightarrow> initializationCount pa' = initializationCount pa"
  by (auto simp: Pa_StopStream_def dest!: host_call_frame split: if_splits)

lemma start_count:
  "Pa_StartStream I s pa = Inr (x, pa') \<Longrightarrow> initializationCount pa' = initializationCount pa"
  by (auto simp: Pa_StartStream_def dest!: host_call_frame split: if_splits)

lemma add_count: "AddOpenStream p q = Inr q' \<Longrightarrow> initializationCount q' = initializationCount q"
  by (auto simp: AddOpenStream_def)

lemma open_stream_count:
  assumes "Pa_OpenStream b s inp out r n fl cb ud pa = Inr (x, pa')"
  shows "initializationCount pa' = initializationCount pa"
proof (cases "PA_IS_INITIALISED pa \<and> b")
  case False
  then show ?thesis using assms by (auto simp: Pa_OpenStream_def split: if_splits)
next
  case True
  obtain code h i j where v: "ValidateOpenStreamParameters pa inp out r n fl cb = Inr (code, h, i, j)"
    using assms True by (cases "ValidateOpenStreamParameters pa inp out r n fl cb") (auto simp: Pa_OpenStream_def)
  show ?thesis
  proof (cases "code = err paNoError")
    case False
    then show ?thesis using assms True v by (auto simp: Pa_OpenStream_def)
  next
    case ok: True
    obtain a c new w where o: "hostApi_at pa h = Inr a" "OpenStream a (nat h) (host_parameters inp i)
        (host_parameters out j) r n fl cb ud (world pa) = Inr ((c, new), w)"
      using assms True v ok by (auto simp: Pa_OpenStream_def)
    let ?s = "case new of None \<Rightarrow> s | Some p \<Rightarrow> Some p"
    have "(if c = err paNoError
        then (case ?s of None \<Rightarrow> Inl Undefined_behaviour
          | Some p \<Rightarrow> bind_r (AddOpenStream p (pa\<lparr>world := w\<rparr>)) (\<lambda>pa. Inr ((c, ?s), pa)))
        else Inr ((c, ?s), pa\<lparr>world := w\<rparr>)) = Inr (x, pa')"
      using assms True v ok o by (simp add: Pa_OpenStream_def Let_def)
    then show ?thesis using add_count [of _ "pa\<lparr>world := w\<rparr>" pa']
      by (cases "c = err paNoError"; cases ?s) auto
  qed
qed

lemma open_count:
  assumes "Pa_OpenDefaultStream b s i j f r n cb ud pa = Inr (x, pa')"
  shows "initializationCount pa' = initializationCount pa"
  using assms by (auto simp: Pa_OpenDefaultStream_def dest!: open_stream_count split: option.splits)

lemma close_streams_end:
  assumes "CloseOpenStreams I pa = Some r"
  shows "\<forall>pa'. r = Inr pa' \<longrightarrow> initializationCount pa' = initializationCount pa \<and> firstOpenStream pa' = None"
proof (rule CloseOpenStreams.raw_induct [where P = "\<lambda>I pa r. \<forall>pa'. r = Inr pa' \<longrightarrow>
        initializationCount pa' = initializationCount pa \<and> firstOpenStream pa' = None", OF _ assms])
  fix loop and I :: "nat \<Rightarrow> 'a stream_interface" and pa r
  assume IH: "\<And>I pa r. loop I pa = Some r \<Longrightarrow> \<forall>pa'. r = Inr pa' \<longrightarrow>
      initializationCount pa' = initializationCount pa \<and> firstOpenStream pa' = None"
    and r: "(case firstOpenStream pa of None \<Rightarrow> Some (Inr pa)
      | Some p \<Rightarrow> (case Pa_CloseStream I (Some p) pa of None \<Rightarrow> None
        | Some r \<Rightarrow> (case r of Inl e \<Rightarrow> Some (Inl e) | Inr (result, pa) \<Rightarrow> loop I pa))) = Some r"
  show "\<forall>pa'. r = Inr pa' \<longrightarrow> initializationCount pa' = initializationCount pa \<and> firstOpenStream pa' = None"
  proof (cases "firstOpenStream pa")
    case None
    then show ?thesis using r by auto
  next
    case (Some p)
    show ?thesis
    proof (intro allI impI)
      fix pa' assume "r = Inr pa'"
      then obtain code pa1 where "Pa_CloseStream I (Some p) pa = Some (Inr (code, pa1))" "loop I pa1 = Some (Inr pa')"
        using r Some by (auto split: option.splits sum.splits)
      then show "initializationCount pa' = initializationCount pa \<and> firstOpenStream pa' = None"
        using IH [of I pa1 "Inr pa'"] close_count by auto
    qed
  qed
qed

lemma terminate_end:
  assumes "Pa_Terminate I pa = Some (Inr (x, pa'))" and "initializationCount pa = 1"
  shows "initializationCount pa' = 0 \<and> firstOpenStream pa' = None"
proof -
  obtain pa1 pa2 where "CloseOpenStreams I pa = Some (Inr pa1)" "TerminateHostApis pa1 = Inr pa2"
    "pa' = pa2\<lparr>initializationCount := initializationCount pa2 - 1\<rparr>"
    using assms by (auto simp: Pa_Terminate_def PA_IS_INITIALISED_def bind_c_def split: option.splits sum.splits)
  then show ?thesis using close_streams_end [of I pa "Inr pa1"] TerminateHostApis_same_front [of pa1 pa2] assms(2)
    by (simp add: same_front_def)
qed

lemma initialize_front:
  assumes "Pa_Initialize inits alloc pa = Inr (x, pa')" and "initializationCount pa = 0" and "firstOpenStream pa = None"
  shows "firstOpenStream pa' = None \<and> initializationCount pa' = (if x = 0 then 1 else 0)"
proof -
  let ?pa = "pa\<lparr>hostApis := [], defaultHostApiIndex := -1, totalDevices := 0\<rparr>"
  have t: "same_front q q'" if "TerminateHostApis q = Inr q'" for q q' :: "'a pa"
    using that by (rule TerminateHostApis_same_front)
  have l: "same_front ?pa q" if "init_loop inits 0 ?pa = Inr (y, q)" for y q
    using that by (rule init_loop_same_front)
  have f: "same_front pa q" if "InitializeHostApis inits alloc pa = Inr (y, q)" for y q
    using that by (auto simp: InitializeHostApis_def dest!: t l split: if_splits) (simp_all add: same_front_def)
  then have "firstOpenStream q = None \<and> initializationCount q = 0"
    if "InitializeHostApis inits alloc pa = Inr (y, q)" for y q
    using that assms(2,3) by (force simp: same_front_def)
  then show ?thesis using assms
    by (cases "InitializeHostApis inits alloc pa") (auto simp: Pa_Initialize_def PA_IS_INITIALISED_def split: if_splits)
qed

section \<open>After a failed initialization\<close>

lemma refused:
  assumes "initializationCount pa = 0" and "firstOpenStream pa = None"
  shows "Pa_StopStream I s pa = Inr (err paNotInitialized, pa)"
    and "Pa_CloseStream I s pa = Some (Inr (err paNotInitialized, pa))"
    and "Pa_Terminate I pa = Some (Inr (err paNotInitialized, pa))"
proof -
  have "PaUtil_ValidateStreamPointer s pa = Inr (err paNotInitialized)"
    using assms(1) by (simp add: PaUtil_ValidateStreamPointer_def PA_IS_INITIALISED_def)
  moreover have "RemoveOpenStream s pa = Some (Inr pa)"
    using assms(2) by (simp add: RemoveOpenStream_def remove_loop.simps)
  ultimately show "Pa_StopStream I s pa = Inr (err paNotInitialized, pa)"
    "Pa_CloseStream I s pa = Some (Inr (err paNotInitialized, pa))"
    "Pa_Terminate I pa = Some (Inr (err paNotInitialized, pa))"
    using assms(1) by (simp_all add: Pa_StopStream_def Pa_CloseStream_def Pa_Terminate_def PA_IS_INITIALISED_def)
qed

lemma bind_c_Some: "bind_c m f = Some (Inr y) \<longleftrightarrow> (\<exists>x. m = Some (Inr x) \<and> f x = Some (Inr y))"
  by (auto simp: bind_c_def split: option.splits sum.splits)

lemma start_failed:
  assumes "startStreams I am pa = Some (Inr (False, pa'))" and "initializationCount pa = 1"
  shows "initializationCount pa' = 0 \<and> firstOpenStream pa' = None"
proof -
  obtain e pa1 where s: "Pa_StartStream I (input_stream am) pa = Inr (e, pa1)"
    using assms(1) by (cases "Pa_StartStream I (input_stream am) pa") (auto simp: startStreams_def)
  have c1: "initializationCount pa1 = 1" using start_count [OF s] assms(2) by simp
  show ?thesis
  proof (cases "e = err paNoError")
    case False
    then show ?thesis using assms(1) s c1
      by (auto simp: startStreams_def bind_c_Some dest!: close_count terminate_end)
  next
    case True
    obtain e2 pa2 where s2: "Pa_StartStream I (output_stream am) pa1 = Inr (e2, pa2)"
      using assms(1) s True by (cases "Pa_StartStream I (output_stream am) pa1") (auto simp: startStreams_def)
    have "initializationCount pa2 = 1" using start_count [OF s2] c1 by simp
    then show ?thesis using assms(1) s s2 True
      by (auto simp: startStreams_def bind_c_Some dest!: stop_count close_count terminate_end split: if_splits)
  qed
qed

lemma initialize_failed:
  assumes "am_initialize I inits alloc am0 pa0 = Some (Inr (False, am, pa))"
    and "initializationCount pa0 = 0" and "firstOpenStream pa0 = None"
  shows "initializationCount pa = 0 \<and> firstOpenStream pa = None"
proof -
  obtain e pa1 where i: "Pa_Initialize inits alloc pa0 = Inr (e, pa1)"
    using assms(1) by (cases "Pa_Initialize inits alloc pa0") (auto simp: am_initialize_def)
  note f = initialize_front [OF i assms(2,3)]
  show ?thesis
  proof (cases "e = 0")
    case False
    then show ?thesis using assms(1) i f by (simp add: am_initialize_def)
  next
    case True
    obtain e1 s1 pa2 where o1: "Pa_OpenDefaultStream True (input_stream am0) 1 0 paInt16 SAMPLE_RATE
        FRAMES_PER_BUFFER (Some 0) 0 pa1 = Inr ((e1, s1), pa2)"
      using assms(1) i True by (auto simp: am_initialize_def bind_c_Some)
    have c2: "initializationCount pa2 = 1" using open_count [OF o1] f True by simp
    show ?thesis
    proof (cases "e1 = 0")
      case False
      then show ?thesis using assms(1) i o1 c2 True
        by (auto simp: am_initialize_def bind_c_Some Let_def dest!: terminate_end)
    next
      case ok: True
      obtain e2 s2 pa3 where o2: "Pa_OpenDefaultStream True (output_stream am0) 0 1 paInt16 SAMPLE_RATE
          FRAMES_PER_BUFFER (Some 1) 0 pa2 = Inr ((e2, s2), pa3)"
        using assms(1) i o1 True ok by (auto simp: am_initialize_def bind_c_Some Let_def)
      have c3: "initializationCount pa3 = 1" using open_count [OF o2] c2 by simp
      show ?thesis
      proof (cases "e2 = 0")
        case False
        then show ?thesis using assms(1) i o1 o2 c3 True ok
          by (auto simp: am_initialize_def bind_c_Some Let_def dest!: close_count terminate_end)
      next
        case True
        then show ?thesis using assms(1) i o1 o2 c3 \<open>e = 0\<close> ok
          by (auto simp: am_initialize_def bind_c_Some Let_def dest!: start_failed)
      qed
    qed
  qed
qed

section \<open>Playback\<close>

lemma smooth_nth:
  "smooth prev xs = Inr ys \<Longrightarrow> i < length xs \<Longrightarrow>
     ys ! i = smooth_step (if i = 0 then prev else ys ! (i - 1)) (xs ! i)"
proof (induction xs arbitrary: prev ys i)
  case Nil
  then show ?case by simp
next
  case (Cons x xs)
  then obtain zs where z: "smooth (smooth_step prev x) xs = Inr zs" "ys = smooth_step prev x # zs"
    by (auto simp: Let_def split: if_splits)
  show ?case
  proof (cases i)
    case 0
    then show ?thesis using z by simp
  next
    case (Suc j)
    then show ?thesis using Cons.IH [OF z(1), of j] Cons.prems(2) z(2) by (cases j) simp_all
  qed
qed

lemma sample_at:
  "i < sample_count pk \<Longrightarrow> packet_samples p pk ! i = sint (object_word (byte_order p) (slice (2 * i) 2 pk) :: i16)"
  by (simp add: packet_samples_def)

lemma samples_front:
  assumes "list_all int16_range ys" and "i < length ys" 
  shows "packet_samples p (samples_bytes p ys @ zs) ! i = ys ! i"
proof -
  have "sint (object_word (byte_order p) (object_bytes (byte_order p) 2 (of_int (ys ! i) :: i16)) :: i16) = ys ! i"
    using assms by (simp add: sint_of_int16 list_all_length)
  then show ?thesis using assms(2)
    by (subst sample_at) (simp_all add: sample_count_def slice_append1 slice_samples_bytes)
qed

lemma samples_silent:
  assumes "length zs = 2 * n" and "n \<le> i" and "i < n + m"
  shows "packet_samples p (zs @ replicate (2 * m) 0) ! i = 0"
proof -
  have "slice (2 * i) 2 (zs @ replicate (2 * m) 0) = replicate (min 2 (2 * m - (2 * i - 2 * n))) (0 :: byte)"
    using assms by (simp add: slice_append2 slice_def)
  also have "\<dots> = [0, 0]" using assms by (simp add: numeral_2_eq_2)
  finally have "slice (2 * i) 2 (zs @ replicate (2 * m) 0) = [0, 0 :: byte]" .
  moreover have "object_word e [0, 0] = (0 :: i16)" for e by (cases e) (simp_all add: object_word_def)
  ultimately show ?thesis using assms by (subst sample_at) (simp_all add: sample_count_def)
qed

text \<open>The callback on a packet: the smoothed samples, and what fills the rest of the buffer.\<close>

lemma outputCallback_eq:
  assumes "output_buffer am = packet # q" and "length out = 2 * frames"
    and "n = min (sample_count packet) frames"
  shows "\<exists>ys rest. smooth 0 (take n (packet_samples p packet)) = Inr ys \<and> length ys = n \<and> list_all int16_range ys \<and>
    outputCallback p out frames am = Inr (samples_bytes p ys @ rest, am\<lparr>output_buffer := q\<rparr>) \<and>
    length rest = 2 * (frames - n) \<and> (even (length packet) \<longrightarrow> rest = replicate (2 * (frames - n)) 0)"
proof -
  let ?b = "min (length packet) (frames * 2)"
  have n: "?b div 2 = n" unfolding assms(3) sample_count_def min_def by (auto split: if_splits)
  have "list_all int16_range (take n (packet_samples p packet))"
    by (auto simp: list_all_iff dest!: in_set_takeD packet_samples_range)
  then obtain ys where ys: "smooth 0 (take n (packet_samples p packet)) = Inr ys" "length ys = n" "list_all int16_range ys"
    using smooth_defined [of 0 "take n (packet_samples p packet)"] assms(3) by (auto simp: int16_range_def)
  show ?thesis
  proof (cases "?b < frames * 2")
    case True
    then have l: "length packet < frames * 2" "?b = length packet" "n = length packet div 2"
      using n by simp_all
    let ?rest = "take (length packet - 2 * n) (drop (2 * n) out) @ replicate (frames * 2 - length packet) 0"
    have "outputCallback p out frames am = Inr (samples_bytes p ys @ ?rest, am\<lparr>output_buffer := q\<rparr>)"
      using assms(1) ys n l by (simp add: outputCallback_def Let_def)
    moreover have "length ?rest = 2 * (frames - n)" using l assms(2) by simp
    moreover have "?rest = replicate (2 * (frames - n)) 0" if "even (length packet)"
      using that l by (simp add: algebra_simps)
    ultimately show ?thesis using ys by blast
  next
    case False
    then have l: "frames * 2 \<le> length packet" "n = frames" using n by simp_all
    then have "outputCallback p out frames am = Inr (samples_bytes p ys @ [], am\<lparr>output_buffer := q\<rparr>)"
      using assms(1,2) ys n by (simp add: outputCallback_def Let_def)
    then show ?thesis using ys l(2) by (intro exI [of _ ys] exI [of _ "[]"]) simp
  qed
qed

section \<open>Properties\<close>

text \<open>
  A client whose audio could not be initialized is destroyed without harm: whatever failed (the
  library, a stream that did not open or start), the library is terminated once, and the
  destructor, which stops, closes and terminates again, with pointers to streams that are gone,
  is refused by every call and changes nothing.
\<close>

theorem failed_initialize_destroyed:
  assumes "am_initialize I inits alloc am0 pa0 = Some (Inr (False, am, pa))"
    and "initializationCount pa0 = 0" and "firstOpenStream pa0 = None"
  shows "initializationCount pa = 0 \<and> am_destroy I am pa = Some (Inr pa)"
proof -
  have f: "initializationCount pa = 0" "firstOpenStream pa = None" using initialize_failed [OF assms] by simp_all
  then have "stop_and_close I s pa = Some (Inr pa)" for s by (simp add: stop_and_close_def refused)
  then show ?thesis using f by (simp add: am_destroy_def refused)
qed

definition no_devices :: "skel pa" where
  "no_devices = pa_start \<lparr>streams = (\<lambda>_. None),
     driver = \<lparr>memory = start_mem (\<lambda>_. False), skel_streams = (\<lambda>_. None), skel_apis = (\<lambda>_. None)\<rparr>\<rparr>"

theorem failed_initialize_destroyed_witness:
  "\<exists>am pa. am_initialize skel_interfaces [] True new_audio_manager no_devices = Some (Inr (False, am, pa)) \<and>
     am_destroy skel_interfaces am pa = Some (Inr pa)"
proof -
  have "\<exists>am pa. am_initialize skel_interfaces [] True new_audio_manager no_devices = Some (Inr (False, am, pa))"
    by (simp add: am_initialize_def no_devices_def pa_start_def Pa_Initialize_def PA_IS_INITIALISED_def
        InitializeHostApis_def Pa_OpenDefaultStream_def default_parameters_def Pa_GetDefaultInputDevice_def
        Pa_GetDefaultHostApi_def hostApisCount_def Pa_Terminate_def CloseOpenStreams.simps TerminateHostApis_def Let_def)
  moreover have "initializationCount no_devices = 0" "firstOpenStream no_devices = None"
    by (simp_all add: no_devices_def pa_start_def)
  ultimately show ?thesis using failed_initialize_destroyed [of skel_interfaces "[]" True new_audio_manager no_devices]
    by blast
qed




definition two_streams :: "buffer_processor \<Rightarrow> skel pa" where
  "two_streams bp = (let pa = one_stream bp; t = the (skel_streams (driver (world pa)) 0) in
     pa\<lparr>firstOpenStream := Some 1,
       world := \<lparr>streams = [0 \<mapsto> silent_rep, 1 \<mapsto> silent_rep\<lparr>nextOpenStream := Some 0\<rparr>],
         driver = \<lparr>memory = \<lparr>blocks = [0 \<mapsto> 416, 1 \<mapsto> 416], requests = 2, oom = (\<lambda>_. False)\<rparr>,
           skel_streams = [0 \<mapsto> t, 1 \<mapsto> t], skel_apis = (\<lambda>_. None)\<rparr>\<rparr>\<rparr>)"

lemma two_streams_ok: "open_streams (two_streams bp) [1, 0]" "skel_inv (world (two_streams bp))"
  by (auto simp: two_streams_def one_stream_def open_streams_def next_of_def silent_rep_def Let_def
      PaUtil_InitializeStreamRepresentation_def skel_inv_def mem_ok_def stream_blocks_def bp_blocks_def split: if_splits)


end
