(* ===== verification/Frame.thy ===== *)
theory Frame
  imports Prelude
begin

text \<open>
  WebSocket framing of \<open>src/common/WebSocketSession.h\<close>: the opcodes, \<open>handle_frame\<close>,
  \<open>create_websocket_frame\<close> and the read buffer of \<open>do_read\<close>. Beside the code stands the layout
  of a frame in RFC 6455 (\<open>rfc_frame\<close>), for both directions.

  \<open>handle_frame\<close> gives the call of the message handler it makes (\<open>Some (opcode, message)\<close>) or
  \<open>None\<close>; an access outside the vector is \<open>Undefined_behaviour\<close>. Only the messages written to
  \<open>std::cerr\<close> are left out.
\<close>

unbundle bit_operations_syntax

section \<open>Opcodes and vector accesses\<close>

text \<open>The enumeration has a fixed underlying type, so a cast gives any of its values.\<close>

type_synonym opcode = byte

definition Op_Continuation :: opcode where "Op_Continuation = 0x0"
definition Op_Text :: opcode where "Op_Text = 0x1"
definition Op_Binary :: opcode where "Op_Binary = 0x2"
definition Op_Close :: opcode where "Op_Close = 0x8"
definition Op_Ping :: opcode where "Op_Ping = 0x9"
definition Op_Pong :: opcode where "Op_Pong = 0xA"

definition vec_at :: "bytes \<Rightarrow> nat \<Rightarrow> byte result" where
  "vec_at v i = (if i < length v then Inr (v ! i) else Inl Undefined_behaviour)"

definition vec_range :: "bytes \<Rightarrow> size_t \<Rightarrow> size_t \<Rightarrow> bytes result" where
  "vec_range v i n =
     (if unat i + unat n \<le> length v then Inr (slice (unat i) (unat n) v)
      else Inl Undefined_behaviour)"

section \<open>Reading a frame\<close>

definition MAX_REASONABLE_PAYLOAD :: u64 where
  "MAX_REASONABLE_PAYLOAD = 1024 * 1024 * 100"

text \<open>The payload length with the header length, or \<open>None\<close> where the code returns.\<close>

definition frame_length :: "bytes \<Rightarrow> size_t \<Rightarrow> u64 \<Rightarrow> (u64 \<times> size_t) option result" where
  "frame_length buffer len payload_length =
     (if payload_length = 126 then
        (if len < 4 then Inr None
         else bind_r (vec_at buffer 2) (\<lambda>b2. bind_r (vec_at buffer 3) (\<lambda>b3.
           Inr (Some (push_bit 8 (ucast b2) OR ucast b3, 4)))))
      else if payload_length = 127 then
        (if len < 10 then Inr None
         else bind_r (vec_range buffer 2 8) (\<lambda>bs.
           let payload_length = foldl (\<lambda>p b. push_bit 8 p OR ucast b) 0 bs in
           if payload_length > 0x7FFFFFFFFFFFFFFF then Inr None
           else Inr (Some (payload_length, 10))))
      else Inr (Some (payload_length, 2)))"

definition unmask :: "bytes \<Rightarrow> bytes \<Rightarrow> bytes" where
  "unmask key payload = map (\<lambda>i. payload ! i XOR key ! (i mod 4)) [0..<length payload]"

text \<open>From the sanity check on: the lengths are known.\<close>

definition frame_payload ::
  "bytes \<Rightarrow> size_t \<Rightarrow> opcode \<Rightarrow> bool \<Rightarrow> u64 \<Rightarrow> size_t \<Rightarrow> (opcode \<times> bytes) option result" where
  "frame_payload buffer len opcode masked payload_length header_length =
     (if payload_length > MAX_REASONABLE_PAYLOAD then Inr None
      else if len < header_length + payload_length then Inr None
      else if masked then
        (if len < header_length + 4 then Inr None
         else bind_r (vec_range buffer header_length 4) (\<lambda>key.
              let header_length = header_length + 4 in
              bind_r (vec_range buffer header_length payload_length) (\<lambda>payload.
                Inr (Some (opcode, unmask key payload)))))
      else bind_r (vec_range buffer header_length payload_length) (\<lambda>payload.
             Inr (Some (opcode, payload))))"

definition handle_frame :: "bytes \<Rightarrow> size_t \<Rightarrow> (opcode \<times> bytes) option result" where
  "handle_frame buffer len =
     (if len < 2 then Inr None
      else bind_r (vec_at buffer 0) (\<lambda>b0. bind_r (vec_at buffer 1) (\<lambda>b1.
        let opcode = b0 AND 0x0F;
            masked = (b1 AND 0x80 \<noteq> 0);
            payload_length = ucast (b1 AND 0x7F)
        in bind_r (frame_length buffer len payload_length) (\<lambda>r. case r of
             None \<Rightarrow> Inr None
           | Some (payload_length, header_length) \<Rightarrow>
               frame_payload buffer len opcode masked payload_length header_length))))"

text \<open>
  \<open>do_read\<close>: a fresh vector of 65536 zero bytes for every read, \<open>handle_frame\<close> on what
  \<open>async_read_some\<close> put at its front.
\<close>

definition read_buffer_size :: nat where
  "read_buffer_size = 65536"

definition on_read :: "bytes \<Rightarrow> (opcode \<times> bytes) option result" where
  "on_read chunk =
     handle_frame (chunk @ replicate (read_buffer_size - length chunk) 0) (of_nat (length chunk))"

section \<open>Writing a frame\<close>

definition create_websocket_frame :: "bytes \<Rightarrow> opcode \<Rightarrow> bytes" where
  "create_websocket_frame message opcode =
     (let size = of_nat (length message) :: size_t;
          frame = [0x80 OR opcode];
          frame =
            (if size \<le> 125 then frame @ [ucast size]
             else if size \<le> 65535
             then frame @ [126] @ [ucast (drop_bit 8 size AND 0xFF)] @ [ucast (size AND 0xFF)]
             else frame @ [127] @
               map (\<lambda>i. ucast (drop_bit (i * 8) size AND 0xFF)) [7, 6, 5, 4, 3, 2, 1, 0])
      in frame @ message)"

section \<open>The layout of RFC 6455\<close>

text \<open>
  FIN bit and opcode; mask bit and length in seven bits, or 126 and sixteen bits, or 127 and
  sixty-four bits, most significant byte first; the masking key when there is one; the payload,
  each byte xored with the key byte of its position modulo 4.
\<close>

definition rfc_length :: "bool \<Rightarrow> nat \<Rightarrow> bytes" where
  "rfc_length masked n =
     (let m = if masked then 0x80 else 0 in
      if n < 126 then [m OR of_nat n]
      else if n < 65536 then [m OR 126] @ object_bytes BigEndian 2 (of_nat n :: u16)
      else [m OR 127] @ object_bytes BigEndian 8 (of_nat n :: u64))"

fun xor_key :: "bytes \<Rightarrow> bytes \<Rightarrow> bytes" where
  "xor_key key [] = []"
| "xor_key key (b # bs) = (b XOR hd key) # xor_key (rotate1 key) bs"

definition rfc_frame :: "opcode \<Rightarrow> bytes option \<Rightarrow> bytes \<Rightarrow> bytes" where
  "rfc_frame op key m =
     [0x80 OR op] @ rfc_length (key \<noteq> None) (length m) @
     (case key of None \<Rightarrow> m | Some k \<Rightarrow> k @ xor_key k m)"

definition header_size :: "nat \<Rightarrow> nat" where
  "header_size n = (if n < 126 then 2 else if n < 65536 then 4 else 10)"

section \<open>Masking\<close>

lemma length_xor_key [simp]: "length (xor_key k m) = length m"
  by (induction k m rule: xor_key.induct) auto

lemma length_unmask [simp]: "length (unmask k m) = length m"
  by (simp add: unmask_def)

lemma nth_xor_key: "length k = 4 \<Longrightarrow> i < length m \<Longrightarrow> xor_key k m ! i = m ! i XOR k ! (i mod 4)"
proof (induction k m arbitrary: i rule: xor_key.induct)
  case (2 k b bs)
  have ne: "k \<noteq> []" using "2.prems" by auto
  show ?case
  proof (cases i)
    case 0
    then show ?thesis using ne by (simp add: hd_conv_nth)
  next
    case (Suc j)
    then have "xor_key (rotate1 k) bs ! j = bs ! j XOR rotate1 k ! (j mod 4)"
      using "2.IH" [of j] "2.prems" by simp
    moreover have "rotate1 k ! (j mod 4) = k ! (Suc j mod 4)"
      using "2.prems" by (simp add: nth_rotate1 mod_simps)
    ultimately show ?thesis using Suc by simp
  qed
qed simp

lemma unmask_eq: "length k = 4 \<Longrightarrow> unmask k m = xor_key k m"
  by (rule nth_equalityI) (simp_all add: unmask_def nth_xor_key)

text \<open>Masking twice with the same key gives the payload back.\<close>

lemma unmask_xor_key: "length k = 4 \<Longrightarrow> unmask k (xor_key k m) = m"
  by (rule nth_equalityI) (simp_all add: unmask_def nth_xor_key xor.assoc)

section \<open>What one read delivers\<close>

text \<open>
  The payload length a chunk declares in its header, and the size of that header; what
  \<open>on_read\<close> does with the chunk, in those terms.
\<close>

definition declared_length :: "bytes \<Rightarrow> nat" where
  "declared_length c =
     (let b = c ! 1 AND 0x7F in
      if b = 126 then unat (object_word BigEndian (slice 2 2 c) :: u64)
      else if b = 127 then unat (object_word BigEndian (slice 2 8 c) :: u64)
      else unat b)"

definition declared_header :: "bytes \<Rightarrow> nat" where
  "declared_header c =
     (let b = c ! 1 AND 0x7F in if b = 126 then 4 else if b = 127 then 10 else 2)"

definition declared_masked :: "bytes \<Rightarrow> bool" where
  "declared_masked c = (c ! 1 AND 0x80 \<noteq> 0)"

lemma foldl_be: "foldl (\<lambda>p b. push_bit 8 p OR ucast b) 0 bs = (le_word (rev bs) :: 'a::len word)"
  by (induction bs rule: rev_induct) (simp_all add: or.commute)

lemma vec_at_lt [simp]: "i < length v \<Longrightarrow> vec_at v i = Inr (v ! i)"
  by (simp add: vec_at_def)

lemma ucast_eq_small: "ucast (b AND 0x7F :: byte) = (of_nat (unat (b AND 0x7F)) :: u64)"
  by simp

lemma header_byte:
  "(ucast (b AND 0x7F :: byte) :: u64) = 126 \<longleftrightarrow> b AND 0x7F = 126"
  "(ucast (b AND 0x7F :: byte) :: u64) = 127 \<longleftrightarrow> b AND 0x7F = 127"
  by (simp_all add: word_unat_eq_iff unat_ucast_up)

lemma slice2: "i + 2 \<le> length xs \<Longrightarrow> slice i 2 xs = [xs ! i, xs ! Suc i]"
  by (rule nth_equalityI) (auto simp: nth_slice less_Suc_eq numeral_2_eq_2)

lemma frame_length_eq:
  assumes n: "2 \<le> length c" "length c < 2 ^ 63"
  shows "frame_length (c @ z) (of_nat (length c)) (ucast (c ! 1 AND 0x7F)) =
    (if length c < declared_header c then Inr None
     else if declared_header c = 10 \<and> declared_length c > 0x7FFFFFFFFFFFFFFF then Inr None
     else Inr (Some (of_nat (declared_length c), of_nat (declared_header c))))"
proof -
  have u: "unat (of_nat (length c) :: size_t) = length c" using n by (intro unat_of_nat64) simp
  show ?thesis
  proof (cases "c ! 1 AND 0x7F = 126 \<or> c ! 1 AND 0x7F = 127")
    case False
    then have "declared_length c = unat (c ! 1 AND 0x7F)" "declared_header c = 2"
      by (simp_all add: declared_length_def declared_header_def)
    then show ?thesis
      using False n(1) by (simp add: frame_length_def header_byte)
  next
    case True
    then show ?thesis
    proof
      assume b: "c ! 1 AND 0x7F = 126"
      then have d: "declared_length c = unat (object_word BigEndian (slice 2 2 c) :: u64)"
        "declared_header c = 4"
        by (simp_all add: declared_length_def declared_header_def)
      show ?thesis
      proof (cases "length c < 4")
        case True
        then show ?thesis using b d u
          by (simp add: frame_length_def header_byte word_less_nat_alt)
      next
        case False
        then have "(object_word BigEndian (slice 2 2 c) :: u64) = push_bit 8 (ucast (c ! 2)) OR ucast (c ! 3)"
          by (simp add: slice2 object_word_def or.commute)
        with False b d u show ?thesis
          by (simp add: frame_length_def header_byte word_less_nat_alt nth_append)
      qed
    next
      assume b: "c ! 1 AND 0x7F = 127"
      then have d: "declared_length c = unat (object_word BigEndian (slice 2 8 c) :: u64)"
        "declared_header c = 10"
        by (simp_all add: declared_length_def declared_header_def)
      show ?thesis
      proof (cases "length c < 10")
        case True
        then show ?thesis using b d u
          by (simp add: frame_length_def header_byte word_less_nat_alt)
      next
        case False
        then have "vec_range (c @ z) 2 8 = Inr (slice 2 8 c)"
          by (simp add: vec_range_def slice_append1)
        with False b d u show ?thesis
          by (simp add: frame_length_def header_byte word_less_nat_alt foldl_be object_word_def)
      qed
    qed
  qed
qed

lemma declared_header_cases: "declared_header c = 2 \<or> declared_header c = 4 \<or> declared_header c = 10"
  by (simp add: declared_header_def Let_def)

lemma declared_length_less: "declared_length c < 2 ^ 64"
proof -
  have "unat (w :: u64) < 2 ^ 64" for w using unsigned_less [of w] by simp
  moreover have "unat (w :: byte) < 2 ^ 64" for w using unat_byte [of w] by simp
  ultimately show ?thesis by (simp add: declared_length_def Let_def)
qed

definition read_buffer :: "bytes \<Rightarrow> bytes" where
  "read_buffer c = c @ replicate (read_buffer_size - length c) 0"

lemma length_read_buffer: "length c \<le> 65536 \<Longrightarrow> length (read_buffer c) = 65536"
  by (simp add: read_buffer_def read_buffer_size_def)

lemma vec_range_nat:
  "i < 2 ^ 64 \<Longrightarrow> n < 2 ^ 64 \<Longrightarrow> vec_range v (of_nat i) (of_nat n) =
     (if i + n \<le> length v then Inr (slice i n v) else Inl Undefined_behaviour)"
  by (simp add: vec_range_def unat_of_nat64 del: of_nat_numeral)

lemma on_read_eq:
  assumes n: "length c \<le> 65536"
  defines "h \<equiv> declared_header c" and "l \<equiv> declared_length c"
  shows "on_read c =
    (if length c < 2 \<or> length c < h + l then Inr None
     else if \<not> declared_masked c then Inr (Some (c ! 0 AND 0x0F, slice h l c))
     else if length c < h + 4 then Inr None
     else if 65536 < h + 4 + l then Inl Undefined_behaviour
     else Inr (Some (c ! 0 AND 0x0F, unmask (slice h 4 c) (slice (h + 4) l (read_buffer c)))))"
proof (cases "length c < 2")
  case True
  moreover have "(of_nat (length c) :: size_t) < 2"
    using True n by (simp add: word_less_nat_alt unat_of_nat64)
  ultimately show ?thesis by (simp add: on_read_def handle_frame_def)
next
  case False
  let ?z = "replicate (read_buffer_size - length c) 0 :: bytes"
  let ?n = "of_nat (length c) :: size_t"
  have buf: "c @ ?z = read_buffer c" by (simp add: read_buffer_def)
  note lb = length_read_buffer [OF n]
  have h: "h = 2 \<or> h = 4 \<or> h = 10" unfolding h_def by (rule declared_header_cases)
  have l: "l < 2 ^ 64" unfolding l_def by (rule declared_length_less)
  have u: "unat ?n = length c" using n by (intro unat_of_nat64) simp
  have n2: "\<not> ?n < 2" using False u by (simp only: word_less_nat_alt) simp
  have at: "vec_at (read_buffer c) i = Inr (c ! i)" if "i < length c" for i
    using that n lb by (simp add: vec_at_def) (simp add: read_buffer_def nth_append)
  have at01: "vec_at (read_buffer c) 0 = Inr (c ! 0)" "vec_at (read_buffer c) 1 = Inr (c ! 1)"
    using False by (auto intro!: at)
  have start: "on_read c =
     bind_r (frame_length (read_buffer c) ?n (ucast (c ! 1 AND 0x7F))) (\<lambda>r. case r of
             None \<Rightarrow> Inr None
           | Some (payload_length, header_length) \<Rightarrow>
               frame_payload (read_buffer c) ?n (c ! 0 AND 0x0F) (declared_masked c)
                 payload_length header_length)"
    unfolding on_read_def handle_frame_def buf at01 declared_masked_def
    by (simp only: n2 if_False bind_r_simps Let_def)
  have fl: "frame_length (read_buffer c) ?n (ucast (c ! 1 AND 0x7F)) =
     (if length c < h then Inr None else if h = 10 \<and> l > 0x7FFFFFFFFFFFFFFF then Inr None
      else Inr (Some (of_nat l, of_nat h)))"
    unfolding buf [symmetric] h_def l_def by (rule frame_length_eq) (use False n in simp_all)
  have big: "(of_nat l :: u64) > MAX_REASONABLE_PAYLOAD \<longleftrightarrow> l > 104857600"
    using l by (simp add: MAX_REASONABLE_PAYLOAD_def word_less_nat_alt unat_of_nat64)
  show ?thesis
  proof (cases "length c < h \<or> l > 104857600")
    case True
    then have "length c < h + l" using n by auto
    then show ?thesis using True False unfolding start fl by (auto simp: big frame_payload_def)
  next
    case ok: False
    have hl: "h + 4 + l < 2 ^ 63" using ok h by auto
    have w: "?n < of_nat h + of_nat k \<longleftrightarrow> length c < h + k" if "h + k < 2 ^ 64" for k
      using u that of_nat64_add_no_wrap [of h k] by (simp only: word_less_nat_alt)
    have w4: "?n < of_nat (h + 4) \<longleftrightarrow> length c < h + 4"
      using w [of 4] h by (simp only: of_nat_add) auto
    have h4: "(of_nat h + 4 :: size_t) = of_nat (h + 4)" by simp
    have r: "vec_range (read_buffer c) (of_nat i) (of_nat k) =
       (if i + k \<le> 65536 then Inr (slice i k (read_buffer c)) else Inl Undefined_behaviour)"
      if "i \<le> h + 4" "k \<le> l" for i k
      using that hl lb by (subst vec_range_nat) auto
    have r4: "vec_range (read_buffer c) (of_nat h) 4 = Inr (slice h 4 (read_buffer c))"
      using vec_range_nat [of h 4 "read_buffer c"] h lb by auto
    have s: "slice i k (read_buffer c) = slice i k c" if "i + k \<le> length c" for i k
      using that by (simp add: read_buffer_def slice_append1)
    have "\<not> length c < h \<and> \<not> (h = 10 \<and> l > 0x7FFFFFFFFFFFFFFF)" using ok by auto
    then have start': "on_read c = frame_payload (read_buffer c) ?n (c ! 0 AND 0x0F)
        (declared_masked c) (of_nat l) (of_nat h)"
      unfolding start fl by auto
    show ?thesis
    proof (cases "length c < h + l")
      case True
      with False ok w [of l] hl show ?thesis
        by (simp add: start' frame_payload_def big)
    next
      case complete: False
      then have "frame_payload (read_buffer c) ?n op m (of_nat l) (of_nat h) =
         (if m then if length c < h + 4 then Inr None
            else bind_r (vec_range (read_buffer c) (of_nat (h + 4)) (of_nat l)) (\<lambda>payload.
              Inr (Some (op, unmask (slice h 4 (read_buffer c)) payload)))
          else Inr (Some (op, slice h l c)))" for op m
        using ok w [of l] hl r [of h l] s [of h l] n
        by (simp add: frame_payload_def big w4 r4 h4 Let_def del: of_nat_add)
      moreover have "length c < h + 4 \<or> slice h 4 (read_buffer c) = slice h 4 c"
        using s [of h 4] by linarith
      ultimately show ?thesis
        using False complete r [of "h + 4" l] by (auto simp: start' add.assoc)
    qed
  qed
qed

section \<open>Frames of the protocol\<close>

lemma length_rfc_length [simp]: "length (rfc_length masked n) = header_size n - 1"
  by (simp add: rfc_length_def header_size_def Let_def)

lemma length_rfc_frame:
  "length (rfc_frame op key m) =
     header_size (length m) + (case key of None \<Rightarrow> 0 | Some k \<Rightarrow> length k) + length m"
  by (simp add: rfc_frame_def header_size_def split: option.split)

lemma le_word_le_bytes_16: "(le_word (le_bytes 2 (w :: u16)) :: u64) = ucast w"
proof (rule bit_word_eqI)
  fix k assume "k < LENGTH(64)"
  show "bit (le_word (le_bytes 2 w) :: u64) k \<longleftrightarrow> bit (ucast w :: u64) k"
  proof (cases "k < 16")
    case True
    then have "k div 8 < 2" by auto
    then show ?thesis using True
      by (simp add: bit_le_word nth_le_bytes bit_unsigned_iff bit_drop_bit_eq)
  next
    case False
    then have "\<not> k div 8 < 2" "\<not> bit w k" using bit_imp_le_length [of w k] by auto
    then show ?thesis by (simp add: bit_le_word bit_unsigned_iff)
  qed
qed

lemma length_code_bits:
  assumes "n < 128"
  shows "((if masked then 0x80 else 0) OR of_nat n :: byte) AND 0x7F = of_nat n"
    "((if masked then 0x80 else 0) OR of_nat n :: byte) AND 0x80 \<noteq> 0 \<longleftrightarrow> masked"
proof -
  have u: "unat (of_nat n :: byte) = n" using assms by (simp add: unat_of_nat take_bit_nat_eq_self)
  then have b: "\<not> bit (of_nat n :: byte) 7" using assms by (simp add: bit7)
  show "((if masked then 0x80 else 0) OR of_nat n :: byte) AND 0x7F = of_nat n"
    by (rule byte_eqI) (use b in \<open>simp_all add: bit_simps\<close>)
  have m: "x AND 0x80 \<noteq> 0 \<longleftrightarrow> bit x 7" for x :: byte
  proof
    show "bit x 7" if "x AND 0x80 \<noteq> 0"
    proof (rule ccontr)
      assume "\<not> bit x 7"
      then have "x AND 0x80 = 0" by (intro byte_eqI) (simp_all add: bit_simps)
      with that show False by simp
    qed
    show "x AND 0x80 \<noteq> 0" if "bit x 7"
    proof -
      have "bit (x AND 0x80) 7" using that by (simp add: bit_simps)
      then show ?thesis by auto
    qed
  qed
  show "((if masked then 0x80 else 0) OR of_nat n :: byte) AND 0x80 \<noteq> 0 \<longleftrightarrow> masked"
    unfolding m using b by (simp add: bit_simps)
qed

lemma rfc_declared:
  assumes "length m < 2 ^ 63" and "c = [b] @ rfc_length masked (length m) @ rest"
  shows "declared_length c = length m" "declared_header c = header_size (length m)"
    "declared_masked c = masked"
proof -
  let ?n = "length m"
  let ?code = "if ?n < 126 then ?n else if ?n < 65536 then 126 else 127"
  have code: "c ! 1 = (if masked then 0x80 else 0) OR of_nat ?code"
    by (simp add: assms(2) rfc_length_def Let_def)
  have c128: "?code < 128" by simp
  note bits = length_code_bits [OF c128, of masked, folded code, unfolded One_nat_def]
  show "declared_masked c = masked" by (simp add: declared_masked_def bits)
  have small: "unat (of_nat ?n :: byte) = ?n" if "?n < 126"
    using that by (simp add: unat_of_nat take_bit_nat_eq_self)
  then have eq: "(of_nat ?n :: byte) \<noteq> 126 \<and> (of_nat ?n :: byte) \<noteq> 127" if "?n < 126"
    using that by (auto simp: word_unat_eq_iff)
  show "declared_header c = header_size ?n"
    using eq by (simp add: declared_header_def bits header_size_def Let_def)
  consider "?n < 126" | "126 \<le> ?n" "?n < 65536" | "65536 \<le> ?n" by linarith
  then show "declared_length c = ?n"
  proof cases
    case 1
    then show ?thesis using eq small by (simp add: declared_length_def bits Let_def)
  next
    case 2
    then have "slice 2 2 c = object_bytes BigEndian 2 (of_nat ?n :: u16)"
      by (simp add: assms(2) rfc_length_def Let_def slice_def)
    then have "unat (object_word BigEndian (slice 2 2 c) :: u64) = unat (of_nat ?n :: u16)"
      by (simp add: object_word_def object_bytes_def le_word_le_bytes_16 unat_ucast_up)
    also have "\<dots> = ?n" using 2 by (simp add: unat_of_nat take_bit_nat_eq_self)
    finally show ?thesis using 2 by (simp add: declared_length_def bits Let_def)
  next
    case 3
    then have "slice 2 8 c = object_bytes BigEndian 8 (of_nat ?n :: u64)"
      by (simp add: assms(2) rfc_length_def Let_def slice_def)
    then have "unat (object_word BigEndian (slice 2 8 c) :: u64) = ?n"
      using assms(1) by (simp add: unat_of_nat64)
    then show ?thesis using 3 by (simp add: declared_length_def bits Let_def)
  qed
qed

lemma opcode_bits:
  assumes "op < 16"
  shows "(0x80 OR op) AND 0x0F = (op :: opcode)"
proof -
  have "unat op < 16" using assms by (simp add: word_less_nat_alt)
  then have "take_bit 4 op = op"
    by (simp add: word_unat_eq_iff unsigned_take_bit_eq take_bit_nat_eq_self)
  then have "bit op k \<longleftrightarrow> k < 4 \<and> bit op k" for k by (metis bit_take_bit_iff)
  from this [of 4] this [of 5] this [of 6] this [of 7] show ?thesis
    by (intro byte_eqI) (simp_all add: bit_simps)
qed

section \<open>The framing contract\<close>

text \<open>
  What either side of a connection relies on: a frame that arrives in one read, with anything
  behind it, is delivered as the opcode and the message it was made from.
\<close>

locale framing =
  fixes encode :: "opcode \<Rightarrow> bytes \<Rightarrow> bytes"
    and decode :: "bytes \<Rightarrow> (opcode \<times> bytes) option result"
  assumes decode_encode: "op < 16 \<Longrightarrow> length (encode op m @ rest) \<le> read_buffer_size \<Longrightarrow>
      decode (encode op m @ rest) = Inr (Some (op, m))"
begin

lemma encode_inject:
  assumes "op < 16" "op' < 16" "encode op m = encode op' m'" "length (encode op m) \<le> read_buffer_size"
  shows "op = op' \<and> m = m'"
  using decode_encode [of op m "[]"] decode_encode [of op' m' "[]"] assms by simp

text \<open>Frames that arrive together: the first is delivered, the others are not looked at.\<close>

lemma first_frame_only:
  assumes "op < 16" "length (encode op m @ concat (map (\<lambda>(o', m'). encode o' m') fs)) \<le> read_buffer_size"
  shows "decode (encode op m @ concat (map (\<lambda>(o', m'). encode o' m') fs)) = Inr (Some (op, m))"
  using decode_encode [OF assms] .

end

lemma on_read_client_frame:
  assumes "op < 16" and key: "case key of None \<Rightarrow> True | Some k \<Rightarrow> length k = 4"
    and len: "length (rfc_frame op key m @ rest) \<le> read_buffer_size"
  shows "on_read (rfc_frame op key m @ rest) = Inr (Some (op, m))"
proof -
  let ?c = "rfc_frame op key m @ rest" and ?l = "length m"
  have l: "?l < 2 ^ 63" and n: "length ?c \<le> 65536"
    using len by (simp_all add: read_buffer_size_def length_rfc_frame)
  have c: "?c = [0x80 OR op] @ rfc_length (key \<noteq> None) ?l @
      (case key of None \<Rightarrow> m | Some k \<Rightarrow> k @ xor_key k m) @ rest"
    by (simp add: rfc_frame_def)
  note d = rfc_declared [OF l c]
  have h: "2 \<le> header_size ?l" by (simp add: header_size_def)
  have h1: "length ([0x80 OR op] @ rfc_length (key \<noteq> None) ?l) = header_size ?l"
    using h by simp
  have z: "?c ! 0 AND 0x0F = op" using assms(1) by (simp add: rfc_frame_def opcode_bits)
  show ?thesis
  proof (cases key)
    case None
    have "slice (header_size ?l) ?l ?c = m"
      unfolding c h1 [symmetric] by (simp add: slice_def None)
    then show ?thesis
      unfolding on_read_eq [OF n] d z using None h by (simp add: length_rfc_frame)
  next
    case (Some k)
    have k4: "length k = 4" using key Some by simp
    let ?x = "[0x80 OR op] @ rfc_length True ?l"
    have "?c = ?x @ k @ (xor_key k m @ rest)" by (simp add: rfc_frame_def Some)
    moreover have "slice (header_size ?l) 4 (?x @ k @ (xor_key k m @ rest)) = k"
      by (rule slice_append_mid2) (use h k4 in simp_all)
    moreover have "read_buffer ?c = (?x @ k) @ xor_key k m @ (rest @ replicate (read_buffer_size - length ?c) 0)"
      by (simp add: rfc_frame_def Some read_buffer_def)
    moreover have "slice (header_size ?l + 4) ?l ((?x @ k) @ xor_key k m @ rest') = xor_key k m" for rest'
      by (rule slice_append_mid2) (use h k4 in simp_all)
    ultimately have "slice (header_size ?l) 4 ?c = k"
      "slice (header_size ?l + 4) ?l (read_buffer ?c) = xor_key k m"
      by (simp_all only:)
    then show ?thesis
      unfolding on_read_eq [OF n] d z using Some h key n
      by (simp add: length_rfc_frame unmask_xor_key)
  qed
qed

lemma low_byte: "ucast (x AND 0xFF :: u64) = (ucast x :: byte)"
  by (rule byte_eqI) (simp_all add: bit_simps)

lemma ucast_of_nat_byte:
  "(ucast (of_nat n :: u64) :: byte) = of_nat n"
  "(ucast (drop_bit 8 (of_nat n :: u16)) :: byte) = ucast (drop_bit 8 (of_nat n :: u64))"
  "(ucast (of_nat n :: u16) :: byte) = of_nat n"
  by (rule bit_word_eqI; auto simp: bit_simps)+

lemma size_le: "n < 2 ^ 64 \<Longrightarrow> k < 2 ^ 64 \<Longrightarrow> (of_nat n :: size_t) \<le> of_nat k \<longleftrightarrow> n \<le> k"
  by (simp add: word_le_nat_alt unat_of_nat64)

lemma create_websocket_frame_eq:
  assumes "length m < 2 ^ 64"
  shows "create_websocket_frame m op = rfc_frame op None m"
proof -
  let ?n = "length m"
  have le: "(of_nat ?n :: size_t) \<le> 125 \<longleftrightarrow> ?n < 126" "(of_nat ?n :: size_t) \<le> 65535 \<longleftrightarrow> ?n < 65536"
    using size_le [OF assms, of 125] size_le [OF assms, of 65535] by auto
  have two: "object_bytes BigEndian 2 (of_nat ?n :: u16) =
      [ucast (drop_bit 8 (of_nat ?n :: size_t)), ucast (of_nat ?n :: size_t)]"
    by (simp add: object_bytes_def le_bytes_numeral ucast_of_nat_byte)
  have eight: "object_bytes BigEndian 8 (of_nat ?n :: u64) =
      map (\<lambda>i. ucast (drop_bit (i * 8) (of_nat ?n :: size_t))) [7, 6, 5, 4, 3, 2, 1, 0]"
    by (simp add: object_bytes_def le_bytes_numeral)
  show ?thesis
    by (simp add: create_websocket_frame_def rfc_frame_def rfc_length_def le two eight low_byte
        ucast_of_nat_byte Let_def)
qed

interpretation client: framing "\<lambda>op. rfc_frame op (Some [a, b, c, d])" on_read for a b c d
  by unfold_locales (simp add: on_read_client_frame)

interpretation server: framing "\<lambda>op m. create_websocket_frame m op" on_read
proof
  fix op :: opcode and m rest
  assume "op < 16" and len: "length (create_websocket_frame m op @ rest) \<le> read_buffer_size"
  have "length m \<le> length (create_websocket_frame m op @ rest)"
    by (simp add: create_websocket_frame_def Let_def)
  then have "create_websocket_frame m op = rfc_frame op None m"
    using len by (intro create_websocket_frame_eq) (simp add: read_buffer_size_def)
  with \<open>op < 16\<close> len show "on_read (create_websocket_frame m op @ rest) = Inr (Some (op, m))"
    by (simp add: on_read_client_frame)
qed

section \<open>Properties\<close>

text \<open>
  (C15) \<open>create_websocket_frame\<close> writes the final, unmasked frame RFC 6455 lays out, with the
  shortest of the three length encodings, for every message a vector can hold.
\<close>

theorem create_websocket_frame_rfc:
  assumes "length m < 2 ^ 63"
  shows "create_websocket_frame m op = rfc_frame op None m"
  using assms by (intro create_websocket_frame_eq) simp

theorem create_websocket_frame_rfc_witness:
  "create_websocket_frame (cstr ''hi'') Op_Text = [0x81, 2, 0x68, 0x69]"
proof -
  have "length (cstr ''hi'') < 2 ^ 63" by (simp add: cstr_def)
  from create_websocket_frame_rfc [OF this, of Op_Text] show ?thesis
    by (simp add: rfc_frame_def rfc_length_def cstr_def Op_Text_def)
qed

text \<open>
  (C13) Every frame of a client (masked with any key) that arrives whole in one read is delivered
  with its opcode and its message unmasked, whatever follows it in the read; what follows, a
  further frame included, is not looked at.
\<close>

theorem client_frame_delivered:
  assumes "op < 16" and "length (rfc_frame op (Some [a, b, c, d]) m @ rest) \<le> read_buffer_size"
  shows "on_read (rfc_frame op (Some [a, b, c, d]) m @ rest) = Inr (Some (op, m))"
  using assms by (rule client.decode_encode)

theorem client_frame_delivered_witness:
  "on_read (rfc_frame Op_Text (Some [1, 2, 3, 4]) (cstr ''hello'') @
            rfc_frame Op_Text (Some [5, 6, 7, 8]) (cstr ''lost'')) =
     Inr (Some (Op_Text, cstr ''hello''))"
  by (rule client_frame_delivered)
    (simp_all add: Op_Text_def length_rfc_frame cstr_def header_size_def read_buffer_size_def)

text \<open>
  (C14) Memory safety of the frame reader, for any chunk the peer can send: the only undefined
  behaviour is a masked frame whose key and payload together end behind the 65536 bytes of the
  read buffer, and such a chunk does reach it. The completeness check forgets the four bytes of
  the key.
\<close>

theorem on_read_undefined_iff:
  assumes "length c \<le> read_buffer_size"
  shows "on_read c = Inl Undefined_behaviour \<longleftrightarrow>
    2 \<le> length c \<and> declared_masked c \<and> declared_header c + 4 \<le> length c \<and>
    declared_header c + declared_length c \<le> length c \<and>
    read_buffer_size < declared_header c + 4 + declared_length c"
  using on_read_eq [of c] assms by (auto simp: read_buffer_size_def)

text \<open>A chunk of 65536 bytes: a masked binary frame of 65529 bytes whose last byte is missing.\<close>

theorem on_read_undefined_iff_witness:
  "on_read ([0x82, 0xFE, 0xFF, 0xF9] @ replicate 65532 7) = Inl Undefined_behaviour"
proof -
  let ?c = "[0x82, 0xFE, 0xFF, 0xF9] @ replicate 65532 (7 :: byte)"
  have "slice 2 2 ?c = [0xFF, 0xF9]" by (simp add: slice_def)
  then have "declared_header ?c = 4" "declared_length ?c = 65529" "declared_masked ?c"
    by (simp_all add: declared_header_def declared_length_def declared_masked_def object_word_def
        word_unat_eq_iff)
  then show ?thesis
    using on_read_undefined_iff [of ?c] by (simp add: read_buffer_size_def)
qed

text \<open>
  A masked frame that arrives without its last bytes, one to four of them, is not held back
  as incomplete: it is delivered at full length, the missing bytes of the message replaced by
  the key bytes of their positions.
\<close>

theorem truncated_frame_delivered:
  assumes "op < 16" and "1 \<le> j" and "j \<le> 4" and "j \<le> length m"
    and "length (rfc_frame op (Some [a, b, c, d]) m) \<le> read_buffer_size"
    and "f = rfc_frame op (Some [a, b, c, d]) m"
  shows "on_read (take (length f - j) f) =
    Inr (Some (op, take (length m - j) m @
      map (\<lambda>i. [a, b, c, d] ! (i mod 4)) [length m - j..<length m]))"
proof -
  let ?k = "[a, b, c, d]" and ?l = "length m"
  let ?x = "[0x80 OR op] @ rfc_length True ?l"
  let ?t = "take (?l - j) (xor_key ?k m)"
  have h: "2 \<le> header_size ?l" by (simp add: header_size_def)
  have lf: "length f = header_size ?l + 4 + ?l" by (simp add: assms(6) length_rfc_frame)
  have l: "?l < 2 ^ 63" using assms(5,6) lf by (simp add: read_buffer_size_def)
  have ly: "length (?x @ ?k) = header_size ?l + 4" using h by simp
  have f: "f = (?x @ ?k) @ xor_key ?k m" by (simp add: assms(6) rfc_frame_def)
  let ?c = "take (length f - j) f"
  have c: "?c = (?x @ ?k) @ ?t"
  proof -
    have "length f - j = length (?x @ ?k) + (?l - j)" using lf ly assms(4) by simp
    then show ?thesis unfolding f by (simp only: take_append) simp
  qed
  have n: "length ?c \<le> 65536" using assms(5,6) by (simp add: read_buffer_size_def)
  have lc: "length ?c = header_size ?l + 4 + ?l - j" by (simp add: lf)
  have "?c = [0x80 OR op] @ rfc_length True ?l @ (?k @ ?t)" unfolding c by simp
  note d = rfc_declared [OF l this]
  have key: "slice (header_size ?l) 4 ?c = ?k"
  proof -
    have "slice (header_size ?l) 4 (?x @ ?k @ ?t) = ?k"
      by (rule slice_append_mid2) (use h in simp_all)
    then show ?thesis unfolding c by simp
  qed
  have lt: "length (?t @ replicate j 0) = ?l" using assms(4) by simp
  have "read_buffer_size - length ?c = j + (read_buffer_size - length f)"
    using assms(4-6) lc lf by simp
  then have "read_buffer ?c = (?x @ ?k) @ (?t @ replicate j 0) @ replicate (read_buffer_size - length f) 0"
    unfolding read_buffer_def c by (simp only: replicate_add append_assoc)
  then have "slice (header_size ?l + 4) ?l (read_buffer ?c) = ?t @ replicate j 0"
    by (simp only:) (rule slice_append_mid2, use lt ly in simp_all)
  moreover have "unmask ?k (?t @ replicate j 0) = take (?l - j) m @ map (\<lambda>i. ?k ! (i mod 4)) [?l - j..<?l]"
    using assms(4) by (intro nth_equalityI)
      (auto simp: unmask_def nth_append nth_xor_key xor.assoc)
  moreover have "?c ! 0 AND 0x0F = op" unfolding c using assms(1) by (simp add: opcode_bits)
  moreover have "\<not> 65536 < header_size ?l + 4 + ?l" using lf assms(5,6) by (simp add: read_buffer_size_def)
  moreover have "\<not> length ?c < 2" "\<not> length ?c < header_size ?l + ?l" "\<not> length ?c < header_size ?l + 4"
    unfolding lc using assms(3,4) h by linarith+
  ultimately show ?thesis
    unfolding on_read_eq [OF n] d key by (simp only: if_False if_True simp_thms)
qed

theorem truncated_frame_delivered_witness:
  "on_read (take 9 (rfc_frame Op_Binary (Some [9, 8, 7, 6]) [10, 20, 30, 40, 50])) =
     Inr (Some (Op_Binary, [10, 20, 30, 6, 9]))"
proof -
  let ?f = "rfc_frame Op_Binary (Some [9, 8, 7, 6]) [10, 20, 30, 40, 50]"
  have "length ?f = 11" by (simp add: length_rfc_frame header_size_def)
  then show ?thesis
    using truncated_frame_delivered [of Op_Binary 2 "[10, 20, 30, 40, 50]" 9 8 7 6 ?f]
    by (simp add: Op_Binary_def read_buffer_size_def upt_rec)
qed

text \<open>
  A frame that the transport splits is lost: any proper part of it that lacks more than the
  key's worth of bytes (or any byte, when it is not masked) is dropped without a trace, and the
  next read starts afresh.
\<close>

theorem split_frame_dropped:
  assumes "length (rfc_frame op key m) \<le> read_buffer_size"
    and "n < header_size (length m) + length m"
  shows "on_read (take n (rfc_frame op key m)) = Inr None"
proof -
  let ?f = "rfc_frame op key m" and ?l = "length m"
  let ?c = "take n ?f" and ?x = "[0x80 OR op] @ rfc_length (key \<noteq> None) ?l"
  have h: "2 \<le> header_size ?l" by (simp add: header_size_def)
  have l: "?l < 2 ^ 63" and n: "length ?c \<le> 65536"
    using assms(1) by (simp_all add: read_buffer_size_def length_rfc_frame)
  have lc: "length ?c = n" using assms(2) by (simp add: length_rfc_frame)
  obtain t where f: "?f = [0x80 OR op] @ rfc_length (key \<noteq> None) ?l @ t" by (simp add: rfc_frame_def)
  have "length ?c < 2 \<or> length ?c < declared_header ?c + declared_length ?c"
  proof (cases "n < 2 \<or> header_size ?l \<le> n")
    case True
    moreover have "declared_header ?c = header_size ?l \<and> declared_length ?c = ?l" if "header_size ?l \<le> n"
    proof -
      have "?c = [0x80 OR op] @ rfc_length (key \<noteq> None) ?l @ take (n - header_size ?l) t"
        using that h unfolding f by (simp add: take_Cons')
      from rfc_declared [OF l this] show ?thesis by simp
    qed
    ultimately show ?thesis using lc assms(2) by auto
  next
    case False
    then have "declared_header ?c = declared_header ?f" by (simp add: declared_header_def)
    then show ?thesis using False lc rfc_declared [OF l f] by simp
  qed
  then show ?thesis using on_read_eq [OF n] by simp
qed

theorem split_frame_dropped_witness:
  "on_read (take 8 (rfc_frame Op_Binary (Some [9, 8, 7, 6]) [10, 20, 30, 40, 50, 60, 70])) = Inr None"
  by (rule split_frame_dropped) (simp_all add: length_rfc_frame header_size_def read_buffer_size_def)

end
