(* ===== verification/Handshake.thy ===== *)
theory Handshake
  imports Sha1
begin

text \<open>
  The opening handshake of \<open>src/common/WebSocketSession.h\<close>: \<open>extract_websocket_key\<close>,
  \<open>generate_websocket_accept\<close> and the reply \<open>do_handshake\<close> builds from a request. The digest
  and the base64 routine enter through the locale \<open>accept_key\<close>, which states what the
  handshake needs of them.
\<close>

section \<open>Strings\<close>

text \<open>\<open>std::string::find\<close> (\<open>None\<close> is \<open>npos\<close>) and \<open>std::string::substr\<close>, which throws.\<close>

definition str_find :: "bytes \<Rightarrow> bytes \<Rightarrow> nat \<Rightarrow> nat option" where
  "str_find s pat pos =
     List.find (\<lambda>i. take (length pat) (drop i s) = pat) [pos..<Suc (length s) - length pat]"

definition str_substr :: "bytes \<Rightarrow> nat \<Rightarrow> size_t \<Rightarrow> bytes result" where
  "str_substr s pos n =
     (if pos > length s then Inl Out_of_range else Inr (take (unat n) (drop pos s)))"

definition crlf :: bytes where
  "crlf = [13, 10]"

section \<open>Key and accept value\<close>

definition key_header :: bytes where
  "key_header = cstr ''Sec-WebSocket-Key: ''"

definition extract_websocket_key :: "bytes \<Rightarrow> bytes result" where
  "extract_websocket_key request =
     (case str_find request key_header 0 of
        None \<Rightarrow> Inr []
      | Some key_pos \<Rightarrow>
          (case str_find request crlf key_pos of
             None \<Rightarrow> Inr []
           | Some key_end \<Rightarrow>
               str_substr request (key_pos + length key_header)
                 (of_nat key_end - of_nat (key_pos + length key_header))))"

definition magic_string :: bytes where
  "magic_string = cstr ''258EAFA5-E914-47DA-95CA-C5AB0DC85B11''"

definition generate_websocket_accept :: "bytes \<Rightarrow> bytes result" where
  "generate_websocket_accept key =
     (let concatenated = key @ magic_string; hash = sha1_hex concatenated
      in to_base_64 hash)"

section \<open>The reply\<close>

definition handshake_response :: "bytes \<Rightarrow> bytes" where
  "handshake_response accept =
     cstr ''HTTP/1.1 101 Switching Protocols'' @ crlf @
     cstr ''Upgrade: websocket'' @ crlf @
     cstr ''Connection: Upgrade'' @ crlf @
     cstr ''Sec-WebSocket-Accept: '' @ accept @ crlf @
     crlf"

text \<open>
  The completion handler of \<open>async_read_until\<close>, up to the write: \<open>Some\<close> the bytes it writes,
  or \<open>None\<close> where it returns without a reply.
\<close>

definition handshake_reply :: "bytes \<Rightarrow> bytes option result" where
  "handshake_reply request =
     bind_r (extract_websocket_key request) (\<lambda>key.
       if key = [] then Inr None
       else bind_r (generate_websocket_accept key) (\<lambda>accept.
              Inr (Some (handshake_response accept))))"

section \<open>Searching\<close>

lemma find_upt_first:
  assumes "a \<le> p" "p < n" "P p" "\<And>i. a \<le> i \<Longrightarrow> i < p \<Longrightarrow> \<not> P i"
  shows "List.find P [a..<n] = Some p"
  using assms by (auto simp: find_Some_iff intro!: exI [of _ "p - a"])

lemma str_find_Some:
  assumes "str_find s pat pos = Some i"
  shows "pos \<le> i" "i + length pat \<le> length s" "take (length pat) (drop i s) = pat"
  using assms by (auto simp: str_find_def find_Some_iff)

lemma str_find_None:
  "str_find s pat pos = None \<longleftrightarrow>
     (\<forall>i. pos \<le> i \<longrightarrow> i + length pat \<le> length s \<longrightarrow> take (length pat) (drop i s) \<noteq> pat)"
  by (auto simp: str_find_def find_None_iff)

lemma str_find_first:
  assumes "s = xs @ pat @ ys" "pos \<le> length xs"
    and "\<And>i. pos \<le> i \<Longrightarrow> i < length xs \<Longrightarrow> take (length pat) (drop i s) \<noteq> pat"
  shows "str_find s pat pos = Some (length xs)"
  unfolding str_find_def using assms by (intro find_upt_first) auto


lemma key_header_facts: "length key_header = 19" "13 \<notin> set key_header" "key_header \<noteq> []"
  by (simp_all add: key_header_def cstr_def)

text \<open>The line end found behind the header name lies behind all of it.\<close>

lemma key_end_behind:
  assumes p: "str_find r key_header 0 = Some p" and e: "str_find r crlf p = Some e"
  shows "p + length key_header \<le> e" "e \<le> length r"
proof -
  note p = str_find_Some [OF p] and e = str_find_Some [OF e]
  show "e \<le> length r" using e(2) by simp
  show "p + length key_header \<le> e"
  proof (rule ccontr)
    assume "\<not> ?thesis"
    then have "e - p < length key_header" using e(1) by linarith
    then have "key_header ! (e - p) = drop p r ! (e - p)"
      using p(3) by (metis nth_take)
    also have "\<dots> = drop e r ! 0" using e(1,2) p(2) by (simp add: crlf_def)
    also have "\<dots> = 13" using e(3) by (cases "drop e r") (simp_all add: crlf_def)
    finally show False
      using \<open>e - p < length key_header\<close> key_header_facts(2) nth_mem by metis
  qed
qed

text \<open>\<open>extract_websocket_key\<close> returns a string for every request.\<close>

lemma extract_websocket_key_total:
  assumes "length r < 2 ^ 63"
  obtains k where "extract_websocket_key r = Inr k"
proof (cases "str_find r key_header 0")
  case None
  then show ?thesis by (intro that [of "[]"]) (simp add: extract_websocket_key_def)
next
  case (Some p)
  show ?thesis
  proof (cases "str_find r crlf p")
    case None
    with Some show ?thesis by (intro that [of "[]"]) (simp add: extract_websocket_key_def)
  next
    case e: (Some e)
    with Some key_end_behind [OF Some e] show ?thesis
      by (intro that) (auto simp: extract_websocket_key_def str_substr_def)
  qed
qed

lemma extract_websocket_key_eq:
  assumes r: "r = pre @ key_header @ key @ crlf @ post" and len: "length r < 2 ^ 63"
    and first: "\<And>i. i < length pre \<Longrightarrow> take (length key_header) (drop i r) \<noteq> key_header"
    and key: "13 \<notin> set key"
  shows "extract_websocket_key r = Inr key"
proof -
  have p: "str_find r key_header 0 = Some (length pre)"
    by (rule str_find_first [OF r]) (use first in auto)
  let ?e = "length (pre @ key_header @ key)"
  have e: "str_find r crlf (length pre) = Some ?e"
  proof (rule str_find_first)
    show "r = (pre @ key_header @ key) @ crlf @ post" using r by simp
    show "length pre \<le> ?e" by simp
    fix i assume i: "length pre \<le> i" "i < ?e"
    obtain j where j: "i = length pre + j" using i(1) le_Suc_ex by blast
    have jl: "j < length (key_header @ key)" using i(2) j by simp
    have r': "r = pre @ (key_header @ key) @ crlf @ post" using r by simp
    have "r ! i = ((key_header @ key) @ crlf @ post) ! j"
      unfolding r' j by (rule nth_append_length_plus)
    also have "\<dots> = (key_header @ key) ! j"
      using jl by (subst nth_append) (simp only: if_True)
    finally have "r ! i = (key_header @ key) ! j" .
    moreover have "(key_header @ key) ! j \<in> set (key_header @ key)"
      by (rule nth_mem [OF jl])
    ultimately have "r ! i \<noteq> 13" using key key_header_facts(2) by auto
    moreover have "i < length r" using i(2) unfolding r' by simp
    ultimately have "drop i r ! 0 \<noteq> 13" by simp
    then show "take (length crlf) (drop i r) \<noteq> crlf"
      by (cases "drop i r") (auto simp: crlf_def)
  qed
  have "length pre + length key_header + length key < 2 ^ 63" using len r by simp
  then have "unat (of_nat (length key) :: size_t) = length key" by (intro unat_of_nat64) simp
  moreover have "(of_nat ?e :: size_t) - of_nat (length pre + length key_header) = of_nat (length key)"
    by simp
  ultimately show ?thesis
    unfolding extract_websocket_key_def p e option.case str_substr_def using r by simp
qed

section \<open>What the handshake needs of the digest and of base64\<close>

text \<open>
  \<open>hex_digest\<close> gives the digest as hexadecimal text; \<open>encode\<close> turns such a text into the
  base64 encoding \<open>spec\<close> of the bytes it stands for.
\<close>

locale accept_key =
  fixes hex_digest :: "bytes \<Rightarrow> bytes" and digest :: "bytes \<Rightarrow> bytes"
    and encode :: "bytes \<Rightarrow> bytes result" and spec :: "bytes \<Rightarrow> bytes"
  assumes hex_digest: "hex_digest m = hex_string (digest m)"
    and encode: "encode (hex_string bs) = Inr (spec bs)"
begin

lemma accept_value: "encode (hex_digest m) = Inr (spec (digest m))"
  by (simp add: hex_digest encode)

end

interpretation ws: accept_key sha1_hex fips_sha1 to_base_64 base64_spec
proof
  fix m show "sha1_hex m = hex_string (fips_sha1 m)"
    by (rule sha1_hex_eq)
next
  fix bs show "to_base_64 (hex_string bs) = Inr (base64_spec bs)"
    by (rule to_base_64_hex)
qed

section \<open>Properties\<close>

text \<open>
  The accept value is the one RFC 6455 asks for: the base64 encoding of the SHA-1 digest of
  the key followed by the fixed GUID; it has 28 characters and decodes to that digest.
\<close>

theorem accept_value_rfc:
  "\<exists>v. generate_websocket_accept key = Inr v \<and> v = base64_spec (fips_sha1 (key @ magic_string)) \<and>
     length v = 28 \<and> from_base64 v = fips_sha1 (key @ magic_string)"
proof -
  have "generate_websocket_accept key = Inr (base64_spec (fips_sha1 (key @ magic_string)))"
    by (simp add: generate_websocket_accept_def ws.accept_value)
  then show ?thesis
    by (simp add: length_base64_spec length_fips_sha1 from_base64_spec)
qed

text \<open>
  A request that carries the key header is answered: with any lines before it (not
  themselves containing the header name) and behind it, the reply is the 101 response with the
  accept value of exactly that key.
\<close>

theorem handshake_reply_correct:
  assumes "r = pre @ key_header @ key @ crlf @ post" and "length r < 2 ^ 63"
    and "\<forall>i < length pre. take (length key_header) (drop i r) \<noteq> key_header"
    and "13 \<notin> set key" and "key \<noteq> []"
  shows "handshake_reply r =
    Inr (Some (handshake_response (base64_spec (fips_sha1 (key @ magic_string)))))"
proof -
  have "extract_websocket_key r = Inr key"
    by (rule extract_websocket_key_eq [OF assms(1,2)]) (use assms(3,4) in auto)
  then show ?thesis
    using assms(5) by (simp add: handshake_reply_def generate_websocket_accept_def ws.accept_value)
qed

theorem handshake_reply_correct_witness:
  "handshake_reply (cstr ''GET / HTTP/1.1'' @ crlf @ key_header @ cstr ''dGhl'' @ crlf @ crlf) =
    Inr (Some (handshake_response (base64_spec (fips_sha1 (cstr ''dGhl'' @ magic_string)))))"
proof (rule handshake_reply_correct)
  let ?pre = "cstr ''GET / HTTP/1.1'' @ crlf"
  show "cstr ''GET / HTTP/1.1'' @ crlf @ key_header @ cstr ''dGhl'' @ crlf @ crlf =
      ?pre @ key_header @ cstr ''dGhl'' @ crlf @ crlf" by simp
  show "length (cstr ''GET / HTTP/1.1'' @ crlf @ key_header @ cstr ''dGhl'' @ crlf @ crlf) < 2 ^ 63"
    by (simp add: cstr_def crlf_def key_header_def)
  have "list_all (\<lambda>i. take (length key_header)
      (drop i (cstr ''GET / HTTP/1.1'' @ crlf @ key_header @ cstr ''dGhl'' @ crlf @ crlf)) \<noteq> key_header)
      [0..<length ?pre]"
    by (simp add: cstr_def crlf_def key_header_def upt_rec)
  then show "\<forall>i < length ?pre. take (length key_header)
      (drop i (cstr ''GET / HTTP/1.1'' @ crlf @ key_header @ cstr ''dGhl'' @ crlf @ crlf)) \<noteq> key_header"
    by (simp add: list_all_iff)
  show "13 \<notin> set (cstr ''dGhl'')" "cstr ''dGhl'' \<noteq> []" by (simp_all add: cstr_def)
qed

text \<open>
  No request makes the handshake throw or leave the defined behaviours: a key is always
  extracted, the empty one included, and the reply is the 101 response to that key, or none when
  it is empty (so for a header name in other letter case, which HTTP treats as the same header).
\<close>

theorem handshake_total:
  assumes "length r < 2 ^ 63"
  shows "\<exists>k. extract_websocket_key r = Inr k \<and> handshake_reply r =
    Inr (if k = [] then None
         else Some (handshake_response (base64_spec (fips_sha1 (k @ magic_string)))))"
proof -
  obtain k where "extract_websocket_key r = Inr k"
    using extract_websocket_key_total [OF assms] .
  then show ?thesis
    by (simp add: handshake_reply_def generate_websocket_accept_def ws.accept_value)
qed

theorem handshake_total_witness:
  "handshake_reply (cstr ''GET / HTTP/1.1'' @ crlf @ cstr ''sec-websocket-key: dGhl'' @ crlf @ crlf) =
     Inr None"
proof -
  let ?r = "cstr ''GET / HTTP/1.1'' @ crlf @ cstr ''sec-websocket-key: dGhl'' @ crlf @ crlf"
  have "extract_websocket_key ?r = Inr []" by code_simp
  moreover have "length ?r < 2 ^ 63" by (simp add: cstr_def crlf_def)
  ultimately show ?thesis using handshake_total [of ?r] by simp
qed

end
