(* ===== verification/Session.thy ===== *)
theory Session
  imports Frame Handshake
begin

text \<open>
  One WebSocket connection: the class \<open>WebSocketSession\<close> of \<open>src/common/WebSocketSession.h\<close>
  as a state machine. The transport (asio) is the environment: a session has a list of
  asynchronous operations in flight, any of which may complete, with an error or with data; the
  completion runs its handler (\<open>on_complete\<close>), which may start further operations.

  The fields \<open>submitted\<close>, \<open>completed\<close> and \<open>handled\<close> are the history of the session: the messages
  given to \<open>send\<close>, the frames whose write completed, and the calls of the message handler. A
  message handler is the list of the messages it sends back on the session it is called for.
\<close>

section \<open>State and operations\<close>

text \<open>
  The operations in flight. \<open>Write_response\<close> and \<open>Write_frame\<close> carry the bytes of the buffer
  they were started with.
\<close>

datatype async =
    Ssl_handshake
  | Read_until
  | Write_response bytes
  | Read_some
  | Write_frame bytes

datatype completion = Failed | Done bytes

record session =
  uuid :: bytes
  use_ssl :: bool
  streambuf :: bytes
  write_queue :: "bytes list"
  in_flight :: "async list"
  submitted :: "(bytes \<times> opcode) list"
  completed :: "bytes list"
  handled :: "(opcode \<times> bytes) list"

type_synonym msg_handler = "opcode \<Rightarrow> bytes \<Rightarrow> (bytes \<times> opcode) list"

definition new_session :: "bool \<Rightarrow> bytes \<Rightarrow> session" where
  "new_session ssl rnd =
     \<lparr>uuid = generateUuid rnd, use_ssl = ssl, streambuf = [], write_queue = [], in_flight = [],
      submitted = [], completed = [], handled = []\<rparr>"

definition launch :: "async \<Rightarrow> session \<Rightarrow> session" where
  "launch a s = s\<lparr>in_flight := in_flight s @ [a]\<rparr>"

definition do_ssl_handshake :: "session \<Rightarrow> session" where
  "do_ssl_handshake s = launch Ssl_handshake s"

definition do_handshake :: "session \<Rightarrow> session" where
  "do_handshake s = launch Read_until s"

definition do_read :: "session \<Rightarrow> session" where
  "do_read s = launch Read_some s"

definition do_write :: "session \<Rightarrow> session" where
  "do_write s =
     (case write_queue s of [] \<Rightarrow> s | f # _ \<Rightarrow> launch (Write_frame f) s)"

definition session_start :: "session \<Rightarrow> session" where
  "session_start s = (if use_ssl s then do_ssl_handshake s else do_handshake s)"

definition session_send :: "session \<Rightarrow> bytes \<times> opcode \<Rightarrow> session" where
  "session_send s m =
     (let frame = create_websocket_frame (fst m) (snd m);
          write_in_progress = (write_queue s \<noteq> []);
          s = s\<lparr>write_queue := write_queue s @ [frame], submitted := submitted s @ [m]\<rparr>
      in if \<not> write_in_progress then do_write s else s)"

section \<open>Completion handlers\<close>

definition handshake_delim :: bytes where
  "handshake_delim = crlf @ crlf"

text \<open>
  \<open>async_read_until\<close> puts what it read into the stream buffer and passes the length up to and
  including the first delimiter; what lies behind stays in the stream buffer.
\<close>

definition on_request :: "bytes \<Rightarrow> session \<Rightarrow> session result" where
  "on_request content s =
     (case str_find content handshake_delim 0 of
        None \<Rightarrow> Inr s
      | Some p \<Rightarrow>
          (let len = p + length handshake_delim;
               request = take len content;
               s = s\<lparr>streambuf := drop len content\<rparr>
           in bind_r (handshake_reply request) (\<lambda>reply. case reply of
                None \<Rightarrow> Inr s
              | Some response \<Rightarrow> Inr (launch (Write_response response) s))))"

definition on_chunk :: "msg_handler \<Rightarrow> bytes \<Rightarrow> session \<Rightarrow> session result" where
  "on_chunk h chunk s =
     bind_r (on_read chunk) (\<lambda>m. Inr (do_read (case m of
        None \<Rightarrow> s
      | Some (op, msg) \<Rightarrow>
          foldl session_send (s\<lparr>handled := handled s @ [(op, msg)]\<rparr>) (h op msg))))"

definition on_written :: "session \<Rightarrow> session" where
  "on_written s =
     (let s = s\<lparr>completed := completed s @ [hd (write_queue s)], write_queue := tl (write_queue s)\<rparr>
      in if write_queue s \<noteq> [] then do_write s else s)"

text \<open>On an error every handler only writes to \<open>std::cerr\<close>.\<close>

fun on_complete :: "msg_handler \<Rightarrow> async \<Rightarrow> completion \<Rightarrow> session \<Rightarrow> session result" where
  "on_complete h a Failed s = Inr s"
| "on_complete h Ssl_handshake (Done _) s = Inr (do_handshake s)"
| "on_complete h Read_until (Done data) s = on_request (streambuf s @ data) s"
| "on_complete h (Write_response _) (Done _) s = Inr (do_read s)"
| "on_complete h Read_some (Done chunk) s = on_chunk h chunk s"
| "on_complete h (Write_frame _) (Done _) s = Inr (on_written s)"

section \<open>Runs\<close>

text \<open>
  What can happen to a session: an operation in flight completes, or some other part of the
  program sends a message. \<open>without i xs\<close> is \<open>xs\<close> without its element at position \<open>i\<close>.
\<close>

definition without :: "nat \<Rightarrow> 'a list \<Rightarrow> 'a list" where
  "without i xs = take i xs @ drop (Suc i) xs"

inductive step :: "msg_handler \<Rightarrow> session \<Rightarrow> session \<Rightarrow> bool" for h where
  complete: "i < length (in_flight s) \<Longrightarrow>
     on_complete h (in_flight s ! i) c (s\<lparr>in_flight := without i (in_flight s)\<rparr>) = Inr s' \<Longrightarrow>
     step h s s'"
| send: "step h s (session_send s m)"

inductive reachable :: "msg_handler \<Rightarrow> session \<Rightarrow> session \<Rightarrow> bool" for h s0 where
  init: "reachable h s0 s0"
| step: "reachable h s0 s \<Longrightarrow> step h s s' \<Longrightarrow> reachable h s0 s'"

inductive_cases stepE: "step h s s'"

text \<open>The same runs as lists of events, to compute with.\<close>

datatype event = Complete nat completion | Send bytes opcode

fun run_event :: "msg_handler \<Rightarrow> session \<Rightarrow> event \<Rightarrow> session result" where
  "run_event h s (Complete i c) =
     (if i < length (in_flight s)
      then on_complete h (in_flight s ! i) c (s\<lparr>in_flight := without i (in_flight s)\<rparr>)
      else Inr s)"
| "run_event h s (Send m op) = Inr (session_send s (m, op))"

fun run_events :: "msg_handler \<Rightarrow> session \<Rightarrow> event list \<Rightarrow> session result" where
  "run_events h s [] = Inr s"
| "run_events h s (e # es) = bind_r (run_event h s e) (\<lambda>s. run_events h s es)"

lemma reachable_trans: "reachable h s1 s2 \<Longrightarrow> reachable h s0 s1 \<Longrightarrow> reachable h s0 s2"
  by (induction rule: reachable.induct) (auto intro: reachable.intros)

lemma run_events_reachable: "run_events h s es = Inr s' \<Longrightarrow> reachable h s s'"
proof (induction es arbitrary: s)
  case Nil
  then show ?case by (simp add: reachable.init)
next
  case (Cons e es)
  then obtain t where t: "run_event h s e = Inr t" "run_events h t es = Inr s'" by auto
  have "reachable h s t"
  proof (cases e)
    case (Complete i c)
    then show ?thesis using t(1) reachable.init
      by (auto split: if_splits intro: reachable.step step.complete)
  next
    case (Send m op)
    then show ?thesis using t(1) by (auto intro: reachable.step reachable.init step.send)
  qed
  with Cons.IH [OF t(2)] show ?case using reachable_trans by blast
qed

section \<open>What the operations do to the queue and to the operations in flight\<close>

fun frame_of :: "async \<Rightarrow> bytes list" where
  "frame_of (Write_frame f) = [f]"
| "frame_of _ = []"

definition frame_writes :: "session \<Rightarrow> bytes list" where
  "frame_writes s = concat (map frame_of (in_flight s))"

definition control :: "session \<Rightarrow> async list" where
  "control s = filter (\<lambda>a. frame_of a = []) (in_flight s)"

definition frames :: "(bytes \<times> opcode) list \<Rightarrow> bytes list" where
  "frames ms = map (\<lambda>m. create_websocket_frame (fst m) (snd m)) ms"

lemma frames_simps [simp]:
  "frames [] = []" "frames (ms @ ns) = frames ms @ frames ns"
  "frames (m # ms) = create_websocket_frame (fst m) (snd m) # frames ms"
  by (simp_all add: frames_def)

lemma launch_simps [simp]:
  "frame_writes (launch a s) = frame_writes s @ frame_of a"
  "control (launch a s) = control s @ (if frame_of a = [] then [a] else [])"
  "write_queue (launch a s) = write_queue s" "submitted (launch a s) = submitted s"
  "completed (launch a s) = completed s" "handled (launch a s) = handled s"
  "streambuf (launch a s) = streambuf s" "uuid (launch a s) = uuid s"
  by (simp_all add: launch_def frame_writes_def control_def)

lemma field_simps [simp]:
  "frame_writes (s\<lparr>write_queue := q\<rparr>) = frame_writes s" "control (s\<lparr>write_queue := q\<rparr>) = control s"
  "frame_writes (s\<lparr>submitted := m\<rparr>) = frame_writes s" "control (s\<lparr>submitted := m\<rparr>) = control s"
  "frame_writes (s\<lparr>completed := f\<rparr>) = frame_writes s" "control (s\<lparr>completed := f\<rparr>) = control s"
  "frame_writes (s\<lparr>handled := d\<rparr>) = frame_writes s" "control (s\<lparr>handled := d\<rparr>) = control s"
  "frame_writes (s\<lparr>streambuf := b\<rparr>) = frame_writes s" "control (s\<lparr>streambuf := b\<rparr>) = control s"
  by (simp_all add: frame_writes_def control_def)

lemma without_split:
  assumes "i < length xs"
  obtains as bs where "xs = as @ xs ! i # bs" "without i xs = as @ bs"
  using assms id_take_nth_drop [of i xs] by (auto simp: without_def)

text \<open>
  The write queue: what was completed and what is queued are the frames of what was submitted,
  in order; at most one frame is being written, and it is the one at the front.
\<close>

definition queue_inv :: "session \<Rightarrow> bool" where
  "queue_inv s \<longleftrightarrow> completed s @ write_queue s = frames (submitted s) \<and>
     (frame_writes s = [] \<or> write_queue s \<noteq> [] \<and> frame_writes s = [hd (write_queue s)])"

definition stalled :: "session \<Rightarrow> bool" where
  "stalled s \<longleftrightarrow> write_queue s \<noteq> [] \<and> frame_writes s = []"

lemma do_write_simps [simp]:
  "frame_writes (do_write s) = frame_writes s @ take 1 (write_queue s)"
  "control (do_write s) = control s" "write_queue (do_write s) = write_queue s"
  "submitted (do_write s) = submitted s" "completed (do_write s) = completed s"
  "handled (do_write s) = handled s" "streambuf (do_write s) = streambuf s"
  by (simp_all add: do_write_def split: list.split)

lemma session_send_simps [simp]:
  "frame_writes (session_send s m) = frame_writes s @
     (if write_queue s = [] then [create_websocket_frame (fst m) (snd m)] else [])"
  "control (session_send s m) = control s"
  "write_queue (session_send s m) = write_queue s @ [create_websocket_frame (fst m) (snd m)]"
  "submitted (session_send s m) = submitted s @ [m]"
  "completed (session_send s m) = completed s" "handled (session_send s m) = handled s"
  "streambuf (session_send s m) = streambuf s"
  by (simp_all add: session_send_def Let_def)

lemma foldl_send_simps [simp]:
  "control (foldl session_send s ms) = control s"
  "submitted (foldl session_send s ms) = submitted s @ ms"
  "completed (foldl session_send s ms) = completed s"
  "handled (foldl session_send s ms) = handled s"
  "streambuf (foldl session_send s ms) = streambuf s"
  "write_queue (foldl session_send s ms) = write_queue s @ frames ms"
  by (induction ms arbitrary: s) simp_all

lemma queue_inv_send: "queue_inv s \<Longrightarrow> queue_inv (session_send s m)"
  by (auto simp: queue_inv_def hd_append)

lemma queue_inv_sends: "queue_inv s \<Longrightarrow> queue_inv (foldl session_send s ms)"
  by (induction ms arbitrary: s) (simp_all add: queue_inv_send)

lemma stalled_send: "stalled s \<Longrightarrow> stalled (session_send s m)"
  by (simp add: stalled_def)

lemma stalled_sends: "stalled s \<Longrightarrow> stalled (foldl session_send s ms)"
  by (induction ms arbitrary: s) (simp_all add: stalled_send)

lemma not_stalled_send: "\<not> stalled s \<Longrightarrow> \<not> stalled (session_send s m)"
  by (auto simp: stalled_def)

lemma not_stalled_sends: "\<not> stalled s \<Longrightarrow> \<not> stalled (foldl session_send s ms)"
  by (induction ms arbitrary: s) (simp_all add: not_stalled_send)

text \<open>
  The handlers of the control operations (the handshakes and the reads): each may log a message,
  send the answers of the message handler, and start the next control operation.
\<close>

fun next_control :: "async \<Rightarrow> async \<Rightarrow> bool" where
  "next_control Ssl_handshake b = (b = Read_until)"
| "next_control Read_until b = (\<exists>r. b = Write_response r)"
| "next_control (Write_response _) b = (b = Read_some)"
| "next_control Read_some b = (b = Read_some)"
| "next_control (Write_frame _) b = False"

lemma next_control_frame: "next_control a b \<Longrightarrow> frame_of b = []"
  by (cases a) auto

lemma on_complete_control:
  assumes "frame_of a = []" and "on_complete h a c s = Inr s'"
  shows "\<exists>buf log ms next.
    s' = fold launch next (foldl session_send (s\<lparr>streambuf := buf, handled := handled s @ log\<rparr>) ms) \<and>
    (next = [] \<or> (\<exists>b. next = [b] \<and> next_control a b)) \<and>
    (a = Read_some \<or> log = [] \<and> ms = []) \<and> (a = Read_until \<or> buf = streambuf s)"
    (is "\<exists>buf log ms next. ?P buf log ms next")
proof -
  have quiet: ?thesis if "s' = s"
    using that by (intro exI [of _ "streambuf s"] exI [of _ "[]"]) simp
  have start: ?thesis if "s' = launch b s" "next_control a b" for b
    using that by (intro exI [of _ "streambuf s"] exI [of _ "[]"] exI [of _ "[b]"]) simp
  show ?thesis
  proof (cases c)
    case Failed
    with assms(2) show ?thesis by (intro quiet) simp
  next
    case (Done d)
    show ?thesis
    proof (cases a)
      case Ssl_handshake
      with Done assms(2) show ?thesis by (intro start) (auto simp: do_handshake_def)
    next
      case (Write_response r)
      with Done assms(2) show ?thesis by (intro start) (auto simp: do_read_def)
    next
      case Read_until
      have launched: ?thesis if "s' = launch (Write_response r) (s\<lparr>streambuf := b\<rparr>)" for r b
        using that Read_until
        by (intro exI [of _ b] exI [of _ "[]"] exI [of _ "[Write_response r]"]) simp
      have ended: ?thesis if "s' = s\<lparr>streambuf := b\<rparr>" for b
        using that Read_until by (intro exI [of _ b] exI [of _ "[]"]) simp
      have "s' = s \<or> (\<exists>b. s' = s\<lparr>streambuf := b\<rparr>) \<or>
          (\<exists>r b. s' = launch (Write_response r) (s\<lparr>streambuf := b\<rparr>))"
        using assms(2) Done Read_until
        by (auto simp: on_request_def Let_def split: option.splits)
      then show ?thesis using quiet launched ended by blast
    next
      case Read_some
      have chunk: ?thesis if "s' = do_read (foldl session_send (s\<lparr>handled := handled s @ log\<rparr>) ms)" for log ms
        using that Read_some
        by (intro exI [of _ "streambuf s"] exI [of _ log] exI [of _ ms] exI [of _ "[Read_some]"])
          (simp add: do_read_def)
      obtain m where m: "on_read d = Inr m" using assms(2) Done Read_some by (auto simp: on_chunk_def)
      show ?thesis
      proof (cases m)
        case None
        then show ?thesis using assms(2) Done Read_some m
          by (intro chunk [of "[]" "[]"]) (simp add: on_chunk_def)
      next
        case (Some om)
        then show ?thesis using assms(2) Done Read_some m
          by (intro chunk [of "[om]" "h (fst om) (snd om)"]) (auto simp: on_chunk_def split: prod.splits)
      qed
    next
      case (Write_frame f)
      with assms(1) show ?thesis by simp
    qed
  qed
qed

text \<open>A step, by the operation that completes.\<close>

lemma in_flight_removed:
  assumes "i < length (in_flight s)"
  obtains fs gs cs ds where
    "frame_writes s = fs @ frame_of (in_flight s ! i) @ gs"
    "frame_writes (s\<lparr>in_flight := without i (in_flight s)\<rparr>) = fs @ gs"
    "control s = cs @ (if frame_of (in_flight s ! i) = [] then [in_flight s ! i] else []) @ ds"
    "control (s\<lparr>in_flight := without i (in_flight s)\<rparr>) = cs @ ds"
proof -
  obtain as bs where ab: "in_flight s = as @ in_flight s ! i # bs" "without i (in_flight s) = as @ bs"
    using without_split [OF assms] .
  let ?w = "\<lambda>xs. concat (map frame_of xs)" and ?c = "filter (\<lambda>a. frame_of a = [])"
  have "?w (in_flight s) = ?w as @ frame_of (in_flight s ! i) @ ?w bs"
    "?c (in_flight s) = ?c as @ (if frame_of (in_flight s ! i) = [] then [in_flight s ! i] else []) @ ?c bs"
    by (subst ab(1), simp)+
  then show thesis using ab(2)
    by (intro that [of "?w as" "?w bs" "?c as" "?c bs"]) (simp_all add: frame_writes_def control_def)
qed

lemma fold_launch_simps [simp]:
  assumes "nx = [] \<or> (\<exists>b. nx = [b] \<and> next_control a b)"
  shows "frame_writes (fold launch nx s) = frame_writes s"
    "control (fold launch nx s) = control s @ nx"
    "write_queue (fold launch nx s) = write_queue s" "submitted (fold launch nx s) = submitted s"
    "completed (fold launch nx s) = completed s" "handled (fold launch nx s) = handled s"
    "streambuf (fold launch nx s) = streambuf s"
  using assms next_control_frame by auto

text \<open>A state that differs only in the operations in flight.\<close>

definition same_queue :: "session \<Rightarrow> session \<Rightarrow> bool" where
  "same_queue s t \<longleftrightarrow> write_queue t = write_queue s \<and> submitted t = submitted s \<and>
     completed t = completed s \<and> handled t = handled s \<and> streambuf t = streambuf s"

lemma step_cases [consumes 1, case_names sent control frame]:
  assumes "step h s s'"
  obtains (sent) m where "s' = session_send s m"
  | (control) t a buf log ms nx cs ds where
      "same_queue s t" "frame_writes t = frame_writes s"
      "control s = cs @ a # ds" "control t = cs @ ds" "frame_of a = []"
      "s' = fold launch nx (foldl session_send (t\<lparr>streambuf := buf, handled := handled t @ log\<rparr>) ms)"
      "nx = [] \<or> (\<exists>b. nx = [b] \<and> next_control a b)"
      "a = Read_some \<or> log = [] \<and> ms = []" "a = Read_until \<or> buf = streambuf t"
  | (frame) t f fs gs where
      "same_queue s t" "control t = control s"
      "frame_writes s = fs @ f # gs" "frame_writes t = fs @ gs" "s' = t \<or> s' = on_written t"
  using assms
proof (cases rule: step.cases)
  case (send m)
  then show thesis by (rule sent)
next
  case (complete i c)
  let ?t = "s\<lparr>in_flight := without i (in_flight s)\<rparr>" and ?a = "in_flight s ! i"
  have q: "same_queue s ?t" by (simp add: same_queue_def)
  obtain fs gs cs ds where r:
      "frame_writes s = fs @ frame_of ?a @ gs" "frame_writes ?t = fs @ gs"
      "control s = cs @ (if frame_of ?a = [] then [?a] else []) @ ds" "control ?t = cs @ ds"
    using in_flight_removed [OF complete(1)] .
  show thesis
  proof (cases "frame_of ?a = []")
    case True
    from on_complete_control [OF True complete(2)] show thesis
      using q r True by (elim exE conjE) (rule control [of ?t cs ?a ds], simp_all)
  next
    case False
    then obtain f where a: "?a = Write_frame f" by (cases ?a) auto
    then have "s' = ?t \<or> s' = on_written ?t" using complete(2) by (cases c) auto
    then show thesis using q r a by (intro frame [of ?t fs f gs]) simp_all
  qed
qed

lemma on_written_simps [simp]:
  "frame_writes (on_written s) = frame_writes s @ take 1 (tl (write_queue s))"
  "control (on_written s) = control s" "write_queue (on_written s) = tl (write_queue s)"
  "submitted (on_written s) = submitted s" "handled (on_written s) = handled s"
  "completed (on_written s) = completed s @ [hd (write_queue s)]" "streambuf (on_written s) = streambuf s"
  by (simp_all add: on_written_def Let_def)

lemma one_write_removed:
  assumes "queue_inv s" "frame_writes s = fs @ f # gs"
  shows "fs = [] \<and> gs = [] \<and> write_queue s \<noteq> [] \<and> hd (write_queue s) = f"
  using assms by (cases fs) (auto simp: queue_inv_def)

lemma step_queue_inv: "step h s s' \<Longrightarrow> queue_inv s \<Longrightarrow> queue_inv s'"
proof (induction rule: step_cases)
  case (sent m)
  then show ?case by (simp add: queue_inv_send)
next
  case (control t a buf log ms nx cs ds)
  have "queue_inv (t\<lparr>streambuf := buf, handled := handled t @ log\<rparr>)"
    using control(1,2,10) by (simp add: queue_inv_def same_queue_def)
  from queue_inv_sends [OF this, of ms] show ?case
    using control(7) unfolding control(6) by (simp add: queue_inv_def)
next
  case (frame t f fs gs)
  note one = one_write_removed [OF frame(6) frame(3)]
  have "queue_inv t" "frame_writes t = []"
    using frame(1,4,6) one by (auto simp: queue_inv_def same_queue_def)
  moreover have "queue_inv (on_written t)"
  proof -
    obtain q where "write_queue t = f # q" using one frame(1) by (cases "write_queue s") (auto simp: same_queue_def)
    with calculation show ?thesis by (cases q) (auto simp: queue_inv_def)
  qed
  ultimately show ?case using frame(5) by auto
qed

lemma step_stalled:
  "step h s s' \<Longrightarrow> stalled s \<Longrightarrow> stalled s' \<and> completed s' = completed s \<and> hd (write_queue s') = hd (write_queue s)"
proof (induction rule: step_cases)
  case (sent m)
  then show ?case by (simp add: stalled_def)
next
  case (control t a buf log ms nx cs ds)
  have t: "stalled (t\<lparr>streambuf := buf, handled := handled t @ log\<rparr>)" "write_queue t = write_queue s"
    using control(1,2,10) by (simp_all add: stalled_def same_queue_def)
  from stalled_sends [OF t(1), of ms] show ?case
    using control(1,7) t unfolding control(6) by (simp add: stalled_def same_queue_def)
next
  case (frame t f fs gs)
  then show ?case by (simp add: stalled_def)
qed

text \<open>The control operations form a single chain, and messages come only behind the reply.\<close>

definition control_inv :: "session \<Rightarrow> bool" where
  "control_inv s \<longleftrightarrow> length (control s) \<le> 1 \<and> (handled s \<noteq> [] \<longrightarrow> set (control s) \<subseteq> {Read_some})"

lemma step_control_inv: "step h s s' \<Longrightarrow> control_inv s \<Longrightarrow> control_inv s'"
proof (induction rule: step_cases)
  case (sent m)
  then show ?case by (simp add: control_inv_def)
next
  case (control t a buf log ms nx cs ds)
  then have e: "cs = []" "ds = []" by (auto simp: control_inv_def)
  show ?case
    using control e next_control.simps(4) unfolding control(6)
    by (auto simp: control_inv_def same_queue_def)
next
  case (frame t f fs gs)
  then show ?case by (auto simp: control_inv_def same_queue_def)
qed

lemma reachable_invariant:
  assumes "reachable h s0 s" and "P s0" and "\<And>s s'. step h s s' \<Longrightarrow> P s \<Longrightarrow> P s'"
  shows "P s"
  using assms(1) by induction (use assms(2,3) in auto)

lemma started [simp]:
  "write_queue (session_start (new_session ssl rnd)) = []"
  "submitted (session_start (new_session ssl rnd)) = []"
  "completed (session_start (new_session ssl rnd)) = []"
  "handled (session_start (new_session ssl rnd)) = []"
  "frame_writes (session_start (new_session ssl rnd)) = []"
  "control (session_start (new_session ssl rnd)) = [if ssl then Ssl_handshake else Read_until]"
  by (simp_all add: session_start_def new_session_def do_ssl_handshake_def do_handshake_def
      launch_def frame_writes_def control_def)

lemma started_invs:
  assumes "reachable h (session_start (new_session ssl rnd)) s"
  shows "queue_inv s" "control_inv s"
proof -
  show "queue_inv s"
    by (rule reachable_invariant [OF assms]) (simp add: queue_inv_def, rule step_queue_inv)
  show "control_inv s"
    by (rule reachable_invariant [OF assms]) (simp add: control_inv_def, rule step_control_inv)
qed

lemma stalled_reachable:
  assumes "reachable h s s'" and "stalled s"
  shows "stalled s' \<and> completed s' = completed s"
  using reachable_invariant [OF assms(1), of "\<lambda>u. stalled u \<and> completed u = completed s"] assms(2)
  by (simp add: step_stalled)

text \<open>A frame write in flight can be completed, and the queue drained frame by frame.\<close>

lemma frame_write_index:
  assumes "frame_writes s = [f]"
  obtains i where "i < length (in_flight s)" "in_flight s ! i = Write_frame f"
    "frame_writes (s\<lparr>in_flight := without i (in_flight s)\<rparr>) = []"
proof -
  have "\<exists>i<length xs. xs ! i = Write_frame f" if "concat (map frame_of xs) = [f]" for xs
    using that
  proof (induction xs)
    case (Cons x xs)
    show ?case
    proof (cases "frame_of x")
      case Nil
      then obtain i where "i < length xs" "xs ! i = Write_frame f" using Cons by auto
      then show ?thesis by (intro exI [of _ "Suc i"]) simp
    next
      case (Cons g gs)
      then have "x = Write_frame f" using Cons.prems by (cases x) auto
      then show ?thesis by (intro exI [of _ 0]) simp
    qed
  qed simp
  then obtain i where i: "i < length (in_flight s)" "in_flight s ! i = Write_frame f"
    using assms by (auto simp: frame_writes_def)
  obtain fs gs where "frame_writes s = fs @ frame_of (in_flight s ! i) @ gs"
      and r: "frame_writes (s\<lparr>in_flight := without i (in_flight s)\<rparr>) = fs @ gs"
    using in_flight_removed [OF i(1)] by metis
  then have "fs @ gs = []" using assms i(2) by (cases fs) auto
  then show thesis using that [OF i] r by simp
qed

lemma drain:
  assumes "queue_inv s" and "\<not> stalled s"
  shows "\<exists>es s'. (\<forall>e\<in>set es. \<exists>i. e = Complete i (Done [])) \<and> run_events h s es = Inr s' \<and>
    write_queue s' = [] \<and> submitted s' = submitted s \<and> queue_inv s'"
  using assms
proof (induction "length (write_queue s)" arbitrary: s)
  case 0
  then show ?case by (intro exI [of _ "[]"]) auto
next
  case (Suc n)
  let ?f = "hd (write_queue s)"
  have w: "frame_writes s = [?f]" using Suc.prems Suc.hyps(2) by (auto simp: queue_inv_def stalled_def)
  obtain i where i: "i < length (in_flight s)" "in_flight s ! i = Write_frame ?f"
      "frame_writes (s\<lparr>in_flight := without i (in_flight s)\<rparr>) = []"
    using frame_write_index [OF w] .
  let ?s = "on_written (s\<lparr>in_flight := without i (in_flight s)\<rparr>)"
  have e: "run_event h s (Complete i (Done [])) = Inr ?s" using i by simp
  have "step h s ?s" using i by (intro step.complete [of i _ _ "Done []"]) simp_all
  then have q: "queue_inv ?s" using Suc.prems(1) by (rule step_queue_inv)
  have "\<not> stalled ?s" using i(3) by (auto simp: stalled_def neq_Nil_conv)
  moreover have "n = length (write_queue ?s)" using Suc.hyps(2) by simp
  ultimately obtain es s' where "\<forall>e\<in>set es. \<exists>i. e = Complete i (Done [])" "run_events h ?s es = Inr s'"
      "write_queue s' = []" "submitted s' = submitted ?s" "queue_inv s'"
    using Suc.hyps(1) [OF _ q] by blast
  with e show ?case
    by (intro exI [of _ "Complete i (Done []) # es"] exI [of _ s']) auto
qed

section \<open>Properties\<close>

text \<open>
  (C3) The write queue, in every state a session can reach under any order of completions and
  sends: the frames written so far followed by the queued ones are exactly the frames of the
  messages given to \<open>send\<close>, in that order; and at most one frame write is in flight, that of the
  queue's front, whose buffer the queue keeps alive.
\<close>

theorem write_queue_fifo:
  assumes "reachable h (session_start (new_session ssl rnd)) s"
  shows "completed s @ write_queue s = frames (submitted s) \<and>
    (frame_writes s = [] \<or> write_queue s \<noteq> [] \<and> frame_writes s = [hd (write_queue s)])"
  using started_invs(1) [OF assms] by (simp only: queue_inv_def)

lemma echo_trace:
  "run_events (\<lambda>op m. [(m, op)]) (session_start (new_session False rnd))
     [Send [1] Op_Text, Send [2] Op_Text, Complete 1 (Done [])] =
   Inr \<lparr>uuid = generateUuid rnd, use_ssl = False, streambuf = [],
        write_queue = [create_websocket_frame [2] Op_Text],
        in_flight = [Read_until, Write_frame (create_websocket_frame [2] Op_Text)],
        submitted = [([1], Op_Text), ([2], Op_Text)],
        completed = [create_websocket_frame [1] Op_Text], handled = []\<rparr>"
  by (simp add: session_start_def new_session_def do_handshake_def launch_def session_send_def
      do_write_def on_written_def without_def Let_def)

theorem write_queue_fifo_witness:
  "\<exists>s. run_events (\<lambda>op m. [(m, op)]) (session_start (new_session False (replicate 16 0)))
      [Send [1] Op_Text, Send [2] Op_Text, Complete 1 (Done [])] = Inr s \<and>
    completed s @ write_queue s = frames [([1], Op_Text), ([2], Op_Text)] \<and> frame_writes s \<noteq> []"
  using write_queue_fifo [OF run_events_reachable [OF echo_trace]] echo_trace [of "replicate 16 0"]
  by (simp add: frame_writes_def)



text \<open>
  (C17) One failed write silences a session for good: the failed frame stays at the front of the
  queue, so no later \<open>send\<close> starts a write, and whatever happens afterwards no frame is written
  any more, while the queue only grows.
\<close>

theorem failed_write_stalls:
  assumes "reachable h (session_start (new_session ssl rnd)) s"
    and "i < length (in_flight s)" and "in_flight s ! i = Write_frame f"
    and "run_event h s (Complete i Failed) = Inr t" and "reachable h t u"
  shows "completed u = completed s \<and> frame_writes u = [] \<and>
    completed s @ write_queue u = frames (submitted u)"
proof -
  have t: "t = s\<lparr>in_flight := without i (in_flight s)\<rparr>" using assms(2-4) by simp
  obtain fs gs where "frame_writes s = fs @ frame_of (in_flight s ! i) @ gs" "frame_writes t = fs @ gs"
    unfolding t using in_flight_removed [OF assms(2)] by metis
  then have "frame_writes s = fs @ f # gs" "frame_writes t = fs @ gs" using assms(3) by simp_all
  then have "stalled t"
    using one_write_removed [OF started_invs(1) [OF assms(1)]] by (simp add: stalled_def t)
  moreover have "step h s t" using assms(2-4) t by (intro step.complete [of i _ _ Failed]) simp_all
  then have "reachable h (session_start (new_session ssl rnd)) u"
    using assms(1,5) by (meson reachable.step reachable_trans)
  moreover have "completed t = completed s" by (simp add: t)
  ultimately show ?thesis
    using stalled_reachable [OF assms(5)] started_invs(1) [of h ssl rnd u]
    by (simp add: stalled_def queue_inv_def)
qed

theorem failed_write_stalls_witness:
  "\<exists>u. run_events (\<lambda>op m. []) (session_start (new_session False (replicate 16 0)))
      [Send [1] Op_Text, Complete 1 Failed, Send [2] Op_Text] = Inr u \<and>
    completed u = [] \<and> frame_writes u = []"
proof -
  let ?h = "\<lambda>op m. []" and ?init = "session_start (new_session False (replicate 16 0))"
  let ?s = "session_send ?init ([1], Op_Text)"
  have f: "in_flight ?s = [Read_until, Write_frame (create_websocket_frame [1] Op_Text)]"
    by (simp add: session_start_def new_session_def do_handshake_def launch_def session_send_def
        do_write_def Let_def)
  have "run_events ?h ?init [Send [1] Op_Text] = Inr ?s" by simp
  then have r: "reachable ?h ?init ?s" by (rule run_events_reachable)
  let ?t = "?s\<lparr>in_flight := without 1 (in_flight ?s)\<rparr>"
  have t: "run_event ?h ?s (Complete 1 Failed) = Inr ?t" using f by simp
  have u: "run_events ?h ?t [Send [2] Op_Text] = Inr (session_send ?t ([2], Op_Text))" by simp
  have run: "run_events ?h ?init [Send [1] Op_Text, Complete 1 Failed, Send [2] Op_Text] =
      Inr (session_send ?t ([2], Op_Text))"
    using t by simp
  have fl: "1 < length (in_flight ?s)" "in_flight ?s ! 1 = Write_frame (create_websocket_frame [1] Op_Text)"
    using f by simp_all
  from failed_write_stalls [OF r fl t run_events_reachable [OF u]] run show ?thesis
    by (intro exI [of _ "session_send ?t ([2], Op_Text)"]) simp
qed

text \<open>
  (C18) The control chain: at any time at most one of the TLS handshake, the request read, the
  reply write and the frame read is in flight, and once a message has been handled only frame
  reads are: no message is delivered before the reply to the handshake has been written.
\<close>

theorem single_control_chain:
  assumes "reachable h (session_start (new_session ssl rnd)) s"
  shows "length (control s) \<le> 1 \<and> (handled s = [] \<or> control s = [] \<or> control s = [Read_some])"
  using started_invs(2) [OF assms] unfolding control_inv_def
  by (cases "control s") auto

theorem single_control_chain_witness:
  "\<exists>s. run_events (\<lambda>op m. []) (session_start (new_session True (replicate 16 0)))
      [Complete 0 (Done [])] = Inr s \<and> length (control s) \<le> 1 \<and> control s = [Read_until]"
proof -
  have "run_events (\<lambda>op m. []) (session_start (new_session True (replicate 16 0))) [Complete 0 (Done [])] =
      Inr (do_handshake (new_session True (replicate 16 0)))"
    by (simp add: session_start_def new_session_def do_ssl_handshake_def launch_def without_def)
  from single_control_chain [OF run_events_reachable [OF this]] this show ?thesis
    by (simp add: do_handshake_def new_session_def control_def launch_def)
qed

text \<open>
  Nothing makes \<open>send\<close> wait for the handshake: a message sent to a session that has only been
  started is written at once, and the client gets the frame while its own request is still being
  read, before any reply to it.
\<close>

theorem frame_before_reply:
  "\<exists>s. run_events h (session_start (new_session False rnd)) [Send m op, Complete 1 (Done [])] = Inr s \<and>
     completed s = [create_websocket_frame m op] \<and> in_flight s = [Read_until]"
  by (simp add: session_start_def new_session_def do_handshake_def launch_def session_send_def
      do_write_def on_written_def without_def Let_def)

lemma streambuf_kept:
  assumes "reachable h t u" and "Read_until \<notin> set (control t)" and "Ssl_handshake \<notin> set (control t)"
  shows "streambuf u = streambuf t"
proof -
  have "streambuf u = streambuf t \<and> Read_until \<notin> set (control u) \<and> Ssl_handshake \<notin> set (control u)"
  proof (rule reachable_invariant [OF assms(1)])
    fix s s' assume st: "step h s s'"
      and s: "streambuf s = streambuf t \<and> Read_until \<notin> set (control s) \<and> Ssl_handshake \<notin> set (control s)"
    show "streambuf s' = streambuf t \<and> Read_until \<notin> set (control s') \<and> Ssl_handshake \<notin> set (control s')"
      using st
    proof (cases rule: step_cases)
      case (sent m)
      then show ?thesis using s by simp
    next
      case (control v a buf log ms nx cs ds)
      have "a \<noteq> Read_until" "a \<noteq> Ssl_handshake" using control(3) s by auto
      moreover have "Read_until \<notin> set nx \<and> Ssl_handshake \<notin> set nx"
        using control(7) calculation by (cases a) auto
      ultimately show ?thesis
        using control s by (auto simp: same_queue_def)
    next
      case (frame v f fs gs)
      then show ?thesis using s by (auto simp: same_queue_def)
    qed
  qed (use assms in simp)
  then show ?thesis by simp
qed

text \<open>
  What arrives together with the request is lost: when the read of the request completes
  with bytes behind the blank line, these stay in the stream buffer of the handshake, which
  nothing reads again, however the session goes on.
\<close>

theorem bytes_behind_request_lost:
  assumes "in_flight s = [Read_until]"
    and "str_find (streambuf s @ data) handshake_delim 0 = Some p"
    and "run_event h s (Complete 0 (Done data)) = Inr t" and "reachable h t u"
  shows "streambuf u = drop (p + length handshake_delim) (streambuf s @ data)"
proof -
  let ?v = "s\<lparr>in_flight := [], streambuf := drop (p + length handshake_delim) (streambuf s @ data)\<rparr>"
  have "on_request (streambuf s @ data) (s\<lparr>in_flight := []\<rparr>) = Inr t"
    using assms(1,3) by (simp add: without_def)
  then have "t = ?v \<or> (\<exists>r. t = launch (Write_response r) ?v)"
    using assms(2) by (auto simp: on_request_def Let_def split: option.splits)
  then have "streambuf t = streambuf ?v" "Read_until \<notin> set (control t)" "Ssl_handshake \<notin> set (control t)"
    by (auto simp: control_def launch_def)
  with streambuf_kept [OF assms(4)] show ?thesis by simp
qed

theorem bytes_behind_request_lost_witness:
  "\<exists>t. run_events (\<lambda>op m. []) (session_start (new_session False (replicate 16 0)))
      [Complete 0 (Done (cstr ''GET /'' @ handshake_delim @ [0x81, 0])), Send [1] Op_Text] = Inr t \<and>
    streambuf t = [0x81, 0]"
proof -
  let ?init = "session_start (new_session False (replicate 16 0))" and ?h = "\<lambda>op m. []"
  let ?data = "cstr ''GET /'' @ handshake_delim @ [0x81, 0]"
  have i: "in_flight ?init = [Read_until]" "streambuf ?init = []"
    by (simp_all add: session_start_def new_session_def do_handshake_def launch_def)
  have p: "str_find ?data handshake_delim 0 = Some 5" by code_simp
  have "handshake_reply (take 9 ?data) = Inr None" by code_simp
  moreover have "length handshake_delim = 4" by (simp add: handshake_delim_def crlf_def)
  ultimately have e: "run_event ?h ?init (Complete 0 (Done ?data)) =
      Inr (?init\<lparr>in_flight := [], streambuf := drop 9 ?data\<rparr>)" (is "_ = Inr ?t")
    using i p by (simp add: on_request_def without_def Let_def)
  have r: "run_events ?h ?t [Send [1] Op_Text] = Inr (session_send ?t ([1], Op_Text))" by simp
  have "drop (5 + length handshake_delim) (streambuf ?init @ ?data) = [0x81, 0]"
    by (simp add: i handshake_delim_def crlf_def cstr_def)
  with bytes_behind_request_lost [OF i(1) _ e run_events_reachable [OF r]] p i(2) e r show ?thesis
    by (intro exI [of _ "session_send ?t ([1], Op_Text)"]) simp
qed

end
