(* ===== verification/WsServer.thy ===== *)
theory WsServer
  imports Session
begin

text \<open>
  \<open>src/common/WebSocketServer.h\<close>: the accept loop, the list of sessions, the forwarding of
  messages and \<open>broadcast\<close>; and the echo server \<open>src/websocket/basic_text/main.cpp\<close>, which is a
  \<open>WebSocketServer\<close> with a message handler that sends every message back.

  A session is known by its position in \<open>sessions\<close>. The sockets, the acceptor and the TLS
  context are asio's; what an accept contributes is the error flag and the random bytes of the
  new session's uuid.
\<close>

section \<open>State and operations\<close>

record ws_server =
  srv_use_ssl :: bool
  message_handler :: "(nat \<Rightarrow> msg_handler) option"
  sessions :: "session list"
  accepting :: bool

text \<open>The constructor starts to accept; the handlers are set afterwards.\<close>

definition new_server :: "bool \<Rightarrow> ws_server" where
  "new_server ssl =
     \<lparr>srv_use_ssl = ssl, message_handler = None, sessions = [], accepting = True\<rparr>"

definition set_message_handler :: "ws_server \<Rightarrow> (nat \<Rightarrow> msg_handler) \<Rightarrow> ws_server" where
  "set_message_handler srv h = srv\<lparr>message_handler := Some h\<rparr>"

text \<open>
  The handler of \<open>async_accept\<close>. \<open>new_client\<close> is the new-client handler, an operation on the
  application's state \<open>'a\<close>, which gets the session before it is started and before it is in the
  list.
\<close>

definition on_accept ::
  "(session \<Rightarrow> 'a \<Rightarrow> 'a) option \<Rightarrow> bool \<Rightarrow> bytes \<Rightarrow> ws_server \<times> 'a \<Rightarrow> ws_server \<times> 'a" where
  "on_accept new_client ec rnd st =
     (case st of (srv, app) \<Rightarrow>
        if ec then (srv\<lparr>accepting := True\<rparr>, app)
        else (let session = new_session (srv_use_ssl srv) rnd;
                  app = (case new_client of None \<Rightarrow> app | Some f \<Rightarrow> f session app);
                  srv = srv\<lparr>sessions := sessions srv @ [session_start session]\<rparr>
              in (srv\<lparr>accepting := True\<rparr>, app)))"

text \<open>The lambda given to \<open>setMessageHandler\<close>: it looks the server's handler up when it runs.\<close>

definition forward_message :: "ws_server \<Rightarrow> nat \<Rightarrow> msg_handler" where
  "forward_message srv i = (case message_handler srv of None \<Rightarrow> (\<lambda>_ _. []) | Some h \<Rightarrow> h i)"

definition session_event :: "ws_server \<Rightarrow> nat \<Rightarrow> event \<Rightarrow> ws_server result" where
  "session_event srv i e =
     (if i < length (sessions srv)
      then bind_r (run_event (forward_message srv i) (sessions srv ! i) e)
             (\<lambda>s. Inr (srv\<lparr>sessions := (sessions srv)[i := s]\<rparr>))
      else Inr srv)"

definition broadcast :: "ws_server \<Rightarrow> bytes \<Rightarrow> opcode \<Rightarrow> ws_server" where
  "broadcast srv message opcode =
     srv\<lparr>sessions := map (\<lambda>s. session_send s (message, opcode)) (sessions srv)\<rparr>"

section \<open>The echo server\<close>

definition echo_handler :: "nat \<Rightarrow> msg_handler" where
  "echo_handler i = (\<lambda>opcode message. [(message, opcode)])"

definition echo_server :: ws_server where
  "echo_server = set_message_handler (new_server False) echo_handler"

section \<open>Runs of a server\<close>

text \<open>A server accepts connections, its sessions go on, and the program broadcasts.\<close>

inductive srv_step :: "ws_server \<Rightarrow> ws_server \<Rightarrow> bool" where
  accept: "srv_step srv (fst (on_accept None ec rnd (srv, ())))"
| event: "session_event srv i e = Inr srv' \<Longrightarrow> srv_step srv srv'"
| cast: "srv_step srv (broadcast srv m op)"

inductive srv_reachable :: "ws_server \<Rightarrow> ws_server \<Rightarrow> bool" for srv0 where
  init: "srv_reachable srv0 srv0"
| step: "srv_reachable srv0 srv \<Longrightarrow> srv_step srv srv' \<Longrightarrow> srv_reachable srv0 srv'"

inductive_cases srv_stepE: "srv_step srv srv'"

text \<open>Every session of a server is a reachable state of the session machine.\<close>

definition sessions_inv :: "ws_server \<Rightarrow> bool" where
  "sessions_inv srv \<longleftrightarrow> (\<forall>i < length (sessions srv). \<exists>rnd.
     reachable (forward_message srv i) (session_start (new_session (srv_use_ssl srv) rnd)) (sessions srv ! i))"

lemma run_event_reachable: "run_event h s e = Inr s' \<Longrightarrow> reachable h s s'"
  using run_events_reachable [of h s "[e]" s'] by simp

lemma forward_message_update [simp]: "forward_message (srv\<lparr>sessions := ss\<rparr>) = forward_message srv"
  "forward_message (srv\<lparr>accepting := b\<rparr>) = forward_message srv"
  by (simp_all add: forward_message_def fun_eq_iff)

lemma srv_step_inv:
  assumes "srv_step srv srv'" and "sessions_inv srv"
  shows "sessions_inv srv' \<and> message_handler srv' = message_handler srv \<and>
    srv_use_ssl srv' = srv_use_ssl srv \<and> length (sessions srv) \<le> length (sessions srv')"
  using assms(1)
proof (cases rule: srv_step.cases)
  case (accept ec rnd)
  show ?thesis
  proof (cases ec)
    case True
    with accept assms(2) show ?thesis by (simp add: on_accept_def sessions_inv_def)
  next
    case False
    with accept assms(2) show ?thesis
      by (auto simp: on_accept_def sessions_inv_def nth_append less_Suc_eq Let_def intro: reachable.init)
  qed
next
  case (event i e)
  then show ?thesis
  proof (cases "i < length (sessions srv)")
    case True
    with event obtain s where s: "run_event (forward_message srv i) (sessions srv ! i) e = Inr s"
        "srv' = srv\<lparr>sessions := (sessions srv)[i := s]\<rparr>"
      by (auto simp: session_event_def)
    have "\<exists>rnd. reachable (forward_message srv i) (session_start (new_session (srv_use_ssl srv) rnd)) s"
      using assms(2) True run_event_reachable [OF s(1)] reachable_trans unfolding sessions_inv_def by blast
    with True assms(2) show ?thesis
      by (auto simp: s(2) sessions_inv_def nth_list_update split: if_splits)
  next
    case False
    with event assms(2) show ?thesis by (simp add: session_event_def)
  qed
next
  case (cast m op)
  with assms(2) show ?thesis
    by (simp add: broadcast_def sessions_inv_def) (blast intro: reachable.step step.send)
qed

lemma srv_reachable_inv:
  assumes "srv_reachable srv0 srv" and "sessions_inv srv0"
  shows "sessions_inv srv \<and> message_handler srv = message_handler srv0 \<and>
    srv_use_ssl srv = srv_use_ssl srv0 \<and> length (sessions srv0) \<le> length (sessions srv)"
  using assms(1)
proof induction
  case init
  then show ?case using assms(2) by simp
next
  case (step srv srv')
  then show ?case using srv_step_inv [OF step.hyps(2)] by auto
qed

lemma new_server_inv: "sessions_inv (set_message_handler (new_server ssl) h)" "sessions_inv (new_server ssl)"
  by (simp_all add: sessions_inv_def set_message_handler_def new_server_def)

lemma chunk_of_client_frame:
  assumes "op < 16" and "length (rfc_frame op (Some [a, b, c, d]) m @ rest) \<le> read_buffer_size"
  shows "on_chunk h (rfc_frame op (Some [a, b, c, d]) m @ rest) s =
    Inr (do_read (foldl session_send (s\<lparr>handled := handled s @ [(op, m)]\<rparr>) (h op m)))"
  using client.decode_encode [OF assms] by (simp add: on_chunk_def)

section \<open>Properties\<close>

text \<open>
  The echo server, end to end: a masked frame of a client, completing a read of a session in
  any state, is handled once, and its answer, the unmasked frame with the same opcode and message
  (for a ping too, where the protocol asks for a pong), joins the session's queue; the session
  goes on reading.
\<close>

theorem echo_answers:
  assumes "op < 16" and "length (rfc_frame op (Some [a, b, c, d]) m @ rest) \<le> read_buffer_size"
    and "k < length (sessions srv)" and "s = sessions srv ! k"
    and "i < length (in_flight s)" and "in_flight s ! i = Read_some"
    and "message_handler srv = Some echo_handler"
    and "session_event srv k (Complete i (Done (rfc_frame op (Some [a, b, c, d]) m @ rest))) = Inr srv'"
    and "t = sessions srv' ! k"
  shows "handled t = handled s @ [(op, m)] \<and> submitted t = submitted s @ [(m, op)] \<and>
    write_queue t = write_queue s @ [rfc_frame op None m] \<and> completed t = completed s \<and>
    Read_some \<in> set (control t)"
proof -
  let ?u = "s\<lparr>in_flight := without i (in_flight s)\<rparr>"
  have "run_event (forward_message srv k) s (Complete i (Done (rfc_frame op (Some [a, b, c, d]) m @ rest))) =
      Inr (do_read (session_send (?u\<lparr>handled := handled ?u @ [(op, m)]\<rparr>) (m, op)))"
    using assms(5-7) chunk_of_client_frame [OF assms(1,2)]
    by (simp add: forward_message_def echo_handler_def)
  then have t: "t = do_read (session_send (?u\<lparr>handled := handled ?u @ [(op, m)]\<rparr>) (m, op))"
    using assms(3,4,8,9) by (auto simp: session_event_def)
  have "length m < 2 ^ 64" using assms(2) by (simp add: length_rfc_frame read_buffer_size_def)
  then show ?thesis
    unfolding t do_read_def by (simp add: create_websocket_frame_eq)
qed

theorem echo_answers_witness:
  "\<exists>t. session_event (echo_server\<lparr>sessions := [launch Read_some (new_session False (replicate 16 0))]\<rparr>) 0
        (Complete 0 (Done (rfc_frame Op_Ping (Some [1, 2, 3, 4]) [42]))) =
      Inr (echo_server\<lparr>sessions := [t]\<rparr>) \<and>
    write_queue t = [rfc_frame Op_Ping None [42]]"
proof -
  let ?s = "launch Read_some (new_session False (replicate 16 0))"
  let ?srv = "echo_server\<lparr>sessions := [?s]\<rparr>"
  let ?f = "rfc_frame Op_Ping (Some [1, 2, 3, 4]) [42]"
  let ?t = "do_read (session_send ((?s\<lparr>in_flight := []\<rparr>)\<lparr>handled := [(Op_Ping, [42])]\<rparr>) ([42], Op_Ping))"
  have len: "length (?f @ []) \<le> read_buffer_size" and op: "Op_Ping < 16"
    by (simp_all add: length_rfc_frame header_size_def read_buffer_size_def Op_Ping_def)
  have f: "in_flight ?s = [Read_some]" "handled ?s = []" by (simp_all add: launch_def new_session_def)
  have h: "forward_message ?srv 0 = echo_handler 0"
    by (simp add: forward_message_def echo_server_def set_message_handler_def)
  have e: "session_event ?srv 0 (Complete 0 (Done (?f @ []))) = Inr (echo_server\<lparr>sessions := [?t]\<rparr>)"
    using chunk_of_client_frame [OF op len] f h
    by (simp add: session_event_def without_def echo_handler_def)
  have "write_queue ?t = [rfc_frame Op_Ping None [42]]"
    using echo_answers [OF op len _ _ _ _ _ e, where s = ?s and t = ?t] f
    by (simp add: echo_server_def set_message_handler_def new_session_def launch_def)
  with e show ?thesis by (intro exI [of _ ?t]) simp
qed

text \<open>
  Sessions of a server, under any interleaving of accepts, session events and broadcasts: no
  session is ever dropped from the list, and each keeps its own queue in order, undisturbed by
  the others.
\<close>

theorem server_sessions:
  assumes "srv_reachable (set_message_handler (new_server ssl) h) srv"
    and "i < length (sessions srv)" and "srv_reachable srv srv'"
  shows "i < length (sessions srv') \<and>
    completed (sessions srv' ! i) @ write_queue (sessions srv' ! i) =
      frames (submitted (sessions srv' ! i))"
proof -
  have "sessions_inv srv" using srv_reachable_inv [OF assms(1) new_server_inv(1)] by simp
  then have inv: "sessions_inv srv'" "length (sessions srv) \<le> length (sessions srv')"
    using srv_reachable_inv [OF assms(3)] by simp_all
  then have i: "i < length (sessions srv')" using assms(2) by simp
  then show ?thesis
    using inv(1) started_invs(1) by (fastforce simp: sessions_inv_def queue_inv_def)
qed

theorem server_sessions_witness:
  "\<exists>srv. srv_reachable echo_server srv \<and> 0 < length (sessions (broadcast srv [7] Op_Text)) \<and>
     completed (sessions (broadcast srv [7] Op_Text) ! 0) @
       write_queue (sessions (broadcast srv [7] Op_Text) ! 0) = frames [([7], Op_Text)]"
proof -
  let ?srv = "fst (on_accept None False (replicate 16 0) (echo_server, ()))"
  have s: "sessions ?srv = [session_start (new_session False (replicate 16 0))]"
    by (simp add: on_accept_def echo_server_def set_message_handler_def new_server_def Let_def)
  have r: "srv_reachable (set_message_handler (new_server False) echo_handler) ?srv"
    unfolding echo_server_def [symmetric]
    by (rule srv_reachable.step [OF srv_reachable.init srv_step.accept])
  have r': "srv_reachable ?srv (broadcast ?srv [7] Op_Text)"
    by (rule srv_reachable.step [OF srv_reachable.init srv_step.cast])
  have "submitted (sessions (broadcast ?srv [7] Op_Text) ! 0) = [([7], Op_Text)]"
    by (simp add: broadcast_def s)
  moreover have "0 < length (sessions ?srv)" by (simp add: s)
  note server_sessions [OF r this r']
  moreover have "srv_reachable echo_server ?srv" using r by (simp only: echo_server_def)
  ultimately show ?thesis by (intro exI [of _ ?srv]) simp
qed

text \<open>
  A session that has stalled stays in the list and swallows every broadcast: after \<open>n\<close>
  broadcasts its queue is \<open>n\<close> frames longer and nothing more has been written.
\<close>

theorem stalled_session_grows:
  assumes "i < length (sessions srv)" and "stalled (sessions srv ! i)"
  shows "length (write_queue (sessions (((\<lambda>srv. broadcast srv m op) ^^ n) srv) ! i)) =
      length (write_queue (sessions srv ! i)) + n \<and>
    completed (sessions (((\<lambda>srv. broadcast srv m op) ^^ n) srv) ! i) = completed (sessions srv ! i) \<and>
    frame_writes (sessions (((\<lambda>srv. broadcast srv m op) ^^ n) srv) ! i) = []"
proof -
  have "length (sessions (((\<lambda>srv. broadcast srv m op) ^^ n) srv)) = length (sessions srv) \<and>
     stalled (sessions (((\<lambda>srv. broadcast srv m op) ^^ n) srv) ! i) \<and>
     length (write_queue (sessions (((\<lambda>srv. broadcast srv m op) ^^ n) srv) ! i)) =
       length (write_queue (sessions srv ! i)) + n \<and>
     completed (sessions (((\<lambda>srv. broadcast srv m op) ^^ n) srv) ! i) = completed (sessions srv ! i)"
    by (induction n) (use assms in \<open>simp_all add: broadcast_def stalled_send\<close>)
  then show ?thesis by (simp add: stalled_def)
qed

theorem stalled_session_grows_witness:
  "\<exists>srv. length (write_queue (sessions (((\<lambda>srv. broadcast srv [1] Op_Text) ^^ 1000) srv) ! 0)) = 1001"
proof -
  let ?s = "(new_session False (replicate 16 0))\<lparr>write_queue := [[0x81, 0]]\<rparr>"
  let ?srv = "echo_server\<lparr>sessions := [?s]\<rparr>"
  have "stalled (sessions ?srv ! 0)" by (simp add: stalled_def new_session_def frame_writes_def)
  from stalled_session_grows [OF _ this, where m = "[1]" and op = Op_Text and n = 1000] show ?thesis
    by (intro exI [of _ ?srv]) simp
qed

end
