(* ===== verification/VoiceServer.thy ===== *)
theory VoiceServer
  imports WsServer RoomManager
begin

text \<open>
  The voice server \<open>src/server/main_server.cpp\<close> with \<open>Client.h\<close> and \<open>Connection.h\<close>: the class
  \<open>VoiceChatServer\<close>, its UDP socket, and the WebSocket server that \<open>main\<close> puts beside it. All
  handlers run on the one thread of \<open>AsioThreadPool(1)\<close>, one after the other.

  A client is the endpoint of a UDP client or the position of a session in the WebSocket server.
  The socket is asio's: a datagram arrives with its sender, and a send is transferred at once or
  waits until the socket is writable. \<open>udp_sends\<close> is the history of \<open>async_send_to\<close>.
\<close>

section \<open>Clients and their keys\<close>

record udp_endpoint =
  address :: bytes
  port :: u16

datatype client =
    UDPClient udp_endpoint
  | WebSocketClient nat

text \<open>\<open>std::to_string\<close> of an unsigned number.\<close>

fun decimal :: "nat \<Rightarrow> bytes" where
  "decimal n = (if n < 10 then [0x30 + of_nat n] else decimal (n div 10) @ [0x30 + of_nat (n mod 10)])"

declare decimal.simps [simp del]

definition client_key :: "udp_endpoint \<Rightarrow> bytes" where
  "client_key ep = address ep @ cstr '':'' @ decimal (unat (port ep))"

section \<open>The server\<close>

text \<open>
  A send that could not be transferred at once is \<open>waiting\<close>; \<open>payload\<close> is what its buffer held
  when it was started.
\<close>

record udp_send =
  dest :: udp_endpoint
  payload :: bytes
  waiting :: bool

record voice_server =
  web :: ws_server
  room_manager :: "client room"
  remote_endpoint :: udp_endpoint
  recv_buffer :: bytes
  receiving :: bool
  udp_sends :: "udp_send list"

definition start_receive :: "voice_server \<Rightarrow> voice_server" where
  "start_receive v = v\<lparr>receiving := True\<rparr>"

text \<open>
  \<open>main\<close>: the voice server, and a WebSocket server without TLS. Its message handler acts on the
  room only, so it sends nothing back on the session.
\<close>

definition new_voice_server :: voice_server where
  "new_voice_server =
     \<lparr>web = new_server False, room_manager = new_room, remote_endpoint = \<lparr>address = cstr ''0.0.0.0'', port = 0\<rparr>,
      recv_buffer = replicate 16384 0, receiving = False, udp_sends = []\<rparr>"

definition main_server :: voice_server where
  "main_server = start_receive
     (new_voice_server\<lparr>web := set_message_handler (web new_voice_server) (\<lambda>i opcode message. [])\<rparr>)"

definition add_websocket_user :: "nat \<Rightarrow> bytes \<Rightarrow> client room \<Rightarrow> client room" where
  "add_websocket_user connection uid room = addClient room uid (WebSocketClient connection)"

definition handle_receive_websocket :: "bytes \<Rightarrow> bytes \<Rightarrow> int \<Rightarrow> client room \<Rightarrow> client room" where
  "handle_receive_websocket key bs now room = processAudio room key (packet_of bs (length bs)) now"

definition handle_receive :: "nat \<Rightarrow> int \<Rightarrow> voice_server \<Rightarrow> voice_server" where
  "handle_receive bytes_recvd now v =
     (let key = client_key (remote_endpoint v);
          room = room_manager v;
          room = (if getClient room key = None then addClient room key (UDPClient (remote_endpoint v)) else room);
          packet = packet_of (recv_buffer v) bytes_recvd
      in v\<lparr>room_manager := processAudio room key packet now\<rparr>)"

text \<open>The completion handler of \<open>async_receive_from\<close>; the clock is read in \<open>processAudio\<close>.\<close>

definition on_receive :: "bool \<Rightarrow> nat \<Rightarrow> int \<Rightarrow> voice_server \<Rightarrow> voice_server" where
  "on_receive ec bytes_recvd now v =
     (let v = (if \<not> ec \<and> bytes_recvd > 0 then handle_receive bytes_recvd now v else v)
      in start_receive v)"

text \<open>A datagram is written over the front of the buffer; what does not fit is lost.\<close>

definition datagram_arrives :: "udp_endpoint \<Rightarrow> bytes \<Rightarrow> int \<Rightarrow> voice_server \<Rightarrow> voice_server" where
  "datagram_arrives ep data now v =
     (let n = min (length data) (length (recv_buffer v))
      in on_receive False n now (v\<lparr>receiving := False, remote_endpoint := ep,
           recv_buffer := take n data @ drop n (recv_buffer v)\<rparr>))"

text \<open>The message handler that \<open>main\<close> gives the WebSocket server.\<close>

definition server_message :: "bytes \<Rightarrow> int \<Rightarrow> client room \<Rightarrow> opcode \<times> bytes \<Rightarrow> client room" where
  "server_message uid now room m =
     (if fst m = Op_Binary then handle_receive_websocket uid (snd m) now room else room)"

section \<open>Sending\<close>

definition connection_send :: "(udp_endpoint \<Rightarrow> bool) \<Rightarrow> udp_endpoint \<Rightarrow> audio_packet \<Rightarrow> voice_server \<Rightarrow> voice_server" where
  "connection_send writable endpoint packet v =
     v\<lparr>udp_sends := udp_sends v @ [\<lparr>dest = endpoint, payload = packet, waiting = \<not> writable endpoint\<rparr>]\<rparr>"

fun client_send :: "(udp_endpoint \<Rightarrow> bool) \<Rightarrow> voice_server \<Rightarrow> client \<times> audio_packet \<Rightarrow> voice_server" where
  "client_send writable v (UDPClient ep, packet) = connection_send writable ep packet v"
| "client_send writable v (WebSocketClient i, packet) =
     v\<lparr>web := (web v)\<lparr>sessions := (sessions (web v))
        [i := session_send (sessions (web v) ! i) (packet, Op_Binary)]\<rparr>\<rparr>"

section \<open>Events\<close>

text \<open>An accepted connection: the new session gets the next position.\<close>

definition accepts :: "bool \<Rightarrow> bytes \<Rightarrow> voice_server \<Rightarrow> voice_server" where
  "accepts ec rnd v =
     (case on_accept (Some (\<lambda>session. add_websocket_user (length (sessions (web v))) (uuid session)))
         ec rnd (web v, room_manager v) of
        (srv, room) \<Rightarrow> v\<lparr>web := srv, room_manager := room\<rparr>)"

text \<open>
  An operation of a session completes. What the session handled, if anything, went to the message
  handler.
\<close>

definition session_completes :: "nat \<Rightarrow> nat \<Rightarrow> completion \<Rightarrow> int \<Rightarrow> voice_server \<Rightarrow> voice_server result" where
  "session_completes i j c now v =
     (if i < length (sessions (web v))
      then bind_r (session_event (web v) i (Complete j c)) (\<lambda>srv.
        let messages = drop (length (handled (sessions (web v) ! i))) (handled (sessions srv ! i))
        in Inr (v\<lparr>web := srv, room_manager :=
             foldl (server_message (uuid (sessions srv ! i)) now) (room_manager v) messages\<rparr>))
      else Inr v)"

text \<open>A handler of the mixing timer runs.\<close>

definition mix_handler :: "platform \<Rightarrow> (udp_endpoint \<Rightarrow> bool) \<Rightarrow> int \<Rightarrow> voice_server \<Rightarrow> voice_server result" where
  "mix_handler p writable now v =
     bind_r (run_handler p (room_manager v) now) (\<lambda>(sends, room).
       Inr (foldl (client_send writable) (v\<lparr>room_manager := room\<rparr>) (map snd sends)))"

text \<open>
  The socket becomes writable: a send that waits is transferred from its buffer. That was the
  packet \<open>mixedPacket\<close> of \<open>mixAndSendAudio\<close>, which is destroyed at the end of the block.
\<close>

definition socket_writable :: "voice_server \<Rightarrow> voice_server result" where
  "socket_writable v = (if \<exists>s \<in> set (udp_sends v). waiting s then Inl Undefined_behaviour else Inr v)"

inductive voice_step :: "platform \<Rightarrow> voice_server \<Rightarrow> voice_server \<Rightarrow> bool" for p where
  accept: "getClient (room_manager v) (generateUuid rnd) = None \<Longrightarrow> length rnd = 16 \<Longrightarrow> voice_step p v (accepts ec rnd v)"
| session: "session_completes i j c now v = Inr v' \<Longrightarrow> voice_step p v v'"
| datagram: "voice_step p v (datagram_arrives ep data now v)"
| receive_error: "voice_step p v (on_receive True n now v)"
| expire: "voice_step p v (v\<lparr>room_manager := timer_expires (room_manager v)\<rparr>)"
| mix: "length (audioBuffers (room_manager v)) \<le> 1310 \<Longrightarrow> mix_handler p writable now v = Inr v' \<Longrightarrow> voice_step p v v'"

inductive voice_reachable :: "platform \<Rightarrow> voice_server \<Rightarrow> voice_server \<Rightarrow> bool" for p v0 where
  init: "voice_reachable p v0 v0"
| step: "voice_reachable p v0 v \<Longrightarrow> voice_step p v v' \<Longrightarrow> voice_reachable p v0 v'"

inductive_cases voice_stepE: "voice_step p v v'"

section \<open>Keys are never confused\<close>

lemma decimal_digits: "b \<in> set (decimal n) \<Longrightarrow> 48 \<le> unat b \<and> unat b < 58"
proof (induction n rule: decimal.induct)
  case (1 n)
  have d: "unat (0x30 + of_nat (k mod 10) :: byte) = 48 + k mod 10" for k
    by (simp add: unat_word_ariths unat_of_nat)
  show ?case
  proof (cases "n < 10")
    case True
    then show ?thesis using 1(2) d [of n] by (simp add: decimal.simps)
  next
    case False
    then have "decimal n = decimal (n div 10) @ [0x30 + of_nat (n mod 10)]" by (subst decimal.simps) simp
    then show ?thesis using 1 False d [of n] by auto
  qed
qed

definition read_decimal :: "bytes \<Rightarrow> nat" where
  "read_decimal = foldl (\<lambda>n b. 10 * n + (unat b - 48)) 0"

lemma read_decimal_decimal [simp]: "read_decimal (decimal n) = n"
proof (induction n rule: decimal.induct)
  case (1 n)
  have d: "unat (0x30 + of_nat k :: byte) = 48 + k" if "k < 10" for k
    using that by (simp add: unat_word_ariths unat_of_nat)
  show ?case
  proof (cases "n < 10")
    case True
    then show ?thesis by (simp add: decimal.simps read_decimal_def d)
  next
    case False
    then have "decimal n = decimal (n div 10) @ [0x30 + of_nat (n mod 10)]" by (subst decimal.simps) simp
    then show ?thesis using 1 False d [of "n mod 10"] by (simp add: read_decimal_def)
  qed
qed

lemma colon_decimal: "58 \<notin> set (decimal n)"
  using decimal_digits [of 58 n] by auto

lemma split_at_first: "ys @ a # xs = ys' @ a # xs' \<Longrightarrow> a \<notin> set ys \<Longrightarrow> a \<notin> set ys' \<Longrightarrow> ys = ys' \<and> xs = xs'"
proof (induction ys arbitrary: ys')
  case Nil
  then show ?case by (cases ys') auto
next
  case (Cons y ys)
  then show ?case by (cases ys') auto
qed

lemma split_at_last: "xs @ a # ys = xs' @ a # ys' \<Longrightarrow> a \<notin> set ys \<Longrightarrow> a \<notin> set ys' \<Longrightarrow> xs = xs' \<and> ys = ys'"
proof -
  assume e: "xs @ a # ys = xs' @ a # ys'" and a: "a \<notin> set ys" "a \<notin> set ys'"
  have "rev ys @ a # rev xs = rev (xs @ a # ys)" by simp
  also have "\<dots> = rev (xs' @ a # ys')" by (simp only: e)
  finally have "rev ys @ a # rev xs = rev ys' @ a # rev xs'" by simp
  then show ?thesis using split_at_first [of "rev ys" a "rev xs" "rev ys'" "rev xs'"] a by simp
qed

lemma client_key_inj: "client_key e = client_key f \<Longrightarrow> e = f"
proof -
  assume "client_key e = client_key f"
  then have "address e @ 58 # decimal (unat (port e)) = address f @ 58 # decimal (unat (port f))"
    by (simp add: client_key_def cstr_def)
  then have a: "address e = address f" and d: "decimal (unat (port e)) = decimal (unat (port f))"
    using split_at_last colon_decimal by metis+
  from d have "unat (port e) = unat (port f)" by (metis read_decimal_decimal)
  then have "port e = port f" by (rule word_unat_eq_iff [THEN iffD2])
  with a show "e = f" by simp
qed

lemma colon_client_key: "58 \<in> set (client_key ep)"
  by (simp add: client_key_def cstr_def)

lemma colon_hex: "n < 16 \<Longrightarrow> hex_chars ! n \<noteq> 58"
proof -
  assume n: "n < 16"
  have "list_all (\<lambda>n. hex_chars ! n \<noteq> 58) [0..<16]" by (simp add: hex_chars_def cstr_def upt_rec)
  then show ?thesis using n by (simp add: list_all_iff)
qed

lemma unat_lt_byte: "unat (b :: byte) < 256"
  using unsigned_less [of b] by simp

lemma colon_uuid: "58 \<notin> set (generateUuid rnd)"
proof -
  have "58 \<notin> set (hex_byte b)" for b
    using colon_hex [of "unat b div 16"] colon_hex [of "unat b mod 16"] unat_lt_byte [of b]
    by (auto simp: hex_byte_def)
  then have "58 \<notin> set (uuid_text i bs)" for i bs
    by (induction bs arbitrary: i) (auto simp: cstr_def)
  then show ?thesis by (simp add: generateUuid_def Let_def)
qed

section \<open>The invariant\<close>

definition uuids :: "voice_server \<Rightarrow> bytes list" where
  "uuids v = map uuid (sessions (web v))"

definition client_ok :: "bytes list \<Rightarrow> bytes \<Rightarrow> client \<Rightarrow> bool" where
  "client_ok us k c = (case c of
     UDPClient ep \<Rightarrow> k = client_key ep
   | WebSocketClient i \<Rightarrow> i < length us \<and> k = us ! i)"

definition room_ok :: "bytes list \<Rightarrow> client room \<Rightarrow> bool" where
  "room_ok us r \<longleftrightarrow> room_inv r \<and> timer_inv r \<and> (\<forall>(k, c) \<in> set (clients r). client_ok us k c) \<and>
     (\<forall>i < length us. (us ! i, WebSocketClient i) \<in> set (clients r)) \<and>
     keys (audioBuffers r) \<subseteq> keys (clients r)"

definition voice_inv :: "voice_server \<Rightarrow> bool" where
  "voice_inv v \<longleftrightarrow> room_ok (uuids v) (room_manager v) \<and> (\<forall>u \<in> set (uuids v). 58 \<notin> set u) \<and>
     length (recv_buffer v) = 16384"

lemma do_ops_uuid [simp]:
  "uuid (launch a s) = uuid s" "uuid (do_ssl_handshake s) = uuid s" "uuid (do_handshake s) = uuid s"
  "uuid (do_read s) = uuid s" "uuid (do_write s) = uuid s" "uuid (session_start s) = uuid s"
  "uuid (session_send s m) = uuid s" "uuid (on_written s) = uuid s"
  by (simp_all add: launch_def do_ssl_handshake_def do_handshake_def do_read_def do_write_def session_start_def
      session_send_def on_written_def Let_def split: list.split)

lemma sends_uuid [simp]: "uuid (foldl session_send s ms) = uuid s"
  by (induction ms arbitrary: s) simp_all

lemma on_complete_uuid: "on_complete h a c s = Inr s' \<Longrightarrow> uuid s' = uuid s"
  by (induction h a c s rule: on_complete.induct)
    (auto simp: on_request_def on_chunk_def Let_def split: option.splits)

lemma session_event_uuid:
  "session_event srv i (Complete j c) = Inr srv' \<Longrightarrow>
     map uuid (sessions srv') = map uuid (sessions srv) \<and> length (sessions srv') = length (sessions srv)"
  by (auto simp: session_event_def map_update split: if_splits dest!: on_complete_uuid intro!: list_update_same_conv [THEN iffD2])

lemma map_nth_same: "(map f xs)[i := f (xs ! i)] = map f xs"
  by (metis list_update_id map_update)

lemma client_send_simps [simp]:
  "uuids (client_send w v m) = uuids v" "room_manager (client_send w v m) = room_manager v"
  "recv_buffer (client_send w v m) = recv_buffer v"
proof -
  have "map uuid (xs[i := session_send (xs ! i) q]) = map uuid xs" for xs i q
    by (cases "i < length xs") (simp_all add: map_update map_nth_same)
  then show "uuids (client_send w v m) = uuids v" "room_manager (client_send w v m) = room_manager v"
    "recv_buffer (client_send w v m) = recv_buffer v"
    by (cases "(w, v, m)" rule: client_send.cases; simp add: uuids_def connection_send_def)+
qed

lemma client_sends_simps [simp]:
  "uuids (foldl (client_send w) v ms) = uuids v"
  "room_manager (foldl (client_send w) v ms) = room_manager v"
  "recv_buffer (foldl (client_send w) v ms) = recv_buffer v"
  by (induction ms arbitrary: v) simp_all

section \<open>The room under the server\<close>

lemma set_update_new: "map_of m k = None \<Longrightarrow> set (AList.update k c m) = insert (k, c) (set m)"
  by (induction m) auto

lemma addClient_clients: "clients (addClient r k c) = AList.update k c (clients r)"
  by (simp add: addClient_def Let_def)

lemma addClient_buffers: "audioBuffers (addClient r k c) = audioBuffers r"
  by (simp add: addClient_def Let_def)

lemma room_ok_add:
  assumes "room_ok us r" and "getClient r k = None" and "client_ok us' k c"
    and "us' = us \<or> us' = us @ [k] \<and> c = WebSocketClient (length us)"
  shows "room_ok us' (addClient r k c) \<and> set (clients r) \<subseteq> set (clients (addClient r k c))"
proof -
  have "room_step p r (addClient r k c)" for p using assms(2) by (rule room_step.add)
  from room_step_invs [OF this] assms(1)
  have i: "room_inv (addClient r k c)" "timer_inv (addClient r k c)" by (simp_all add: room_ok_def)
  have s: "set (clients (addClient r k c)) = insert (k, c) (set (clients r))"
    using assms(2) by (simp add: addClient_clients getClient_def set_update_new)
  have "client_ok us' k' c'" if "client_ok us k' c'" for k' c'
    using that assms(4) by (auto simp: client_ok_def nth_append split: client.splits)
  then have "\<forall>(k, c) \<in> set (clients (addClient r k c)). client_ok us' k c"
    using assms(1,3) unfolding s room_ok_def by fastforce
  moreover have "(us' ! j, WebSocketClient j) \<in> set (clients (addClient r k c))" if "j < length us'" for j
    using that assms(1,4) unfolding s room_ok_def by (auto simp: nth_append less_Suc_eq)
  moreover have "keys (audioBuffers (addClient r k c)) \<subseteq> keys (clients (addClient r k c))"
    using assms(1) s by (auto simp: addClient_buffers keys_def room_ok_def)
  ultimately have "room_ok us' (addClient r k c)" using i unfolding room_ok_def by blast
  then show ?thesis using s by blast
qed

lemma room_ok_audio:
  assumes "room_ok us r" and "k \<in> keys (clients r)"
  shows "room_ok us (processAudio r k pk now)"
proof -
  have "room_step p r (processAudio r k pk now)" for p by (rule room_step.audio)
  from room_step_invs [OF this] assms show ?thesis
    by (auto simp: room_ok_def processAudio_def)
qed

lemma processAudio_clients [simp]: "clients (processAudio r k pk now) = clients r"
  by (simp add: processAudio_def)

lemma room_ok_messages:
  assumes "room_ok us r" and "u \<in> set us"
  shows "room_ok us (foldl (server_message u now) r ms) \<and> clients (foldl (server_message u now) r ms) = clients r"
  using assms(1)
proof (induction ms arbitrary: r)
  case Nil
  then show ?case by simp
next
  case (Cons m ms)
  obtain i where "i < length us" "u = us ! i" using assms(2) by (metis in_set_conv_nth)
  then have "(u, WebSocketClient i) \<in> set (clients r)" using Cons.prems by (simp add: room_ok_def)
  then have "u \<in> keys (clients r)" by (force simp: keys_def)
  then have "room_ok us (server_message u now r m) \<and> clients (server_message u now r m) = clients r"
    using Cons.prems by (simp add: server_message_def handle_receive_websocket_def room_ok_audio)
  with Cons.IH show ?case by simp
qed

lemma voice_inv_accepts:
  assumes "voice_inv v" and "getClient (room_manager v) (generateUuid rnd) = None"
  shows "voice_inv (accepts ec rnd v) \<and>
    set (clients (room_manager v)) \<subseteq> set (clients (room_manager (accepts ec rnd v)))"
proof (cases ec)
  case True
  then show ?thesis using assms(1) by (simp add: accepts_def on_accept_def voice_inv_def uuids_def)
next
  case False
  let ?k = "generateUuid rnd" and ?us = "uuids v"
  have k: "uuid (new_session (srv_use_ssl (web v)) rnd) = ?k" by (simp add: new_session_def)
  have l: "length (sessions (web v)) = length ?us" by (simp add: uuids_def)
  have v: "room_manager (accepts ec rnd v) = addClient (room_manager v) ?k (WebSocketClient (length ?us))"
    "uuids (accepts ec rnd v) = ?us @ [?k]" "recv_buffer (accepts ec rnd v) = recv_buffer v"
    using False k l by (simp_all add: accepts_def on_accept_def add_websocket_user_def uuids_def Let_def)
  have n: "client_ok (?us @ [?k]) ?k (WebSocketClient (length ?us))" by (simp add: client_ok_def)
  with assms show ?thesis using room_ok_add [OF _ assms(2) n] colon_uuid [of rnd]
    unfolding voice_inv_def v by auto
qed

lemma voice_inv_handle_receive:
  assumes "voice_inv v"
  shows "voice_inv (handle_receive n now v) \<and> uuids (handle_receive n now v) = uuids v \<and>
    recv_buffer (handle_receive n now v) = recv_buffer v \<and>
    set (clients (room_manager v)) \<subseteq> set (clients (room_manager (handle_receive n now v)))"
proof -
  let ?ep = "remote_endpoint v" and ?us = "uuids v"
  let ?k = "client_key ?ep" and ?room = "room_manager v"
  define r where "r = (if getClient ?room ?k = None then addClient ?room ?k (UDPClient ?ep) else ?room)"
  have ok: "room_ok ?us ?room" using assms by (simp add: voice_inv_def)
  have "room_ok ?us r \<and> set (clients ?room) \<subseteq> set (clients r) \<and> ?k \<in> keys (clients r)"
  proof (cases "getClient ?room ?k = None")
    case True
    have "client_ok ?us ?k (UDPClient ?ep)" by (simp add: client_ok_def)
    from room_ok_add [OF ok True this] True show ?thesis by (simp add: r_def addClient_clients)
  next
    case False
    then show ?thesis using ok map_of_keys [of "clients ?room" ?k] by (auto simp: r_def getClient_def)
  qed
  moreover have "handle_receive n now v = v\<lparr>room_manager := processAudio r ?k (packet_of (recv_buffer v) n) now\<rparr>"
    by (simp add: handle_receive_def r_def Let_def)
  ultimately show ?thesis using assms by (simp add: voice_inv_def uuids_def room_ok_audio)
qed

lemma voice_inv_on_receive:
  assumes "voice_inv v"
  shows "voice_inv (on_receive ec n now v) \<and>
    set (clients (room_manager v)) \<subseteq> set (clients (room_manager (on_receive ec n now v)))"
proof -
  have "voice_inv (v\<lparr>receiving := b\<rparr>) = voice_inv v" for b v by (simp add: voice_inv_def uuids_def)
  then show ?thesis using assms voice_inv_handle_receive [OF assms, of n now]
    by (simp add: on_receive_def start_receive_def Let_def)
qed

lemma voice_inv_datagram:
  assumes "voice_inv v"
  shows "voice_inv (datagram_arrives ep data now v) \<and>
    set (clients (room_manager v)) \<subseteq> set (clients (room_manager (datagram_arrives ep data now v)))"
proof -
  let ?n = "min (length data) (length (recv_buffer v))"
  let ?v = "v\<lparr>receiving := False, remote_endpoint := ep, recv_buffer := take ?n data @ drop ?n (recv_buffer v)\<rparr>"
  have "voice_inv ?v" using assms by (simp add: voice_inv_def uuids_def)
  from voice_inv_on_receive [OF this, of False ?n now] show ?thesis by (simp add: datagram_arrives_def Let_def)
qed

lemma voice_inv_session:
  assumes "voice_inv v" and "session_completes i j c now v = Inr v'"
  shows "voice_inv v' \<and> clients (room_manager v') = clients (room_manager v)"
proof (cases "i < length (sessions (web v))")
  case True
  then obtain srv where srv: "session_event (web v) i (Complete j c) = Inr srv"
    and v': "v' = v\<lparr>web := srv, room_manager := foldl (server_message (uuid (sessions srv ! i)) now)
      (room_manager v) (drop (length (handled (sessions (web v) ! i))) (handled (sessions srv ! i)))\<rparr>"
    using assms(2) by (auto simp: session_completes_def Let_def)
  note u = session_event_uuid [OF srv]
  then have "uuid (sessions srv ! i) \<in> set (uuids v)"
    using True by (metis uuids_def length_map nth_map nth_mem)
  from room_ok_messages [OF _ this] assms(1) u show ?thesis by (simp add: v' voice_inv_def uuids_def)
next
  case False
  then show ?thesis using assms by (simp add: session_completes_def)
qed

text \<open>A mix, over the invariant: what the handler sends, and to whom.\<close>

definition to_send :: "platform \<Rightarrow> int \<Rightarrow> client room \<Rightarrow> (client \<times> audio_packet) list" where
  "to_send p now r =
     (let h = (\<lambda>k. heard now (clientLastActivity r) k (audioBuffers r))
      in map (\<lambda>(k, c). (c, mixed p (h k))) (filter (\<lambda>(k, c). h k \<noteq> []) (clients r)))"

lemma mix_handler_eq:
  assumes "room_ok us (room_manager v)" and "ready (room_manager v) = [False]"
    and "length (audioBuffers (room_manager v)) \<le> 1310"
  shows "\<exists>r. mix_handler p w now v =
      Inr (foldl (client_send w) (v\<lparr>room_manager := r\<rparr>) (to_send p now (room_manager v))) \<and>
    room_ok us r \<and> clients r = clients (room_manager v)"
proof -
  let ?r = "room_manager v"
  have i: "room_inv (?r\<lparr>ready := []\<rparr>)" using assms(1) by (simp add: room_ok_def)
  obtain r' where m: "mixAndSendAudio p (?r\<lparr>ready := []\<rparr>) now =
      Inr (map (\<lambda>(k, c). (k, c, mixed p (heard now (clientLastActivity ?r) k (audioBuffers ?r))))
        (filter (\<lambda>(k, c). heard now (clientLastActivity ?r) k (audioBuffers ?r) \<noteq> []) (clients ?r)), r')"
    and b: "audioBuffers r' = map (\<lambda>(k, b). (k, []))
        (filter (\<lambda>(k, b). active now (clientLastActivity ?r) k) (audioBuffers ?r))"
    using mixAndSendAudio_eq [OF i _ refl, of p now] assms(3) by simp
  have h: "run_handler p ?r now = Inr (map (\<lambda>(k, c). (k, c, mixed p (heard now (clientLastActivity ?r) k (audioBuffers ?r))))
        (filter (\<lambda>(k, c). heard now (clientLastActivity ?r) k (audioBuffers ?r) \<noteq> []) (clients ?r)), startMixingTimer r')"
    using assms(2) m by (simp add: run_handler_def)
  have "room_step p ?r (startMixingTimer r')" using assms(3) h by (rule room_step.handler)
  from room_step_invs [OF this] assms(1)
  have inv: "room_inv (startMixingTimer r')" "timer_inv (startMixingTimer r')" by (simp_all add: room_ok_def)
  have c: "clients r' = clients ?r" using mix_timer [OF m] by simp
  have "keys (audioBuffers r') \<subseteq> keys (audioBuffers ?r)"
    unfolding b keys_cleared by (auto simp: keys_def)
  then have "room_ok us (startMixingTimer r')" using assms(1) inv c by (auto simp: room_ok_def)
  moreover have "map snd (map (\<lambda>(k, c). (k, c, f k)) xs) = map (\<lambda>(k, c). (c, f k)) xs"
    for f :: "bytes \<Rightarrow> audio_packet" and xs :: "client hash_map"
    by (simp add: split_def)
  ultimately show ?thesis using h c
    by (intro exI [of _ "startMixingTimer r'"]) (simp add: mix_handler_def to_send_def Let_def del: map_map)
qed

lemma voice_inv_mix:
  assumes "voice_inv v" and "length (audioBuffers (room_manager v)) \<le> 1310"
    and "mix_handler p w now v = Inr v'"
  shows "voice_inv v' \<and> clients (room_manager v') = clients (room_manager v)"
proof -
  let ?r = "room_manager v"
  have ok: "room_ok (uuids v) ?r" using assms(1) by (simp add: voice_inv_def)
  then consider "ready ?r = []" | "ready ?r = [False]" by (auto simp: room_ok_def timer_inv_def split: if_splits)
  then show ?thesis
  proof cases
    case 1
    then show ?thesis using assms(1,3) by (simp add: mix_handler_def run_handler_def)
  next
    case 2
    have "voice_inv (v\<lparr>room_manager := r\<rparr>)" if "room_ok (uuids v) r" for r
      using that assms(1) by (simp add: voice_inv_def uuids_def)
    moreover have "voice_inv (foldl (client_send w) u ms) = voice_inv u" for u ms by (simp add: voice_inv_def)
    ultimately show ?thesis using mix_handler_eq [OF ok 2 assms(2), of p w now] assms(3) by auto
  qed
qed

lemma voice_step_inv:
  assumes "voice_step p v v'" and "voice_inv v"
  shows "voice_inv v' \<and> set (clients (room_manager v)) \<subseteq> set (clients (room_manager v'))"
  using assms(1)
proof (cases rule: voice_step.cases)
  case (accept rnd ec)
  then show ?thesis using voice_inv_accepts [OF assms(2)] by simp
next
  case (session i j c now)
  then show ?thesis using voice_inv_session [OF assms(2)] by simp
next
  case (datagram ep data now)
  then show ?thesis using voice_inv_datagram [OF assms(2)] by simp
next
  case (receive_error n now)
  then show ?thesis using voice_inv_on_receive [OF assms(2)] by simp
next
  case expire
  have "room_step p (room_manager v) (timer_expires (room_manager v))" by (rule room_step.expire)
  from room_step_invs [OF this] assms(2) expire show ?thesis
    by (simp add: voice_inv_def room_ok_def uuids_def timer_expires_def)
next
  case (mix writable now)
  then show ?thesis using voice_inv_mix [OF assms(2)] by simp
qed

lemma voice_reachable_inv:
  "voice_reachable p v0 v \<Longrightarrow> voice_inv v0 \<Longrightarrow>
     voice_inv v \<and> set (clients (room_manager v0)) \<subseteq> set (clients (room_manager v))"
  by (induction rule: voice_reachable.induct) (auto dest: voice_step_inv)

lemma main_server_inv: "voice_inv main_server"
  by (simp add: voice_inv_def main_server_def start_receive_def new_voice_server_def uuids_def
      set_message_handler_def new_server_def room_ok_def room_inv_new timer_inv_def keys_def new_room_def)
    (simp add: room_inv_def keys_def)

section \<open>What clients are sent\<close>

text \<open>All packets the server has given to the transport of a client, in order.\<close>

definition outbox :: "voice_server \<Rightarrow> client \<Rightarrow> audio_packet list" where
  "outbox v c = (case c of
     UDPClient ep \<Rightarrow> map payload (filter (\<lambda>s. dest s = ep) (udp_sends v))
   | WebSocketClient i \<Rightarrow> map fst (submitted (sessions (web v) ! i)))"

lemma outbox_room [simp]: "outbox (v\<lparr>room_manager := r\<rparr>) c = outbox v c"
  by (simp add: outbox_def split: client.split)

definition valid_client :: "voice_server \<Rightarrow> client \<Rightarrow> bool" where
  "valid_client v c = (case c of UDPClient ep \<Rightarrow> True | WebSocketClient i \<Rightarrow> i < length (uuids v))"

lemma valid_client_send [simp]: "valid_client (client_send w v m) = valid_client v"
  by (simp add: valid_client_def fun_eq_iff split: client.split)

lemma outbox_send:
  "valid_client v c' \<Longrightarrow> outbox (client_send w v (c', q)) c = outbox v c @ (if c' = c then [q] else [])"
  by (cases c'; cases c)
    (auto simp: outbox_def connection_send_def valid_client_def uuids_def nth_list_update)

lemma outbox_sends:
  "list_all (\<lambda>(c', q). valid_client v c') ms \<Longrightarrow>
     outbox (foldl (client_send w) v ms) c = outbox v c @ map snd (filter (\<lambda>(c', q). c' = c) ms)"
proof (induction ms arbitrary: v)
  case Nil
  then show ?case by simp
next
  case (Cons m ms)
  then show ?case by (cases m) (simp add: outbox_send)
qed

text \<open>The key of a client determines the client, and the other way round.\<close>

lemma client_ok_key: "client_ok us k c \<Longrightarrow> client_ok us k' c \<Longrightarrow> k = k'"
  by (auto simp: client_ok_def split: client.splits)

lemma filter_the_client:
  assumes "distinct (map fst cs)" and "\<forall>(k, c) \<in> set cs. client_ok us k c" and "(k, c) \<in> set cs"
  shows "filter (\<lambda>(k', c'). c' = c \<and> P k') cs = (if P k then [(k, c)] else [])"
  using assms
proof (induction cs)
  case Nil
  then show ?case by simp
next
  case (Cons kc cs)
  obtain k1 c1 where kc: "kc = (k1, c1)" by fastforce
  have none: "filter (\<lambda>(k', c'). c' = c \<and> P k') cs = []" if "kc = (k, c)"
  proof -
    have "c' \<noteq> c" if "(k', c') \<in> set cs" for k' c'
    proof
      assume "c' = c"
      then have "k' = k" using Cons.prems(2) that \<open>kc = (k, c)\<close> client_ok_key by fastforce
      then show False using Cons.prems(1) \<open>kc = (k, c)\<close> that by force
    qed
    then show ?thesis by (auto simp: filter_empty_conv)
  qed
  show ?case
  proof (cases "kc = (k, c)")
    case True
    then show ?thesis using none by simp
  next
    case False
    then have m: "(k, c) \<in> set cs" using Cons.prems(3) by auto
    have "c1 \<noteq> c"
    proof
      assume "c1 = c"
      then have "k1 = k" using Cons.prems(2) m kc client_ok_key by fastforce
      with \<open>c1 = c\<close> False kc show False by simp
    qed
    then show ?thesis using Cons m kc by simp
  qed
qed

text \<open>
  One mix, seen from the clients: each is sent the mix of what the others said, if they said
  anything, and nothing else.
\<close>

lemma mix_outbox:
  assumes "voice_inv v" and "ready (room_manager v) = [False]"
    and "length (audioBuffers (room_manager v)) \<le> 1310" and "(k, c) \<in> set (clients (room_manager v))"
    and "h = heard now (clientLastActivity (room_manager v)) k (audioBuffers (room_manager v))"
  shows "\<exists>v'. mix_handler p w now v = Inr v' \<and>
    outbox v' c = outbox v c @ (if h = [] then [] else [mixed p h])"
proof -
  let ?r = "room_manager v"
  let ?h = "\<lambda>k. heard now (clientLastActivity ?r) k (audioBuffers ?r)"
  have ok: "room_ok (uuids v) ?r" using assms(1) by (simp add: voice_inv_def)
  obtain r where m: "mix_handler p w now v = Inr (foldl (client_send w) (v\<lparr>room_manager := r\<rparr>) (to_send p now ?r))"
    using mix_handler_eq [OF ok assms(2,3)] by blast
  have "valid_client (v\<lparr>room_manager := r\<rparr>) c" if "(k, c) \<in> set (clients ?r)" for k c r
    using that ok by (cases c) (force simp: room_ok_def client_ok_def valid_client_def uuids_def)+
  then have "list_all (\<lambda>(c, q). valid_client (v\<lparr>room_manager := r\<rparr>) c) (to_send p now ?r)"
    by (auto simp: list_all_iff to_send_def Let_def)
  then have "outbox (foldl (client_send w) (v\<lparr>room_manager := r\<rparr>) (to_send p now ?r)) c =
      outbox v c @ map snd (filter (\<lambda>(c', q). c' = c) (to_send p now ?r))"
    by (simp add: outbox_sends)
  also have "filter (\<lambda>(c', q). c' = c) (to_send p now ?r) =
      map (\<lambda>(k, c). (c, mixed p (?h k))) (filter (\<lambda>(k', c'). c' = c \<and> ?h k' \<noteq> []) (clients ?r))"
    by (simp add: to_send_def Let_def filter_map o_def split_def conj_commute)
  also have "filter (\<lambda>(k', c'). c' = c \<and> ?h k' \<noteq> []) (clients ?r) = (if ?h k \<noteq> [] then [(k, c)] else [])"
    using ok assms(4) by (intro filter_the_client [where us = "uuids v"]) (simp_all add: room_ok_def room_inv_def)
  finally show ?thesis using m assms(5) by simp
qed

text \<open>What has just been received is among what the others are to hear.\<close>

lemma heard_new:
  assumes "k \<noteq> u" and "now - t \<le> ACTIVITY_TIMEOUT"
  shows "pk \<in> set (heard now (clientLastActivity (processAudio r u pk t)) k (audioBuffers (processAudio r u pk t)))"
proof -
  let ?b = "push_limited (lookup_default [] (audioBuffers r) u) pk"
  have "pk \<in> set ?b" by (cases "lookup_default [] (audioBuffers r) u") (simp_all add: push_limited_def MAX_BUFFER_SIZE_def Let_def)
  moreover have "(u, ?b) \<in> set (AList.update u ?b (audioBuffers r))"
    by (rule map_of_SomeD) (simp add: update_conv')
  moreover have "active now (clientLastActivity (processAudio r u pk t)) u"
    using assms(2) by (simp add: processAudio_def active_def lookup_update)
  moreover have "audioBuffers (processAudio r u pk t) = AList.update u ?b (audioBuffers r)"
    by (simp add: processAudio_def)
  ultimately show ?thesis using assms(1) by (simp add: heard_def) (metis (mono_tags, lifting) case_prodI snd_conv)
qed

text \<open>The contract between reception and mixing, for the two ways a packet comes in.\<close>

lemma relayed:
  assumes "voice_inv v" and "ready (room_manager v) = [False]"
    and "length (audioBuffers (room_manager v)) \<le> 1310" and "(k, c) \<in> set (clients (room_manager v))"
    and "room_manager v = processAudio r u pk t" and "k \<noteq> u" and "now - t \<le> ACTIVITY_TIMEOUT"
  shows "\<exists>v' packets. mix_handler p w now v = Inr v' \<and> pk \<in> set packets \<and>
    outbox v' c = outbox v c @ [mixed p packets]"
proof -
  let ?h = "heard now (clientLastActivity (room_manager v)) k (audioBuffers (room_manager v))"
  have "pk \<in> set ?h" unfolding assms(5) by (rule heard_new [OF assms(6,7)])
  moreover from this have "?h \<noteq> []" by auto
  ultimately show ?thesis using mix_outbox [OF assms(1-4) refl, of p w now] by auto
qed

lemma other_client_key:
  assumes "voice_inv v" and "(k, c) \<in> set (clients (room_manager v))"
  shows "c \<noteq> UDPClient ep \<Longrightarrow> k \<noteq> client_key ep"
    and "i < length (uuids v) \<Longrightarrow> c \<noteq> WebSocketClient i \<Longrightarrow> k \<noteq> uuids v ! i"
proof -
  have ok: "client_ok (uuids v) k c" and i: "room_inv (room_manager v)"
    using assms by (auto simp: voice_inv_def room_ok_def)
  have u: "58 \<notin> set (uuids v ! j)" if "j < length (uuids v)" for j
    using assms(1) that by (simp add: voice_inv_def)
  show "c \<noteq> UDPClient ep \<Longrightarrow> k \<noteq> client_key ep"
    using ok u colon_client_key [of ep] client_key_inj by (cases c) (force simp: client_ok_def)+
  assume l: "i < length (uuids v)" and c: "c \<noteq> WebSocketClient i"
  have "(uuids v ! i, WebSocketClient i) \<in> set (clients (room_manager v))"
    using assms(1) l by (simp add: voice_inv_def room_ok_def)
  then show "k \<noteq> uuids v ! i"
    using assms(2) c i map_of_is_SomeI by (fastforce simp: room_inv_def)
qed

lemma datagram_room:
  assumes "data \<noteq> []" and "length data \<le> length (recv_buffer v)"
  shows "\<exists>r. room_manager (datagram_arrives ep data t v) = processAudio r (client_key ep) data t"
  using assms
  by (simp add: datagram_arrives_def on_receive_def handle_receive_def start_receive_def packet_of_def Let_def)
    blast

lemma web_frame_room:
  assumes "op < 16" and "length (rfc_frame op (Some [b0, b1, b2, b3]) m @ rest) \<le> read_buffer_size"
    and "i < length (sessions (web v))" and "j < length (in_flight (sessions (web v) ! i))"
    and "in_flight (sessions (web v) ! i) ! j = Read_some"
    and "session_completes i j (Done (rfc_frame op (Some [b0, b1, b2, b3]) m @ rest)) t v = Inr v1"
  shows "room_manager v1 = (if op = Op_Binary
    then processAudio (room_manager v) (uuids v ! i) m t else room_manager v)"
proof -
  obtain srv where srv: "session_event (web v) i (Complete j (Done (rfc_frame op (Some [b0, b1, b2, b3]) m @ rest))) = Inr srv"
    using assms(3,6) by (auto simp: session_completes_def Let_def)
  have "handled (sessions srv ! i) = handled (sessions (web v) ! i) @ [(op, m)]"
    using srv assms(3-5) chunk_of_client_frame [OF assms(1,2)]
    by (auto simp: session_event_def do_read_def)
  moreover have "uuid (sessions srv ! i) = uuids v ! i"
    using session_event_uuid [OF srv] assms(3) by (metis uuids_def nth_map)
  ultimately show ?thesis using assms(3,6) srv
    by (auto simp: session_completes_def server_message_def handle_receive_websocket_def packet_of_def)
qed

lemma waiting_sends:
  assumes "(UDPClient ep, q) \<in> set ms" and "\<not> w ep"
  shows "\<exists>s \<in> set (udp_sends (foldl (client_send w) v ms)). waiting s"
proof -
  have grows: "set (udp_sends v) \<subseteq> set (udp_sends (client_send w v m))" for v m
    by (cases "(w, v, m)" rule: client_send.cases) (auto simp: connection_send_def)
  have keep: "set (udp_sends v) \<subseteq> set (udp_sends (foldl (client_send w) v ms))" for v ms
    by (induction ms arbitrary: v) (use grows in force)+
  from assms(1) show ?thesis
  proof (induction ms arbitrary: v)
    case Nil
    then show ?case by simp
  next
    case (Cons m ms)
    show ?case
    proof (cases "m = (UDPClient ep, q)")
      case True
      have "\<lparr>dest = ep, payload = q, waiting = True\<rparr> \<in> set (udp_sends (client_send w v m))"
        using True assms(2) by (simp add: connection_send_def)
      then show ?thesis using keep [of "client_send w v m" ms]
        by (intro bexI [of _ "\<lparr>dest = ep, payload = q, waiting = True\<rparr>"]) auto
    next
      case False
      then show ?thesis using Cons by simp
    qed
  qed
qed

section \<open>Properties\<close>

text \<open>
  (C8) Who is in the room, whatever connections, datagrams, frames and mixes happen: no key is
  there twice; a UDP client is registered under the text of its endpoint, a WebSocket client under
  the uuid of its session; every session and every sender is registered; and nobody who is in the
  room ever leaves it again, because nothing calls \<open>removeClient\<close>.
\<close>

theorem voice_clients:
  assumes "voice_reachable p main_server v" and "voice_reachable p v v'"
  shows "distinct (map fst (clients (room_manager v))) \<and>
    (\<forall>(k, c) \<in> set (clients (room_manager v)). case c of
       UDPClient ep \<Rightarrow> k = client_key ep
     | WebSocketClient i \<Rightarrow> i < length (sessions (web v)) \<and> k = uuid (sessions (web v) ! i)) \<and>
    (\<forall>i < length (sessions (web v)).
       (uuid (sessions (web v) ! i), WebSocketClient i) \<in> set (clients (room_manager v))) \<and>
    keys (audioBuffers (room_manager v)) \<subseteq> keys (clients (room_manager v)) \<and>
    set (clients (room_manager v)) \<subseteq> set (clients (room_manager v'))"
proof -
  have i: "voice_inv v" using voice_reachable_inv [OF assms(1) main_server_inv] by simp
  have "set (clients (room_manager v)) \<subseteq> set (clients (room_manager v'))"
    using voice_reachable_inv [OF assms(2) i] by simp
  moreover have "\<forall>(k, c) \<in> set (clients (room_manager v)). case c of
       UDPClient ep \<Rightarrow> k = client_key ep
     | WebSocketClient i \<Rightarrow> i < length (sessions (web v)) \<and> k = uuid (sessions (web v) ! i)"
    using i by (fastforce simp: voice_inv_def room_ok_def client_ok_def uuids_def split: client.splits)
  moreover have "\<forall>i < length (sessions (web v)).
       (uuid (sessions (web v) ! i), WebSocketClient i) \<in> set (clients (room_manager v))"
    using i by (simp add: voice_inv_def room_ok_def uuids_def)
  ultimately show ?thesis using i by (simp add: voice_inv_def room_ok_def room_inv_def)
qed

definition one_web_client :: voice_server where
  "one_web_client = (let v = accepts False (replicate 16 0) main_server
     in v\<lparr>room_manager := timer_expires (room_manager v)\<rparr>)"

definition peer :: udp_endpoint where
  "peer = \<lparr>address = cstr ''10.0.0.7'', port = 4711\<rparr>"

lemma one_web_client_reachable: "voice_reachable p main_server one_web_client"
proof -
  have "getClient (room_manager main_server) (generateUuid (replicate 16 0)) = None"
    by (simp add: main_server_def start_receive_def new_voice_server_def new_room_def getClient_def)
  from voice_reachable.step [OF voice_reachable.init voice_step.accept [OF this]]
  have "voice_reachable p main_server (accepts False (replicate 16 0) main_server)" by simp
  then show ?thesis unfolding one_web_client_def Let_def by (rule voice_reachable.step) (rule voice_step.expire)
qed

lemma one_web_client_room:
  "room_manager one_web_client = \<lparr>clients = [(generateUuid (replicate 16 0), WebSocketClient 0)],
     audioBuffers = [], clientLastActivity = [], armed = False, ready = [False]\<rparr>"
  "recv_buffer one_web_client = replicate 16384 0"
  by (simp_all add: one_web_client_def accepts_def on_accept_def main_server_def start_receive_def
      new_voice_server_def new_server_def set_message_handler_def add_websocket_user_def addClient_def
      startMixingTimer_def timer_expires_def new_room_def new_session_def Let_def)

theorem voice_clients_witness:
  "\<exists>k. (k, WebSocketClient 0) \<in> set (clients (room_manager (datagram_arrives peer [1] 5 one_web_client)))"
  using voice_clients [OF one_web_client_reachable
      voice_reachable.step [OF voice_reachable.init voice_step.datagram [where ep = peer and data = "[1]" and now = 5]]]
  by (auto simp: one_web_client_room)




text \<open>A connection that has come through its handshake: a request with a key, the reply, the first read.\<close>

definition upgrade :: bytes where
  "upgrade = key_header @ cstr ''dGhl'' @ crlf @ crlf"

lemma on_upgrade: "streambuf s = [] \<Longrightarrow> \<exists>reply. on_request upgrade s = Inr (launch (Write_response reply) s)"
proof -
  have "str_find upgrade handshake_delim 0 = Some (length upgrade - length handshake_delim)"
    "extract_websocket_key upgrade = Inr (cstr ''dGhl'')" "length handshake_delim \<le> length upgrade"
    by code_simp+
  moreover have "cstr ''dGhl'' \<noteq> []" by (simp add: cstr_def)
  moreover assume "streambuf s = []"
  then have "s\<lparr>streambuf := []\<rparr> = s" by simp
  ultimately show ?thesis
    by (intro exI [of _ "handshake_response (base64_spec (fips_sha1 (cstr ''dGhl'' @ magic_string)))"])
      (simp add: on_request_def handshake_reply_def generate_websocket_accept_def ws.accept_value Let_def)
qed

lemma only_session_completes:
  assumes "sessions (web v) = [s]" and "in_flight s = [a]" and "handled s' = handled s"
    and "\<And>h. on_complete h a c (s\<lparr>in_flight := []\<rparr>) = Inr s'"
  shows "session_completes 0 0 c now v = Inr (v\<lparr>web := (web v)\<lparr>sessions := [s']\<rparr>\<rparr>)"
  using assms by (simp add: session_completes_def session_event_def without_def)

lemma upgraded:
  "\<exists>v s. voice_reachable p main_server v \<and> sessions (web v) = [s] \<and> in_flight s = [Read_some] \<and>
     handled s = [] \<and> room_manager v = room_manager one_web_client"
proof -
  let ?v = "one_web_client" and ?s = "session_start (new_session False (replicate 16 0))"
  have s: "sessions (web ?v) = [?s]" "in_flight ?s = [Read_until]" "handled ?s = []" "streambuf ?s = []"
    by (simp_all add: one_web_client_def accepts_def on_accept_def main_server_def start_receive_def
        new_voice_server_def new_server_def set_message_handler_def session_start_def new_session_def
        do_handshake_def launch_def Let_def)
  let ?t = "?s\<lparr>in_flight := []\<rparr>"
  obtain reply where "on_request upgrade ?t = Inr (launch (Write_response reply) ?t)"
    using on_upgrade [of ?t] s(4) by auto
  then have c: "on_complete h Read_until (Done upgrade) ?t = Inr (launch (Write_response reply) ?t)" for h
    using s(4) by simp
  let ?u = "launch (Write_response reply) ?t"
  let ?v1 = "?v\<lparr>web := (web ?v)\<lparr>sessions := [?u]\<rparr>\<rparr>"
  have u: "in_flight ?u = [Write_response reply]" "handled ?u = []" using s(3) by (simp_all add: launch_def)
  have "session_completes 0 0 (Done upgrade) 1 ?v = Inr ?v1"
    by (rule only_session_completes [OF s(1,2) _ c]) (use s(3) u(2) in simp)
  then have r1: "voice_reachable p main_server ?v1"
    by (rule voice_reachable.step [OF one_web_client_reachable voice_step.session])
  let ?w = "do_read (?u\<lparr>in_flight := []\<rparr>)"
  let ?v2 = "?v1\<lparr>web := (web ?v1)\<lparr>sessions := [?w]\<rparr>\<rparr>"
  have "session_completes 0 0 (Done []) 2 ?v1 = Inr ?v2"
    by (rule only_session_completes [OF _ u(1)]) (simp_all add: do_read_def launch_def)
  then have "voice_reachable p main_server ?v2"
    by (rule voice_reachable.step [OF r1 voice_step.session])
  moreover have "in_flight ?w = [Read_some]" "handled ?w = []" using u(2) by (simp_all add: do_read_def launch_def)
  ultimately show ?thesis by (intro exI [of _ ?v2] exI [of _ ?w]) simp
qed


text \<open>
  The buffer of a UDP send: when the socket of a mix is not writable at once, what the mix
  sends to a UDP client is read from a packet that is gone.
\<close>

theorem udp_send_buffer_gone:
  assumes "voice_reachable p main_server v" and "(k, UDPClient ep) \<in> set (clients (room_manager v))"
    and "ready (room_manager v) = [False]" and "length (audioBuffers (room_manager v)) \<le> 1310"
    and "heard now (clientLastActivity (room_manager v)) k (audioBuffers (room_manager v)) \<noteq> []"
    and "\<not> w ep"
  shows "\<exists>v'. mix_handler p w now v = Inr v' \<and> socket_writable v' = Inl Undefined_behaviour"
proof -
  let ?r = "room_manager v"
  have "voice_inv v" using voice_reachable_inv [OF assms(1) main_server_inv] by simp
  then have "room_ok (uuids v) ?r" by (simp add: voice_inv_def)
  then obtain r where m: "mix_handler p w now v = Inr (foldl (client_send w) (v\<lparr>room_manager := r\<rparr>) (to_send p now ?r))"
    using mix_handler_eq [OF _ assms(3,4)] by blast
  have "\<exists>q. (UDPClient ep, q) \<in> set (to_send p now ?r)"
    using assms(2,5) by (force simp: to_send_def Let_def)
  then obtain q where "(UDPClient ep, q) \<in> set (to_send p now ?r)" by blast
  from waiting_sends [OF this, of w "v\<lparr>room_manager := r\<rparr>"] assms(6) m show ?thesis
    by (simp add: socket_writable_def)
qed

definition two_peers :: voice_server where
  "two_peers = (let v = datagram_arrives (peer\<lparr>port := 4712\<rparr>) [2, 2] 5 (datagram_arrives peer [1] 5 main_server)
     in v\<lparr>room_manager := timer_expires (room_manager v)\<rparr>)"

lemma two_peers_reachable: "voice_reachable p main_server two_peers"
  unfolding two_peers_def Let_def
  by (rule voice_reachable.step [OF voice_reachable.step [OF voice_reachable.step [OF voice_reachable.init
      voice_step.datagram] voice_step.datagram] voice_step.expire])

lemma two_peers_room:
  "room_manager two_peers = \<lparr>clients = [(client_key peer, UDPClient peer),
       (client_key (peer\<lparr>port := 4712\<rparr>), UDPClient (peer\<lparr>port := 4712\<rparr>))],
     audioBuffers = [(client_key peer, [[1]]), (client_key (peer\<lparr>port := 4712\<rparr>), [[2, 2]])],
     clientLastActivity = [(client_key peer, 5), (client_key (peer\<lparr>port := 4712\<rparr>), 5)],
     armed = False, ready = [False]\<rparr>"
proof -
  have "client_key peer \<noteq> client_key (peer\<lparr>port := 4712\<rparr>)"
    using client_key_inj [of peer "peer\<lparr>port := 4712\<rparr>"] by (auto simp: peer_def)
  then show ?thesis
    by (simp add: two_peers_def datagram_arrives_def on_receive_def handle_receive_def start_receive_def
        main_server_def new_voice_server_def new_room_def getClient_def addClient_def startMixingTimer_def
        timer_expires_def processAudio_def lookup_default_def push_limited_def MAX_BUFFER_SIZE_def
        packet_of_def Let_def)
qed

theorem udp_send_buffer_gone_witness:
  "\<exists>v'. mix_handler x86_64 (\<lambda>_. False) 6 two_peers = Inr v' \<and> socket_writable v' = Inl Undefined_behaviour"
proof (rule udp_send_buffer_gone [OF two_peers_reachable])
  show "(client_key peer, UDPClient peer) \<in> set (clients (room_manager two_peers))" by (simp add: two_peers_room)
  have "client_key (peer\<lparr>port := 4712\<rparr>) \<noteq> client_key peer"
    using client_key_inj [of "peer\<lparr>port := 4712\<rparr>" peer] by (auto simp: peer_def)
  then show "heard 6 (clientLastActivity (room_manager two_peers)) (client_key peer)
      (audioBuffers (room_manager two_peers)) \<noteq> []"
    by (simp add: two_peers_room heard_def active_def lookup_default_def ACTIVITY_TIMEOUT_def)
qed (simp_all add: two_peers_room)

end
