(* ===== verification/VoiceClient.thy ===== *)
theory VoiceClient
  imports AudioManager VoiceServer
begin

text \<open>
  The voice client: \<open>src/client/NetworkManager.h\<close> and \<open>VoiceChatClient.h\<close>, over the capture and
  playback of \<open>AudioManager\<close>. The three chains of asynchronous operations (receive, send timer,
  jitter timer) run on one strand; the stream callbacks of PortAudio come in between.

  The socket and the resolver are asio's. The fields \<open>sends\<close>, \<open>received\<close> and \<open>delivered\<close> of the
  network manager and \<open>captured\<close> of the client are histories: the datagrams started, the packets
  received, the packets handed to playback, and the bytes captured.
\<close>

section \<open>The network manager\<close>

record network_manager =
  server_endpoint :: udp_endpoint
  nm_recv_buffer :: bytes
  jitter_buffer :: "audio_packet list"
  receive_pending :: bool
  send_timer :: bool
  jitter_timer :: bool
  sends :: "udp_send list"
  received :: "audio_packet list"
  delivered :: "audio_packet list"

text \<open>\<open>std::to_string\<close> of an \<open>int\<close>.\<close>

definition to_string_int :: "int \<Rightarrow> bytes" where
  "to_string_int n = (if n < 0 then cstr ''-'' @ decimal (nat (- n)) else decimal (nat n))"

text \<open>\<open>resolve\<close> is the resolver: the endpoints of a host and a service; none is an exception.\<close>

definition new_network_manager ::
  "(bytes \<Rightarrow> bytes \<Rightarrow> udp_endpoint list) \<Rightarrow> bytes \<Rightarrow> i16 \<Rightarrow> network_manager result" where
  "new_network_manager resolve host portno =
     (case resolve host (to_string_int (sint portno)) of
        [] \<Rightarrow> Inl (Runtime_error ''resolve'')
      | endpoint # _ \<Rightarrow> Inr \<lparr>server_endpoint = endpoint, nm_recv_buffer = [], jitter_buffer = [],
          receive_pending = False, send_timer = False, jitter_timer = False,
          sends = [], received = [], delivered = []\<rparr>)"

definition nm_start_receive :: "network_manager \<Rightarrow> network_manager" where
  "nm_start_receive nm =
     nm\<lparr>nm_recv_buffer := take 16384 (nm_recv_buffer nm) @ replicate (16384 - length (nm_recv_buffer nm)) 0,
        receive_pending := True\<rparr>"

definition nm_start_send :: "network_manager \<Rightarrow> network_manager" where
  "nm_start_send nm = nm\<lparr>send_timer := True\<rparr>"

definition nm_start_jitter_buffer :: "network_manager \<Rightarrow> network_manager" where
  "nm_start_jitter_buffer nm = nm\<lparr>jitter_timer := True\<rparr>"

definition nm_start :: "network_manager \<Rightarrow> network_manager" where
  "nm_start nm = nm_start_jitter_buffer (nm_start_send (nm_start_receive nm))"

definition nm_send :: "(udp_endpoint \<Rightarrow> bool) \<Rightarrow> audio_packet \<Rightarrow> network_manager \<Rightarrow> network_manager" where
  "nm_send writable packet nm =
     nm\<lparr>sends := sends nm @ [\<lparr>dest = server_endpoint nm, payload = packet, waiting = \<not> writable (server_endpoint nm)\<rparr>]\<rparr>"

text \<open>The completion handler of \<open>async_receive_from\<close>.\<close>

definition nm_on_receive :: "bool \<Rightarrow> nat \<Rightarrow> network_manager \<Rightarrow> network_manager" where
  "nm_on_receive ec bytes_recvd nm =
     (let nm = (if \<not> ec \<and> bytes_recvd > 0
          then (let packet = packet_of (nm_recv_buffer nm) bytes_recvd
                in nm\<lparr>jitter_buffer := jitter_buffer nm @ [packet], received := received nm @ [packet]\<rparr>)
          else nm)
      in nm_start_receive nm)"

text \<open>
  A datagram arrives: the socket writes it over the front of the buffer, and its sender into the
  endpoint it was given, \<open>server_endpoint_\<close>.
\<close>

definition nm_datagram :: "udp_endpoint \<Rightarrow> bytes \<Rightarrow> network_manager \<Rightarrow> network_manager" where
  "nm_datagram ep dgram nm =
     (let n = min (length dgram) (length (nm_recv_buffer nm))
      in nm_on_receive False n (nm\<lparr>receive_pending := False, server_endpoint := ep,
           nm_recv_buffer := take n dgram @ drop n (nm_recv_buffer nm)\<rparr>))"

section \<open>The client\<close>

record voice_client =
  audio :: audio_manager
  network :: network_manager
  captured :: bytes

definition new_voice_client ::
  "(bytes \<Rightarrow> bytes \<Rightarrow> udp_endpoint list) \<Rightarrow> bytes \<Rightarrow> i16 \<Rightarrow> voice_client result" where
  "new_voice_client resolve host portno =
     bind_r (new_network_manager resolve host portno) (\<lambda>nm.
       Inr \<lparr>audio = new_audio_manager, network = nm, captured = []\<rparr>)"

definition client_start ::
  "(nat \<Rightarrow> 'd stream_interface) \<Rightarrow> 'd initializer list \<Rightarrow> bool \<Rightarrow> voice_client \<Rightarrow> 'd pa \<Rightarrow>
     (bool \<times> voice_client \<times> 'd pa) comp" where
  "client_start I inits alloc c pa =
     bind_c (am_initialize I inits alloc (audio c) pa) (\<lambda>(ok, am, pa).
       let c = c\<lparr>audio := am\<rparr> in
       if \<not> ok then Some (Inr (False, c, pa))
       else Some (Inr (True, c\<lparr>network := nm_start (network c)\<rparr>, pa)))"

text \<open>The handler of the send timer; \<open>send_callback_\<close> is \<open>getInputData\<close>.\<close>

definition on_send_timer :: "bool \<Rightarrow> (udp_endpoint \<Rightarrow> bool) \<Rightarrow> voice_client \<Rightarrow> voice_client" where
  "on_send_timer ec writable c =
     (let c = c\<lparr>network := (network c)\<lparr>send_timer := False\<rparr>\<rparr> in
      if \<not> ec
      then (case getInputData (audio c) of (packet, am) \<Rightarrow>
        let nm = (if \<not> packet_empty packet then nm_send writable packet (network c) else network c)
        in c\<lparr>audio := am, network := nm_start_send nm\<rparr>)
      else c)"

text \<open>The handler of the jitter timer; \<open>receive_callback_\<close> is \<open>addOutputData\<close>.\<close>

definition on_jitter_timer :: "bool \<Rightarrow> voice_client \<Rightarrow> voice_client" where
  "on_jitter_timer ec c =
     (let c = c\<lparr>network := (network c)\<lparr>jitter_timer := False\<rparr>\<rparr> in
      if \<not> ec
      then (let c = (case jitter_buffer (network c) of
          [] \<Rightarrow> c
        | packet # q \<Rightarrow> c\<lparr>audio := addOutputData packet (audio c),
            network := (network c)\<lparr>jitter_buffer := q, delivered := delivered (network c) @ [packet]\<rparr>\<rparr>)
        in c\<lparr>network := nm_start_jitter_buffer (network c)\<rparr>)
      else c)"

section \<open>Runs\<close>

text \<open>
  \<open>peers\<close> are the endpoints that send datagrams to the client. Anyone who knows its port can: the
  socket is not connected.
\<close>

inductive client_step :: "udp_endpoint set \<Rightarrow> platform \<Rightarrow> voice_client \<Rightarrow> voice_client \<Rightarrow> bool" for peers p where
  capture: "inputCallback p inn framecount (audio c) = Inr am \<Longrightarrow>
     client_step peers p c (c\<lparr>audio := am, captured := captured c @ samples_bytes p (take framecount inn)\<rparr>)"
| playback: "outputCallback p out framecount (audio c) = Inr (out', am) \<Longrightarrow> client_step peers p c (c\<lparr>audio := am\<rparr>)"
| datagram: "ep \<in> peers \<Longrightarrow> client_step peers p c (c\<lparr>network := nm_datagram ep dgram (network c)\<rparr>)"
| receive_error: "client_step peers p c (c\<lparr>network := nm_on_receive True n (network c)\<rparr>)"
| send_timer: "client_step peers p c (on_send_timer ec writable c)"
| jitter_timer: "client_step peers p c (on_jitter_timer ec c)"

inductive client_reachable :: "udp_endpoint set \<Rightarrow> platform \<Rightarrow> voice_client \<Rightarrow> voice_client \<Rightarrow> bool" for peers p c0 where
  init: "client_reachable peers p c0 c0"
| step: "client_reachable peers p c0 c \<Longrightarrow> client_step peers p c c' \<Longrightarrow> client_reachable peers p c0 c'"

inductive_cases client_stepE: "client_step peers p c c'"

text \<open>A client as its constructor and \<open>start\<close> leave it, its audio running.\<close>

definition started :: "voice_client \<Rightarrow> bool" where
  "started c \<longleftrightarrow> input_buffer (audio c) = [] \<and> output_buffer (audio c) = [] \<and> jitter_buffer (network c) = [] \<and>
     sends (network c) = [] \<and> received (network c) = [] \<and> delivered (network c) = [] \<and> captured c = []"

definition client_inv :: "voice_client \<Rightarrow> bool" where
  "client_inv c \<longleftrightarrow>
     concat (map payload (sends (network c))) @ input_buffer (audio c) = captured c \<and>
     list_all (\<lambda>s. payload s \<noteq> []) (sends (network c)) \<and>
     received (network c) = delivered (network c) @ jitter_buffer (network c) \<and>
     length (output_buffer (audio c)) \<le> PLAYBACK_BUFFER_SIZE \<and>
     (\<exists>n. output_buffer (audio c) = drop n (delivered (network c)))"

lemma push_playback_suffix:
  assumes "length q \<le> PLAYBACK_BUFFER_SIZE" and "q = drop n ds"
  shows "\<exists>m. push_playback q pk = drop m (ds @ [pk])"
proof -
  have "push_playback q pk = drop (length (q @ [pk]) - PLAYBACK_BUFFER_SIZE) (q @ [pk])"
    by (rule playback.push_newest [OF assms(1)])
  also have "q @ [pk] = drop (min n (length ds)) (ds @ [pk])"
    by (cases "n \<le> length ds") (simp_all add: assms(2) min_def)
  finally show ?thesis by (intro exI) (simp only: drop_drop)
qed

lemma client_step_inv:
  assumes "client_step peers p c c'" and "client_inv c"
  shows "client_inv c'"
  using assms(1)
proof (cases rule: client_step.cases)
  case (capture inn framecount am)
  then show ?thesis using assms(2) by (auto simp: client_inv_def inputCallback_def split: if_splits)
next
  case (playback out framecount out' am)
  have "input_buffer am = input_buffer (audio c)"
    "output_buffer am = output_buffer (audio c) \<or> output_buffer am = tl (output_buffer (audio c))"
    using playback(2) by (auto simp: outputCallback_def Let_def split: list.splits)
  moreover have "tl (drop n xs) = drop (Suc n) xs" for n and xs :: "audio_packet list" by (simp add: drop_Suc tl_drop)
  ultimately show ?thesis using assms(2) playback(1) by (fastforce simp: client_inv_def)
next
  case (datagram ep dgram)
  then show ?thesis using assms(2)
    by (simp add: client_inv_def nm_datagram_def nm_on_receive_def nm_start_receive_def Let_def)
next
  case (receive_error n)
  then show ?thesis using assms(2) by (simp add: client_inv_def nm_on_receive_def nm_start_receive_def Let_def)
next
  case (send_timer ec writable)
  then show ?thesis using assms(2)
    by (auto simp: client_inv_def on_send_timer_def getInputData_def packet_of_def packet_empty_def nm_send_def
        nm_start_send_def Let_def)
next
  case (jitter_timer ec)
  show ?thesis
  proof (cases "jitter_buffer (network c)")
    case Nil
    then show ?thesis using assms(2) jitter_timer
      by (auto simp: client_inv_def on_jitter_timer_def nm_start_jitter_buffer_def Let_def)
  next
    case (Cons pk q)
    let ?q = "output_buffer (audio c)"
    have "length (push_playback ?q pk) \<le> PLAYBACK_BUFFER_SIZE"
      using assms(2) by (intro playback.push_length) (simp add: client_inv_def)
    moreover have "\<exists>m. push_playback ?q pk = drop m (delivered (network c) @ [pk])"
      using assms(2) push_playback_suffix by (auto simp: client_inv_def)
    ultimately show ?thesis using assms(2) jitter_timer Cons
      by (auto simp: client_inv_def on_jitter_timer_def nm_start_jitter_buffer_def addOutputData_eq Let_def)
  qed
qed

lemma client_reachable_inv: "client_reachable peers p c0 c \<Longrightarrow> client_inv c0 \<Longrightarrow> client_inv c"
  by (induction rule: client_reachable.induct) (auto dest: client_step_inv)

text \<open>Where the client sends to.\<close>

lemma client_step_dest:
  assumes "client_step peers p c c'"
  shows "server_endpoint (network c') \<in> insert (server_endpoint (network c)) peers \<and>
    (\<exists>new. sends (network c') = sends (network c) @ new \<and>
       list_all (\<lambda>s. dest s = server_endpoint (network c)) new)"
  using assms
  by (cases rule: client_step.cases)
    (auto simp: nm_datagram_def nm_on_receive_def nm_start_receive_def on_send_timer_def getInputData_def nm_send_def
      nm_start_send_def on_jitter_timer_def nm_start_jitter_buffer_def Let_def split: list.splits)

lemma client_reachable_dest:
  assumes "client_reachable peers p c0 c"
  shows "server_endpoint (network c) \<in> insert (server_endpoint (network c0)) peers \<and>
    (\<exists>new. sends (network c) = sends (network c0) @ new \<and>
       list_all (\<lambda>s. dest s \<in> insert (server_endpoint (network c0)) peers) new)"
  using assms
proof induction
  case init
  then show ?case by simp
next
  case (step c c')
  then obtain old where old: "sends (network c) = sends (network c0) @ old"
    "list_all (\<lambda>s. dest s \<in> insert (server_endpoint (network c0)) peers) old" by blast
  obtain new where new: "sends (network c') = sends (network c) @ new"
    "list_all (\<lambda>s. dest s = server_endpoint (network c)) new"
    using client_step_dest [OF step.hyps(2)] by blast
  have "list_all (\<lambda>s. dest s \<in> insert (server_endpoint (network c0)) peers) (old @ new)"
    using old(2) new(2) step.IH by (auto simp: list_all_iff)
  moreover have "server_endpoint (network c') \<in> insert (server_endpoint (network c0)) peers"
    using client_step_dest [OF step.hyps(2)] step.IH by auto
  ultimately show ?case using old(1) new(1) by auto
qed

section \<open>Properties\<close>

text \<open>
  (C23) Nothing is lost or reordered inside the client, however callbacks, timers and datagrams
  interleave: the datagrams it has sent, followed by what waits to be sent, are the captured
  bytes, and none is empty; what was received is handed to playback in order, each packet once;
  what waits for playback are the newest packets handed over, at most ten.
\<close>

theorem client_streams:
  assumes "client_reachable peers p c0 c" and "started c0"
  shows "concat (map payload (sends (network c))) @ input_buffer (audio c) = captured c \<and>
    list_all (\<lambda>s. payload s \<noteq> []) (sends (network c)) \<and>
    received (network c) = delivered (network c) @ jitter_buffer (network c) \<and>
    length (output_buffer (audio c)) \<le> 10 \<and>
    (\<exists>n. output_buffer (audio c) = drop n (delivered (network c)))"
proof -
  have "client_inv c0" using assms(2) by (simp add: started_def client_inv_def)
  then have "client_inv c" using client_reachable_inv [OF assms(1)] by simp
  then show ?thesis by (simp add: client_inv_def PLAYBACK_BUFFER_SIZE_def)
qed

definition idle_client :: voice_client where
  "idle_client = \<lparr>audio = new_audio_manager, network = nm_start
     \<lparr>server_endpoint = peer, nm_recv_buffer = [], jitter_buffer = [], receive_pending = False,
      send_timer = False, jitter_timer = False, sends = [], received = [], delivered = []\<rparr>, captured = []\<rparr>"

lemma idle_client_started: "started idle_client"
  by (simp add: started_def idle_client_def new_audio_manager_def nm_start_def nm_start_send_def
      nm_start_jitter_buffer_def nm_start_receive_def)

theorem client_streams_witness:
  "\<forall>p. concat (map payload (sends (network (on_send_timer False (\<lambda>_. True)
     (idle_client\<lparr>audio := new_audio_manager\<lparr>input_buffer := samples_bytes p [3]\<rparr>, captured := samples_bytes p [3]\<rparr>))))) =
   samples_bytes p [3]"
proof
  fix p
  let ?am = "new_audio_manager\<lparr>input_buffer := samples_bytes p [3]\<rparr>"
  let ?c = "idle_client\<lparr>audio := ?am, captured := samples_bytes p [3]\<rparr>"
  have "inputCallback p [3] 1 (audio idle_client) = Inr ?am"
    by (simp add: inputCallback_def idle_client_def new_audio_manager_def)
  from client_step.capture [OF this, of "{}"]
  have "client_step {} p idle_client ?c" by (simp add: idle_client_def)
  then have "client_reachable {} p idle_client (on_send_timer False (\<lambda>_. True) ?c)"
    by (rule client_reachable.step [OF client_reachable.step [OF client_reachable.init] client_step.send_timer])
  from client_streams [OF this idle_client_started]
  show "concat (map payload (sends (network (on_send_timer False (\<lambda>_. True) ?c)))) = samples_bytes p [3]"
    by (simp add: on_send_timer_def getInputData_def Let_def idle_client_def)
qed

text \<open>
  (C24) Where the captured audio goes: to the configured server, or to someone who has sent the
  client a datagram. And one datagram from anyone is enough: from then on, until somebody else
  sends one, everything the client captures goes to its sender, and nothing to the server.
\<close>

theorem audio_redirected:
  assumes "client_reachable peers p c0 c" and "c1 = c\<lparr>network := nm_datagram ep dgram (network c)\<rparr>"
    and "client_reachable {ep} p c1 c'"
  shows "(\<exists>old. sends (network c) = sends (network c0) @ old \<and>
      list_all (\<lambda>s. dest s \<in> insert (server_endpoint (network c0)) peers) old) \<and>
    (\<exists>new. sends (network c') = sends (network c) @ new \<and> list_all (\<lambda>s. dest s = ep) new)"
proof -
  have "server_endpoint (network c1) = ep" "sends (network c1) = sends (network c)"
    by (simp_all add: assms(2) nm_datagram_def nm_on_receive_def nm_start_receive_def Let_def)
  then show ?thesis using client_reachable_dest [OF assms(1)] client_reachable_dest [OF assms(3)] by simp
qed

theorem audio_redirected_witness:
  "\<forall>p. list_all (\<lambda>s. dest s = peer\<lparr>port := 1\<rparr>) (sends (network (on_send_timer False (\<lambda>_. True)
     (idle_client\<lparr>network := nm_datagram (peer\<lparr>port := 1\<rparr>) [9] (network idle_client)\<rparr>))))"
proof
  fix p
  let ?c1 = "idle_client\<lparr>network := nm_datagram (peer\<lparr>port := 1\<rparr>) [9] (network idle_client)\<rparr>"
  have "sends (network idle_client) = []" using idle_client_started by (simp add: started_def)
  moreover have "client_reachable {peer\<lparr>port := 1\<rparr>} p ?c1 (on_send_timer False (\<lambda>_. True) ?c1)"
    by (rule client_reachable.step [OF client_reachable.init client_step.send_timer])
  ultimately show "list_all (\<lambda>s. dest s = peer\<lparr>port := 1\<rparr>) (sends (network (on_send_timer False (\<lambda>_. True) ?c1)))"
    using audio_redirected [where c = idle_client and ep = "peer\<lparr>port := 1\<rparr>" and dgram = "[9]", OF client_reachable.init refl]
    by fastforce
qed

text \<open>
  The service the client asks the resolver for: the decimal text of the configured port below
  32768; for any higher port, which is a negative \<open>short\<close>, something else.
\<close>

theorem service_of_port:
  assumes "0 \<le> n" and "n < 65536"
  shows "to_string_int (sint (of_int n :: i16)) = decimal (nat n) \<longleftrightarrow> n < 32768"
proof (cases "n < 32768")
  case True
  then have "sint (of_int n :: i16) = n" using assms by (simp add: signed_of_int signed_take_bit_int_eq_self_iff)
  then show ?thesis using True assms(1) by (simp add: to_string_int_def)
next
  case False
  have "of_int n = (of_int (n - 65536) :: i16)" by simp
  moreover have "sint (of_int (n - 65536) :: i16) = n - 65536"
    using False assms(2) by (intro sint_of_int16) (simp add: int16_range_def)
  ultimately have "sint (of_int n :: i16) = n - 65536" by (simp only:)
  moreover have "45 # w \<noteq> decimal m" for m w
  proof
    assume e: "45 # w = decimal m"
    have "45 \<in> set (decimal m)" unfolding e [symmetric] by simp
    from decimal_digits [OF this] show False by simp
  qed
  ultimately show ?thesis using False assms(2) by (auto simp: to_string_int_def cstr_def)
qed

theorem service_of_port_witness: "to_string_int (sint (of_int 40000 :: i16)) \<noteq> decimal 40000"
  using service_of_port [of 40000] by simp

end
