(* ===== verification/Config.thy ===== *)
theory Config
  imports Prelude Complex_Main "HOL-Library.AList"
begin

text \<open>
  \<open>src/common/Config.h\<close> over the JSON values of \<open>external/nlohmann/json.hpp\<close>, the thread pool
  \<open>src/common/AsioThreadPool.h\<close>, and the two \<open>main\<close> functions.

  Of the JSON library the accessors \<open>at\<close>, \<open>operator[]\<close> and \<open>get\<close> are modelled, not the parser or the
  printer: what a file holds is an argument (so no value is binary or discarded). A \<open>double\<close> is a rational number.
\<close>

section \<open>JSON values\<close>

datatype json =
    JNull
  | JBool bool
  | JUnsigned u64
  | JInteger "64 word"
  | JFloat rat
  | JString bytes
  | JArray "json list"
  | JObject "(bytes \<times> json) list"

datatype json_error = Type_error | Key_not_found | Json_undefined

text \<open>\<open>static_cast<short>\<close> of a floating-point number: undefined when the integer part is out of range.\<close>

definition truncate_rat :: "rat \<Rightarrow> int" where
  "truncate_rat q = (if 0 \<le> q then \<lfloor>q\<rfloor> else \<lceil>q\<rceil>)"

fun get_short :: "json \<Rightarrow> json_error + i16" where
  "get_short (JUnsigned n) = Inr (ucast n)"
| "get_short (JInteger n) = Inr (ucast n)"
| "get_short (JFloat q) =
     (if - 32768 \<le> truncate_rat q \<and> truncate_rat q \<le> 32767 then Inr (of_int (truncate_rat q)) else Inl Json_undefined)"
| "get_short (JBool b) = Inr (if b then 1 else 0)"
| "get_short _ = Inl Type_error"

fun get_string :: "json \<Rightarrow> json_error + bytes" where
  "get_string (JString s) = Inr s"
| "get_string _ = Inl Type_error"

fun json_at :: "json \<Rightarrow> bytes \<Rightarrow> json_error + json" where
  "json_at (JObject kvs) key = (case map_of kvs key of None \<Rightarrow> Inl Key_not_found | Some v \<Rightarrow> Inr v)"
| "json_at _ key = Inl Type_error"

text \<open>\<open>config[key] = value\<close>: a null becomes an object first.\<close>

fun json_set :: "json \<Rightarrow> bytes \<Rightarrow> json \<Rightarrow> json_error + json" where
  "json_set JNull key v = Inr (JObject [(key, v)])"
| "json_set (JObject kvs) key v = Inr (JObject (AList.update key v kvs))"
| "json_set _ key v = Inl Type_error"

section \<open>The configuration\<close>

text \<open>
  A file that is not there, a file the parser rejects (with what it leaves in \<open>config\<close>), and one it
  accepts.
\<close>

datatype config_file = Missing | Malformed json | Parsed json

definition new_config :: json where "new_config = JNull"

fun config_load :: "config_file \<Rightarrow> json \<Rightarrow> bool \<times> json" where
  "config_load Missing config = (False, config)"
| "config_load (Malformed left) config = (False, left)"
| "config_load (Parsed v) config = (True, v)"

text \<open>\<open>get\<close>: both exceptions are caught; undefined behaviour is none.\<close>

definition config_get :: "(json \<Rightarrow> json_error + 'a) \<Rightarrow> json \<Rightarrow> bytes \<Rightarrow> 'a \<Rightarrow> json_error + 'a" where
  "config_get get config key default_value =
     (case (case json_at config key of Inl e \<Rightarrow> Inl e | Inr v \<Rightarrow> get v) of
        Inr x \<Rightarrow> Inr x
      | Inl Key_not_found \<Rightarrow> Inr default_value
      | Inl Type_error \<Rightarrow> Inr default_value
      | Inl Json_undefined \<Rightarrow> Inl Json_undefined)"

definition config_set :: "json \<Rightarrow> bytes \<Rightarrow> json \<Rightarrow> json_error + bool \<times> json" where
  "config_set config key v = (case json_set config key v of Inl e \<Rightarrow> Inl e | Inr c \<Rightarrow> Inr (True, c))"

section \<open>The programs\<close>

text \<open>
  \<open>main\<close> of the server: the exit code when it stops before the server is made, else the port of the
  UDP socket, an \<open>unsigned short\<close>. The result of \<open>load\<close> is not looked at.
\<close>

definition server_main :: "nat \<Rightarrow> config_file \<Rightarrow> json_error + (int + u16)" where
  "server_main argc file =
     (if argc \<noteq> 2 then Inr (Inl 1)
      else (let config = snd (config_load file new_config) in
        case config_get get_short config (cstr ''port'') 12345 of
          Inl e \<Rightarrow> Inl e
        | Inr portno \<Rightarrow> Inr (Inr portno)))"

text \<open>\<open>main\<close> of the client, up to the constructor of the client: the exit code, or host and port.\<close>

definition client_main :: "nat \<Rightarrow> config_file \<Rightarrow> json_error + (int + bytes \<times> i16)" where
  "client_main argc file =
     (if argc \<noteq> 2 then Inr (Inl 1)
      else (case config_load file new_config of (ok, config) \<Rightarrow>
        if \<not> ok then Inr (Inl 1)
        else (case config_get get_string config (cstr ''server_ip'') (cstr ''127.0.0.1'') of
            Inl e \<Rightarrow> Inl e
          | Inr host \<Rightarrow> (case config_get get_short config (cstr ''server_port'') 12345 of
                Inl e \<Rightarrow> Inl e
              | Inr portno \<Rightarrow> Inr (Inr (host, portno))))))"

section \<open>The thread pool\<close>

text \<open>
  \<open>threads\<close> are the threads started beside the caller of \<open>run\<close>; \<open>hardware\<close> is what
  \<open>hardware_concurrency\<close> returns, which is 0 when it is not known.
\<close>

record thread_pool =
  thread_count :: size_t
  threads :: nat
  work_guard :: bool
  stopped :: bool

definition new_thread_pool :: "size_t \<Rightarrow> size_t \<Rightarrow> thread_pool" where
  "new_thread_pool hardware n =
     \<lparr>thread_count = (if n = 0 then hardware else n), threads = 0, work_guard = True, stopped = False\<rparr>"

text \<open>
  \<open>run\<close> starts \<open>thread_count_ - 1\<close> threads, a subtraction in \<open>size_t\<close>, and runs the handlers itself;
  the result says whether it does.
\<close>

definition pool_run :: "thread_pool \<Rightarrow> bool \<times> thread_pool" where
  "pool_run tp =
     (if threads tp = 0 then (True, tp\<lparr>threads := unat (thread_count tp - 1)\<rparr>) else (False, tp))"

definition pool_stop :: "thread_pool \<Rightarrow> thread_pool" where
  "pool_stop tp = tp\<lparr>work_guard := False, stopped := True\<rparr>"

section \<open>Properties\<close>

text \<open>
  Reading the configuration: \<open>get\<close> never throws, whatever the file held, an unreadable file
  included; it yields the value under the key if that is there with the type asked for, the
  default otherwise; only a floating-point number out of range is undefined.
\<close>

theorem config_get_total:
  "config_get get_short config key d =
     (case config of
        JObject kvs \<Rightarrow> (case map_of kvs key of
            Some (JUnsigned n) \<Rightarrow> Inr (ucast n)
          | Some (JInteger n) \<Rightarrow> Inr (ucast n)
          | Some (JBool b) \<Rightarrow> Inr (if b then 1 else 0)
          | Some (JFloat q) \<Rightarrow> get_short (JFloat q)
          | _ \<Rightarrow> Inr d)
      | _ \<Rightarrow> Inr d)"
  by (simp add: config_get_def split: json.split option.split)

text \<open>
  The pool has as many threads as asked for, the caller included, and one when it is asked for
  one; but when the number of processors is asked for and not known, the subtraction wraps and
  \<open>run\<close> starts \<open>2 ^ 64 - 1\<close> threads.
\<close>

theorem pool_threads:
  "threads (snd (pool_run (new_thread_pool hardware n))) =
     (let wanted = (if n = 0 then unat hardware else unat n)
      in if wanted = 0 then 2 ^ 64 - 1 else wanted - 1)"
proof (cases "thread_count (new_thread_pool hardware n) = 0")
  case True
  then have "unat (thread_count (new_thread_pool hardware n) - 1) = 2 ^ 64 - 1"
    by (simp add: unsigned_minus_1_eq_mask mask_eq_exp_minus_1)
  then show ?thesis using True by (auto simp: pool_run_def new_thread_pool_def Let_def split: if_splits)
next
  case False
  then have "unat (thread_count (new_thread_pool hardware n) - 1) = unat (thread_count (new_thread_pool hardware n)) - 1"
    using unat_sub [of 1 "thread_count (new_thread_pool hardware n)"]
    by (simp add: word_le_nat_alt unat_gt_0 Suc_leI)
  then show ?thesis using False by (auto simp: pool_run_def new_thread_pool_def unat_gt_0 Let_def split: if_splits)
qed

end
