(* ===== verification/Logger.thy ===== *)
theory Logger
  imports Prelude "HOL-Library.AList"
begin

text \<open>
  \<open>src/common/Logger.h\<close> and \<open>Logger.cpp\<close>: the asynchronous logger. A destination is the list of the
  texts written to it (the stream of a \<open>ConsoleDestination\<close> and the file of a \<open>FileDestination\<close>
  get the same text and a line end). \<open>snprintf\<close> and \<open>put_time\<close> are the C library's: what they make
  of a format and of the clock is an argument.

  The fields \<open>accepted\<close> is a history: the entries that were queued.
\<close>

section \<open>Levels\<close>

datatype log_level = DEBUG_LOG | INFO_LOG | WARNING_LOG | ERROR_LOG | FATAL_LOG

primrec level_rank :: "log_level \<Rightarrow> nat" where
  "level_rank DEBUG_LOG = 0"
| "level_rank INFO_LOG = 1"
| "level_rank WARNING_LOG = 2"
| "level_rank ERROR_LOG = 3"
| "level_rank FATAL_LOG = 4"

lemma level_rank_inj: "level_rank a = level_rank b \<Longrightarrow> a = b"
  by (cases a; cases b) simp_all

instantiation log_level :: linorder
begin

definition less_eq_log_level :: "log_level \<Rightarrow> log_level \<Rightarrow> bool" where
  "less_eq_log_level a b = (level_rank a \<le> level_rank b)"

definition less_log_level :: "log_level \<Rightarrow> log_level \<Rightarrow> bool" where
  "less_log_level a b = (level_rank a < level_rank b)"

instance
  by standard (auto simp: less_eq_log_level_def less_log_level_def intro: level_rank_inj)

end

definition parseLogLevel :: "bytes \<Rightarrow> log_level" where
  "parseLogLevel level =
     (if level = cstr ''DEBUG'' \<or> level = cstr ''debug'' then DEBUG_LOG
      else if level = cstr ''INFO'' \<or> level = cstr ''info'' then INFO_LOG
      else if level = cstr ''WARNING'' \<or> level = cstr ''warning'' then WARNING_LOG
      else if level = cstr ''ERROR'' \<or> level = cstr ''error'' then ERROR_LOG
      else if level = cstr ''FATAL'' \<or> level = cstr ''fatal'' then FATAL_LOG
      else INFO_LOG)"

primrec getLevelString :: "log_level \<Rightarrow> bytes" where
  "getLevelString DEBUG_LOG = cstr ''DEBUG''"
| "getLevelString INFO_LOG = cstr ''INFO''"
| "getLevelString WARNING_LOG = cstr ''WARNING''"
| "getLevelString ERROR_LOG = cstr ''ERROR''"
| "getLevelString FATAL_LOG = cstr ''FATAL''"

section \<open>Entries and their text\<close>

record log_entry =
  entry_level :: log_level
  entry_file :: bytes
  entry_line :: bytes
  entry_message :: bytes
  entry_context :: "(bytes \<times> bytes) list"

text \<open>
  \<open>text\<close> is what \<open>snprintf\<close> makes of the format and the arguments; the string is one longer than it,
  for the terminator.
\<close>

definition formatString :: "bytes \<Rightarrow> bytes" where
  "formatString formatted = formatted @ [0]"

text \<open>Writing at a position of the stream buffer: over what is there.\<close>

definition overwrite :: "nat \<Rightarrow> bytes \<Rightarrow> bytes \<Rightarrow> bytes" where
  "overwrite pos new bs = take pos bs @ new @ drop (pos + length new) bs"

text \<open>The decimal text of a line number is in the entry; \<open>stamp\<close> is the text of the time.\<close>

definition context_items :: "(bytes \<times> bytes) list \<Rightarrow> bytes" where
  "context_items ctx = concat (map (\<lambda>(key, v). key @ cstr '': '' @ v @ cstr '', '') ctx)"

definition formatLogEntry :: "bytes \<Rightarrow> log_entry \<Rightarrow> bytes" where
  "formatLogEntry stamp entry =
     (let oss = stamp @ cstr '' '' @
            cstr ''['' @ getLevelString (entry_level entry) @ cstr ''] '' @
            cstr ''['' @ entry_file entry @ cstr '':'' @ entry_line entry @ cstr ''] '' @
            entry_message entry
      in if entry_context entry \<noteq> []
         then (let oss = oss @ cstr '' {'' @ context_items (entry_context entry)
               in overwrite (length oss - 2) (cstr ''}'') oss)
         else oss)"

lemma overwrite_last2: "length oss = length xs + 2 \<Longrightarrow> oss = xs @ [a, b] \<Longrightarrow> overwrite (length oss - 2) [c] oss = xs @ [c, b]"
  by (simp add: overwrite_def)

section \<open>The logger\<close>

record logger =
  log_level :: log_level
  log_queue :: "log_entry list"
  stop_flag :: bool
  destinations :: "bytes list list"
  log_filter :: "(log_entry \<Rightarrow> bool) option"
  log_context :: "(bytes \<times> bytes) list"
  accepted :: "log_entry list"

definition new_logger :: logger where
  "new_logger = \<lparr>log_level = INFO_LOG, log_queue = [], stop_flag = False, destinations = [],
     log_filter = None, log_context = [], accepted = []\<rparr>"

definition setLogLevel :: "log_level \<Rightarrow> logger \<Rightarrow> logger" where
  "setLogLevel level l = l\<lparr>log_level := level\<rparr>"

definition addDestination :: "logger \<Rightarrow> logger" where
  "addDestination l = l\<lparr>destinations := destinations l @ [[]]\<rparr>"

definition setLogFilter :: "(log_entry \<Rightarrow> bool) \<Rightarrow> logger \<Rightarrow> logger" where
  "setLogFilter f l = l\<lparr>log_filter := Some f\<rparr>"

definition setContextValue :: "bytes \<Rightarrow> bytes \<Rightarrow> logger \<Rightarrow> logger" where
  "setContextValue key v l = l\<lparr>log_context := AList.update key v (log_context l)\<rparr>"

definition log_event :: "log_level \<Rightarrow> bytes \<Rightarrow> bytes \<Rightarrow> bytes \<Rightarrow> logger \<Rightarrow> logger" where
  "log_event level file line formatted l =
     (if level \<ge> log_level l
      then (let entry = \<lparr>entry_level = level, entry_file = file, entry_line = line,
              entry_message = formatString formatted, entry_context = log_context l\<rparr>
            in if (case log_filter l of None \<Rightarrow> False | Some f \<Rightarrow> \<not> f entry) then l
               else l\<lparr>log_queue := log_queue l @ [entry], accepted := accepted l @ [entry]\<rparr>)
      else l)"

text \<open>The destructor sets the flag and then waits for the thread.\<close>

definition request_stop :: "logger \<Rightarrow> logger" where
  "request_stop l = l\<lparr>stop_flag := True\<rparr>"

text \<open>
  One turn of \<open>loggerThreadFunction\<close>: it waits (\<open>None\<close> while the condition is false), ends
  (\<open>Some (True, _)\<close>), or writes the oldest entry to every destination.
\<close>

definition logger_turn :: "bytes \<Rightarrow> logger \<Rightarrow> (bool \<times> logger) option" where
  "logger_turn stamp l =
     (if log_queue l = [] \<and> \<not> stop_flag l then None
      else if stop_flag l \<and> log_queue l = [] then Some (True, l)
      else (let entry = hd (log_queue l) in
        Some (False, l\<lparr>log_queue := tl (log_queue l),
          destinations := map (\<lambda>d. d @ [formatLogEntry stamp entry]) (destinations l)\<rparr>)))"

text \<open>The thread left alone: it takes turns until it has to wait or ends; \<open>stamps\<close> are the times.\<close>

function logger_thread :: "(nat \<Rightarrow> bytes) \<Rightarrow> nat \<Rightarrow> logger \<Rightarrow> bool \<times> logger" where
  "logger_thread stamps n l =
     (case logger_turn (stamps n) l of
        None \<Rightarrow> (False, l)
      | Some (done, l') \<Rightarrow> if done then (True, l') else logger_thread stamps (Suc n) l')"
  by pat_completeness auto
termination
  by (relation "measure (\<lambda>(stamps, n, l). length (log_queue l))")
    (auto simp: logger_turn_def Let_def length_greater_0_conv split: if_splits)

declare logger_thread.simps [simp del]

section \<open>Runs\<close>

inductive logger_step :: "logger \<Rightarrow> logger \<Rightarrow> bool" where
  level: "logger_step l (setLogLevel lv l)"
| filter_set: "logger_step l (setLogFilter f l)"
| context_set: "logger_step l (setContextValue k v l)"
| logs: "logger_step l (log_event lv file line formatted l)"
| thread: "logger_turn stamp l = Some (b, l') \<Longrightarrow> logger_step l l'"

inductive logger_run :: "logger \<Rightarrow> logger \<Rightarrow> bool" for l0 where
  init: "logger_run l0 l0"
| step: "logger_run l0 l \<Longrightarrow> logger_step l l' \<Longrightarrow> logger_run l0 l'"

text \<open>
  What one destination has been given: the texts of the oldest accepted entries, each at some time.
\<close>

definition written :: "log_entry list \<Rightarrow> bytes list \<Rightarrow> bool" where
  "written es ts \<longleftrightarrow> list_all2 (\<lambda>e t. \<exists>stamp. t = formatLogEntry stamp e) es ts"

definition logger_inv :: "logger \<Rightarrow> bool" where
  "logger_inv l \<longleftrightarrow> (\<exists>es. accepted l = es @ log_queue l \<and> (\<forall>d \<in> set (destinations l). written es d))"

lemma written_snoc: "written es ts \<Longrightarrow> written (es @ [e]) (ts @ [formatLogEntry stamp e])"
  by (auto simp: written_def list_all2_append list_all2_lengthD)

lemma logger_turn_inv:
  assumes "logger_turn stamp l = Some (b, l')" and "logger_inv l"
  shows "logger_inv l' \<and> length (destinations l') = length (destinations l)"
proof (cases "log_queue l")
  case Nil
  then show ?thesis using assms by (auto simp: logger_turn_def split: if_splits)
next
  case (Cons e q)
  then have l': "l' = l\<lparr>log_queue := q, destinations := map (\<lambda>d. d @ [formatLogEntry stamp e]) (destinations l)\<rparr>"
    using assms(1) by (auto simp: logger_turn_def Let_def)
  obtain es where es: "accepted l = es @ e # q" "\<forall>d \<in> set (destinations l). written es d"
    using assms(2) Cons by (auto simp: logger_inv_def)
  have "accepted l' = (es @ [e]) @ log_queue l'" using es(1) by (simp add: l')
  moreover have "\<forall>d \<in> set (destinations l'). written (es @ [e]) d" using es(2) written_snoc by (auto simp: l')
  ultimately show ?thesis unfolding logger_inv_def l' by auto
qed

lemma logger_step_inv: "logger_step l l' \<Longrightarrow> logger_inv l \<Longrightarrow> logger_inv l' \<and> length (destinations l') = length (destinations l)"
proof (induction rule: logger_step.induct)
  case (thread stamp l b l')
  then show ?case using logger_turn_inv by simp
qed (auto simp: logger_inv_def setLogLevel_def setLogFilter_def setContextValue_def log_event_def Let_def)

lemma logger_run_inv: "logger_run l0 l \<Longrightarrow> logger_inv l0 \<Longrightarrow> logger_inv l \<and> length (destinations l) = length (destinations l0)"
  by (induction rule: logger_run.induct) (auto dest: logger_step_inv)

lemma logger_thread_drains:
  "logger_inv l \<Longrightarrow> stop_flag l \<Longrightarrow> (case logger_thread stamps n l of (ended, l') \<Rightarrow>
     ended \<and> log_queue l' = [] \<and> accepted l' = accepted l \<and> logger_inv l' \<and>
     length (destinations l') = length (destinations l))"
proof (induction "length (log_queue l)" arbitrary: l n)
  case 0
  then show ?case by (subst logger_thread.simps) (simp add: logger_turn_def)
next
  case (Suc k)
  then obtain e q where q: "log_queue l = e # q" by (cases "log_queue l") auto
  let ?l = "l\<lparr>log_queue := q, destinations := map (\<lambda>d. d @ [formatLogEntry (stamps n) e]) (destinations l)\<rparr>"
  have t: "logger_turn (stamps n) l = Some (False, ?l)" using q by (simp add: logger_turn_def Let_def)
  have "case logger_thread stamps (Suc n) ?l of (ended, l') \<Rightarrow>
     ended \<and> log_queue l' = [] \<and> accepted l' = accepted ?l \<and> logger_inv l' \<and>
     length (destinations l') = length (destinations ?l)"
    using Suc q logger_turn_inv [OF t] by (intro Suc.hyps(1)) simp_all
  then show ?case using t by (subst logger_thread.simps) simp
qed

section \<open>Properties\<close>



text \<open>
  The text of an entry that has a context: time, level, place, the message with a zero byte
  behind it, and the context in braces, with a blank behind the closing brace, which takes the
  place of the last comma only.
\<close>

theorem log_text:
  assumes "entry_context entry = ctx @ [(key, v)]"
  shows "formatLogEntry stamp entry =
    stamp @ cstr '' ['' @ getLevelString (entry_level entry) @ cstr ''] ['' @ entry_file entry @ cstr '':'' @
      entry_line entry @ cstr ''] '' @ entry_message entry @ cstr '' {'' @ context_items ctx @
      key @ cstr '': '' @ v @ cstr ''} ''"
proof -
  let ?xs = "(stamp @ cstr '' '' @ cstr ''['' @ getLevelString (entry_level entry) @ cstr ''] '' @
      cstr ''['' @ entry_file entry @ cstr '':'' @ entry_line entry @ cstr ''] '' @ entry_message entry) @
      cstr '' {'' @ context_items ctx @ key @ cstr '': '' @ v"
  have i: "context_items (entry_context entry) = context_items ctx @ key @ cstr '': '' @ v @ cstr '', ''"
    by (simp add: context_items_def assms)
  have "overwrite (length (?xs @ [44, 32]) - 2) [125] (?xs @ [44, 32]) = ?xs @ [125, 32]"
    by (rule overwrite_last2) simp_all
  moreover have "entry_context entry \<noteq> []" "cstr ''}'' = [125]" "cstr '', '' = [44, 32]" "cstr ''} '' = [125, 32]"
    "cstr '' ['' = cstr '' '' @ cstr ''[''" "cstr ''] ['' = cstr ''] '' @ cstr ''[''"
    using assms by (simp_all add: cstr_def)
  ultimately show ?thesis unfolding formatLogEntry_def i Let_def by (simp only: append.assoc if_True not_False_eq_True)
qed

theorem log_text_witness:
  "\<forall>stamp. formatLogEntry stamp \<lparr>entry_level = INFO_LOG, entry_file = cstr ''f'', entry_line = cstr ''1'',
     entry_message = formatString (cstr ''m''), entry_context = [(cstr ''k'', cstr ''v'')]\<rparr> =
   stamp @ cstr '' [INFO] [f:1] m'' @ [0] @ cstr '' {k: v} ''"
  using log_text [where ctx = "[]" and key = "cstr ''k''" and v = "cstr ''v''"]
  by (auto simp: formatString_def context_items_def cstr_def)

end
