(* ===== verification/PaRing.thy ===== *)
theory PaRing
  imports Prelude
begin

text \<open>
  \<open>src/external/portaudio/src/common/pa_ringbuffer.c\<close>: the lock-free ring buffer between a stream
  callback and a reader or writer, and the contract of a bounded FIFO that it implements.

  The buffer is a list of elements (of \<open>elementSizeBytes\<close> bytes each), a pointer into it a position.
  The indices are \<open>long\<close>s below twice the size, so no operation on them overflows for sizes up to
  \<open>2 ^ 61\<close>. The memory barriers order the accesses of two threads; the operations of one thread
  follow each other.
\<close>

section \<open>State and operations\<close>

record 'a ring =
  bufferSize :: int
  writeIndex :: int
  readIndex :: int
  bigMask :: int
  smallMask :: int
  ring_data :: "'a list"

definition PaUtil_FlushRingBuffer :: "'a ring \<Rightarrow> 'a ring" where
  "PaUtil_FlushRingBuffer rbuf = rbuf\<lparr>writeIndex := 0, readIndex := 0\<rparr>"

definition PaUtil_InitializeRingBuffer :: "'a ring \<Rightarrow> int \<Rightarrow> 'a list \<Rightarrow> int \<times> 'a ring" where
  "PaUtil_InitializeRingBuffer rbuf elementCount dataPtr =
     (if (elementCount - 1) AND elementCount \<noteq> 0 then (-1, rbuf)
      else (let rbuf = PaUtil_FlushRingBuffer (rbuf\<lparr>bufferSize := elementCount, ring_data := dataPtr\<rparr>)
            in (0, rbuf\<lparr>bigMask := elementCount * 2 - 1, smallMask := elementCount - 1\<rparr>)))"

definition PaUtil_GetRingBufferReadAvailable :: "'a ring \<Rightarrow> int" where
  "PaUtil_GetRingBufferReadAvailable rbuf = (writeIndex rbuf - readIndex rbuf) AND bigMask rbuf"

definition PaUtil_GetRingBufferWriteAvailable :: "'a ring \<Rightarrow> int" where
  "PaUtil_GetRingBufferWriteAvailable rbuf = bufferSize rbuf - PaUtil_GetRingBufferReadAvailable rbuf"

text \<open>
  What both functions that compute regions share: from the index and the number of elements
  available, the result, and the two regions, each a position and a size; the second pointer may
  be null.
\<close>

definition regions :: "'a ring \<Rightarrow> int \<Rightarrow> int \<Rightarrow> int \<Rightarrow> int \<times> (int \<times> int) \<times> (int option \<times> int)" where
  "regions rbuf i available elementCount =
     (let elementCount = (if elementCount > available then available else elementCount);
          index = i AND smallMask rbuf
      in if index + elementCount > bufferSize rbuf
         then (let firstHalf = bufferSize rbuf - index
               in (elementCount, (index, firstHalf), (Some 0, elementCount - firstHalf)))
         else (elementCount, (index, elementCount), (None, 0)))"

definition PaUtil_GetRingBufferWriteRegions :: "'a ring \<Rightarrow> int \<Rightarrow> int \<times> (int \<times> int) \<times> (int option \<times> int)" where
  "PaUtil_GetRingBufferWriteRegions rbuf elementCount =
     regions rbuf (writeIndex rbuf) (PaUtil_GetRingBufferWriteAvailable rbuf) elementCount"

definition PaUtil_GetRingBufferReadRegions :: "'a ring \<Rightarrow> int \<Rightarrow> int \<times> (int \<times> int) \<times> (int option \<times> int)" where
  "PaUtil_GetRingBufferReadRegions rbuf elementCount =
     regions rbuf (readIndex rbuf) (PaUtil_GetRingBufferReadAvailable rbuf) elementCount"

definition PaUtil_AdvanceRingBufferWriteIndex :: "'a ring \<Rightarrow> int \<Rightarrow> 'a ring" where
  "PaUtil_AdvanceRingBufferWriteIndex rbuf elementCount =
     rbuf\<lparr>writeIndex := (writeIndex rbuf + elementCount) AND bigMask rbuf\<rparr>"

definition PaUtil_AdvanceRingBufferReadIndex :: "'a ring \<Rightarrow> int \<Rightarrow> 'a ring" where
  "PaUtil_AdvanceRingBufferReadIndex rbuf elementCount =
     rbuf\<lparr>readIndex := (readIndex rbuf + elementCount) AND bigMask rbuf\<rparr>"

text \<open>\<open>memcpy\<close> of \<open>n\<close> elements into the buffer and out of it; outside of either it is undefined.\<close>

definition copy_in :: "int \<Rightarrow> 'a list \<Rightarrow> int \<Rightarrow> 'a list \<Rightarrow> 'a list result" where
  "copy_in pos src n buf =
     (if 0 \<le> pos \<and> 0 \<le> n \<and> pos + n \<le> int (length buf) \<and> n \<le> int (length src)
      then Inr (take (nat pos) buf @ take (nat n) src @ drop (nat pos + nat n) buf)
      else Inl Undefined_behaviour)"

definition copy_out :: "int \<Rightarrow> int \<Rightarrow> 'a list \<Rightarrow> 'a list result" where
  "copy_out pos n buf =
     (if 0 \<le> pos \<and> 0 \<le> n \<and> pos + n \<le> int (length buf)
      then Inr (take (nat n) (drop (nat pos) buf)) else Inl Undefined_behaviour)"

definition PaUtil_WriteRingBuffer :: "'a ring \<Rightarrow> 'a list \<Rightarrow> int \<Rightarrow> (int \<times> 'a ring) result" where
  "PaUtil_WriteRingBuffer rbuf src elementCount =
     (case PaUtil_GetRingBufferWriteRegions rbuf elementCount of
        (numWritten, (data1, size1), (data2, size2)) \<Rightarrow>
          bind_r (if size2 > 0
              then bind_r (copy_in data1 src size1 (ring_data rbuf)) (\<lambda>buf.
                   copy_in (the data2) (drop (nat size1) src) size2 buf)
              else copy_in data1 src size1 (ring_data rbuf))
            (\<lambda>buf. Inr (numWritten, PaUtil_AdvanceRingBufferWriteIndex (rbuf\<lparr>ring_data := buf\<rparr>) numWritten)))"

definition PaUtil_ReadRingBuffer :: "'a ring \<Rightarrow> int \<Rightarrow> (int \<times> 'a list \<times> 'a ring) result" where
  "PaUtil_ReadRingBuffer rbuf elementCount =
     (case PaUtil_GetRingBufferReadRegions rbuf elementCount of
        (numRead, (data1, size1), (data2, size2)) \<Rightarrow>
          bind_r (if size2 > 0
              then bind_r (copy_out data1 size1 (ring_data rbuf)) (\<lambda>a.
                   bind_r (copy_out (the data2) size2 (ring_data rbuf)) (\<lambda>b. Inr (a @ b)))
              else copy_out data1 size1 (ring_data rbuf))
            (\<lambda>dst. Inr (numRead, dst, PaUtil_AdvanceRingBufferReadIndex rbuf numRead)))"

section \<open>The contract of a bounded FIFO\<close>

datatype 'a fifo_op = Put "'a list" | Get nat

text \<open>A run of operations: what went in, what came out, and the state it leaves.\<close>

fun fifo_run :: "('s \<Rightarrow> 'a list \<Rightarrow> (nat \<times> 's) result) \<Rightarrow> ('s \<Rightarrow> nat \<Rightarrow> ('a list \<times> 's) result) \<Rightarrow>
    's \<Rightarrow> 'a fifo_op list \<Rightarrow> ('a list \<times> 'a list \<times> 's) result" where
  "fifo_run put get s [] = Inr ([], [], s)"
| "fifo_run put get s (Put xs # ops) = bind_r (put s xs) (\<lambda>(m, s).
     bind_r (fifo_run put get s ops) (\<lambda>(i, out, s). Inr (take m xs @ i, out, s)))"
| "fifo_run put get s (Get n # ops) = bind_r (get s n) (\<lambda>(ys, s).
     bind_r (fifo_run put get s ops) (\<lambda>(i, out, s). Inr (i, ys @ out, s)))"

text \<open>
  The contract: \<open>put s xs\<close> takes as many of \<open>xs\<close> as there is room for, \<open>get s n\<close> yields as many elements as there
  are, up to \<open>n\<close>.
\<close>

locale bounded_fifo =
  fixes content :: "'s \<Rightarrow> 'a list" and ok :: "'s \<Rightarrow> bool" and cap :: "'s \<Rightarrow> nat"
    and put :: "'s \<Rightarrow> 'a list \<Rightarrow> (nat \<times> 's) result" and get :: "'s \<Rightarrow> nat \<Rightarrow> ('a list \<times> 's) result"
  assumes bounded: "ok s \<Longrightarrow> length (content s) \<le> cap s"
    and put_law: "ok s \<Longrightarrow> m = min (length xs) (cap s - length (content s)) \<Longrightarrow>
      \<exists>s'. put s xs = Inr (m, s') \<and> ok s' \<and> cap s' = cap s \<and> content s' = content s @ take m xs"
    and get_law: "ok s \<Longrightarrow>
      \<exists>s'. get s n = Inr (take n (content s), s') \<and> ok s' \<and> cap s' = cap s \<and> content s' = drop n (content s)"
begin

lemma run_fifo:
  "ok s \<Longrightarrow> \<exists>i out s'. fifo_run put get s ops = Inr (i, out, s') \<and> ok s' \<and> cap s' = cap s \<and>
     content s @ i = out @ content s'"
proof (induction ops arbitrary: s)
  case Nil
  then show ?case by simp
next
  case (Cons oper ops)
  show ?case
  proof (cases oper)
    case (Put xs)
    obtain s1 where s1: "put s xs = Inr (min (length xs) (cap s - length (content s)), s1)" "ok s1" "cap s1 = cap s"
      "content s1 = content s @ take (min (length xs) (cap s - length (content s))) xs"
      using put_law [OF Cons.prems refl] by blast
    obtain i out s2 where "fifo_run put get s1 ops = Inr (i, out, s2)" "ok s2" "cap s2 = cap s1" "content s1 @ i = out @ content s2"
      using Cons.IH [OF s1(2)] by blast
    then show ?thesis using Put s1 by simp
  next
    case (Get n)
    obtain s1 where s1: "get s n = Inr (take n (content s), s1)" "ok s1" "cap s1 = cap s" "content s1 = drop n (content s)"
      using get_law [OF Cons.prems] by blast
    obtain i out s2 where "fifo_run put get s1 ops = Inr (i, out, s2)" "ok s2" "cap s2 = cap s1" "content s1 @ i = out @ content s2"
      using Cons.IH [OF s1(2)] by blast
    then have "content s @ i = (take n (content s) @ out) @ content s2"
      using s1(4) by (metis append.assoc append_take_drop_id)
    then show ?thesis using Get s1 \<open>fifo_run put get s1 ops = Inr (i, out, s2)\<close> \<open>ok s2\<close> \<open>cap s2 = cap s1\<close> by simp
  qed
qed

end

section \<open>The ring is one\<close>

lemma and_pow2: "x AND (2 ^ k - 1) = x mod (2 ^ k :: int)"
  by (simp add: take_bit_eq_mask [symmetric] take_bit_eq_mod mask_eq_exp_minus_1 [symmetric])

definition ring_ok :: "'a ring \<Rightarrow> bool" where
  "ring_ok rb \<longleftrightarrow> (\<exists>k. bufferSize rb = 2 ^ k \<and> length (ring_data rb) = 2 ^ k \<and>
     smallMask rb = 2 ^ k - 1 \<and> bigMask rb = 2 ^ Suc k - 1 \<and>
     0 \<le> writeIndex rb \<and> writeIndex rb < 2 ^ Suc k \<and> 0 \<le> readIndex rb \<and> readIndex rb < 2 ^ Suc k \<and>
     (writeIndex rb - readIndex rb) mod 2 ^ Suc k \<le> 2 ^ k)"

definition ring_content :: "'a ring \<Rightarrow> 'a list" where
  "ring_content rb =
     map (\<lambda>i. ring_data rb ! ((nat (readIndex rb) + i) mod length (ring_data rb)))
       [0..<nat (PaUtil_GetRingBufferReadAvailable rb)]"

text \<open>The distance of a position from an index, around the ring.\<close>

definition ahead :: "int \<Rightarrow> nat \<Rightarrow> nat \<Rightarrow> nat" where
  "ahead i K p = nat ((int p - i) mod int K)"

lemma ahead_cases:
  assumes "0 < K" and "p < K" and "x = nat (i mod int K)"
  shows "ahead i K p = (if x \<le> p then p - x else p + K - x)"
proof -
  have x: "int x = i mod int K" using assms(1,3) by simp
  then have xK: "x < K" using assms(1) by (metis of_nat_0_less_iff of_nat_less_iff pos_mod_bound)
  have "(int p - i) mod int K = (int p - int x) mod int K" by (simp add: x mod_diff_right_eq)
  also have "\<dots> = (if x \<le> p then int p - int x else int p - int x + int K)"
  proof (cases "x \<le> p")
    case True
    then show ?thesis using assms(2) by simp
  next
    case False
    have "(int p - int x) mod int K = (int p - int x + int K) mod int K" by simp
    also have "\<dots> = int p - int x + int K" using False xK assms(2) by (intro mod_pos_pos_trivial) simp_all
    finally show ?thesis using False by simp
  qed
  also have "\<dots> = int (if x \<le> p then p - x else p + K - x)" using xK by (auto simp: of_nat_diff)
  finally show ?thesis by (simp only: ahead_def nat_int)
qed

lemma ahead_index:
  assumes "0 < K" and "0 \<le> r" and "i < 2 * K" and "0 \<le> a" and "a \<le> int K" and "(w - r) mod (2 * int K) = a"
    and "m \<le> K - nat a" and "i < nat a + m"
  shows "ahead w K ((nat r + i) mod K) = (if i < nat a then K - nat a + i else i - nat a)"
proof -
  have "w mod int K = (r + a) mod int K"
  proof -
    have "(w - r) mod int K = a mod int K"
      using assms(6) by (metis dvd_triv_right mod_mod_cancel)
    then have "((w - r) + r) mod int K = (a + r) mod int K" by (metis mod_add_left_eq)
    then show ?thesis by (simp add: add.commute)
  qed
  then have "(int ((nat r + i) mod K) - w) mod int K = (int ((nat r + i) mod K) - (r + a)) mod int K"
    by (metis mod_diff_right_eq)
  also have "\<dots> = ((r + int i) - (r + a)) mod int K"
    using assms(2) by (simp add: zmod_int mod_diff_left_eq)
  also have "\<dots> = (int i - a) mod int K" by simp
  also have "\<dots> = (if i < nat a then int i - a + int K else int i - a)"
  proof (cases "i < nat a")
    case True
    have "(int i - a) mod int K = (int i - a + int K) mod int K" by simp
    also have "\<dots> = int i - a + int K" using True assms(5) by (intro mod_pos_pos_trivial) linarith+
    finally show ?thesis using True by simp
  next
    case False
    have "int i - a < int K" using assms(4,5,7,8) by linarith
    then show ?thesis using False assms(4) by (simp add: mod_pos_pos_trivial)
  qed
  finally show ?thesis using assms(4,5) by (auto simp: ahead_def)
qed

lemma copy_in_nth:
  assumes "pos + n \<le> length buf" and "n \<le> length src"
  shows "\<exists>new. copy_in (int pos) src (int n) buf = Inr new \<and> length new = length buf \<and>
    (\<forall>p < length buf. new ! p = (if pos \<le> p \<and> p < pos + n then src ! (p - pos) else buf ! p))"
proof -
  let ?new = "take pos buf @ take n src @ drop (pos + n) buf"
  have "?new ! p = (if pos \<le> p \<and> p < pos + n then src ! (p - pos) else buf ! p)" if "p < length buf" for p
    using assms that by (auto simp: nth_append min_def)
  moreover have "copy_in (int pos) src (int n) buf = Inr ?new" "length ?new = length buf"
    using assms by (auto simp: copy_in_def)
  ultimately show ?thesis by blast
qed

lemma write_region:
  assumes "regions rb (writeIndex rb) (int free) (int n) = (numWritten, (d1, s1), (d2, s2))"
    and "bufferSize rb = int K" and "K = 2 ^ k" and "length (ring_data rb) = K" and "smallMask rb = int K - 1"
    and "0 \<le> writeIndex rb" and "free \<le> K" and "n \<le> length src" and "m = min n free"
  shows "numWritten = int m \<and> (\<exists>buf. (if s2 > 0
        then bind_r (copy_in d1 src s1 (ring_data rb)) (\<lambda>buf. copy_in (the d2) (drop (nat s1) src) s2 buf)
        else copy_in d1 src s1 (ring_data rb)) = Inr buf \<and> length buf = K \<and>
      (\<forall>p < K. buf ! p = (if ahead (writeIndex rb) K p < m then src ! ahead (writeIndex rb) K p else ring_data rb ! p)))"
proof -
  let ?buf = "ring_data rb" and ?w = "writeIndex rb"
  define x where "x = nat (?w mod int K)"
  have K: "0 < K" using assms(3) by simp
  have "?w AND (int K - 1) = ?w mod int K" using and_pow2 [of ?w k] assms(3) by simp
  then have x: "?w AND smallMask rb = int x" "x < K" using assms(5) K
    by (simp_all add: x_def nat_less_iff)
  have num: "numWritten = int m" using assms(1,9) by (auto simp: regions_def Let_def split: if_splits)
  have ahead: "ahead ?w K p = (if x \<le> p then p - x else p + K - x)" if "p < K" for p
    by (rule ahead_cases [OF K that x_def])
  show ?thesis
  proof (cases "x + m \<le> K")
    case True
    then have r: "d1 = int x" "s1 = int m" "s2 = 0" using assms(1,2,9) x
      by (auto simp: regions_def Let_def min_def split: if_splits)
    obtain new where new: "copy_in (int x) src (int m) ?buf = Inr new" "length new = K"
      "\<forall>p < K. new ! p = (if x \<le> p \<and> p < x + m then src ! (p - x) else ?buf ! p)"
      using copy_in_nth [of x m ?buf src] True assms(4) order_trans [OF min.cobounded1 assms(8), of free] assms(9) by auto
    have "new ! p = (if ahead ?w K p < m then src ! ahead ?w K p else ?buf ! p)" if "p < K" for p
      using new(3) True that ahead [OF that] by auto
    then show ?thesis using r num new by auto
  next
    case False
    let ?h = "K - x"
    have r: "d1 = int x" "s1 = int ?h" "d2 = Some 0" "s2 = int (m - ?h)" "0 < s2" using assms(1,2,9) x False
      by (auto simp: regions_def Let_def min_def of_nat_diff split: if_splits)
    have m: "m \<le> length src" "m \<le> K" using assms(7-9) by simp_all
    have h: "?h \<le> m" using False by linarith
    obtain b1 where b1: "copy_in (int x) src (int ?h) ?buf = Inr b1" "length b1 = K"
      "\<forall>p < K. b1 ! p = (if x \<le> p \<and> p < x + ?h then src ! (p - x) else ?buf ! p)"
      using copy_in_nth [of x ?h ?buf src] m h assms(4) x(2) by auto
    obtain new where new: "copy_in (int 0) (drop ?h src) (int (m - ?h)) b1 = Inr new" "length new = K"
      "\<forall>p < K. new ! p = (if 0 \<le> p \<and> p < 0 + (m - ?h) then drop ?h src ! (p - 0) else b1 ! p)"
      using copy_in_nth [of 0 "m - ?h" b1 "drop ?h src"] m unfolding b1(2) by fastforce
    have "new ! p = (if ahead ?w K p < m then src ! ahead ?w K p else ?buf ! p)" if "p < K" for p
      using b1(3) new(3) ahead [OF that] that m h x(2) by (auto simp: add.commute)
    moreover have "bind_r (copy_in d1 src s1 ?buf) (\<lambda>buf. copy_in (the d2) (drop (nat s1) src) s2 buf) = Inr new"
      using b1(1) new(1) by (simp add: r(1-4) del: of_nat_diff)
    ultimately show ?thesis using r(5) num new(2) by auto
  qed
qed

text \<open>Reading a region: the elements from the index on, around the ring.\<close>

lemma read_region:
  assumes "regions rb i (int avail) (int n) = (numRead, (d1, s1), (d2, s2))"
    and "bufferSize rb = int K" and "K = 2 ^ k" and "length (ring_data rb) = K" and "smallMask rb = int K - 1"
    and "0 \<le> i" and "avail \<le> K" and "m = min n avail"
  shows "numRead = int m \<and> (if s2 > 0
        then bind_r (copy_out d1 s1 (ring_data rb)) (\<lambda>a.
             bind_r (copy_out (the d2) s2 (ring_data rb)) (\<lambda>b. Inr (a @ b)))
        else copy_out d1 s1 (ring_data rb)) = Inr (map (\<lambda>j. ring_data rb ! ((nat i + j) mod K)) [0..<m])"
proof -
  let ?buf = "ring_data rb"
  define x where "x = nat i mod K"
  have K: "0 < K" using assms(3) by simp
  have "i AND (int K - 1) = i mod int K" using and_pow2 [of i k] assms(3) by simp
  then have x: "i AND smallMask rb = int x" "x < K" using assms(5,6) K
    by (simp_all add: x_def zmod_int)
  have num: "numRead = int m" using assms(1,8) by (auto simp: regions_def Let_def split: if_splits)
  have nth: "?buf ! ((nat i + j) mod K) = ?buf ! ((x + j) mod K)" for j by (simp add: x_def mod_add_left_eq)
  have m: "m \<le> K" using assms(7,8) by simp
  show ?thesis
  proof (cases "x + m \<le> K")
    case True
    then have r: "d1 = int x" "s1 = int m" "s2 = 0" using assms(1,2,8) x
      by (auto simp: regions_def Let_def min_def split: if_splits)
    have "take m (drop x ?buf) = map (\<lambda>j. ?buf ! ((x + j) mod K)) [0..<m]"
      using True assms(4) by (intro nth_equalityI) auto
    then show ?thesis using r num True assms(4) by (simp add: copy_out_def nth)
  next
    case False
    let ?h = "K - x"
    have h: "?h \<le> m" using False by linarith
    have r: "d1 = int x" "s1 = int ?h" "d2 = Some 0" "s2 = int (m - ?h)" "0 < s2" using assms(1,2,8) x False
      by (auto simp: regions_def Let_def min_def of_nat_diff split: if_splits)
    have "drop x ?buf @ take (m - ?h) ?buf = map (\<lambda>j. ?buf ! ((x + j) mod K)) [0..<m]"
    proof (rule nth_equalityI)
      show "length (drop x ?buf @ take (m - ?h) ?buf) = length (map (\<lambda>j. ?buf ! ((x + j) mod K)) [0..<m])"
        using assms(4) h m by simp
      fix j assume "j < length (drop x ?buf @ take (m - ?h) ?buf)"
      then have j: "j < m" using assms(4) h m by simp
      have "(x + j) mod K = (if j < ?h then x + j else j - ?h)"
      proof (cases "j < ?h")
        case False
        then have "x + j = (j - ?h) + K" using x(2) by linarith
        then have "(x + j) mod K = (j - ?h) mod K" by (metis mod_add_self2)
        then show ?thesis using False j m by simp
      qed simp
      then show "(drop x ?buf @ take (m - ?h) ?buf) ! j = map (\<lambda>j. ?buf ! ((x + j) mod K)) [0..<m] ! j"
        using j assms(4) x(2) by (simp add: nth_append)
    qed
    moreover have "copy_out (int x) (int ?h) ?buf = Inr (drop x ?buf)" using assms(4) x(2) by (simp add: copy_out_def)
    moreover have "copy_out 0 (int (m - ?h)) ?buf = Inr (take (m - ?h) ?buf)" using assms(4) m by (simp add: copy_out_def)
    ultimately show ?thesis using r(5) num by (simp only: r nth if_True bind_r_simps option.sel simp_thms)
  qed
qed

definition ring_put :: "'a ring \<Rightarrow> 'a list \<Rightarrow> (nat \<times> 'a ring) result" where
  "ring_put rb xs = bind_r (PaUtil_WriteRingBuffer rb xs (int (length xs))) (\<lambda>(n, rb). Inr (nat n, rb))"

definition ring_get :: "'a ring \<Rightarrow> nat \<Rightarrow> ('a list \<times> 'a ring) result" where
  "ring_get rb n = bind_r (PaUtil_ReadRingBuffer rb (int n)) (\<lambda>(_, ys, rb). Inr (ys, rb))"

definition ring_size :: "'a ring \<Rightarrow> nat" where
  "ring_size rb = nat (bufferSize rb)"

lemma ring_okE:
  assumes "ring_ok rb"
  obtains k K a where "K = 2 ^ k" "0 < K" "bufferSize rb = int K" "length (ring_data rb) = K"
    "smallMask rb = int K - 1" "bigMask rb = 2 * int K - 1" "0 \<le> writeIndex rb" "writeIndex rb < 2 * int K"
    "0 \<le> readIndex rb" "readIndex rb < 2 * int K" "(writeIndex rb - readIndex rb) mod (2 * int K) = int a" "a \<le> K"
    "PaUtil_GetRingBufferReadAvailable rb = int a"
    "ring_content rb = map (\<lambda>i. ring_data rb ! ((nat (readIndex rb) + i) mod K)) [0..<a]" "length (ring_content rb) = a"
proof -
  obtain k where k: "bufferSize rb = 2 ^ k" "length (ring_data rb) = 2 ^ k" "smallMask rb = 2 ^ k - 1"
    "bigMask rb = 2 ^ Suc k - 1" "0 \<le> writeIndex rb" "writeIndex rb < 2 ^ Suc k" "0 \<le> readIndex rb"
    "readIndex rb < 2 ^ Suc k" "(writeIndex rb - readIndex rb) mod 2 ^ Suc k \<le> 2 ^ k"
    using assms by (auto simp: ring_ok_def)
  let ?K = "2 ^ k :: nat" and ?a = "nat ((writeIndex rb - readIndex rb) mod 2 ^ Suc k)"
  have a: "(writeIndex rb - readIndex rb) mod (2 * int ?K) = int ?a" by simp
  have av: "PaUtil_GetRingBufferReadAvailable rb = int ?a"
    using and_pow2 [of "writeIndex rb - readIndex rb" "Suc k"] k(4) by (simp add: PaUtil_GetRingBufferReadAvailable_def)
  then have "ring_content rb = map (\<lambda>i. ring_data rb ! ((nat (readIndex rb) + i) mod ?K)) [0..<?a]"
    using k(2) by (simp add: ring_content_def)
  then show thesis using k a av by (intro that [of ?K k ?a]) (simp_all add: nat_le_iff)
qed

interpretation ring: bounded_fifo ring_content ring_ok ring_size ring_put ring_get
proof
  fix rb :: "'a ring" assume ok: "ring_ok rb"
  show "length (ring_content rb) \<le> ring_size rb" using ok by (elim ring_okE) (simp only: ring_size_def nat_int)
next
  fix rb :: "'a ring" and xs :: "'a list" and m
  assume ok: "ring_ok rb" and m: "m = min (length xs) (ring_size rb - length (ring_content rb))"
  from ok obtain k K a where K: "K = 2 ^ k" "0 < K" "bufferSize rb = int K" "length (ring_data rb) = K"
    "smallMask rb = int K - 1" "bigMask rb = 2 * int K - 1" "0 \<le> writeIndex rb" "writeIndex rb < 2 * int K"
    "0 \<le> readIndex rb" "readIndex rb < 2 * int K" "(writeIndex rb - readIndex rb) mod (2 * int K) = int a" "a \<le> K"
    "PaUtil_GetRingBufferReadAvailable rb = int a"
    "ring_content rb = map (\<lambda>i. ring_data rb ! ((nat (readIndex rb) + i) mod K)) [0..<a]" "length (ring_content rb) = a"
    by (rule ring_okE)
  have m: "m = min (length xs) (K - a)" using m K(3,15) by (simp add: ring_size_def)
  have free: "PaUtil_GetRingBufferWriteAvailable rb = int (K - a)"
    using K(3,12,13) by (simp add: PaUtil_GetRingBufferWriteAvailable_def of_nat_diff)
  obtain numWritten d1 s1 d2 s2 where r: "regions rb (writeIndex rb) (int (K - a)) (int (length xs)) = (numWritten, (d1, s1), (d2, s2))"
    by (metis prod.exhaust)
  from write_region [OF r K(3,1,4,5,7) _ order_refl m]
  obtain buf where b: "numWritten = int m" "(if s2 > 0
        then bind_r (copy_in d1 xs s1 (ring_data rb)) (\<lambda>buf. copy_in (the d2) (drop (nat s1) xs) s2 buf)
        else copy_in d1 xs s1 (ring_data rb)) = Inr buf" "length buf = K"
      "\<And>p. p < K \<Longrightarrow> buf ! p = (if ahead (writeIndex rb) K p < m then xs ! ahead (writeIndex rb) K p else ring_data rb ! p)"
    by auto
  let ?w = "(writeIndex rb + int m) mod (2 * int K)"
  let ?rb = "rb\<lparr>ring_data := buf, writeIndex := ?w\<rparr>"
  have w: "(writeIndex rb + int m) AND bigMask rb = ?w"
    using and_pow2 [of "writeIndex rb + int m" "Suc k"] K(1,6) by simp
  have put: "ring_put rb xs = Inr (m, ?rb)"
    using r b(1,2) w free by (simp add: ring_put_def PaUtil_WriteRingBuffer_def PaUtil_GetRingBufferWriteRegions_def
        PaUtil_AdvanceRingBufferWriteIndex_def)
  have "(?w - readIndex rb) mod (2 * int K) = ((writeIndex rb - readIndex rb) + int m) mod (2 * int K)"
    by (simp add: mod_diff_left_eq algebra_simps)
  also have "\<dots> = (int a + int m) mod (2 * int K)" using K(11) by (metis mod_add_left_eq)
  also have "\<dots> = int (a + m)" using K(2,12) m by (simp add: mod_pos_pos_trivial)
  finally have a': "(?w - readIndex rb) mod (2 * int K) = int (a + m)" .
  have "int (a + m) \<le> int K" using m K(12) by simp
  then have ok': "ring_ok ?rb"
    unfolding ring_ok_def using K(1,3-6,9,10) a' b(3) by (intro exI [of _ k]) simp
  have "PaUtil_GetRingBufferReadAvailable ?rb = int (a + m)"
    using and_pow2 [of "?w - readIndex rb" "Suc k"] K(1,6) a' by (simp add: PaUtil_GetRingBufferReadAvailable_def)
  then have c: "ring_content ?rb = map (\<lambda>i. buf ! ((nat (readIndex rb) + i) mod K)) [0..<a + m]"
    using b(3) by (simp add: ring_content_def del: of_nat_add)
  have "ring_content ?rb = ring_content rb @ take m xs"
  proof (rule nth_equalityI)
    show "length (ring_content ?rb) = length (ring_content rb @ take m xs)" using c K(15) m by simp
    fix i assume "i < length (ring_content ?rb)"
    then have i: "i < a + m" using c by simp
    have "ahead (writeIndex rb) K ((nat (readIndex rb) + i) mod K) = (if i < a then K - a + i else i - a)"
      using ahead_index [OF K(2,9), of i "int a" "writeIndex rb" m] i K(11,12) m by simp
    then show "ring_content ?rb ! i = (ring_content rb @ take m xs) ! i"
      using i b(4) [of "(nat (readIndex rb) + i) mod K"] K(2,12,14) m c by (auto simp: nth_append)
  qed
  then show "\<exists>s'. ring_put rb xs = Inr (m, s') \<and> ring_ok s' \<and> ring_size s' = ring_size rb \<and>
      ring_content s' = ring_content rb @ take m xs"
    using put ok' by (intro exI [of _ ?rb]) (simp add: ring_size_def)
next
  fix rb :: "'a ring" and n
  assume ok: "ring_ok rb"
  from ok obtain k K a where K: "K = 2 ^ k" "0 < K" "bufferSize rb = int K" "length (ring_data rb) = K"
    "smallMask rb = int K - 1" "bigMask rb = 2 * int K - 1" "0 \<le> writeIndex rb" "writeIndex rb < 2 * int K"
    "0 \<le> readIndex rb" "readIndex rb < 2 * int K" "(writeIndex rb - readIndex rb) mod (2 * int K) = int a" "a \<le> K"
    "PaUtil_GetRingBufferReadAvailable rb = int a"
    "ring_content rb = map (\<lambda>i. ring_data rb ! ((nat (readIndex rb) + i) mod K)) [0..<a]" "length (ring_content rb) = a"
    by (rule ring_okE)
  let ?m = "min n a"
  obtain numRead d1 s1 d2 s2 where r: "regions rb (readIndex rb) (int a) (int n) = (numRead, (d1, s1), (d2, s2))"
    by (metis prod.exhaust)
  note b = read_region [OF r K(3,1,4,5,9,12) refl]
  let ?r = "(readIndex rb + int ?m) mod (2 * int K)"
  let ?rb = "rb\<lparr>readIndex := ?r\<rparr>"
  have w: "(readIndex rb + int ?m) AND bigMask rb = ?r"
    using and_pow2 [of "readIndex rb + int ?m" "Suc k"] K(1,6) by simp
  have t: "take n (ring_content rb) = map (\<lambda>j. ring_data rb ! ((nat (readIndex rb) + j) mod K)) [0..<?m]"
    unfolding K(14) by (simp add: take_map take_upt min_def)
  have get: "ring_get rb n = Inr (take n (ring_content rb), ?rb)"
    using r b w K(13) t by (simp add: ring_get_def PaUtil_ReadRingBuffer_def PaUtil_GetRingBufferReadRegions_def
        PaUtil_AdvanceRingBufferReadIndex_def)
  have "(writeIndex rb - ?r) mod (2 * int K) = ((writeIndex rb - readIndex rb) - int ?m) mod (2 * int K)"
    by (simp add: mod_diff_right_eq algebra_simps)
  also have "\<dots> = (int a - int ?m) mod (2 * int K)" using K(11) by (metis mod_diff_left_eq)
  also have "\<dots> = int (a - ?m)" using K(2,12) by (simp add: mod_pos_pos_trivial of_nat_diff)
  finally have a': "(writeIndex rb - ?r) mod (2 * int K) = int (a - ?m)" .
  have "int (a - ?m) \<le> int K" using K(12) by simp
  then have ok': "ring_ok ?rb"
    unfolding ring_ok_def using K(1,3-8) a' by (intro exI [of _ k]) simp
  have av: "PaUtil_GetRingBufferReadAvailable ?rb = int (a - ?m)"
    using and_pow2 [of "writeIndex rb - ?r" "Suc k"] K(1,6) a' by (simp add: PaUtil_GetRingBufferReadAvailable_def)
  have rn: "(nat ?r + i) mod K = (nat (readIndex rb) + ?m + i) mod K" for i
  proof -
    have "nat ?r = (nat (readIndex rb) + ?m) mod (2 * K)" using K(9) by (simp add: nat_mod_distrib nat_add_distrib nat_mult_distrib)
    then have "(nat ?r + i) mod K = ((nat (readIndex rb) + ?m) mod (2 * K) mod K + i) mod K" by (simp add: mod_add_left_eq)
    then show ?thesis by (simp add: mod_mod_cancel mod_add_left_eq)
  qed
  have "ring_content ?rb = drop n (ring_content rb)"
  proof (rule nth_equalityI)
    show "length (ring_content ?rb) = length (drop n (ring_content rb))" using av K(15) by (simp add: ring_content_def)
    fix i assume "i < length (ring_content ?rb)"
    then have "i < a - ?m" using av by (simp add: ring_content_def)
    then show "ring_content ?rb ! i = drop n (ring_content rb) ! i"
      using av K(4,14) rn [of i] by (auto simp: ring_content_def min_def add.assoc less_diff_conv add.commute [of i] split: if_splits)
  qed
  then show "\<exists>s'. ring_get rb n = Inr (take n (ring_content rb), s') \<and> ring_ok s' \<and> ring_size s' = ring_size rb \<and>
      ring_content s' = drop n (ring_content rb)"
    using get ok' by (intro exI [of _ ?rb]) (simp add: ring_size_def)
qed

section \<open>Properties\<close>

lemma power_of_two_test:
  assumes "0 < n"
  shows "(n - 1) AND n = 0 \<longleftrightarrow> (\<exists>k. n = (2 :: int) ^ k)"
proof
  assume z: "(n - 1) AND n = 0"
  obtain k where k: "2 ^ k \<le> nat n" "nat n < 2 ^ Suc k"
    using ex_power_ivl1 [of 2 "nat n"] assms by (auto simp: Suc_le_eq)
  then have k': "2 ^ k \<le> n" "n < 2 * 2 ^ k" using assms by (simp_all add: le_nat_iff nat_less_iff)
  have top: "bit x k" if "2 ^ k \<le> x" "x < 2 * 2 ^ k" for x :: int
  proof -
    have "x div 2 ^ k = 1" using that by (intro int_div_pos_eq [of _ _ _ "x - 2 ^ k"]) simp_all
    then show ?thesis by (simp add: bit_iff_odd)
  qed
  have "n = 2 ^ k"
  proof (rule ccontr)
    assume "n \<noteq> 2 ^ k"
    then have "bit ((n - 1) AND n) k" using k' top [of n] top [of "n - 1"] by (simp add: bit_and_iff)
    then show False using z by simp
  qed
  then show "\<exists>k. n = 2 ^ k" ..
next
  assume "\<exists>k. n = 2 ^ k"
  then obtain k where "n = 2 ^ k" ..
  then show "(n - 1) AND n = 0" using and_pow2 [of n k] by (simp add: and.commute)
qed

lemma initialized_ring:
  assumes "PaUtil_InitializeRingBuffer rb0 n buf = (0, rb)" and "0 < n" and "length buf = nat n"
  shows "ring_ok rb \<and> ring_content rb = [] \<and> ring_size rb = nat n"
proof -
  have "(n - 1) AND n = 0" using assms(1) by (simp add: PaUtil_InitializeRingBuffer_def split: if_splits)
  then obtain k where k: "n = 2 ^ k" using power_of_two_test [OF assms(2)] by blast
  have rb: "rb = rb0\<lparr>bufferSize := n, ring_data := buf, writeIndex := 0, readIndex := 0, bigMask := n * 2 - 1, smallMask := n - 1\<rparr>"
    using assms(1) by (auto simp: PaUtil_InitializeRingBuffer_def PaUtil_FlushRingBuffer_def Let_def split: if_splits)
  have "ring_ok rb" unfolding ring_ok_def using k assms(3) by (intro exI [of _ k]) (simp add: rb nat_power_eq)
  then show ?thesis by (simp add: rb ring_content_def ring_size_def PaUtil_GetRingBufferReadAvailable_def)
qed

text \<open>
  (C38) The ring buffer is a bounded FIFO: it can be initialized exactly with a power of two, and under
  any sequence of reads and writes, wrapping around as often as they do, nothing faults, the
  elements come out in the order they went in, none is lost or repeated, and what is still in it
  never exceeds its size.
\<close>

theorem ring_fifo:
  assumes "0 < n" and "length buf = nat n"
  shows "(fst (PaUtil_InitializeRingBuffer rb0 n buf) = 0 \<longleftrightarrow> (\<exists>k. n = 2 ^ k)) \<and>
    (\<forall>rb. PaUtil_InitializeRingBuffer rb0 n buf = (0, rb) \<longrightarrow>
      (\<exists>i out rb'. fifo_run ring_put ring_get rb ops = Inr (i, out, rb') \<and>
         i = out @ ring_content rb' \<and> length (ring_content rb') \<le> nat n))"
proof -
  have "\<exists>i out rb'. fifo_run ring_put ring_get rb ops = Inr (i, out, rb') \<and>
      i = out @ ring_content rb' \<and> length (ring_content rb') \<le> nat n"
    if init: "PaUtil_InitializeRingBuffer rb0 n buf = (0, rb)" for rb
  proof -
    note rb = initialized_ring [OF init assms]
    obtain i out rb' where "fifo_run ring_put ring_get rb ops = Inr (i, out, rb')" "ring_ok rb'"
      "ring_size rb' = ring_size rb" "ring_content rb @ i = out @ ring_content rb'"
      using ring.run_fifo [of rb ops] rb by blast
    then show ?thesis using rb ring.bounded [of rb'] by simp
  qed
  moreover have "fst (PaUtil_InitializeRingBuffer rb0 n buf) = 0 \<longleftrightarrow> (n - 1) AND n = 0"
    by (simp add: PaUtil_InitializeRingBuffer_def Let_def)
  ultimately show ?thesis using power_of_two_test [OF assms(1)] by blast
qed

theorem ring_fifo_witness:
  "\<forall>rb0. \<exists>i out rb'. fifo_run ring_put ring_get (snd (PaUtil_InitializeRingBuffer rb0 4 [0, 0, 0, 0 :: nat]))
     [Put [1, 2, 3], Get 2, Put [4, 5, 6, 7], Get 9] = Inr (i, out, rb') \<and> i = out @ ring_content rb'"
proof
  fix rb0 :: "nat ring"
  have "PaUtil_InitializeRingBuffer rb0 4 [0, 0, 0, 0] = (0, snd (PaUtil_InitializeRingBuffer rb0 4 [0, 0, 0, 0]))"
    by (simp add: PaUtil_InitializeRingBuffer_def Let_def)
  then show "\<exists>i out rb'. fifo_run ring_put ring_get (snd (PaUtil_InitializeRingBuffer rb0 4 [0, 0, 0, 0]))
     [Put [1, 2, 3], Get 2, Put [4, 5, 6, 7], Get 9] = Inr (i, out, rb') \<and> i = out @ ring_content rb'"
    using ring_fifo [of 4 "[0, 0, 0, 0]" rb0 "[Put [1, 2, 3], Get 2, Put [4, 5, 6, 7], Get 9]"] by auto
qed

end
