(* ===== verification/PaValidate.thy ===== *)
theory PaValidate
  imports PaFront
begin

unbundle bit_operations_syntax

text \<open>
  Which stream parameters \<open>ValidateOpenStreamParameters\<close> (\<open>pa_front.c\<close>, lines 876 to 1026) lets
  through, and what it does when the parameters name a host API that is not there.
\<close>

section \<open>Well-formed parameters\<close>

text \<open>
  The sample formats there are, each with and without the flag for separate channels.
\<close>

definition known_format :: "sample_format \<Rightarrow> bool" where
  "known_format f \<longleftrightarrow> (\<exists>g \<in> {paFloat32, paInt32, paInt24, paInt16, paInt8, paUInt8, paCustomFormat}.
     f = g \<or> f = g OR paNonInterleaved)"

lemma clear_bit_iff:
  fixes f g m :: u64
  assumes m: "\<And>n. bit m n \<longleftrightarrow> n = k" and g: "g AND m = 0"
  shows "f AND NOT m = g \<longleftrightarrow> f = g \<or> f = g OR m"
proof
  assume e: "f AND NOT m = g"
  show "f = g \<or> f = g OR m"
  proof (cases "bit f k")
    case True
    then have "f = (f AND NOT m) OR m" by (intro bit_word_eqI) (auto simp: bit_or_iff bit_and_iff bit_not_iff m)
    then show ?thesis using e by simp
  next
    case False
    then have "f = f AND NOT m" by (intro bit_word_eqI) (auto simp: bit_and_iff bit_not_iff m)
    then show ?thesis using e by simp
  qed
next
  have "\<not> bit g k" using g m by (metis bit_and_iff bit_0_eq bot_apply bot_bool_def)
  then have "g AND NOT m = g" "(g OR m) AND NOT m = g"
    by (intro bit_word_eqI; auto simp: bit_or_iff bit_and_iff bit_not_iff m)+
  then show "f = g \<or> f = g OR m \<Longrightarrow> f AND NOT m = g" by auto
qed

lemma known_format_valid: "SampleFormatIsValid f \<longleftrightarrow> known_format f"
proof -
  have "bit (push_bit 31 1 :: u64) n \<longleftrightarrow> n = 31" for n
    unfolding bit_push_bit_iff by (auto simp: bit_1_iff)
  moreover have "push_bit 31 1 = paNonInterleaved" by simp
  ultimately have "bit paNonInterleaved n \<longleftrightarrow> n = 31" for n by simp
  note c = clear_bit_iff [OF this]
  have "f AND NOT paNonInterleaved = g \<longleftrightarrow> f = g \<or> f = g OR paNonInterleaved"
    if "g \<in> {paFloat32, paInt32, paInt24, paInt16, paInt8, paUInt8, paCustomFormat}" for g
    by (rule c) (use that in auto)
  moreover have "SampleFormatIsValid f \<longleftrightarrow>
      (\<exists>g \<in> {paFloat32, paInt32, paInt24, paInt16, paInt8, paUInt8, paCustomFormat}. f AND NOT paNonInterleaved = g)"
    by (auto simp: SampleFormatIsValid_def)
  ultimately show ?thesis by (simp only: known_format_def cong: bex_cong)
qed

text \<open>
  One side of a stream: \<open>i\<close> is the host API the device belongs to and \<open>d\<close> the device in it. The
  special device leaves the choice to the host API whose type the specific information names.
\<close>

definition side_ok :: "'d pa \<Rightarrow> stream_parameters option \<Rightarrow> int \<Rightarrow> int \<Rightarrow> bool" where
  "side_ok pa params i d =
     (case params of
        None \<Rightarrow> d = paNoDevice
      | Some ps \<Rightarrow> 0 \<le> i \<and> i < hostApisCount pa \<and>
          (let h = hostApis pa ! nat i in
           if device ps = paUseHostApiSpecificDeviceSpecification
           then d = paUseHostApiSpecificDeviceSpecification \<and> hostApiSpecificStreamInfo ps = Some (api_type h) \<and>
                list_all (\<lambda>h'. api_type h' \<noteq> api_type h) (take (nat i) (hostApis pa))
           else 0 \<le> d \<and> d < deviceCount h \<and> device ps = device_base (hostApis pa) (nat i) + d \<and>
                0 < channelCount ps \<and> known_format (sampleFormat ps) \<and>
                (hostApiSpecificStreamInfo ps = None \<or> hostApiSpecificStreamInfo ps = Some (api_type h))))"

text \<open>The sample rates that are not called absurd: NaN compares with nothing, so it is one of them.\<close>

definition rate_ok :: "f64 \<Rightarrow> bool" where
  "rate_ok r = (case r of NaN \<Rightarrow> True | Fin x \<Rightarrow> 1000 \<le> x \<and> x \<le> 384000 | _ \<Rightarrow> False)"

definition flags_ok :: "u64 \<Rightarrow> bool \<Rightarrow> u64 \<Rightarrow> bool" where
  "flags_ok flags full_duplex_callback framesPerBuffer =
     (flags AND NOT 0xFFFF000F = 0 \<and> (flags AND paNeverDropInput \<noteq> 0 \<longrightarrow> full_duplex_callback \<and> framesPerBuffer = 0))"

text \<open>A side that names a type no host API has.\<close>

fun unknown_type :: "'d pa \<Rightarrow> stream_parameters option \<Rightarrow> bool" where
  "unknown_type pa None = False"
| "unknown_type pa (Some ps) =
     (device ps = paUseHostApiSpecificDeviceSpecification \<and>
      (case hostApiSpecificStreamInfo ps of None \<Rightarrow> False | Some t \<Rightarrow> t \<notin> api_type ` set (hostApis pa)))"

section \<open>One side\<close>

lemma find_type_Some_iff:
  "find_type hs k t = Some j \<longleftrightarrow>
     (\<exists>i < length hs. j = k + int i \<and> api_type (hs ! i) = t \<and> list_all (\<lambda>h. api_type h \<noteq> t) (take i hs))"
proof (induction hs arbitrary: k)
  case (Cons h hs)
  show ?case by (cases "api_type h = t") (simp_all add: Ex_less_Suc2 Cons.IH algebra_simps cong: conj_cong, auto)
qed simp

lemma find_type_None_iff: "find_type hs k t = None \<longleftrightarrow> t \<notin> api_type ` set hs"
  by (induction hs k t rule: find_type.induct) auto

lemma rate_ok_iff: "rate_ok r \<longleftrightarrow> \<not> (f64_less r (Fin 1000) \<or> f64_less (Fin 384000) r)"
  by (cases r) (auto simp: rate_ok_def)

lemma flags_eq:
  fixes f :: u64
  shows "(f AND NOT paPlatformSpecificFlags) AND
      NOT (paClipOff OR paDitherOff OR paNeverDropInput OR paPrimeOutputBuffersUsingStreamCallback) =
    f AND NOT 0xFFFF000F"
  by (simp add: and.assoc flip: bit.de_Morgan_disj)

lemma hostApi_at_inside: "0 \<le> i \<Longrightarrow> i < hostApisCount pa \<Longrightarrow> hostApi_at pa i = Inr (hostApis pa ! nat i)"
  by (simp add: hostApi_at_def)

lemma validate_side:
  assumes "PA_IS_INITIALISED pa" and "api_ok pa" and "\<forall>h \<in> set (hostApis pa). 0 \<le> deviceCount h"
  shows "validate_input pa (Some ps) = Inr (0, i, d) \<longleftrightarrow> side_ok pa (Some ps) i d"
proof (cases "device ps = paUseHostApiSpecificDeviceSpecification")
  case True
  show ?thesis
  proof (cases "hostApiSpecificStreamInfo ps")
    case (Some t)
    show ?thesis
    proof (cases "find_type (hostApis pa) 0 t")
      case None
      then have "\<not> side_ok pa (Some ps) i d"
        using True Some by (auto simp: side_ok_def find_type_None_iff hostApisCount_def Let_def)
      then show ?thesis using None True Some assms(1)
        by (simp add: validate_input_def Pa_HostApiTypeIdToHostApiIndex_def hostApi_at_def)
    next
      case (Some j)
      then obtain n where n: "n < length (hostApis pa)" "j = int n" "api_type (hostApis pa ! n) = t"
        "list_all (\<lambda>h. api_type h \<noteq> t) (take n (hostApis pa))"
        by (auto simp: find_type_Some_iff)
      have "validate_input pa (Some ps) = Inr (0, j, -2)"
        using True \<open>hostApiSpecificStreamInfo ps = Some t\<close> Some assms(1) n
        by (simp add: validate_input_def Pa_HostApiTypeIdToHostApiIndex_def hostApi_at_def hostApisCount_def)
      moreover have "side_ok pa (Some ps) i d \<longleftrightarrow> i = j \<and> d = -2"
      proof
        assume "side_ok pa (Some ps) i d"
        then have "find_type (hostApis pa) 0 t = Some i" "d = -2"
          using True \<open>hostApiSpecificStreamInfo ps = Some t\<close>
          by (auto simp: side_ok_def find_type_Some_iff hostApisCount_def Let_def intro!: exI [of _ "nat i"])
        then show "i = j \<and> d = -2" using Some by simp
      qed (use True \<open>hostApiSpecificStreamInfo ps = Some t\<close> n in \<open>simp add: side_ok_def hostApisCount_def\<close>)
      ultimately show ?thesis by auto
    qed
  qed (use True in \<open>simp add: validate_input_def side_ok_def\<close>)
next
  case False
  have tot: "totalDevices pa = device_base (hostApis pa) (length (hostApis pa))"
    using assms(2) by (simp add: api_ok_def devices_inv_def)
  show ?thesis
  proof (cases "0 \<le> device ps \<and> device ps < totalDevices pa")
    case True
    with find_host_api_Some [of "device ps" "hostApis pa" 0] tot assms(3) obtain n e where
      n: "n < length (hostApis pa)" "0 \<le> e" "e < deviceCount (hostApis pa ! n)"
        "device ps = device_base (hostApis pa) n + e" "find_host_api (hostApis pa) 0 (device ps) = Some (int n, e)"
      by auto
    have "validate_input pa (Some ps) = Inr (0, i, d) \<longleftrightarrow> i = int n \<and> d = e \<and> 0 < channelCount ps \<and>
        SampleFormatIsValid (sampleFormat ps) \<and>
        (hostApiSpecificStreamInfo ps = None \<or> hostApiSpecificStreamInfo ps = Some (api_type (hostApis pa ! n)))"
      using False True n(1,5) assms(1)
      by (auto simp: validate_input_def FindHostApi_def hostApi_at_def hostApisCount_def split: option.splits)
    moreover have "i = int n \<and> d = e" if "side_ok pa (Some ps) i d"
      using that find_host_api_base [of "hostApis pa" "nat i" d 0] assms(3) False n(5)
      by (simp add: side_ok_def hostApisCount_def Let_def nat_less_iff)
    moreover have "side_ok pa (Some ps) (int n) e \<longleftrightarrow> 0 < channelCount ps \<and>
        SampleFormatIsValid (sampleFormat ps) \<and>
        (hostApiSpecificStreamInfo ps = None \<or> hostApiSpecificStreamInfo ps = Some (api_type (hostApis pa ! n)))"
      using False n(1-4) by (simp add: side_ok_def hostApisCount_def known_format_valid)
    ultimately show ?thesis by metis
  next
    case outside: False
    have "device_base (hostApis pa) 0 \<le> device_base (hostApis pa) (nat i)"
      using device_base_mono [of "hostApis pa" 0 "nat i"] assms(3) by simp
    moreover have "device_base (hostApis pa) (Suc (nat i)) \<le> totalDevices pa" if "nat i < length (hostApis pa)"
      using device_base_mono [of "hostApis pa" "Suc (nat i)" "length (hostApis pa)"] assms(3) tot that by simp
    moreover have "nat i < length (hostApis pa) \<and> 0 \<le> d \<and> d < deviceCount (hostApis pa ! nat i) \<and>
        device ps = device_base (hostApis pa) (nat i) + d" if "side_ok pa (Some ps) i d"
      using that False by (simp add: side_ok_def hostApisCount_def Let_def nat_less_iff)
    ultimately have "\<not> side_ok pa (Some ps) i d" using outside by (auto simp: device_base_Suc)
    then show ?thesis using False outside by (auto simp: validate_input_def)
  qed
qed

lemma validate_side_Inl:
  assumes "PA_IS_INITIALISED pa" and "api_ok pa" and "\<forall>h \<in> set (hostApis pa). 0 \<le> deviceCount h"
  shows "validate_input pa params = Inl e \<longleftrightarrow> unknown_type pa params \<and> e = Undefined_behaviour"
proof (cases params)
  case (Some ps)
  show ?thesis
  proof (cases "device ps = paUseHostApiSpecificDeviceSpecification")
    case True
    show ?thesis
    proof (cases "hostApiSpecificStreamInfo ps")
      case info: (Some t)
      show ?thesis
      proof (cases "find_type (hostApis pa) 0 t")
        case None
        moreover from None have "t \<notin> api_type ` set (hostApis pa)" by (simp add: find_type_None_iff)
        ultimately show ?thesis using True Some info assms(1)
          by (auto simp: validate_input_def Pa_HostApiTypeIdToHostApiIndex_def hostApi_at_def)
      next
        case (Some j)
        then have "t \<in> api_type ` set (hostApis pa)" using find_type_None_iff [of "hostApis pa" 0 t] by auto
        then show ?thesis using True \<open>params = Some ps\<close> info assms(1) Some find_type_range [OF Some]
          by (simp add: validate_input_def Pa_HostApiTypeIdToHostApiIndex_def hostApi_at_def hostApisCount_def)
      qed
    qed (use True Some in \<open>simp add: validate_input_def\<close>)
  next
    case False
    have "\<exists>r. validate_input pa params = Inr r" 
    proof (cases "FindHostApi pa (device ps)")
      case (Some x)
      then obtain i d where x: "FindHostApi pa (device ps) = Some (i, d)" by (cases x) simp
      then have "0 \<le> i" "i < hostApisCount pa"
        using find_host_api_range by (fastforce simp: FindHostApi_def hostApisCount_def split: if_splits)+
      then show ?thesis using False \<open>params = Some ps\<close> x
        by (simp add: validate_input_def hostApi_at_inside split: option.split)
    qed (use False Some in \<open>simp add: validate_input_def\<close>)
    then show ?thesis using False Some by auto
  qed
qed (simp add: validate_input_def)

section \<open>Both sides\<close>

lemma validate_eq:
  "ValidateOpenStreamParameters pa ip op rate framesPerBuffer flags callback = Inr (0, h, i, j) \<longleftrightarrow>
     (ip \<noteq> None \<or> op \<noteq> None) \<and>
     (\<exists>m n. validate_input pa ip = Inr (0, m, i) \<and> validate_input pa op = Inr (0, n, j) \<and>
        h = (if op = None then m else n) \<and> (ip \<noteq> None \<and> op \<noteq> None \<longrightarrow> m = n)) \<and>
     rate_ok rate \<and> flags_ok flags (callback \<noteq> None \<and> ip \<noteq> None \<and> op \<noteq> None) framesPerBuffer"
  unfolding ValidateOpenStreamParameters_def validate_output_def flags_eq rate_ok_iff flags_ok_def Let_def
  by (cases "validate_input pa ip"; cases "validate_input pa op") (auto split: if_splits)


lemma two_apis_types: "map api_type (hostApis two_apis) = [8, 7]"
  by (simp add: two_apis_def Pa_Initialize_def InitializeHostApis_def pa_start_def PA_IS_INITIALISED_def
      two_inits_def Let_def add_host_api_def idle_api_def)

lemma two_apis_counts: "\<forall>h \<in> set (hostApis two_apis). 0 \<le> deviceCount h"
  using two_apis_values(1) by (auto simp: map_eq_Cons_conv)

definition full_duplex :: "int \<Rightarrow> int \<Rightarrow> int option \<Rightarrow> stream_parameters option \<times> stream_parameters option" where
  "full_duplex d1 d2 info =
     (let ps = \<lparr>device = d1, channelCount = 1, sampleFormat = paInt16, suggestedLatency = Fin 0,
                hostApiSpecificStreamInfo = info\<rparr>
      in (Some ps, Some (ps\<lparr>device := d2\<rparr>)))"




end
