(* ===== verification/PaConvInt.thy ===== *)
theory PaConvInt
  imports PaFormats
begin

unbundle bit_operations_syntax

text \<open>
  The sample converters between the integer formats, the copies and the zeroers
  (\<open>src/external/portaudio/src/common/pa_converters.c\<close>, lines 905 to 1973).

  A buffer is the sequence of its bytes; a pointer into it is a position, and an access outside the
  buffer is undefined behaviour. Source and destination are different buffers. Strides count
  samples. A shift to the left of a negative number and a conversion to a smaller signed type act on
  the two's complement representation, as the compilers this code is built with define them.
\<close>

section \<open>Loads, stores and the loop\<close>

definition load :: "bytes \<Rightarrow> int \<Rightarrow> nat \<Rightarrow> bytes result" where
  "load buf i n =
     (if 0 \<le> i \<and> nat i + n \<le> length buf then Inr (slice (nat i) n buf) else Inl Undefined_behaviour)"

definition store :: "bytes \<Rightarrow> int \<Rightarrow> bytes \<Rightarrow> bytes result" where
  "store buf i xs =
     (if 0 \<le> i \<and> nat i + length xs \<le> length buf
      then Inr (take (nat i) buf @ xs @ drop (nat i + length xs) buf) else Inl Undefined_behaviour)"

type_synonym dithered = "dither_generator \<Rightarrow> (bytes \<times> dither_generator) result"

text \<open>
  The loop all converters have: \<open>f\<close> is its body without the two pointer updates, \<open>sn\<close> and \<open>dn\<close> are
  the sizes of a sample, \<open>ss\<close> and \<open>ds\<close> the strides, \<open>s\<close> and \<open>d\<close> the positions of the pointers.
\<close>

fun strided ::
  "(bytes \<Rightarrow> dithered) \<Rightarrow> nat \<Rightarrow> nat \<Rightarrow> nat \<Rightarrow> int \<Rightarrow> int \<Rightarrow> int \<Rightarrow> int \<Rightarrow> bytes \<Rightarrow> bytes \<Rightarrow> dithered" where
  "strided f sn dn 0 ss ds s d src dst g = Inr (dst, g)"
| "strided f sn dn (Suc n) ss ds s d src dst g =
     bind_r (load src s sn) (\<lambda>x. bind_r (f x g) (\<lambda>(y, g). bind_r (store dst d y) (\<lambda>dst.
       strided f sn dn n ss ds (s + ss * int sn) (d + ds * int dn) src dst g)))"

text \<open>A body that needs no dither.\<close>

definition plain :: "(bytes \<Rightarrow> bytes) \<Rightarrow> bytes \<Rightarrow> dithered" where
  "plain f x g = Inr (f x, g)"

text \<open>
  A converter: destination and its stride, source and its stride, count, dither generator; it
  yields the destination it leaves.
\<close>

type_synonym pa_converter = "platform \<Rightarrow> bytes \<Rightarrow> int \<Rightarrow> bytes \<Rightarrow> int \<Rightarrow> nat \<Rightarrow> dithered"

definition each :: "nat \<Rightarrow> nat \<Rightarrow> (platform \<Rightarrow> bytes \<Rightarrow> dithered) \<Rightarrow> pa_converter" where
  "each sn dn f p dst ds src ss count = strided (f p) sn dn count ss ds 0 0 src dst"

text \<open>The bodies that only say \<open>IMPLEMENT ME\<close>.\<close>

definition unimplemented :: pa_converter where
  "unimplemented p dst ds src ss count g = Inr (dst, g)"

definition rd32 :: "platform \<Rightarrow> bytes \<Rightarrow> i32" where
  "rd32 p x = object_word (byte_order p) x"

definition wr32 :: "platform \<Rightarrow> i32 \<Rightarrow> bytes" where
  "wr32 p w = object_bytes (byte_order p) 4 w"

definition rd16 :: "platform \<Rightarrow> bytes \<Rightarrow> i16" where
  "rd16 p x = object_word (byte_order p) x"

definition wr16 :: "platform \<Rightarrow> i16 \<Rightarrow> bytes" where
  "wr16 p w = object_bytes (byte_order p) 2 w"

text \<open>The three bytes of a 24 bit sample as the leading bits of a \<open>PaInt32\<close>, and back.\<close>

definition rd24 :: "platform \<Rightarrow> bytes \<Rightarrow> i32" where
  "rd24 p x =
     (case byte_order p of
        LittleEndian \<Rightarrow> push_bit 8 (ucast (x ! 0)) OR push_bit 16 (ucast (x ! 1)) OR push_bit 24 (ucast (x ! 2))
      | BigEndian \<Rightarrow> push_bit 24 (ucast (x ! 0)) OR push_bit 16 (ucast (x ! 1)) OR push_bit 8 (ucast (x ! 2)))"

definition wr24 :: "platform \<Rightarrow> i32 \<Rightarrow> bytes" where
  "wr24 p temp =
     (let bs = [ucast (signed_drop_bit 8 temp), ucast (signed_drop_bit 16 temp), ucast (signed_drop_bit 24 temp)]
      in case byte_order p of LittleEndian \<Rightarrow> bs | BigEndian \<Rightarrow> rev bs)"

section \<open>From 32 bits\<close>

definition Int32_To_Int24 :: pa_converter where
  "Int32_To_Int24 = each 4 3 (\<lambda>p. plain (\<lambda>x. wr24 p (rd32 p x)))"

definition Int32_To_Int24_Dither :: pa_converter where
  "Int32_To_Int24_Dither = unimplemented"

definition Int32_To_Int16 :: pa_converter where
  "Int32_To_Int16 = each 4 2 (\<lambda>p. plain (\<lambda>x. wr16 p (ucast (signed_drop_bit 16 (rd32 p x)))))"

text \<open>\<open>((v >> 1) + dither) >> k\<close> for the next value of the generator.\<close>

definition dithered_shift :: "nat \<Rightarrow> i32 \<Rightarrow> (int \<Rightarrow> bytes) \<Rightarrow> dithered" where
  "dithered_shift k v out g =
     bind_r (PaUtil_Generate16BitTriangularDither g) (\<lambda>(dither, g).
       bind_r (int32_result (sint (signed_drop_bit 1 v) + dither)) (\<lambda>t. Inr (out (drop_bit k t), g)))"

definition Int32_To_Int16_Dither :: pa_converter where
  "Int32_To_Int16_Dither =
     each 4 2 (\<lambda>p x. dithered_shift 15 (rd32 p x) (\<lambda>t. wr16 p (word_of_int t)))"

definition Int32_To_Int8 :: pa_converter where
  "Int32_To_Int8 = each 4 1 (\<lambda>p. plain (\<lambda>x. [ucast (signed_drop_bit 24 (rd32 p x))]))"

definition Int32_To_Int8_Dither :: pa_converter where
  "Int32_To_Int8_Dither = each 4 1 (\<lambda>p x. dithered_shift 23 (rd32 p x) (\<lambda>t. [word_of_int t]))"

definition Int32_To_UInt8 :: pa_converter where
  "Int32_To_UInt8 = each 4 1 (\<lambda>p. plain (\<lambda>x. [ucast (signed_drop_bit 24 (rd32 p x) + 128)]))"

definition Int32_To_UInt8_Dither :: pa_converter where
  "Int32_To_UInt8_Dither = unimplemented"

section \<open>From 24 bits\<close>

definition Int24_To_Int32 :: pa_converter where
  "Int24_To_Int32 = each 3 4 (\<lambda>p. plain (\<lambda>x. wr32 p (rd24 p x)))"

definition Int24_To_Int16 :: pa_converter where
  "Int24_To_Int16 = each 3 2 (\<lambda>p. plain (\<lambda>x. wr16 p
     (case byte_order p of
        LittleEndian \<Rightarrow> ucast (x ! 1) OR push_bit 8 (ucast (x ! 2))
      | BigEndian \<Rightarrow> push_bit 8 (ucast (x ! 0)) OR ucast (x ! 1))))"

definition Int24_To_Int16_Dither :: pa_converter where
  "Int24_To_Int16_Dither =
     each 3 2 (\<lambda>p x. dithered_shift 15 (rd24 p x) (\<lambda>t. wr16 p (word_of_int t)))"

definition Int24_To_Int8 :: pa_converter where
  "Int24_To_Int8 = each 3 1 (\<lambda>p. plain (\<lambda>x.
     [case byte_order p of LittleEndian \<Rightarrow> x ! 2 | BigEndian \<Rightarrow> x ! 0]))"

definition Int24_To_Int8_Dither :: pa_converter where
  "Int24_To_Int8_Dither = each 3 1 (\<lambda>p x. dithered_shift 23 (rd24 p x) (\<lambda>t. [word_of_int t]))"

definition Int24_To_UInt8 :: pa_converter where
  "Int24_To_UInt8 = each 3 1 (\<lambda>p. plain (\<lambda>x.
     [(case byte_order p of LittleEndian \<Rightarrow> x ! 2 | BigEndian \<Rightarrow> x ! 0) + 128]))"

definition Int24_To_UInt8_Dither :: pa_converter where
  "Int24_To_UInt8_Dither = unimplemented"

section \<open>From 16 bits\<close>

definition Int16_To_Int32 :: pa_converter where
  "Int16_To_Int32 = each 2 4 (\<lambda>p. plain (\<lambda>x. wr32 p (push_bit 16 (scast (rd16 p x)))))"

definition Int16_To_Int24 :: pa_converter where
  "Int16_To_Int24 = each 2 3 (\<lambda>p. plain (\<lambda>x.
     let temp = rd16 p x in
     case byte_order p of
       LittleEndian \<Rightarrow> [0, ucast temp, ucast (signed_drop_bit 8 temp)]
     | BigEndian \<Rightarrow> [ucast (signed_drop_bit 8 temp), ucast temp, 0]))"

definition Int16_To_Int8 :: pa_converter where
  "Int16_To_Int8 = each 2 1 (\<lambda>p. plain (\<lambda>x. [ucast (signed_drop_bit 8 (rd16 p x))]))"

definition Int16_To_Int8_Dither :: pa_converter where
  "Int16_To_Int8_Dither = unimplemented"

definition Int16_To_UInt8 :: pa_converter where
  "Int16_To_UInt8 = each 2 1 (\<lambda>p. plain (\<lambda>x. [ucast (signed_drop_bit 8 (scast (rd16 p x) :: i32) + 128)]))"

definition Int16_To_UInt8_Dither :: pa_converter where
  "Int16_To_UInt8_Dither = unimplemented"

section \<open>From 8 bits\<close>

definition Int8_To_Int32 :: pa_converter where
  "Int8_To_Int32 = each 1 4 (\<lambda>p. plain (\<lambda>x. wr32 p (push_bit 24 (scast (x ! 0)))))"

definition Int8_To_Int24 :: pa_converter where
  "Int8_To_Int24 = each 1 3 (\<lambda>p. plain (\<lambda>x.
     case byte_order p of LittleEndian \<Rightarrow> [0, 0, x ! 0] | BigEndian \<Rightarrow> [x ! 0, 0, 0]))"

definition Int8_To_Int16 :: pa_converter where
  "Int8_To_Int16 = each 1 2 (\<lambda>p. plain (\<lambda>x. wr16 p (ucast (push_bit 8 (scast (x ! 0) :: i32)))))"

definition Int8_To_UInt8 :: pa_converter where
  "Int8_To_UInt8 = each 1 1 (\<lambda>p. plain (\<lambda>x. [ucast ((scast (x ! 0) :: i32) + 128)]))"

definition UInt8_To_Int32 :: pa_converter where
  "UInt8_To_Int32 = each 1 4 (\<lambda>p. plain (\<lambda>x. wr32 p (push_bit 24 (ucast (x ! 0) - 128))))"

definition UInt8_To_Int24 :: pa_converter where
  "UInt8_To_Int24 = each 1 3 (\<lambda>p. plain (\<lambda>x.
     let b = ucast ((ucast (x ! 0) :: i32) - 128) in
     case byte_order p of LittleEndian \<Rightarrow> [0, 0, b] | BigEndian \<Rightarrow> [b, 0, 0]))"

definition UInt8_To_Int16 :: pa_converter where
  "UInt8_To_Int16 = each 1 2 (\<lambda>p. plain (\<lambda>x. wr16 p (ucast (push_bit 8 ((ucast (x ! 0) :: i32) - 128)))))"

definition UInt8_To_Int8 :: pa_converter where
  "UInt8_To_Int8 = each 1 1 (\<lambda>p. plain (\<lambda>x. [ucast ((ucast (x ! 0) :: i32) - 128)]))"

section \<open>Copies and zeroers\<close>

definition Copy_8_To_8 :: pa_converter where "Copy_8_To_8 = each 1 1 (\<lambda>p. plain (\<lambda>x. x))"
definition Copy_16_To_16 :: pa_converter where "Copy_16_To_16 = each 2 2 (\<lambda>p. plain (\<lambda>x. x))"
definition Copy_24_To_24 :: pa_converter where "Copy_24_To_24 = each 3 3 (\<lambda>p. plain (\<lambda>x. x))"
definition Copy_32_To_32 :: pa_converter where "Copy_32_To_32 = each 4 4 (\<lambda>p. plain (\<lambda>x. x))"

fun zero_loop :: "bytes \<Rightarrow> nat \<Rightarrow> int \<Rightarrow> int \<Rightarrow> bytes \<Rightarrow> bytes result" where
  "zero_loop z 0 ds d dst = Inr dst"
| "zero_loop z (Suc n) ds d dst = bind_r (store dst d z) (zero_loop z n ds (d + ds * int (length z)))"

definition ZeroU8_fn :: "bytes \<Rightarrow> int \<Rightarrow> nat \<Rightarrow> bytes result" where
  "ZeroU8_fn dst ds count = zero_loop [128] count ds 0 dst"

definition Zero8_fn :: "bytes \<Rightarrow> int \<Rightarrow> nat \<Rightarrow> bytes result" where
  "Zero8_fn dst ds count = zero_loop [0] count ds 0 dst"

definition Zero16_fn :: "bytes \<Rightarrow> int \<Rightarrow> nat \<Rightarrow> bytes result" where
  "Zero16_fn dst ds count = zero_loop [0, 0] count ds 0 dst"

definition Zero24_fn :: "bytes \<Rightarrow> int \<Rightarrow> nat \<Rightarrow> bytes result" where
  "Zero24_fn dst ds count = zero_loop [0, 0, 0] count ds 0 dst"

definition Zero32_fn :: "bytes \<Rightarrow> int \<Rightarrow> nat \<Rightarrow> bytes result" where
  "Zero32_fn dst ds count = zero_loop [0, 0, 0, 0] count ds 0 dst"

definition run_zeroer :: "zeroer \<Rightarrow> bytes \<Rightarrow> int \<Rightarrow> nat \<Rightarrow> bytes result" where
  "run_zeroer z = (case z of ZeroU8 \<Rightarrow> ZeroU8_fn | Zero8 \<Rightarrow> Zero8_fn | Zero16 \<Rightarrow> Zero16_fn
     | Zero24 \<Rightarrow> Zero24_fn | Zero32 \<Rightarrow> Zero32_fn)"

section \<open>What the loop does\<close>

text \<open>The positions of the \<open>n\<close> samples of size \<open>sz\<close> that start at \<open>i\<close>, \<open>st\<close> samples apart.\<close>

definition strides_fit :: "bytes \<Rightarrow> nat \<Rightarrow> nat \<Rightarrow> nat \<Rightarrow> nat \<Rightarrow> bool" where
  "strides_fit buf i sz st n = (0 < n \<longrightarrow> i + (n - 1) * st * sz + sz \<le> length buf)"

definition on_samples :: "nat \<Rightarrow> nat \<Rightarrow> nat \<Rightarrow> nat \<Rightarrow> nat \<Rightarrow> bool" where
  "on_samples i sz st n j = list_ex (\<lambda>k. i + k * st * sz \<le> j \<and> j < i + k * st * sz + sz) [0..<n]"

lemma on_samples_iff: "on_samples i sz st n j \<longleftrightarrow> (\<exists>k < n. i + k * st * sz \<le> j \<and> j < i + k * st * sz + sz)"
  by (auto simp: on_samples_def list_ex_iff)

lemma on_samples_Suc:
  "on_samples i sz st (Suc n) j \<longleftrightarrow> i \<le> j \<and> j < i + sz \<or> on_samples (i + st * sz) sz st n j"
proof -
  have "(\<exists>k < Suc n. i + k * st * sz \<le> j \<and> j < i + k * st * sz + sz) \<longleftrightarrow>
      i \<le> j \<and> j < i + sz \<or> (\<exists>k < n. i + Suc k * st * sz \<le> j \<and> j < i + Suc k * st * sz + sz)"
    unfolding Ex_less_Suc2 by simp
  then show ?thesis unfolding on_samples_iff by (simp add: add.assoc distrib_right)
qed

lemma strides_fit_Suc:
  "strides_fit buf i sz st (Suc n) \<Longrightarrow> i + sz \<le> length buf \<and> strides_fit buf (i + st * sz) sz st n"
  by (cases n) (auto simp: strides_fit_def algebra_simps)

lemma load_at: "i + n \<le> length buf \<Longrightarrow> load buf (int i) n = Inr (slice i n buf)"
  by (simp add: load_def)

lemma store_at:
  "i + length xs \<le> length buf \<Longrightarrow>
     store buf (int i) xs = Inr (take i buf @ xs @ drop (i + length xs) buf)"
  by (simp add: store_def)

lemma slice_cong:
  assumes "length xs = length ys" and "\<And>j. i \<le> j \<Longrightarrow> j < i + n \<Longrightarrow> xs ! j = ys ! j" and "i + n \<le> length xs"
  shows "slice i n xs = slice i n ys"
  by (rule nth_equalityI) (use assms in \<open>simp_all add: nth_slice\<close>)

text \<open>
  A body whose result has the size of a sample converts every sample that the strides reach, and
  leaves the other bytes of the destination alone.
\<close>

lemma strided_plain:
  assumes "\<And>x. length x = sn \<Longrightarrow> length (f x) = dn" and "1 \<le> b"
    and "strides_fit src s sn a n" and "strides_fit dst d dn b n"
  shows "\<exists>dst'. strided (plain f) sn dn n (int a) (int b) (int s) (int d) src dst g = Inr (dst', g) \<and>
    length dst' = length dst \<and>
    (\<forall>k < n. slice (d + k * b * dn) dn dst' = f (slice (s + k * a * sn) sn src)) \<and>
    (\<forall>j < length dst. \<not> on_samples d dn b n j \<longrightarrow> dst' ! j = dst ! j)"
  using assms(3,4)
proof (induction n arbitrary: s d dst)
  case 0
  then show ?case by simp
next
  case (Suc n)
  note fs = strides_fit_Suc [OF Suc.prems(1)] and fd = strides_fit_Suc [OF Suc.prems(2)]
  let ?x = "slice s sn src"
  let ?dst = "take d dst @ f ?x @ drop (d + dn) dst"
  have lx: "length (f ?x) = dn" using assms(1) fs by simp
  have ld: "length ?dst = length dst" using lx fd by simp
  have "strides_fit ?dst (d + b * dn) dn b n" using conjunct2 [OF fd] unfolding strides_fit_def ld .
  from Suc.IH [OF conjunct2 [OF fs] this] obtain dst' where
    r: "strided (plain f) sn dn n (int a) (int b) (int (s + a * sn)) (int (d + b * dn)) src ?dst g = Inr (dst', g)"
    and l: "length dst' = length dst"
    and conv: "\<forall>k < n. slice (d + b * dn + k * b * dn) dn dst' = f (slice (s + a * sn + k * a * sn) sn src)"
    and rest: "\<forall>j < length dst. \<not> on_samples (d + b * dn) dn b n j \<longrightarrow> dst' ! j = ?dst ! j"
    using ld by auto
  have off: "\<not> on_samples (d + b * dn) dn b n j" if "j < d + dn" for j
  proof -
    have "dn \<le> b * dn" using mult_le_mono1 [OF assms(2), of dn] by simp
    with that have "j < d + b * dn + k * b * dn" for k by linarith
    then show ?thesis by (meson on_samples_iff not_le)
  qed
  have "slice d dn dst' = slice d dn ?dst"
    by (rule slice_cong) (use l ld rest fd off in auto)
  also have "\<dots> = f ?x" using fd lx by (intro slice_append_mid2) simp_all
  finally have first: "slice d dn dst' = f ?x" .
  have conv': "slice (d + k * b * dn) dn dst' = f (slice (s + k * a * sn) sn src)" if k: "k < Suc n" for k
  proof (cases k)
    case (Suc m)
    with k have "m < n" by simp
    with conv have "slice (d + b * dn + m * b * dn) dn dst' = f (slice (s + a * sn + m * a * sn) sn src)" by blast
    then show ?thesis using Suc by (simp add: algebra_simps)
  qed (use first in simp)
  have "dst' ! j = dst ! j" if "j < length dst" "\<not> on_samples d dn b (Suc n) j" for j
  proof -
    have "\<not> (d \<le> j \<and> j < d + dn)" and "\<not> on_samples (d + b * dn) dn b n j"
      using that(2) by (simp_all add: on_samples_Suc)
    then show ?thesis using rest that(1) lx fd by (auto simp: nth_append)
  qed
  moreover have "strided (plain f) sn dn (Suc n) (int a) (int b) (int s) (int d) src dst g = Inr (dst', g)"
    using fs fd lx r by (simp add: load_at store_at plain_def)
  ultimately show ?case using l conv' by auto
qed

text \<open>
  What the loop needs of its body, when the body keeps an invariant of the dither generator: it then
  runs to its end.
\<close>

lemma strided_total:
  assumes "\<And>k g. k < n \<Longrightarrow> Inv g \<Longrightarrow>
      \<exists>y g'. f (slice (s + k * a * sn) sn src) g = Inr (y, g') \<and> length y = dn \<and> Inv g'"
    and "1 \<le> b" and "strides_fit src s sn a n" and "strides_fit dst d dn b n" and "Inv g"
  shows "\<exists>dst' g'. strided f sn dn n (int a) (int b) (int s) (int d) src dst g = Inr (dst', g') \<and>
    length dst' = length dst \<and> Inv g'"
  using assms(1,3,4,5)
proof (induction n arbitrary: s d dst g)
  case 0
  then show ?case by simp
next
  case (Suc n)
  note fs = strides_fit_Suc [OF Suc.prems(2)] and fd = strides_fit_Suc [OF Suc.prems(3)]
  from Suc.prems(1) [of 0 g] Suc.prems(4) obtain y g1 where
    y: "f (slice s sn src) g = Inr (y, g1)" "length y = dn" "Inv g1" by auto
  let ?dst = "take d dst @ y @ drop (d + dn) dst"
  have ld: "length ?dst = length dst" using y fd by simp
  have fd': "strides_fit ?dst (d + b * dn) dn b n" using conjunct2 [OF fd] unfolding strides_fit_def ld .
  have body: "\<exists>y g'. f (slice (s + a * sn + k * a * sn) sn src) g = Inr (y, g') \<and> length y = dn \<and> Inv g'"
    if "k < n" "Inv g" for k g
    using Suc.prems(1) [of "Suc k" g] that by (simp add: algebra_simps)
  from Suc.IH [OF body conjunct2 [OF fs] fd' y(3)] obtain dst' g' where
    "strided f sn dn n (int a) (int b) (int (s + a * sn)) (int (d + b * dn)) src ?dst g1 = Inr (dst', g')"
    "length dst' = length ?dst" "Inv g'" by blast
  then show ?case using fs fd y ld by (simp add: load_at store_at)
qed

lemma strided_cong:
  assumes "\<And>k. k < n \<Longrightarrow> f (slice (s + k * a * sn) sn src) = f' (slice (s + k * a * sn) sn src)"
    and "strides_fit src s sn a n"
  shows "strided f sn dn n (int a) (int b) (int s) d src dst g = strided f' sn dn n (int a) (int b) (int s) d src dst g"
  using assms
proof (induction n arbitrary: s d dst g)
  case (Suc n)
  note fs = strides_fit_Suc [OF Suc.prems(2)]
  have "f (slice (s + a * sn + k * a * sn) sn src) = f' (slice (s + a * sn + k * a * sn) sn src)" if "k < n" for k
    using Suc.prems(1) [of "Suc k"] that by (simp add: algebra_simps)
  from Suc.IH [OF this conjunct2 [OF fs]] fs Suc.prems(1) [of 0]
  show ?case by (simp add: load_at)
qed simp

section \<open>What the bodies compute\<close>

text \<open>
  A sample of an integer format stands for the leading bits of a 32 bit sample; for an unsigned
  byte after 128 is taken off. \<open>keep w\<close> clears all but the \<open>w\<close> leading bits.
\<close>

fun sample_bits :: "sample_type \<Rightarrow> nat" where
  "sample_bits Float32 = 32"
| "sample_bits Int32 = 32"
| "sample_bits Int24 = 24"
| "sample_bits Int16 = 16"
| "sample_bits Int8 = 8"
| "sample_bits UInt8 = 8"

definition sample_bytes :: "sample_type \<Rightarrow> nat" where
  "sample_bytes t = sample_bits t div 8"

fun leading :: "platform \<Rightarrow> sample_type \<Rightarrow> bytes \<Rightarrow> i32" where
  "leading p Float32 x = rd32 p x"
| "leading p Int32 x = rd32 p x"
| "leading p Int24 x = rd24 p x"
| "leading p Int16 x = push_bit 16 (ucast (rd16 p x))"
| "leading p Int8 x = push_bit 24 (ucast (x ! 0))"
| "leading p UInt8 x = push_bit 24 (ucast (x ! 0 - 128))"

definition keep :: "nat \<Rightarrow> i32 \<Rightarrow> i32" where
  "keep w l = push_bit (32 - w) (drop_bit (32 - w) l)"

lemma bit_keep: "w \<le> 32 \<Longrightarrow> bit (keep w l) n \<longleftrightarrow> 32 - w \<le> n \<and> bit l n"
  by (auto simp: keep_def bit_simps dest: bit_imp_le_length)

lemma keep_32 [simp]: "keep 32 l = l"
  by (simp add: keep_def)

lemma keep_keep: "v \<le> w \<Longrightarrow> w \<le> 32 \<Longrightarrow> keep v (keep w l) = keep v l"
  by (rule bit_word_eqI) (auto simp: bit_keep)

lemma keep_of_keep: "v \<le> w \<Longrightarrow> w \<le> 32 \<Longrightarrow> keep w (keep v l) = keep v l"
  by (rule bit_word_eqI) (auto simp: bit_keep)

lemma keep_pushed [simp]:
  "keep 16 (push_bit 16 (ucast (w :: i16))) = push_bit 16 (ucast w)"
  "keep 8 (push_bit 24 (ucast (b :: byte))) = push_bit 24 (ucast b)"
  by (rule bit_word_eqI, auto simp: bit_keep bit_simps not_le)+

lemma ucast_add_byte: "(ucast (a + b :: i32) :: byte) = ucast a + ucast b"
  by (simp add: word_unat_eq_iff unsigned_ucast_eq unat_word_ariths take_bit_eq_mod mod_mod_cancel mod_simps)

lemma ucast_diff_byte: "(ucast (a - b :: i32) :: byte) = ucast a - ucast b"
  using ucast_add_byte [of "a - b" b] by (simp add: algebra_simps)

lemma ucast_scast_byte: "(ucast (scast (b :: byte) :: i32) :: byte) = b"
  by (rule bit_word_eqI) (auto simp: bit_simps)

lemma rd_wr [simp]:
  "rd32 p (wr32 p w) = w" "rd16 p (wr16 p v) = v" "rd24 p (wr24 p w) = keep 24 w"
proof -
  have "push_bit 8 (ucast (ucast (signed_drop_bit 8 w) :: byte)) OR
      push_bit 16 (ucast (ucast (signed_drop_bit 16 w) :: byte)) OR
      push_bit 24 (ucast (ucast (signed_drop_bit 24 w) :: byte)) = keep 24 w" (is "?l = ?r")
  proof (rule bit_word_eqI)
    fix n
    assume "n < LENGTH(32)"
    then consider "n < 8" | "8 \<le> n" "n < 16" | "16 \<le> n" "n < 24" | "24 \<le> n" "n < 32" by fastforce
    then show "bit ?l n = bit ?r n"
      by cases (auto simp: bit_keep bit_simps not_le dest!: le_Suc_ex)
  qed
  then show "rd24 p (wr24 p w) = keep 24 w"
    by (cases "byte_order p") (simp_all add: wr24_def rd24_def Let_def ac_simps)
qed (simp_all add: rd32_def wr32_def rd16_def wr16_def)

lemma length_wr [simp]: "length (wr32 p w) = 4" "length (wr16 p v) = 2" "length (wr24 p w) = 3"
  by (cases "byte_order p"; simp add: wr32_def wr16_def wr24_def Let_def)+

lemma wr_rd: "length x = 4 \<Longrightarrow> wr32 p (rd32 p x) = x" "length x = 2 \<Longrightarrow> wr16 p (rd16 p x) = x"
  using object_bytes_object_word [of x "byte_order p", where 'a = 32]
    object_bytes_object_word [of x "byte_order p", where 'a = 16]
  by (simp_all add: rd32_def wr32_def rd16_def wr16_def)

text \<open>A converter with such a body, which keeps as many of the leading bits as its format has.\<close>

definition converts :: "pa_converter \<Rightarrow> sample_type \<Rightarrow> sample_type \<Rightarrow> bool" where
  "converts conv s d \<longleftrightarrow>
     (\<exists>f. conv = each (sample_bytes s) (sample_bytes d) (\<lambda>p. plain (f p)) \<and>
        (\<forall>p x. length x = sample_bytes s \<longrightarrow> length (f p x) = sample_bytes d \<and>
           leading p d (f p x) = keep (sample_bits d) (leading p s x)))"

lemma convertsI:
  assumes "conv = each sn dn (\<lambda>p. plain (f p))" and "sn = sample_bytes s" and "dn = sample_bytes d"
    and "\<And>p x. length x = sn \<Longrightarrow> length (f p x) = dn \<and> leading p d (f p x) = keep (sample_bits d) (leading p s x)"
  shows "converts conv s d"
  unfolding converts_def by (rule exI [of _ f]) (use assms in simp)

lemmas leading_bits = ucast_add_byte ucast_diff_byte ucast_scast_byte bit_keep bit_simps not_le

lemma converts_Int32:
  "converts Int32_To_Int24 Int32 Int24" "converts Int32_To_Int16 Int32 Int16"
  "converts Int32_To_Int8 Int32 Int8" "converts Int32_To_UInt8 Int32 UInt8"
proof -
  have "push_bit 16 (ucast (ucast (signed_drop_bit 16 w) :: i16)) = keep 16 w" for w :: i32
    by (rule bit_word_eqI) (auto simp: leading_bits)
  then show "converts Int32_To_Int16 Int32 Int16"
    by (intro convertsI [OF Int32_To_Int16_def]) (simp_all add: sample_bytes_def)
  have "push_bit 24 (ucast (ucast (signed_drop_bit 24 w) :: byte)) = keep 8 w" for w :: i32
    by (rule bit_word_eqI) (auto simp: leading_bits)
  then show "converts Int32_To_Int8 Int32 Int8" "converts Int32_To_UInt8 Int32 UInt8"
    by (intro convertsI [OF Int32_To_Int8_def] convertsI [OF Int32_To_UInt8_def];
        simp add: sample_bytes_def ucast_add_byte)+
  show "converts Int32_To_Int24 Int32 Int24"
    by (intro convertsI [OF Int32_To_Int24_def]) (simp_all add: sample_bytes_def)
qed

lemma keep_rd24: "keep 24 (rd24 p x) = rd24 p x"
  by (rule bit_word_eqI; cases "byte_order p") (auto simp: rd24_def leading_bits)

lemma converts_Int24:
  "converts Int24_To_Int32 Int24 Int32" "converts Int24_To_Int16 Int24 Int16"
  "converts Int24_To_Int8 Int24 Int8" "converts Int24_To_UInt8 Int24 UInt8"
proof -
  have "push_bit 16 (ucast ((case byte_order p of
          LittleEndian \<Rightarrow> ucast (x ! 1) OR push_bit 8 (ucast (x ! 2))
        | BigEndian \<Rightarrow> push_bit 8 (ucast (x ! 0)) OR ucast (x ! 1)) :: i16)) = keep 16 (rd24 p x)" for p x
    by (rule bit_word_eqI; cases "byte_order p") (auto simp: rd24_def leading_bits)
  then show "converts Int24_To_Int16 Int24 Int16"
    by (intro convertsI [OF Int24_To_Int16_def]) (simp_all add: sample_bytes_def)
  have "push_bit 24 (ucast (case byte_order p of LittleEndian \<Rightarrow> x ! 2 | BigEndian \<Rightarrow> x ! 0)) =
      keep 8 (rd24 p x)" for p x
    by (rule bit_word_eqI; cases "byte_order p") (auto simp: rd24_def leading_bits)
  then show "converts Int24_To_Int8 Int24 Int8" "converts Int24_To_UInt8 Int24 UInt8"
    by (intro convertsI [OF Int24_To_Int8_def] convertsI [OF Int24_To_UInt8_def];
        simp add: sample_bytes_def)+
  show "converts Int24_To_Int32 Int24 Int32"
    by (intro convertsI [OF Int24_To_Int32_def]) (simp_all add: sample_bytes_def)
qed

lemma converts_Int16:
  "converts Int16_To_Int32 Int16 Int32" "converts Int16_To_Int24 Int16 Int24"
  "converts Int16_To_Int8 Int16 Int8" "converts Int16_To_UInt8 Int16 UInt8"
proof -
  have "push_bit 16 (scast w) = (push_bit 16 (ucast w) :: i32)" for w :: i16
    by (rule bit_word_eqI) (auto simp: leading_bits)
  then show "converts Int16_To_Int32 Int16 Int32"
    by (intro convertsI [OF Int16_To_Int32_def]) (simp_all add: sample_bytes_def)
  have "push_bit 16 (ucast (ucast w :: byte)) OR push_bit 24 (ucast (ucast (signed_drop_bit 8 w) :: byte)) =
      keep 24 (push_bit 16 (ucast w))" (is "?l w = ?r w") for w :: i16
  proof (rule bit_word_eqI)
    fix n
    show "bit (?l w) n = bit (?r w) n"
      by (cases "24 \<le> n") (auto simp: leading_bits dest!: le_Suc_ex)
  qed
  then show "converts Int16_To_Int24 Int16 Int24"
    by (intro convertsI [OF Int16_To_Int24_def])
      (simp_all add: sample_bytes_def Let_def rd24_def ac_simps split: endian.split)
  have "push_bit 24 (ucast (ucast (signed_drop_bit 8 w) :: byte)) = keep 8 (push_bit 16 (ucast w))"
    "push_bit 24 (ucast (ucast (signed_drop_bit 8 (scast w :: i32)) :: byte)) = keep 8 (push_bit 16 (ucast w))"
    for w :: i16
    by (rule bit_word_eqI, auto simp: leading_bits)+
  then show "converts Int16_To_Int8 Int16 Int8" "converts Int16_To_UInt8 Int16 UInt8"
    by (intro convertsI [OF Int16_To_Int8_def] convertsI [OF Int16_To_UInt8_def];
        simp add: sample_bytes_def ucast_add_byte)+
qed

lemma converts_Int8:
  "converts Int8_To_Int32 Int8 Int32" "converts Int8_To_Int24 Int8 Int24"
  "converts Int8_To_Int16 Int8 Int16" "converts Int8_To_UInt8 Int8 UInt8"
proof -
  have "push_bit 24 (scast b) = (push_bit 24 (ucast b) :: i32)"
    "push_bit 24 (ucast b) = keep 24 (push_bit 24 (ucast b))" "push_bit 24 (ucast b) = keep 8 (push_bit 24 (ucast b))"
    "push_bit 16 (ucast (ucast (push_bit 8 (scast b :: i32)) :: i16)) = keep 16 (push_bit 24 (ucast b))"
    for b :: byte
    by (rule bit_word_eqI, auto simp: leading_bits)+
  then show "converts Int8_To_Int32 Int8 Int32" "converts Int8_To_Int24 Int8 Int24"
    "converts Int8_To_Int16 Int8 Int16" "converts Int8_To_UInt8 Int8 UInt8"
    by (intro convertsI [OF Int8_To_Int32_def] convertsI [OF Int8_To_Int24_def]
          convertsI [OF Int8_To_Int16_def] convertsI [OF Int8_To_UInt8_def];
        simp add: sample_bytes_def ucast_add_byte ucast_scast_byte rd24_def split: endian.split)+
qed

lemma converts_UInt8:
  "converts UInt8_To_Int32 UInt8 Int32" "converts UInt8_To_Int24 UInt8 Int24"
  "converts UInt8_To_Int16 UInt8 Int16" "converts UInt8_To_Int8 UInt8 Int8"
proof -
  have "push_bit 24 w = (push_bit 24 (ucast (ucast w :: byte)) :: i32)"
    "push_bit 16 (ucast (ucast (push_bit 8 w) :: i16)) = keep 16 (push_bit 24 (ucast (ucast w :: byte)))"
    for w :: i32
    by (rule bit_word_eqI, auto simp: leading_bits)+
  from this [of "ucast b - 128" for b :: byte]
  have "push_bit 24 (ucast b - 128) = (push_bit 24 (ucast (b - 128)) :: i32)"
    "push_bit 16 (ucast (ucast (push_bit 8 (ucast b - 128 :: i32)) :: i16)) = keep 16 (push_bit 24 (ucast (b - 128)))"
    for b :: byte
    by (simp_all add: ucast_diff_byte)
  moreover have "push_bit 24 (ucast b) = keep 24 (push_bit 24 (ucast b))"
    "push_bit 24 (ucast b) = keep 8 (push_bit 24 (ucast b))" for b :: byte
    by (rule bit_word_eqI, auto simp: leading_bits)+
  ultimately show "converts UInt8_To_Int32 UInt8 Int32" "converts UInt8_To_Int24 UInt8 Int24"
    "converts UInt8_To_Int16 UInt8 Int16" "converts UInt8_To_Int8 UInt8 Int8"
    by (intro convertsI [OF UInt8_To_Int32_def] convertsI [OF UInt8_To_Int24_def]
          convertsI [OF UInt8_To_Int16_def] convertsI [OF UInt8_To_Int8_def];
        simp add: sample_bytes_def ucast_diff_byte rd24_def Let_def split: endian.split)+
qed

lemma converts_Copy:
  "converts Copy_32_To_32 Int32 Int32" "converts Copy_24_To_24 Int24 Int24"
  "converts Copy_16_To_16 Int16 Int16" "converts Copy_8_To_8 Int8 Int8" "converts Copy_8_To_8 UInt8 UInt8"
  "converts Copy_32_To_32 Float32 Float32"
proof -
  have "push_bit 16 (ucast w) = keep 16 (push_bit 16 (ucast w))" for w :: i16
    by (rule bit_word_eqI) (auto simp: leading_bits)
  moreover have "push_bit 24 (ucast b) = keep 8 (push_bit 24 (ucast b))" for b :: byte
    by (rule bit_word_eqI) (auto simp: leading_bits)
  ultimately show "converts Copy_32_To_32 Int32 Int32" "converts Copy_24_To_24 Int24 Int24"
    "converts Copy_16_To_16 Int16 Int16" "converts Copy_8_To_8 Int8 Int8" "converts Copy_8_To_8 UInt8 UInt8"
    "converts Copy_32_To_32 Float32 Float32"
    by (intro convertsI [OF Copy_32_To_32_def] convertsI [OF Copy_24_To_24_def]
          convertsI [OF Copy_16_To_16_def] convertsI [OF Copy_8_To_8_def];
        simp add: sample_bytes_def keep_rd24)+
qed

end
