(* ===== verification/PaConvFloat.thy ===== *)
theory PaConvFloat
  imports PaConvInt Float32
begin

unbundle bit_operations_syntax

text \<open>
  The sample converters from and to single-precision floats
  (\<open>src/external/portaudio/src/common/pa_converters.c\<close>, lines 334 to 900, and the other
  \<open>_To_Float32\<close> functions) and the float dither of \<open>pa_dither.c\<close>.

  A \<open>float\<close> or \<open>double\<close> is a rational, an infinity or NaN; every operation rounds to nearest, ties to
  even, with the exponent range of its type, as on x86-64. The macro \<open>PA_USE_C99_LRINTF\<close> is not
  defined. A conversion to an integer type that cannot hold the truncated value is undefined.
\<close>

section \<open>Floating point\<close>

definition round_even :: "rat \<Rightarrow> int" where
  "round_even x =
     (let f = \<lfloor>x\<rfloor>; r = x - of_int f
      in if r < 1 / 2 then f else if 1 / 2 < r then f + 1 else if even f then f else f + 1)"

definition pow2 :: "int \<Rightarrow> rat" where
  "pow2 e = (if 0 \<le> e then 2 ^ nat e else 1 / 2 ^ nat (- e))"

text \<open>The exponent of the leading bit of \<open>x > 0\<close>.\<close>

definition exponent_of :: "rat \<Rightarrow> int" where
  "exponent_of x =
     (case quotient_of x of (a, b) \<Rightarrow>
        let e = int (bit_length (nat a)) - int (bit_length (nat b))
        in if pow2 e \<le> x then e else e - 1)"

text \<open>Rounding to \<open>p\<close> significant bits with largest exponent \<open>emax\<close>.\<close>

definition fround :: "nat \<Rightarrow> int \<Rightarrow> rat \<Rightarrow> f64" where
  "fround p emax x =
     (if x = 0 then Fin 0
      else (let q = max (exponent_of \<bar>x\<bar>) (1 - emax) - int (p - 1);
                y = of_int (round_even (x / pow2 q)) * pow2 q
            in if \<bar>y\<bar> < pow2 (emax + 1) then Fin y else if 0 < x then PosInf else NegInf))"

abbreviation fl :: "rat \<Rightarrow> f64" where "fl \<equiv> fround 24 127"
abbreviation dbl :: "rat \<Rightarrow> f64" where "dbl \<equiv> fround 53 1023"

text \<open>The product with a positive constant, the sum, \<open>PA_CLIP_\<close> and the conversion to an integer.\<close>

fun scale_by :: "(rat \<Rightarrow> f64) \<Rightarrow> rat \<Rightarrow> f64 \<Rightarrow> f64" where
  "scale_by rnd c (Fin x) = rnd (c * x)"
| "scale_by rnd c v = v"

fun plus_f :: "(rat \<Rightarrow> f64) \<Rightarrow> f64 \<Rightarrow> f64 \<Rightarrow> f64" where
  "plus_f rnd (Fin x) (Fin y) = rnd (x + y)"
| "plus_f rnd NaN v = NaN"
| "plus_f rnd v NaN = NaN"
| "plus_f rnd PosInf NegInf = NaN"
| "plus_f rnd NegInf PosInf = NaN"
| "plus_f rnd PosInf v = PosInf"
| "plus_f rnd NegInf v = NegInf"
| "plus_f rnd v w = w"

definition to_double :: "f64 \<Rightarrow> f64" where
  "to_double v = v"

definition clip_f :: "rat \<Rightarrow> rat \<Rightarrow> f64 \<Rightarrow> f64" where
  "clip_f lo hi v = (if f64_less v (Fin lo) then Fin lo else if f64_less (Fin hi) v then Fin hi else v)"

definition clip_i :: "int \<Rightarrow> int \<Rightarrow> int \<Rightarrow> int" where
  "clip_i lo hi v = (if v < lo then lo else if v > hi then hi else v)"

definition trunc_rat :: "rat \<Rightarrow> int" where
  "trunc_rat x = (if 0 \<le> x then \<lfloor>x\<rfloor> else - \<lfloor>- x\<rfloor>)"

definition to_int :: "int \<Rightarrow> int \<Rightarrow> f64 \<Rightarrow> int result" where
  "to_int lo hi v =
     (case v of Fin x \<Rightarrow> if lo \<le> trunc_rat x \<and> trunc_rat x \<le> hi then Inr (trunc_rat x) else Inl Undefined_behaviour
      | _ \<Rightarrow> Inl Undefined_behaviour)"

abbreviation to_PaInt32 :: "f64 \<Rightarrow> int result" where "to_PaInt32 \<equiv> to_int (- 2147483648) 2147483647"
abbreviation to_short :: "f64 \<Rightarrow> int result" where "to_short \<equiv> to_int (- 32768) 32767"
abbreviation to_schar :: "f64 \<Rightarrow> int result" where "to_schar \<equiv> to_int (- 128) 127"
abbreviation to_uchar :: "f64 \<Rightarrow> int result" where "to_uchar \<equiv> to_int 0 255"

text \<open>The object representation of a \<open>float\<close>: sign, biased exponent, fraction.\<close>

definition float_of_bits :: "u32 \<Rightarrow> f64" where
  "float_of_bits w =
     (let n = unat w; e = n div 2 ^ 23 mod 256; m = n mod 2 ^ 23;
          s = (if 2 ^ 31 \<le> n then -1 else 1 :: rat)
      in if e = 255 then (if m \<noteq> 0 then NaN else if s = 1 then PosInf else NegInf)
         else if e = 0 then Fin (s * of_nat m * pow2 (- 149))
         else Fin (s * of_nat (2 ^ 23 + m) * pow2 (int e - 150)))"

definition bits_of_float :: "f64 \<Rightarrow> u32" where
  "bits_of_float v =
     (case v of NaN \<Rightarrow> 0x7FC00000 | PosInf \<Rightarrow> 0x7F800000 | NegInf \<Rightarrow> 0xFF800000
      | Fin x \<Rightarrow> if x = 0 then 0
          else (let e = max (exponent_of \<bar>x\<bar>) (- 126);
                    m = nat (round_even (\<bar>x\<bar> / pow2 (e - 23)));
                    s = (if x < 0 then 2 ^ 31 else 0 :: nat)
                in of_nat (s + (if m < 2 ^ 23 then m else nat (e + 127) * 2 ^ 23 + (m - 2 ^ 23)))))"

definition rdf :: "platform \<Rightarrow> bytes \<Rightarrow> f64" where
  "rdf p x = float_of_bits (rd32 p x)"

definition wrf :: "platform \<Rightarrow> f64 \<Rightarrow> bytes" where
  "wrf p v = wr32 p (bits_of_float v)"

section \<open>Dither\<close>

text \<open>
  \<open>PaUtil_GenerateFloatTriangularDither\<close> repeats the code of the integer generator and scales its
  result.
\<close>

definition const_float_dither_scale :: f64 where
  "const_float_dither_scale = fl (1 / 32767)"

definition PaUtil_GenerateFloatTriangularDither :: "dither_generator \<Rightarrow> (f64 \<times> dither_generator) result" where
  "PaUtil_GenerateFloatTriangularDither state =
     bind_r (PaUtil_Generate16BitTriangularDither state) (\<lambda>(highPass, state).
       Inr (case const_float_dither_scale of Fin c \<Rightarrow> fl (of_int highPass * c) | v \<Rightarrow> v, state))"

section \<open>Bodies\<close>

text \<open>A body without dither: scale, convert, write.\<close>

definition undithered :: "(bytes \<Rightarrow> int result) \<Rightarrow> (int \<Rightarrow> bytes) \<Rightarrow> bytes \<Rightarrow> dithered" where
  "undithered conv out x g = bind_r (conv x) (\<lambda>t. Inr (out t, g))"

text \<open>With dither: the scaled sample plus the next dither value, in precision \<open>rnd\<close>.\<close>

definition with_dither ::
  "(rat \<Rightarrow> f64) \<Rightarrow> rat \<Rightarrow> (bytes \<Rightarrow> f64) \<Rightarrow> (f64 \<Rightarrow> int result) \<Rightarrow> (int \<Rightarrow> bytes) \<Rightarrow> bytes \<Rightarrow> dithered" where
  "with_dither rnd c rd conv out x g =
     bind_r (PaUtil_GenerateFloatTriangularDither g) (\<lambda>(dither, g).
       let dithered = plus_f rnd (scale_by rnd c (rd x)) dither in
       bind_r (conv dithered) (\<lambda>t. Inr (out t, g)))"

definition out32 :: "platform \<Rightarrow> int \<Rightarrow> bytes" where "out32 p t = wr32 p (word_of_int t)"
definition out24 :: "platform \<Rightarrow> int \<Rightarrow> bytes" where "out24 p t = wr24 p (word_of_int t)"
definition out16 :: "platform \<Rightarrow> int \<Rightarrow> bytes" where "out16 p t = wr16 p (word_of_int t)"
definition out8 :: "int \<Rightarrow> bytes" where "out8 t = [word_of_int t]"

text \<open>\<open>0x7FFFFFFF\<close> becomes the float \<open>2147483648\<close> when it is multiplied with one.\<close>

definition Float32_To_Int32 :: pa_converter where
  "Float32_To_Int32 = each 4 4 (\<lambda>p. undithered (\<lambda>x.
     to_PaInt32 (to_double (scale_by fl 2147483648 (rdf p x)))) (out32 p))"

definition Float32_To_Int32_Dither :: pa_converter where
  "Float32_To_Int32_Dither = each 4 4 (\<lambda>p. with_dither dbl 2147483646 (rdf p) to_PaInt32 (out32 p))"

definition Float32_To_Int32_Clip :: pa_converter where
  "Float32_To_Int32_Clip = each 4 4 (\<lambda>p. undithered (\<lambda>x.
     to_PaInt32 (clip_f (- 2147483648) 2147483647 (to_double (scale_by fl 2147483648 (rdf p x))))) (out32 p))"

definition Float32_To_Int32_DitherClip :: pa_converter where
  "Float32_To_Int32_DitherClip = each 4 4 (\<lambda>p. with_dither dbl 2147483646 (rdf p)
     (\<lambda>v. to_PaInt32 (clip_f (- 2147483648) 2147483647 v)) (out32 p))"

definition Float32_To_Int24 :: pa_converter where
  "Float32_To_Int24 = each 4 3 (\<lambda>p. undithered (\<lambda>x.
     to_PaInt32 (scale_by dbl 2147483647 (rdf p x))) (out24 p))"

definition Float32_To_Int24_Dither :: pa_converter where
  "Float32_To_Int24_Dither = each 4 3 (\<lambda>p. with_dither dbl 2147483646 (rdf p) to_PaInt32 (out24 p))"

definition Float32_To_Int24_Clip :: pa_converter where
  "Float32_To_Int24_Clip = each 4 3 (\<lambda>p. undithered (\<lambda>x.
     to_PaInt32 (clip_f (- 2147483648) 2147483647 (to_double (scale_by fl 2147483648 (rdf p x))))) (out24 p))"

definition Float32_To_Int24_DitherClip :: pa_converter where
  "Float32_To_Int24_DitherClip = each 4 3 (\<lambda>p. with_dither dbl 2147483646 (rdf p)
     (\<lambda>v. to_PaInt32 (clip_f (- 2147483648) 2147483647 v)) (out24 p))"

definition Float32_To_Int16 :: pa_converter where
  "Float32_To_Int16 = each 4 2 (\<lambda>p. undithered (\<lambda>x. to_short (scale_by fl 32767 (rdf p x))) (out16 p))"

definition Float32_To_Int16_Dither :: pa_converter where
  "Float32_To_Int16_Dither = each 4 2 (\<lambda>p. with_dither fl 32766 (rdf p) to_short (out16 p))"

definition Float32_To_Int16_Clip :: pa_converter where
  "Float32_To_Int16_Clip = each 4 2 (\<lambda>p. undithered (\<lambda>x.
     bind_r (to_PaInt32 (scale_by fl 32767 (rdf p x))) (\<lambda>samp. Inr (clip_i (- 0x8000) 0x7FFF samp))) (out16 p))"

definition Float32_To_Int16_DitherClip :: pa_converter where
  "Float32_To_Int16_DitherClip = each 4 2 (\<lambda>p. with_dither fl 32766 (rdf p)
     (\<lambda>v. bind_r (to_PaInt32 v) (\<lambda>samp. Inr (clip_i (- 0x8000) 0x7FFF samp))) (out16 p))"

definition Float32_To_Int8 :: pa_converter where
  "Float32_To_Int8 = each 4 1 (\<lambda>p. undithered (\<lambda>x. to_schar (scale_by fl 127 (rdf p x))) out8)"

definition Float32_To_Int8_Dither :: pa_converter where
  "Float32_To_Int8_Dither = each 4 1 (\<lambda>p. with_dither fl 126 (rdf p) to_PaInt32 out8)"

definition Float32_To_Int8_Clip :: pa_converter where
  "Float32_To_Int8_Clip = each 4 1 (\<lambda>p. undithered (\<lambda>x.
     bind_r (to_PaInt32 (scale_by fl 127 (rdf p x))) (\<lambda>samp. Inr (clip_i (- 0x80) 0x7F samp))) out8)"

definition Float32_To_Int8_DitherClip :: pa_converter where
  "Float32_To_Int8_DitherClip = each 4 1 (\<lambda>p. with_dither fl 126 (rdf p)
     (\<lambda>v. bind_r (to_PaInt32 v) (\<lambda>samp. Inr (clip_i (- 0x80) 0x7F samp))) out8)"

definition Float32_To_UInt8 :: pa_converter where
  "Float32_To_UInt8 = each 4 1 (\<lambda>p. undithered (\<lambda>x.
     bind_r (to_uchar (scale_by fl 127 (rdf p x))) (\<lambda>c. Inr (128 + c))) out8)"

definition Float32_To_UInt8_Dither :: pa_converter where
  "Float32_To_UInt8_Dither = each 4 1 (\<lambda>p. with_dither fl 126 (rdf p)
     (\<lambda>v. bind_r (to_PaInt32 v) (\<lambda>samp. int32_result (128 + samp))) out8)"

definition Float32_To_UInt8_Clip :: pa_converter where
  "Float32_To_UInt8_Clip = each 4 1 (\<lambda>p. undithered (\<lambda>x.
     bind_r (to_PaInt32 (scale_by fl 127 (rdf p x))) (\<lambda>t.
     bind_r (int32_result (128 + t)) (\<lambda>samp. Inr (clip_i 0 0xFF samp)))) out8)"

definition Float32_To_UInt8_DitherClip :: pa_converter where
  "Float32_To_UInt8_DitherClip = each 4 1 (\<lambda>p. with_dither fl 126 (rdf p)
     (\<lambda>v. bind_r (to_PaInt32 v) (\<lambda>t.
        bind_r (int32_result (128 + t)) (\<lambda>samp. Inr (clip_i 0 0xFF samp)))) out8)"

section \<open>To float\<close>

definition int_to_float :: "rat \<Rightarrow> int \<Rightarrow> f64" where
  "int_to_float c t = fl (of_int t * c)"

definition Int32_To_Float32 :: pa_converter where
  "Int32_To_Float32 = each 4 4 (\<lambda>p. plain (\<lambda>x.
     wrf p (scale_by fl 1 (dbl (of_int (sint (rd32 p x)) * (1 / 2147483648))))))"

definition Int24_To_Float32 :: pa_converter where
  "Int24_To_Float32 = each 3 4 (\<lambda>p. plain (\<lambda>x.
     wrf p (scale_by fl 1 (dbl (of_int (sint (rd24 p x)) * (1 / 2147483648))))))"

definition Int16_To_Float32 :: pa_converter where
  "Int16_To_Float32 = each 2 4 (\<lambda>p. plain (\<lambda>x. wrf p (int_to_float (1 / 32768) (sint (rd16 p x)))))"

definition Int8_To_Float32 :: pa_converter where
  "Int8_To_Float32 = each 1 4 (\<lambda>p. plain (\<lambda>x. wrf p (int_to_float (1 / 128) (sint (x ! 0)))))"

definition UInt8_To_Float32 :: pa_converter where
  "UInt8_To_Float32 = each 1 4 (\<lambda>p. plain (\<lambda>x. wrf p (int_to_float (1 / 128) (uint (x ! 0) - 128))))"

section \<open>Rounding\<close>

lemma pow2_add: "pow2 (a + b) = pow2 a * pow2 b"
proof -
  have "pow2 e = power_int 2 e" for e by (simp add: pow2_def power_int_def field_simps)
  then show ?thesis by (simp add: power_int_add)
qed

lemma pow2_pos [simp]: "0 < pow2 e" "pow2 e \<noteq> 0"
  by (simp_all add: pow2_def)

lemma pow2_1 [simp]: "pow2 1 = 2"
  by (simp add: pow2_def)

lemma pow2_nat: "pow2 (int n) = 2 ^ n"
  by (simp add: pow2_def)

lemma pow2_diff: "pow2 (a - b) = pow2 a / pow2 b"
  using pow2_add [of "a - b" b] by (simp add: field_simps)

lemma pow2_mono: "a \<le> b \<Longrightarrow> pow2 a \<le> pow2 b"
proof -
  assume "a \<le> b"
  then have "pow2 b = pow2 a * 2 ^ nat (b - a)" using pow2_add [of a "b - a"] pow2_nat [of "nat (b - a)"] by simp
  then show ?thesis using mult_left_mono [of 1 "2 ^ nat (b - a)" "pow2 a"] less_imp_le [OF pow2_pos(1) [of a]] by simp
qed

lemma pow2_less: "pow2 a < pow2 b \<Longrightarrow> a < b"
  using pow2_mono [of b a] by linarith

lemma bit_length_bounds: "0 < n \<Longrightarrow> 2 ^ (bit_length n - 1) \<le> n \<and> n < 2 ^ bit_length n \<and> 0 < bit_length n"
proof (induction n rule: bit_length.induct)
  case (1 n)
  show ?case
  proof (cases "n = 1")
    case True
    then show ?thesis by (simp add: bit_length.simps)
  next
    case False
    with 1 have h: "0 < n div 2" "2 ^ (bit_length (n div 2) - 1) \<le> n div 2" "n div 2 < 2 ^ bit_length (n div 2)"
      "0 < bit_length (n div 2)" by auto
    have b: "bit_length n = Suc (bit_length (n div 2))" using 1(2) by (simp add: bit_length.simps [of n])
    obtain k where "bit_length (n div 2) = Suc k" using h(4) by (cases "bit_length (n div 2)") auto
    then show ?thesis using h b by auto
  qed
qed

lemma bit_length_pred: "0 < n \<Longrightarrow> 2 ^ (bit_length n - 1) \<le> n \<and> n < 2 * 2 ^ (bit_length n - 1)"
  using bit_length_bounds [of n] by (cases "bit_length n") auto

lemma exponent_of_bounds:
  assumes "0 < x"
  shows "pow2 (exponent_of x) \<le> x \<and> x < pow2 (exponent_of x + 1)"
proof -
  obtain a b where q: "quotient_of x = (a, b)" by (cases "quotient_of x")
  have b: "0 < b" and x: "x = of_int a / of_int b"
    using quotient_of_denom_pos [OF q] quotient_of_div [OF q] by simp_all
  have a: "0 < a" using assms b x by (simp add: zero_less_divide_iff)
  let ?m = "bit_length (nat a)" and ?n = "bit_length (nat b)"
  have "2 ^ (?m - 1) \<le> nat a" "nat a < 2 ^ ?m" "2 ^ (?n - 1) \<le> nat b" "nat b < 2 ^ ?n" and mn: "0 < ?m" "0 < ?n"
    using bit_length_bounds [of "nat a"] bit_length_bounds [of "nat b"] a b by simp_all
  then have "of_nat (2 ^ (?m - 1)) \<le> (of_nat (nat a) :: rat)" "of_nat (nat a) < (of_nat (2 ^ ?m) :: rat)"
    "of_nat (2 ^ (?n - 1)) \<le> (of_nat (nat b) :: rat)" "of_nat (nat b) < (of_nat (2 ^ ?n) :: rat)"
    by (simp_all only: of_nat_le_iff of_nat_less_iff)
  then have ab: "2 ^ (?m - 1) \<le> (of_int a :: rat)" "of_int a < (2 ^ ?m :: rat)"
    "2 ^ (?n - 1) \<le> (of_int b :: rat)" "of_int b < (2 ^ ?n :: rat)"
    using a b by simp_all
  have "x < 2 ^ ?m / 2 ^ (?n - 1)" unfolding x
    using ab a b by (intro frac_less) simp_all
  also have "\<dots> = pow2 (int ?m - int ?n + 1)"
    using mn(2) by (cases ?n) (simp_all add: pow2_add pow2_diff pow2_nat flip: of_nat_Suc)
  finally have hi: "x < pow2 (int ?m - int ?n + 1)" .
  have "pow2 (int ?m - int ?n - 1) = 2 ^ (?m - 1) / 2 ^ ?n"
    using mn(1) by (cases ?m) (simp_all add: pow2_diff pow2_nat flip: of_nat_Suc)
  also have "\<dots> \<le> x" unfolding x using ab a b by (intro frac_le) simp_all
  finally have lo: "pow2 (int ?m - int ?n - 1) \<le> x" .
  show ?thesis using hi lo by (auto simp: exponent_of_def q Let_def)
qed

lemma exponent_of_eq: "pow2 e \<le> x \<Longrightarrow> x < pow2 (e + 1) \<Longrightarrow> exponent_of x = e"
proof -
  assume x: "pow2 e \<le> x" "x < pow2 (e + 1)"
  then have "0 < x" using pow2_pos(1) [of e] by linarith
  with exponent_of_bounds [of x] x have "pow2 e < pow2 (exponent_of x + 1)" "pow2 (exponent_of x) < pow2 (e + 1)"
    by linarith+
  then have "e < exponent_of x + 1" "exponent_of x < e + 1" using pow2_less by blast+
  then show ?thesis by simp
qed

lemma round_even_of_int [simp]: "round_even (of_int n) = n"
  by (simp add: round_even_def)

lemma round_even_cases: "round_even z = \<lfloor>z\<rfloor> \<or> round_even z = \<lfloor>z\<rfloor> + 1 \<and> 1 / 2 \<le> z - of_int \<lfloor>z\<rfloor>"
  by (auto simp: round_even_def Let_def)

lemma round_even_ge: "of_int n \<le> z \<Longrightarrow> n \<le> round_even z"
  using round_even_cases [of z] le_floor_iff [of n z] by linarith

lemma round_even_near: "of_int (round_even z) \<le> z + 1 / 2"
  using round_even_cases [of z] of_int_floor_le [of z] by (elim disjE conjE) (simp only: of_int_add of_int_1, linarith)+

lemma round_even_minus: "round_even (- z) = - round_even z"
proof (cases "z = of_int \<lfloor>z\<rfloor>")
  case True
  then show ?thesis by (metis of_int_minus round_even_of_int)
next
  case False
  then have "\<lfloor>- z\<rfloor> = - \<lfloor>z\<rfloor> - 1"
    by (intro floor_unique) (use floor_correct [of z] in simp_all, linarith+)
  then show ?thesis by (auto simp: round_even_def Let_def)
qed

text \<open>Rounding is odd.\<close>

fun neg_f :: "f64 \<Rightarrow> f64" where
  "neg_f (Fin x) = Fin (- x)"
| "neg_f PosInf = NegInf"
| "neg_f NegInf = PosInf"
| "neg_f NaN = NaN"

lemma fround_minus: "fround p emax (- x) = neg_f (fround p emax x)"
proof -
  have "round_even (- x / c) = - round_even (x / c)" for c
    using round_even_minus [of "x / c"] by simp
  then show ?thesis by (simp add: fround_def Let_def)
qed

lemma trunc_rat_minus: "trunc_rat (- x) = - trunc_rat x"
  by (cases "x = 0") (auto simp: trunc_rat_def)

text \<open>Numbers with an exact normal representation as \<open>float\<close>.\<close>

definition normal_float :: "rat \<Rightarrow> bool" where
  "normal_float x \<longleftrightarrow>
     (\<exists>m e. 2 ^ 23 \<le> m \<and> m < 2 ^ 24 \<and> - 126 \<le> e \<and> e \<le> 127 \<and> \<bar>x\<bar> = of_int m * pow2 (e - 23))"

lemma normal_float_scaled:
  assumes "0 < n" and "n < 2 ^ 24" and "- 100 \<le> j" and "j \<le> 100"
  shows "normal_float (of_int n * pow2 j)"
proof -
  define k where "k = bit_length (nat n) - 1"
  have k: "2 ^ k \<le> nat n" "nat n < 2 * 2 ^ k" using bit_length_pred [of "nat n"] assms(1) by (simp_all only: k_def zero_less_nat_eq)
  have "nat n < 2 ^ 24" using assms(2) by (simp add: nat_less_iff)
  then have "2 ^ k < (2 :: nat) ^ 24" using k(1) by (rule le_less_trans [rotated])
  then have k24: "k \<le> 23" by (simp only: power_strict_increasing_iff)
  define m where "m = nat n * 2 ^ (23 - k)"
  have "2 ^ k * 2 ^ (23 - k) \<le> m" "m < 2 * 2 ^ k * 2 ^ (23 - k)" using k by (simp_all add: m_def)
  moreover have "2 ^ k * 2 ^ (23 - k) = (2 :: nat) ^ 23" using k24 by (simp flip: power_add)
  ultimately have m: "2 ^ 23 \<le> m" "m < 2 ^ 24" by simp_all
  have "pow2 (int k - 23) * 2 ^ (23 - k) = 1"
    using k24 pow2_nat [of "23 - k"] pow2_add [of "int k - 23" "int (23 - k)"]
    by (simp add: pow2_nat [of 0, simplified] of_nat_diff)
  then have "of_int (int m) * pow2 (j + int k - 23) = of_int n * pow2 j"
    using assms(1) pow2_add [of j "int k - 23"] by (simp add: m_def algebra_simps)
  moreover have "\<bar>of_int n * pow2 j\<bar> = of_int n * pow2 j" using assms(1) less_imp_le [OF pow2_pos(1)] by simp
  ultimately show ?thesis unfolding normal_float_def
    using m k24 assms(3,4) by (intro exI [of _ "int m"] exI [of _ "j + int k"]) simp
qed

lemma normal_float_exponent:
  assumes "2 ^ 23 \<le> m" and "m < 2 ^ 24" and "\<bar>x\<bar> = of_int m * pow2 (e - 23)"
  shows "exponent_of \<bar>x\<bar> = e"
proof (rule exponent_of_eq)
  have "pow2 e = 2 ^ 23 * pow2 (e - 23)" "pow2 (e + 1) = 2 ^ 24 * pow2 (e - 23)"
    using pow2_add [of 23 "e - 23"] pow2_add [of 24 "e - 23"] pow2_nat [of 23] pow2_nat [of 24] by (simp_all add: add.commute)
  moreover have "(2 :: rat) ^ 23 \<le> of_int m" "of_int m < (2 :: rat) ^ 24" using assms(1,2) by simp_all
  ultimately show "pow2 e \<le> \<bar>x\<bar>" "\<bar>x\<bar> < pow2 (e + 1)" unfolding assms(3) by simp_all
qed

lemma normal_float_fl:
  assumes "normal_float x"
  shows "fl x = Fin x" and "float_of_bits (bits_of_float (Fin x)) = Fin x"
proof -
  obtain m e where m: "2 ^ 23 \<le> m" "m < 2 ^ 24" and e: "- 126 \<le> e" "e \<le> 127" and x: "\<bar>x\<bar> = of_int m * pow2 (e - 23)"
    using assms by (auto simp: normal_float_def)
  have ex: "exponent_of \<bar>x\<bar> = e" using normal_float_exponent [OF m x] .
  have x0: "x \<noteq> 0" using x m by auto
  have sx: "x = (if x < 0 then - of_int m else of_int m) * pow2 (e - 23)" using x by (auto simp: abs_if split: if_splits)
  have "x / pow2 (e - 23) = of_int (if x < 0 then - m else m)" by (subst sx) simp
  then have r: "of_int (round_even (x / pow2 (e - 23))) * pow2 (e - 23) = x"
    by (metis pow2_pos(2) nonzero_eq_divide_eq round_even_of_int)
  have "\<bar>x\<bar> < pow2 128"
    using exponent_of_bounds [of "\<bar>x\<bar>"] x0 ex pow2_mono [of "e + 1" 128] e by simp
  then show "fl x = Fin x" using x0 e r by (simp add: fround_def ex Let_def)
  define s E k where "s = (if x < 0 then 256 else 0 :: nat)" and "E = nat (e + 127)" and "k = nat m - 2 ^ 23"
  have b: "E < 255" "0 < E" "k < 2 ^ 23" "nat m = 2 ^ 23 + k" "s = 0 \<or> s = 256" using e m by (auto simp: E_def k_def s_def)
  have mx: "max (exponent_of \<bar>x\<bar>) (- 126) = e" and q: "nat (round_even (\<bar>x\<bar> / pow2 (e - 23))) = nat m"
    using e ex by (simp_all add: x)
  have "(if x < 0 then 2 ^ 31 else 0) + (if nat m < 2 ^ 23 then nat m else nat (e + 127) * 2 ^ 23 + (nat m - 2 ^ 23)) =
      (s + E) * 2 ^ 23 + k" using b(4) by (simp add: s_def E_def k_def)
  then have w: "bits_of_float (Fin x) = of_nat ((s + E) * 2 ^ 23 + k)"
    unfolding bits_of_float_def f64.case Let_def mx q using x0 by (simp only: if_False)
  have n: "unat (of_nat ((s + E) * 2 ^ 23 + k) :: u32) = (s + E) * 2 ^ 23 + k"
  proof -
    have "(s + E) * 2 ^ 23 + k < 2 ^ 32" using b by auto
    then show ?thesis by (simp only: unat_of_nat) (simp add: take_bit_nat_eq_self)
  qed
  have "(a * 2 ^ 23 + k) div 2 ^ 23 = a \<and> (a * 2 ^ 23 + k) mod 2 ^ 23 = k" for a using b(3) by simp
  then have dm: "((s + E) * 2 ^ 23 + k) div 2 ^ 23 = s + E" "((s + E) * 2 ^ 23 + k) mod 2 ^ 23 = k" by blast+
  have "(s + E) mod 256 = E" using b by auto
  moreover have "2 ^ 31 \<le> (s + E) * 2 ^ 23 + k \<longleftrightarrow> x < 0" using b by (auto simp: s_def)
  moreover have "of_nat (2 ^ 23 + k) = (of_int m :: rat)" using b(4) m by (metis of_nat_nat order_trans zero_le_numeral zero_le_power)
  moreover have "int E - 150 = e - 23" using e by (simp add: E_def)
  ultimately have "float_of_bits (bits_of_float (Fin x)) = Fin ((if x < 0 then -1 else 1) * of_int m * pow2 (e - 23))"
    unfolding float_of_bits_def w n dm Let_def using b(1,2) by simp
  then show "float_of_bits (bits_of_float (Fin x)) = Fin x" using sx by (auto split: if_splits)
qed

section \<open>Sixteen bits through a float\<close>

lemma normal_float_minus: "normal_float (- x) = normal_float x"
  by (simp add: normal_float_def)

lemma int16_as_float:
  assumes "- 32768 \<le> v" and "v \<le> 32767"
  shows "int_to_float (1 / 32768) v = Fin (of_int v / 32768)"
    and "float_of_bits (bits_of_float (Fin (of_int v / 32768))) = Fin (of_int v / 32768)"
proof -
  have p: "pow2 (- 15) = 1 / 32768" by (simp add: pow2_def)
  have "normal_float (of_int v / 32768)" if "v \<noteq> 0"
  proof (cases "0 < v")
    case True
    then show ?thesis using normal_float_scaled [of v "- 15"] assms p by simp
  next
    case False
    then show ?thesis using normal_float_scaled [of "- v" "- 15"] assms p that normal_float_minus by simp
  qed
  note n = normal_float_fl [OF this]
  have z: "fl 0 = Fin 0" "float_of_bits (bits_of_float (Fin 0)) = Fin 0"
    by (simp_all add: fround_def bits_of_float_def float_of_bits_def Let_def)
  show "int_to_float (1 / 32768) v = Fin (of_int v / 32768)"
    by (cases "v = 0") (simp_all add: int_to_float_def n(1) z)
  show "float_of_bits (bits_of_float (Fin (of_int v / 32768))) = Fin (of_int v / 32768)"
    by (cases "v = 0") (simp_all add: n(2) z)
qed

text \<open>Scaled by 32767 and rounded, the sample \<open>v\<close> lies between \<open>v - 1\<close> and \<open>v\<close>.\<close>

lemma scaled_int16_pos:
  assumes "0 < v" and "v \<le> 32768"
  shows "\<exists>y. fl (32767 * (of_int v / 32768)) = Fin y \<and> of_int (v - 1) \<le> y \<and> y < of_int v"
proof -
  define z :: rat where "z = 32767 * (of_int v / 32768)"
  have v: "1 \<le> (of_int v :: rat)" "(of_int v :: rat) \<le> 32768" using assms by simp_all
  have zb: "0 < z" "1 / 2 < z" "z < 32768" "of_int (v - 1) \<le> z" using v by (simp_all add: z_def field_simps)
  define E where "E = exponent_of z"
  have E: "pow2 E \<le> z" "z < pow2 (E + 1)" using exponent_of_bounds [OF zb(1)] by (simp_all add: E_def)
  have "pow2 15 = 32768" "pow2 (- 1) = 1 / 2" by (simp_all add: pow2_def)
  then have "pow2 E < pow2 15" "pow2 (- 1) < pow2 (E + 1)" using E zb by linarith+
  then have e: "E < 15" "- 1 < E + 1" using pow2_less by blast+
  define q where "q = E - 23"
  define y where "y = of_int (round_even (z / pow2 q)) * pow2 q"
  have pq: "pow2 q = pow2 E / 8388608" by (simp add: q_def pow2_diff) (simp add: pow2_def)
  have "y \<le> (z / pow2 q + 1 / 2) * pow2 q"
    unfolding y_def by (intro mult_right_mono round_even_near less_imp_le [OF pow2_pos(1)])
  also have "\<dots> = z + pow2 q / 2" by (simp add: distrib_right)
  also have "\<dots> \<le> z + z / 16777216" using E(1) by (simp add: pq)
  also have "\<dots> < of_int v" using v by (simp add: z_def field_simps)
  finally have hi: "y < of_int v" .
  have "pow2 q * 2 ^ nat (- q) = 1"
    using e pow2_add [of q "int (nat (- q))"] by (simp add: q_def pow2_nat) (simp add: pow2_def)
  then have "of_int (v - 1) / pow2 q = of_int ((v - 1) * 2 ^ nat (- q))"
    by (simp add: field_simps)
  moreover have "of_int (v - 1) / pow2 q \<le> z / pow2 q"
    using zb(4) by (intro divide_right_mono less_imp_le [OF pow2_pos(1)])
  ultimately have "(v - 1) * 2 ^ nat (- q) \<le> round_even (z / pow2 q)" by (intro round_even_ge) simp
  then have "of_int ((v - 1) * 2 ^ nat (- q)) * pow2 q \<le> y"
    unfolding y_def by (intro mult_right_mono less_imp_le [OF pow2_pos(1)]) (simp only: of_int_le_iff)
  then have lo: "of_int (v - 1) \<le> y" using \<open>of_int (v - 1) / pow2 q = _\<close> by (metis divide_eq_eq pow2_pos(2))
  have "\<bar>y\<bar> < pow2 128"
  proof -
    have "0 \<le> y" using lo assms(1) by (metis add_le_same_cancel2 diff_ge_0_iff_ge int_one_le_iff_zero_less of_int_0_le_iff order_trans)
    moreover have "pow2 15 \<le> pow2 128" by (rule pow2_mono) simp
    ultimately show ?thesis using hi v \<open>pow2 15 = 32768\<close> by simp
  qed
  moreover have "\<bar>z\<bar> = z" using zb(1) by simp
  moreover have "max E (- 126) - 23 = q" using e by (simp add: q_def)
  ultimately have "fl z = Fin y"
    using zb(1) unfolding fround_def y_def by (simp add: E_def [symmetric])
  then show ?thesis using lo hi unfolding z_def by blast
qed

lemma scaled_int16:
  assumes "- 32768 \<le> v" and "v \<le> 32767"
  shows "to_short (scale_by fl 32767 (Fin (of_int v / 32768))) = Inr (v - sgn v)"
    and "to_PaInt32 (scale_by fl 32767 (Fin (of_int v / 32768))) = Inr (v - sgn v)"
proof -
  have "\<exists>y. scale_by fl 32767 (Fin (of_int v / 32768)) = Fin y \<and> trunc_rat y = v - sgn v"
  proof (cases v "0 :: int" rule: linorder_cases)
    case equal
    then show ?thesis by (simp add: fround_def trunc_rat_def)
  next
    case greater
    from scaled_int16_pos [OF this] assms obtain y where
      y: "fl (32767 * (of_int v / 32768)) = Fin y" "of_int (v - 1) \<le> y" "y < of_int v" by auto
    then have "\<lfloor>y\<rfloor> = v - 1" by (intro floor_unique) simp_all
    moreover have "0 \<le> y" using y(2) greater \<open>\<lfloor>y\<rfloor> = v - 1\<close> by (metis add_le_same_cancel2 diff_ge_0_iff_ge int_one_le_iff_zero_less zero_le_floor)
    ultimately show ?thesis using y(1) greater by (simp add: trunc_rat_def)
  next
    case less
    from scaled_int16_pos [of "- v"] less assms obtain y where
      y: "fl (32767 * (of_int (- v) / 32768)) = Fin y" "of_int (- v - 1) \<le> y" "y < of_int (- v)" by auto
    then have f: "\<lfloor>y\<rfloor> = - v - 1" by (intro floor_unique) simp_all
    moreover have "0 \<le> y" using f less by (simp add: le_floor_iff flip: zero_le_floor)
    moreover have "32767 * (of_int v / 32768) = - (32767 * (of_int (- v) / 32768) :: rat)" by simp
    ultimately show ?thesis using y(1) less fround_minus [of 24 127 "32767 * (of_int (- v) / 32768)"] trunc_rat_minus [of y]
      by (simp add: trunc_rat_def)
  qed
  moreover have "- 32768 \<le> v - sgn v" "v - sgn v \<le> 32767" using assms by (auto simp: sgn_if)
  ultimately show "to_short (scale_by fl 32767 (Fin (of_int v / 32768))) = Inr (v - sgn v)"
    "to_PaInt32 (scale_by fl 32767 (Fin (of_int v / 32768))) = Inr (v - sgn v)"
    by (auto simp: to_int_def)
qed

section \<open>Samples between minus one and one\<close>

text \<open>Rounding does not pass an integer that has no more bits than the format.\<close>

lemma round_even_le: "z \<le> of_int n \<Longrightarrow> round_even z \<le> n"
  using round_even_ge [of "- n" "- z"] round_even_minus [of z] by simp

lemma fround_bound_scaled:
  assumes "\<bar>z\<bar> \<le> B" and B: "B = of_int n * pow2 j" and "0 < n" and "n \<le> 2 ^ p" and "0 < p"
    and "int p + j \<le> emax" and "2 - emax - int p \<le> j"
  shows "\<exists>y. fround p emax z = Fin y \<and> \<bar>y\<bar> \<le> B"
proof (cases "z = 0")
  case False
  define e where "e = exponent_of \<bar>z\<bar>"
  define q where "q = max e (1 - emax) - int (p - 1)"
  define y where "y = of_int (round_even (z / pow2 q)) * pow2 q"
  have e: "pow2 e \<le> \<bar>z\<bar>" using exponent_of_bounds [of "\<bar>z\<bar>"] False by (simp add: e_def)
  have np: "(of_int n :: rat) \<le> pow2 (int p)" using assms(4) by (metis of_int_le_iff of_int_numeral of_int_power pow2_nat)
  then have top: "B \<le> pow2 (int p + j)" unfolding B pow2_add by (intro mult_right_mono less_imp_le [OF pow2_pos(1)])
  have ep: "e \<le> int p + j"
  proof -
    have "pow2 (int p + j + 1) = 2 * pow2 (int p + j)" by (simp add: pow2_add)
    then have "pow2 e < pow2 (int p + j + 1)" using e assms(1) top pow2_pos(1) [of "int p + j"] by linarith
    then show ?thesis using pow2_less by fastforce
  qed
  have "\<exists>m. B = of_int m * pow2 q"
  proof (cases "q \<le> j")
    case True
    then have "pow2 j = 2 ^ nat (j - q) * pow2 q" using pow2_add [of "j - q" q] pow2_nat [of "nat (j - q)"] by simp
    then have "B = of_int (n * 2 ^ nat (j - q)) * pow2 q" by (simp add: B)
    then show ?thesis by blast
  next
    case False
    then have q1: "q = j + 1" "e = int p + j" using assms(5,7) ep by (auto simp: q_def)
    then have "pow2 (int p) * pow2 j \<le> of_int n * pow2 j"
      using order_trans [OF e assms(1)] unfolding B by (simp add: pow2_add)
    then have "2 ^ p \<le> (of_int n :: rat)" using pow2_pos(1) [of j] by (simp add: pow2_nat)
    then have "2 ^ p \<le> n" by (metis of_int_le_iff of_int_numeral of_int_power)
    then have "n = 2 ^ (p - 1) * 2" using assms(4,5) by (cases p) auto
    then show ?thesis using q1 by (intro exI [of _ "2 ^ (p - 1)"]) (simp add: B pow2_add)
  qed
  then obtain m where m: "B = of_int m * pow2 q" by blast
  have "z / pow2 q \<le> of_int m" "of_int (- m) \<le> z / pow2 q"
    using assms(1) m by (simp_all add: field_simps abs_le_iff)
  then have "round_even (z / pow2 q) \<le> m" "- m \<le> round_even (z / pow2 q)"
    using round_even_le round_even_ge by blast+
  then have "of_int (round_even (z / pow2 q)) * pow2 q \<le> of_int m * pow2 q"
    "of_int (- m) * pow2 q \<le> of_int (round_even (z / pow2 q)) * pow2 q"
    by (intro mult_right_mono less_imp_le [OF pow2_pos(1)]; simp only: of_int_le_iff)+
  then have y: "\<bar>y\<bar> \<le> B" by (simp add: y_def m abs_le_iff)
  have "pow2 (int p + j + 1) = 2 * pow2 (int p + j)" by (simp add: pow2_add)
  then have "B < pow2 (emax + 1)"
    using top pow2_mono [of "int p + j + 1" "emax + 1"] pow2_pos(1) [of "int p + j"] assms(6) by linarith
  then have "fround p emax z = Fin y"
    using False y unfolding fround_def Let_def e_def [symmetric] q_def [symmetric] y_def [symmetric] by simp
  then show ?thesis using y by blast
qed (simp add: fround_def B less_imp_le assms(3))

lemma fround_bound:
  assumes "\<bar>z\<bar> \<le> of_int n" and "0 < n" and "n \<le> 2 ^ p" and "0 < p" and "int p \<le> emax"
  shows "\<exists>y. fround p emax z = Fin y \<and> \<bar>y\<bar> \<le> of_int n"
  by (rule fround_bound_scaled [of z "of_int n" n 0]) (use assms in \<open>simp_all add: pow2_def\<close>)

definition dither_ok :: "dither_generator \<Rightarrow> bool" where
  "dither_ok g = (- 16384 \<le> previous g \<and> previous g \<le> 16382)"

lemma float_dither:
  assumes "dither_ok g"
  shows "\<exists>d g'. PaUtil_GenerateFloatTriangularDither g = Inr (Fin d, g') \<and> \<bar>d\<bar> \<le> 1 \<and> dither_ok g'"
proof -
  have "pow2 (- 15) \<le> 1 / 32767" "1 / 32767 < pow2 (- 15 + 1)" by (simp_all add: pow2_def)
  then have e: "exponent_of (1 / 32767) = - 15" by (rule exponent_of_eq)
  have "round_even (274877906944 / 32767) = 8388864"
    by (simp add: round_even_def Let_def floor_divide_of_int_eq [where k = 274877906944 and l = 32767, simplified])
  then have c: "const_float_dither_scale = Fin (8388864 / 274877906944)"
    by (simp add: const_float_dither_scale_def fround_def e pow2_def)
  obtain h g' where h: "PaUtil_Generate16BitTriangularDither g = Inr (h, g')" "\<bar>h\<bar> \<le> 32766" "dither_ok g'"
    using dither_step [of g] assms by (auto simp: dither_ok_def)
  from h(2) have "- 32766 \<le> (of_int h :: rat)" "(of_int h :: rat) \<le> 32766" by linarith+
  then have "\<bar>of_int h * (8388864 / 274877906944)\<bar> \<le> (of_int 1 :: rat)" by (simp add: abs_le_iff field_simps)
  from fround_bound [OF this, of 24 127] obtain d where
    "fl (of_int h * (8388864 / 274877906944)) = Fin d" "\<bar>d\<bar> \<le> 1" by auto
  then show ?thesis using h by (simp add: PaUtil_GenerateFloatTriangularDither_def c)
qed

lemma scaled_unit:
  assumes "\<bar>x\<bar> \<le> 1" and "0 < n" and "n \<le> 2 ^ p" and "0 < p" and "int p \<le> emax"
  shows "\<exists>y. scale_by (fround p emax) (of_int n) (Fin x) = Fin y \<and> \<bar>y\<bar> \<le> of_int n"
proof -
  have "\<bar>of_int n * x\<bar> \<le> of_int n" using assms(1,2) by (simp add: abs_mult)
  then show ?thesis using fround_bound [OF _ assms(2-5)] by simp
qed

lemma to_int_bound:
  assumes "\<bar>y\<bar> \<le> of_int n" and "lo \<le> - n" and "n \<le> hi"
  shows "\<exists>t. to_int lo hi (Fin y) = Inr t \<and> \<bar>t\<bar> \<le> n"
proof -
  have "\<bar>trunc_rat y\<bar> \<le> n"
  proof (cases "0 \<le> y")
    case True
    then have "\<lfloor>y\<rfloor> \<le> n" "0 \<le> \<lfloor>y\<rfloor>" using assms(1) by (simp_all add: floor_le_iff)
    then show ?thesis using True by (simp add: trunc_rat_def)
  next
    case False
    then have "\<lfloor>- y\<rfloor> \<le> n" "0 \<le> \<lfloor>- y\<rfloor>" using assms(1) by (simp_all add: floor_le_iff)
    then show ?thesis using False by (simp add: trunc_rat_def)
  qed
  then show ?thesis using assms(2,3) by (simp add: to_int_def abs_le_iff)
qed

text \<open>A body that converts every sample between minus one and one.\<close>

definition unit_body :: "nat \<Rightarrow> (platform \<Rightarrow> bytes \<Rightarrow> dithered) \<Rightarrow> bool" where
  "unit_body dn f \<longleftrightarrow>
     (\<forall>p x g v. rdf p x = Fin v \<longrightarrow> \<bar>v\<bar> \<le> 1 \<longrightarrow> dither_ok g \<longrightarrow>
        (\<exists>y g'. f p x g = Inr (y, g') \<and> length y = dn \<and> dither_ok g'))"

lemma unit_undithered:
  assumes "\<And>p x v. rdf p x = Fin v \<Longrightarrow> \<bar>v\<bar> \<le> 1 \<Longrightarrow> \<exists>t. conv p x = Inr t" and "\<And>p t. length (out p t) = dn"
  shows "unit_body dn (\<lambda>p. undithered (conv p) (out p))"
  unfolding unit_body_def
proof (intro allI impI)
  fix p x g v
  assume "rdf p x = Fin v" "\<bar>v\<bar> \<le> 1" "dither_ok g"
  then show "\<exists>y g'. undithered (conv p) (out p) x g = Inr (y, g') \<and> length y = dn \<and> dither_ok g'"
    using assms(1) [of p x v] assms(2) by (auto simp: undithered_def)
qed

lemma unit_dithered:
  assumes "\<And>y. \<bar>y\<bar> \<le> of_int (n + 1) \<Longrightarrow> \<exists>t. conv (Fin y) = Inr t" and "\<And>p t. length (out p t) = dn"
    and "0 < n" and "n + 1 \<le> 2 ^ k" and "0 < k" and "int k \<le> emax" and "c = of_int n"
  shows "unit_body dn (\<lambda>p. with_dither (fround k emax) c (rdf p) conv (out p))"
  unfolding unit_body_def
proof (intro allI impI)
  fix p x g v
  assume v: "rdf p x = Fin v" "\<bar>v\<bar> \<le> 1" "dither_ok g"
  obtain d g' where d: "PaUtil_GenerateFloatTriangularDither g = Inr (Fin d, g')" "\<bar>d\<bar> \<le> 1" "dither_ok g'"
    using float_dither [OF v(3)] by blast
  obtain y where y: "scale_by (fround k emax) (of_int n) (Fin v) = Fin y" "\<bar>y\<bar> \<le> of_int n"
    using scaled_unit [OF v(2) assms(3), of k emax] assms(4-6) by auto
  have "\<bar>y + d\<bar> \<le> of_int (n + 1)" using y(2) d(2) by (simp add: abs_le_iff)
  then obtain z where z: "fround k emax (y + d) = Fin z" "\<bar>z\<bar> \<le> of_int (n + 1)"
    using fround_bound [of "y + d" "n + 1" k emax] assms(3-6) by auto
  then show "\<exists>y g'. with_dither (fround k emax) c (rdf p) conv (out p) x g = Inr (y, g') \<and> length y = dn \<and> dither_ok g'"
    using assms(1) [OF z(2)] assms(2,7) d v(1) y(1) by (auto simp: with_dither_def)
qed

lemma length_out: "length (out32 p t) = 4" "length (out24 p t) = 3" "length (out16 p t) = 2" "length (out8 t) = 1"
  by (simp_all add: out32_def out24_def out16_def out8_def)

lemma clipped:
  assumes "\<bar>y\<bar> \<le> 2147483648"
  shows "\<exists>t. to_PaInt32 (clip_f (- 2147483648) 2147483647 (Fin y)) = Inr t"
proof -
  obtain z where z: "clip_f (- 2147483648) 2147483647 (Fin y) = Fin z" "- 2147483648 \<le> z" "z \<le> 2147483647"
    by (cases "y < - 2147483648"; cases "2147483647 < y") (auto simp: clip_f_def)
  show ?thesis
  proof (cases "0 \<le> z")
    case True
    then have "\<lfloor>z\<rfloor> \<le> 2147483647" "0 \<le> \<lfloor>z\<rfloor>" using z by (simp_all add: floor_le_iff)
    then show ?thesis using True z by (simp add: to_int_def trunc_rat_def)
  next
    case False
    then have "\<lfloor>- z\<rfloor> \<le> 2147483648" "0 \<le> \<lfloor>- z\<rfloor>" using z by (simp_all add: floor_le_iff)
    then have "- 2147483648 \<le> - \<lfloor>- z\<rfloor>" "- \<lfloor>- z\<rfloor> \<le> 2147483647" by linarith+
    then show ?thesis using False z by (simp add: to_int_def trunc_rat_def)
  qed
qed

lemma scaled_2_31:
  assumes "\<bar>x\<bar> \<le> 1"
  shows "\<exists>y. scale_by fl 2147483648 (Fin x) = Fin y \<and> \<bar>y\<bar> \<le> 2147483648"
proof -
  have "\<bar>2147483648 * x\<bar> \<le> 2147483648" using assms by (simp add: abs_mult)
  moreover have "2147483648 = of_int 1 * pow2 31" by (simp add: pow2_def)
  ultimately have "\<exists>y. fl (2147483648 * x) = Fin y \<and> \<bar>y\<bar> \<le> 2147483648"
    by (rule fround_bound_scaled) simp_all
  then show ?thesis by simp
qed

end
