(* ===== verification/PaConv.thy ===== *)
theory PaConv
  imports PaConvFloat
begin

unbundle bit_operations_syntax

text \<open>
  The table \<open>paConverters\<close> (\<open>pa_converters.c\<close>, lines 1781 to 1852) and what the converters it
  holds do to the samples of a buffer.
\<close>

section \<open>The table\<close>

fun paConverters :: "converter \<Rightarrow> pa_converter option" where
  "paConverters (Convert Float32 Int32 dither clip) = Some
     (if dither then if clip then Float32_To_Int32_DitherClip else Float32_To_Int32_Dither
      else if clip then Float32_To_Int32_Clip else Float32_To_Int32)"
| "paConverters (Convert Float32 Int24 dither clip) = Some
     (if dither then if clip then Float32_To_Int24_DitherClip else Float32_To_Int24_Dither
      else if clip then Float32_To_Int24_Clip else Float32_To_Int24)"
| "paConverters (Convert Float32 Int16 dither clip) = Some
     (if dither then if clip then Float32_To_Int16_DitherClip else Float32_To_Int16_Dither
      else if clip then Float32_To_Int16_Clip else Float32_To_Int16)"
| "paConverters (Convert Float32 Int8 dither clip) = Some
     (if dither then if clip then Float32_To_Int8_DitherClip else Float32_To_Int8_Dither
      else if clip then Float32_To_Int8_Clip else Float32_To_Int8)"
| "paConverters (Convert Float32 UInt8 dither clip) = Some
     (if dither then if clip then Float32_To_UInt8_DitherClip else Float32_To_UInt8_Dither
      else if clip then Float32_To_UInt8_Clip else Float32_To_UInt8)"
| "paConverters (Convert Int32 Float32 False False) = Some Int32_To_Float32"
| "paConverters (Convert Int32 Int24 dither False) = Some (if dither then Int32_To_Int24_Dither else Int32_To_Int24)"
| "paConverters (Convert Int32 Int16 dither False) = Some (if dither then Int32_To_Int16_Dither else Int32_To_Int16)"
| "paConverters (Convert Int32 Int8 dither False) = Some (if dither then Int32_To_Int8_Dither else Int32_To_Int8)"
| "paConverters (Convert Int32 UInt8 dither False) = Some (if dither then Int32_To_UInt8_Dither else Int32_To_UInt8)"
| "paConverters (Convert Int24 Float32 False False) = Some Int24_To_Float32"
| "paConverters (Convert Int24 Int32 False False) = Some Int24_To_Int32"
| "paConverters (Convert Int24 Int16 dither False) = Some (if dither then Int24_To_Int16_Dither else Int24_To_Int16)"
| "paConverters (Convert Int24 Int8 dither False) = Some (if dither then Int24_To_Int8_Dither else Int24_To_Int8)"
| "paConverters (Convert Int24 UInt8 dither False) = Some (if dither then Int24_To_UInt8_Dither else Int24_To_UInt8)"
| "paConverters (Convert Int16 Float32 False False) = Some Int16_To_Float32"
| "paConverters (Convert Int16 Int32 False False) = Some Int16_To_Int32"
| "paConverters (Convert Int16 Int24 False False) = Some Int16_To_Int24"
| "paConverters (Convert Int16 Int8 dither False) = Some (if dither then Int16_To_Int8_Dither else Int16_To_Int8)"
| "paConverters (Convert Int16 UInt8 dither False) = Some (if dither then Int16_To_UInt8_Dither else Int16_To_UInt8)"
| "paConverters (Convert Int8 Float32 False False) = Some Int8_To_Float32"
| "paConverters (Convert Int8 Int32 False False) = Some Int8_To_Int32"
| "paConverters (Convert Int8 Int24 False False) = Some Int8_To_Int24"
| "paConverters (Convert Int8 Int16 False False) = Some Int8_To_Int16"
| "paConverters (Convert Int8 UInt8 False False) = Some Int8_To_UInt8"
| "paConverters (Convert UInt8 Float32 False False) = Some UInt8_To_Float32"
| "paConverters (Convert UInt8 Int32 False False) = Some UInt8_To_Int32"
| "paConverters (Convert UInt8 Int24 False False) = Some UInt8_To_Int24"
| "paConverters (Convert UInt8 Int16 False False) = Some UInt8_To_Int16"
| "paConverters (Convert UInt8 Int8 False False) = Some UInt8_To_Int8"
| "paConverters (Copy n) =
     (if n = 8 then Some Copy_8_To_8 else if n = 16 then Some Copy_16_To_16
      else if n = 24 then Some Copy_24_To_24 else if n = 32 then Some Copy_32_To_32 else None)"
| "paConverters _ = None"

text \<open>The converter that the flags of a stream select for two formats, if there is one.\<close>

definition selected :: "sample_type \<Rightarrow> sample_type \<Rightarrow> u64 \<Rightarrow> pa_converter option" where
  "selected s d flags =
     paConverters (select_converter s d (flags AND paDitherOff = 0) (flags AND paClipOff = 0))"

lemma selected_by_format:
  "select_format sf = Some s \<Longrightarrow> select_format df = Some d \<Longrightarrow>
     Option.bind (PaUtil_SelectConverter sf df flags) paConverters = selected s d flags"
  by (simp add: PaUtil_SelectConverter_def selected_def)

text \<open>The table has an entry for every converter that can be selected.\<close>

lemma selected_exists: "\<exists>conv. selected s d flags = Some conv"
  by (cases s; cases d) (simp_all add: selected_def)

lemma selected_integer:
  assumes "s \<noteq> Float32" and "d \<noteq> Float32" and "flags AND paDitherOff \<noteq> 0"
  shows "\<exists>conv. selected s d flags = Some conv \<and> converts conv s d"
  using assms
  by (cases s; cases d)
    (simp_all add: selected_def converts_Int32 converts_Int24 converts_Int16 converts_Int8 converts_UInt8 converts_Copy)

section \<open>Integer formats\<close>

lemma converts_run:
  assumes "converts conv s d" and "1 \<le> b"
    and "strides_fit src 0 (sample_bytes s) a n" and "strides_fit dst 0 (sample_bytes d) b n"
  shows "\<exists>dst'. conv p dst (int b) src (int a) n g = Inr (dst', g) \<and> length dst' = length dst \<and>
    (\<forall>k < n. leading p d (slice (k * b * sample_bytes d) (sample_bytes d) dst') =
       keep (sample_bits d) (leading p s (slice (k * a * sample_bytes s) (sample_bytes s) src))) \<and>
    (\<forall>j < length dst. \<not> on_samples 0 (sample_bytes d) b n j \<longrightarrow> dst' ! j = dst ! j)"
proof -
  obtain f where f: "conv = each (sample_bytes s) (sample_bytes d) (\<lambda>p. plain (f p))"
    "\<And>p x. length x = sample_bytes s \<Longrightarrow> length (f p x) = sample_bytes d \<and>
       leading p d (f p x) = keep (sample_bits d) (leading p s x)"
    using assms(1) by (auto simp: converts_def)
  from strided_plain [of "sample_bytes s" "f p" "sample_bytes d" b src 0 a n dst 0 g] f(2) assms(2-4)
  obtain dst' where r: "strided (plain (f p)) (sample_bytes s) (sample_bytes d) n (int a) (int b) 0 0 src dst g =
      Inr (dst', g)" "length dst' = length dst"
    "\<forall>k < n. slice (k * b * sample_bytes d) (sample_bytes d) dst' =
       f p (slice (k * a * sample_bytes s) (sample_bytes s) src)"
    "\<forall>j < length dst. \<not> on_samples 0 (sample_bytes d) b n j \<longrightarrow> dst' ! j = dst ! j"
    by auto
  have "k * a * sample_bytes s + sample_bytes s \<le> length src" if "k < n" for k
  proof -
    have "k * a * sample_bytes s \<le> (n - 1) * a * sample_bytes s" using that by (intro mult_le_mono) simp_all
    moreover have "(n - 1) * a * sample_bytes s + sample_bytes s \<le> length src"
      using assms(3) that by (simp add: strides_fit_def)
    ultimately show ?thesis by linarith
  qed
  then show ?thesis using r f(2) by (intro exI [of _ dst']) (simp add: f(1) each_def)
qed



section \<open>Round trips\<close>

text \<open>A sample is determined by its leading bits, and has no others.\<close>

lemma leading_inj:
  assumes "length x = sample_bytes t" and "length y = sample_bytes t" and "leading p t x = leading p t y"
  shows "x = y"
proof (cases t)
  case Int16
  have "rd16 p x = rd16 p y"
  proof (rule bit_word_eqI)
    fix n
    show "n < LENGTH(16) \<Longrightarrow> bit (rd16 p x) n = bit (rd16 p y) n"
      using arg_cong [OF assms(3), of "\<lambda>w. bit w (n + 16)"] Int16 by (simp add: bit_simps)
  qed
  moreover have "wr16 p (rd16 p x) = x" "wr16 p (rd16 p y) = y"
    using assms(1,2) Int16 by (simp_all add: wr_rd sample_bytes_def)
  ultimately show ?thesis by metis
next
  case Int24
  have l: "x = [x ! 0, x ! 1, x ! 2]" "y = [y ! 0, y ! 1, y ! 2]"
    using assms(1,2) Int24 by (auto simp: sample_bytes_def numeral_3_eq_3 length_Suc_conv)
  have "x ! i = y ! i" if "i < 3" for i
  proof (rule bit_word_eqI)
    fix n assume n: "n < LENGTH(8)"
    from that consider "i = 0" | "i = 1" | "i = 2" by linarith
    moreover have "\<forall>k. bit (rd24 p x) k = bit (rd24 p y) k" using assms(3) Int24 by simp
    moreover from spec [OF this, of "n + 8"] spec [OF this, of "n + 16"] spec [OF this, of "n + 24"]
    have "bit (x ! 0) n = bit (y ! 0) n \<and> bit (x ! 1) n = bit (y ! 1) n \<and> bit (x ! 2) n = bit (y ! 2) n"
      using n by (cases "byte_order p") (simp_all add: rd24_def bit_simps)
    ultimately show "bit (x ! i) n = bit (y ! i) n" by cases simp_all
  qed
  then show ?thesis using l by (metis One_nat_def less_Suc_eq numeral_2_eq_2 numeral_3_eq_3 zero_less_Suc)
next
  case Int8
  have "x ! 0 = y ! 0"
  proof (rule bit_word_eqI)
    fix n
    show "n < LENGTH(8) \<Longrightarrow> bit (x ! 0) n = bit (y ! 0) n"
      using arg_cong [OF assms(3), of "\<lambda>w. bit w (n + 24)"] Int8 by (simp add: bit_simps)
  qed
  then show ?thesis using assms(1,2) Int8 by (auto simp: sample_bytes_def length_Suc_conv)
next
  case UInt8
  have "x ! 0 - 128 = y ! 0 - 128"
  proof (rule bit_word_eqI)
    fix n
    show "n < LENGTH(8) \<Longrightarrow> bit (x ! 0 - 128) n = bit (y ! 0 - 128) n"
      using arg_cong [OF assms(3), of "\<lambda>w. bit w (n + 24)"] UInt8 by (simp add: bit_simps)
  qed
  then show ?thesis using assms(1,2) UInt8 by (auto simp: sample_bytes_def length_Suc_conv)
next
  case Int32
  then have "length x = 4" "length y = 4" "rd32 p x = rd32 p y" using assms by (simp_all add: sample_bytes_def)
  then show ?thesis by (metis wr_rd(1))
next
  case Float32
  then have "length x = 4" "length y = 4" "rd32 p x = rd32 p y" using assms by (simp_all add: sample_bytes_def)
  then show ?thesis by (metis wr_rd(1))
qed

lemma keep_leading:
  assumes "sample_bits t \<le> w" and "w \<le> 32"
  shows "keep w (leading p t x) = leading p t x"
proof -
  have "keep (sample_bits t) (leading p t x) = leading p t x"
    by (cases t) (simp_all add: keep_rd24)
  then show ?thesis using keep_of_keep [OF assms, of "leading p t x"] by simp
qed

lemma slices_eq:
  assumes "length xs = n * m" and "length ys = n * m" and "\<And>k. k < n \<Longrightarrow> slice (k * m) m xs = slice (k * m) m ys"
  shows "xs = ys"
proof (rule nth_equalityI)
  fix i assume "i < length xs"
  then have i: "i < n * m" using assms(1) by simp
  then have m: "0 < m" by (cases m) simp_all
  have k: "i div m < n" "i mod m < m" using i m by (simp_all add: div_less_iff_less_mult)
  then have "Suc (i div m) * m \<le> n * m" by (intro mult_le_mono1) simp
  then have "i div m * m + m \<le> n * m" by simp
  then have "slice (i div m * m) m zs ! (i mod m) = zs ! i" if "length zs = n * m" for zs :: "'a list"
    using that k by (simp add: nth_slice)
  then show "xs ! i = ys ! i" using assms k by metis
qed (use assms in simp)

lemma whole_buffer: "length buf = n * m \<Longrightarrow> strides_fit buf 0 m 1 n"
  by (cases n) (simp_all add: strides_fit_def)

text \<open>
  Converting samples to an integer format with at least as many bits and back, without dither,
  gives the samples back, byte for byte.
\<close>

theorem widening_roundtrip:
  assumes "s \<noteq> Float32" and "d \<noteq> Float32" and "sample_bits s \<le> sample_bits d" and "flags AND paDitherOff \<noteq> 0"
    and "length src = n * sample_bytes s" and "length tmp = n * sample_bytes d" and "length out = length src"
  shows "\<exists>conv narrow tmp'. selected s d flags = Some conv \<and> selected d s flags = Some narrow \<and>
    conv p tmp 1 src 1 n g = Inr (tmp', g) \<and> narrow p out 1 tmp' 1 n g = Inr (src, g)"
proof -
  let ?s = "sample_bytes s" and ?d = "sample_bytes d"
  obtain conv narrow where c: "selected s d flags = Some conv" "converts conv s d"
    "selected d s flags = Some narrow" "converts narrow d s"
    using selected_integer [OF assms(1,2,4)] selected_integer [OF assms(2,1,4)] by blast
  obtain tmp' where t: "conv p tmp 1 src 1 n g = Inr (tmp', g)" "length tmp' = length tmp"
    "\<forall>k < n. leading p d (slice (k * ?d) ?d tmp') = keep (sample_bits d) (leading p s (slice (k * ?s) ?s src))"
    using converts_run [OF c(2) order_refl whole_buffer [OF assms(5)] whole_buffer [OF assms(6)], of p g] by auto
  have "length tmp' = n * ?d" "length out = n * ?s" using t(2) assms(5-7) by simp_all
  from converts_run [OF c(4) order_refl whole_buffer [OF this(1)] whole_buffer [OF this(2)], of p g]
  obtain out' where o: "narrow p out 1 tmp' 1 n g = Inr (out', g)" "length out' = length out"
    "\<forall>k < n. leading p s (slice (k * ?s) ?s out') = keep (sample_bits s) (leading p d (slice (k * ?d) ?d tmp'))"
    by auto
  have bits: "sample_bits d \<le> 32" by (cases d) simp_all
  have "out' = src"
  proof (rule slices_eq)
    fix k assume k: "k < n"
    then have "Suc k * ?s \<le> n * ?s" by (intro mult_le_mono1) simp
    then have len: "k * ?s + ?s \<le> length src" "k * ?s + ?s \<le> length out'" using assms(5,7) o(2) by simp_all
    have "leading p s (slice (k * ?s) ?s out') = keep (sample_bits s) (leading p s (slice (k * ?s) ?s src))"
      using t(3) o(3) k assms(3) bits by (simp add: keep_keep)
    also have "\<dots> = leading p s (slice (k * ?s) ?s src)"
      using keep_leading [of s "sample_bits s"] assms(3) bits by simp
    finally show "slice (k * ?s) ?s out' = slice (k * ?s) ?s src"
      using len by (intro leading_inj [of _ s _ p]) simp_all
  qed (use o(2) assms(5,7) in simp_all)
  then show ?thesis using c(1,3) t(1) o(1) by blast
qed

theorem widening_roundtrip_witness:
  "\<forall>p g. \<exists>conv narrow tmp'. selected UInt8 Int16 paDitherOff = Some conv \<and> selected Int16 UInt8 paDitherOff = Some narrow \<and>
     conv p [1, 2, 3, 4] 1 [0, 255] 1 2 g = Inr (tmp', g) \<and> narrow p [9, 9] 1 tmp' 1 2 g = Inr ([0, 255], g)"
  using widening_roundtrip [of UInt8 Int16 paDitherOff "[0, 255]" 2 "[1, 2, 3, 4]" "[9, 9]"]
  by (simp add: sample_bytes_def)

section \<open>Dither\<close>

text \<open>
  With dither, which is the default, five of the selected converters leave the destination as it
  is: their bodies say \<open>IMPLEMENT ME\<close>. A stream between these formats plays or records whatever
  was in its buffer.
\<close>

theorem dither_unimplemented:
  "\<forall>(sf, df) \<in> {(paInt32, paInt24), (paInt32, paUInt8), (paInt24, paUInt8), (paInt16, paInt8), (paInt16, paUInt8)}.
     \<exists>c conv. PaUtil_SelectConverter sf df paNoFlag = Some c \<and> paConverters c = Some conv \<and>
       conv p dst ds src ss count g = Inr (dst, g)"
  by (simp add: PaUtil_SelectConverter_def select_format_def Int32_To_Int24_Dither_def Int32_To_UInt8_Dither_def
      Int24_To_UInt8_Dither_def Int16_To_Int8_Dither_def Int16_To_UInt8_Dither_def unimplemented_def)

text \<open>
  Dither is added to the integer samples without a clip: a sample so close to full scale that
  the dithered value does not fit comes out with the opposite sign, a jump over the whole range.
\<close>

theorem dithered_full_scale_wraps:
  assumes "PaUtil_Generate16BitTriangularDither g = Inr (h, g')" and "2 ^ 30 \<le> sint (rd32 p x) div 2 + h"
    and "length x = 4" and "h \<le> 32766"
  shows "\<exists>y. Int32_To_Int16_Dither p [0, 0] 1 x 1 1 g = Inr (y, g') \<and> sint (rd16 p y) = - 32768"
proof -
  let ?t = "sint (rd32 p x) div 2 + h"
  have "sint (rd32 p x) < 2147483648" using sint_lt [of "rd32 p x"] by simp
  then have u: "?t \<le> 1073774589" using assms(4) by linarith
  have half: "sint (signed_drop_bit 1 (rd32 p x)) = sint (rd32 p x) div 2"
    by (simp add: sint_signed_drop_bit_eq drop_bit_eq_div)
  have "1073741824 \<le> ?t" using assms(2) by simp
  with u have "?t div 32768 = 32768" by linarith
  then have "drop_bit 15 ?t = 32768" by (simp add: drop_bit_eq_div)
  moreover have "int32_result ?t = Inr ?t" using assms(2) u by (simp add: int32_result_def)
  ultimately have "Int32_To_Int16_Dither p [0, 0] 1 x 1 1 g = Inr (wr16 p 32768, g')"
    using assms(1,3) half
    by (simp add: Int32_To_Int16_Dither_def each_def load_def store_def dithered_shift_def slice_def)
  then show ?thesis by (simp add: sint_word_ariths)
qed

text \<open>Already the first value of a fresh generator does it to the largest sample.\<close>

theorem dithered_full_scale_wraps_witness:
  "\<forall>p. \<exists>y g'. Int32_To_Int16_Dither p [0, 0] 1 (wr32 p 0x7FFFFFFF) 1 1 PaUtil_InitializeTriangularDitherState =
     Inr (y, g') \<and> sint (rd16 p y) = - 32768"
proof
  fix p
  let ?g = "PaUtil_InitializeTriangularDitherState"
  have "PaUtil_Generate16BitTriangularDither ?g = Inr (3174, \<lparr>previous = 3174, randSeed1 = 4009202705, randSeed2 = 1118194922\<rparr>)"
    by code_simp
  from dithered_full_scale_wraps [OF this, of p "wr32 p 0x7FFFFFFF"]
  show "\<exists>y g'. Int32_To_Int16_Dither p [0, 0] 1 (wr32 p 0x7FFFFFFF) 1 1 ?g = Inr (y, g') \<and> sint (rd16 p y) = - 32768"
    by auto
qed

section \<open>Floats\<close>

lemma int16_down:
  assumes "flags AND paDitherOff \<noteq> 0"
  shows "\<exists>down f. selected Float32 Int16 flags = Some down \<and> down = each 4 2 f \<and>
    (\<forall>p x v. rdf p x = Fin (of_int v / 32768) \<longrightarrow> - 32768 \<le> v \<longrightarrow> v \<le> 32767 \<longrightarrow>
       f p x = plain (\<lambda>_. out16 p (v - sgn v)) x)"
proof -
  let ?f = "\<lambda>p. undithered (\<lambda>x. to_short (scale_by fl 32767 (rdf p x))) (out16 p)"
  let ?f' = "\<lambda>p. undithered (\<lambda>x. bind_r (to_PaInt32 (scale_by fl 32767 (rdf p x)))
      (\<lambda>samp. Inr (clip_i (- 0x8000) 0x7FFF samp))) (out16 p)"
  have f: "?f p x = plain (\<lambda>_. out16 p (v - sgn v)) x" "?f' p x = plain (\<lambda>_. out16 p (v - sgn v)) x"
    if "rdf p x = Fin (of_int v / 32768)" "- 32768 \<le> v" "v \<le> 32767" for p x v
    using scaled_int16 [OF that(2,3)] that
    by (auto simp: undithered_def plain_def fun_eq_iff clip_i_def sgn_if)
  show ?thesis
  proof (cases "flags AND paClipOff = 0")
    case True
    then have "selected Float32 Int16 flags = Some (each 4 2 ?f')"
      using assms by (simp add: selected_def Float32_To_Int16_Clip_def)
    then show ?thesis using f(2) by blast
  next
    case False
    then have "selected Float32 Int16 flags = Some (each 4 2 ?f)"
      using assms by (simp add: selected_def Float32_To_Int16_def)
    then show ?thesis using f(1) by blast
  qed
qed

text \<open>
  (C22) Sixteen-bit samples that pass through a float come back one step nearer to zero, all but
  zero itself: the way up divides by 32768, the way down multiplies with 32767 and truncates.
\<close>

theorem int16_through_float:
  assumes "flags AND paDitherOff \<noteq> 0" and "length src = n * 2" and "length tmp = n * 4" and "length out = n * 2"
  shows "\<exists>up down tmp' out'. selected Int16 Float32 flags = Some up \<and> selected Float32 Int16 flags = Some down \<and>
    up p tmp 1 src 1 n g = Inr (tmp', g) \<and> down p out 1 tmp' 1 n g = Inr (out', g) \<and> length out' = length src \<and>
    (\<forall>k < n. sint (rd16 p (slice (k * 2) 2 out')) =
       sint (rd16 p (slice (k * 2) 2 src)) - sgn (sint (rd16 p (slice (k * 2) 2 src))))"
proof -
  define v where "v x = sint (rd16 p x)" for x
  have v: "- 32768 \<le> v x" "v x \<le> 32767" for x using sint_ge [of "rd16 p x"] sint_lt [of "rd16 p x"] by (simp_all add: v_def)
  define up where "up x = wrf p (int_to_float (1 / 32768) (v x))" for x
  have up: "up = (\<lambda>x. wrf p (int_to_float (1 / 32768) (sint (rd16 p x))))"
    by (simp add: fun_eq_iff up_def v_def)
  have u: "rdf p (up x) = Fin (of_int (v x) / 32768)" for x
    using int16_as_float [OF v(1) [of x] v(2) [of x]] by (simp add: up_def rdf_def wrf_def)
  have "length (up x) = 4" for x by (simp add: up_def wrf_def)
  from strided_plain [of 2 up 4 1 src 0 1 n tmp 0 g, OF this order_refl whole_buffer [OF assms(2)] whole_buffer [OF assms(3)]]
  obtain tmp' where t: "strided (plain up) 2 4 n 1 1 0 0 src tmp g = Inr (tmp', g)" "length tmp' = length tmp"
    "\<forall>k < n. slice (k * 4) 4 tmp' = up (slice (k * 2) 2 src)" by auto
  obtain down f where d: "selected Float32 Int16 flags = Some down" "down = each 4 2 f"
    "\<And>p x v. rdf p x = Fin (of_int v / 32768) \<Longrightarrow> - 32768 \<le> v \<Longrightarrow> v \<le> 32767 \<Longrightarrow>
       f p x = plain (\<lambda>_. out16 p (v - sgn v)) x"
    using int16_down [OF assms(1)] by metis
  define h where "h x = (case rdf p x of Fin y \<Rightarrow> out16 p (\<lfloor>32768 * y\<rfloor> - sgn \<lfloor>32768 * y\<rfloor>) | _ \<Rightarrow> [0, 0])" for x
  have h: "f p (up x) = plain h (up x)" "h (up x) = out16 p (v x - sgn (v x))" "length (h y) = 2" for x y
    using d(3) [OF u v] by (simp_all add: plain_def h_def u length_out fun_eq_iff split: f64.split)
  have t': "length tmp' = n * 4" using t(2) assms(3) by simp
  obtain out' where o: "strided (plain h) 4 2 n 1 1 0 0 tmp' out g = Inr (out', g)" "length out' = length out"
    "\<forall>k < n. slice (k * 2) 2 out' = h (slice (k * 4) 4 tmp')"
    using strided_plain [of 4 h 2 1 tmp' 0 1 n out 0 g, OF h(3) order_refl whole_buffer [OF t'] whole_buffer [OF assms(4)]]
    by auto
  have "strided (f p) 4 2 n 1 1 0 0 tmp' out g = strided (plain h) 4 2 n 1 1 0 0 tmp' out g"
    using strided_cong [of n "f p" 0 1 4 tmp' "plain h" 2 1 0 out g] whole_buffer [OF t'] t(3) h(1) by simp
  then have down: "down p out 1 tmp' 1 n g = Inr (out', g)" using o(1) by (simp add: d(2) each_def)
  have "sint (rd16 p (slice (k * 2) 2 out')) = v (slice (k * 2) 2 src) - sgn (v (slice (k * 2) 2 src))" if "k < n" for k
  proof -
    let ?v = "v (slice (k * 2) 2 src)"
    have "slice (k * 2) 2 out' = wr16 p (word_of_int (?v - sgn ?v))" using o(3) t(3) h(2) that by (simp add: out16_def)
    moreover have "- 32768 \<le> ?v - sgn ?v" "?v - sgn ?v \<le> 32767" using v [of "slice (k * 2) 2 src"] by (auto simp: sgn_if)
    moreover have "sint (word_of_int t :: i16) = t" if "- 32768 \<le> t" "t \<le> 32767" for t
      using that by (simp add: sint_sbintrunc' signed_take_bit_int_eq_self)
    ultimately show ?thesis by (simp only: rd_wr)
  qed
  moreover have "selected Int16 Float32 flags = Some Int16_To_Float32" by (simp add: selected_def)
  moreover have "Int16_To_Float32 p tmp 1 src 1 n g = Inr (tmp', g)"
    using t(1) up by (simp add: Int16_To_Float32_def each_def)
  ultimately show ?thesis using d(1) down o(2) assms(2,4) unfolding v_def by auto
qed

theorem int16_through_float_witness:
  "\<forall>p g. \<exists>up down tmp' out'. selected Int16 Float32 paDitherOff = Some up \<and>
     selected Float32 Int16 paDitherOff = Some down \<and> up p (replicate 4 0) 1 (wr16 p 1000) 1 1 g = Inr (tmp', g) \<and>
     down p [0, 0] 1 tmp' 1 1 g = Inr (out', g) \<and> sint (rd16 p (slice 0 2 out')) = 999"
proof (intro allI)
  fix p g
  have "slice 0 2 (wr16 p 1000) = wr16 p 1000" by (simp add: slice_def)
  then show "\<exists>up down tmp' out'. selected Int16 Float32 paDitherOff = Some up \<and>
     selected Float32 Int16 paDitherOff = Some down \<and> up p (replicate 4 0) 1 (wr16 p 1000) 1 1 g = Inr (tmp', g) \<and>
     down p [0, 0] 1 tmp' 1 1 g = Inr (out', g) \<and> sint (rd16 p (slice 0 2 out')) = 999"
    using int16_through_float [of paDitherOff "wr16 p 1000" 1 "replicate 4 0" "[0, 0]" p g] by auto
qed

text \<open>The converters from float that handle every sample between minus one and one.\<close>

definition unit_conv :: "pa_converter \<Rightarrow> nat \<Rightarrow> bool" where
  "unit_conv conv dn \<longleftrightarrow> (\<exists>f. conv = each 4 dn f \<and> unit_body dn f)"

lemma unit_convI: "conv = each 4 dn f \<Longrightarrow> unit_body dn f \<Longrightarrow> unit_conv conv dn"
  unfolding unit_conv_def by blast

lemma to_int_ok: "\<bar>y\<bar> \<le> of_int n \<Longrightarrow> lo \<le> - n \<Longrightarrow> n \<le> hi \<Longrightarrow> \<exists>t. to_int lo hi (Fin y) = Inr t"
  using to_int_bound by blast

lemma unit_Int32:
  "unit_conv Float32_To_Int32_Clip 4" "unit_conv Float32_To_Int32_Dither 4" "unit_conv Float32_To_Int32_DitherClip 4"
proof -
  show "unit_conv Float32_To_Int32_Clip 4"
    by (rule unit_convI [OF Float32_To_Int32_Clip_def], rule unit_undithered)
      (use scaled_2_31 clipped in \<open>fastforce simp: to_double_def\<close>, rule length_out)
  show "unit_conv Float32_To_Int32_Dither 4"
    by (rule unit_convI [OF Float32_To_Int32_Dither_def], rule unit_dithered [where n = 2147483646])
      (erule to_int_ok, simp_all add: length_out)
  show "unit_conv Float32_To_Int32_DitherClip 4"
    by (rule unit_convI [OF Float32_To_Int32_DitherClip_def], rule unit_dithered [where n = 2147483646])
      (rule clipped, simp_all add: length_out)
qed

lemma unit_Int24:
  "unit_conv Float32_To_Int24 3" "unit_conv Float32_To_Int24_Clip 3"
  "unit_conv Float32_To_Int24_Dither 3" "unit_conv Float32_To_Int24_DitherClip 3"
proof -
  have "\<exists>t. to_PaInt32 (scale_by dbl 2147483647 (Fin v)) = Inr t" if "\<bar>v\<bar> \<le> 1" for v
    using scaled_unit [OF that, of 2147483647 53 1023] to_int_ok [of _ 2147483647 "- 2147483648" 2147483647] by auto
  then show "unit_conv Float32_To_Int24 3"
    by (intro unit_convI [OF Float32_To_Int24_def] unit_undithered) (simp_all add: length_out)
  show "unit_conv Float32_To_Int24_Clip 3"
    by (rule unit_convI [OF Float32_To_Int24_Clip_def], rule unit_undithered)
      (use scaled_2_31 clipped in \<open>fastforce simp: to_double_def\<close>, rule length_out)
  show "unit_conv Float32_To_Int24_Dither 3"
    by (rule unit_convI [OF Float32_To_Int24_Dither_def], rule unit_dithered [where n = 2147483646])
      (erule to_int_ok, simp_all add: length_out)
  show "unit_conv Float32_To_Int24_DitherClip 3"
    by (rule unit_convI [OF Float32_To_Int24_DitherClip_def], rule unit_dithered [where n = 2147483646])
      (rule clipped, simp_all add: length_out)
qed

text \<open>What the narrow formats need: a bound of the scaled sample that the conversion can take.\<close>

lemma scaled_to_int:
  assumes "\<bar>v\<bar> \<le> 1" and "0 < n" and "n \<le> 32767" and "lo \<le> - n" and "n \<le> hi"
  shows "\<exists>t. to_int lo hi (scale_by fl (of_int n) (Fin v)) = Inr t \<and> \<bar>t\<bar> \<le> n"
  using scaled_unit [OF assms(1,2), of 24 127] assms(3-5) to_int_bound [of _ n lo hi] by auto

lemma unit_Int16:
  "unit_conv Float32_To_Int16 2" "unit_conv Float32_To_Int16_Clip 2"
  "unit_conv Float32_To_Int16_Dither 2" "unit_conv Float32_To_Int16_DitherClip 2"
proof -
  show "unit_conv Float32_To_Int16 2"
    by (rule unit_convI [OF Float32_To_Int16_def], rule unit_undithered)
      (use scaled_to_int [of _ 32767 "- 32768" 32767] in fastforce, rule length_out)
  show "unit_conv Float32_To_Int16_Clip 2"
    by (rule unit_convI [OF Float32_To_Int16_Clip_def], rule unit_undithered)
      (use scaled_to_int [of _ 32767 "- 2147483648" 2147483647] in fastforce, rule length_out)
  show "unit_conv Float32_To_Int16_Dither 2"
    by (rule unit_convI [OF Float32_To_Int16_Dither_def], rule unit_dithered [where n = 32766])
      (erule to_int_ok, simp_all add: length_out)
  show "unit_conv Float32_To_Int16_DitherClip 2"
    by (rule unit_convI [OF Float32_To_Int16_DitherClip_def], rule unit_dithered [where n = 32766])
      (use to_int_ok [of _ 32767 "- 2147483648" 2147483647] in fastforce, simp_all add: length_out)
qed

lemma unit_Int8:
  "unit_conv Float32_To_Int8 1" "unit_conv Float32_To_Int8_Clip 1"
  "unit_conv Float32_To_Int8_Dither 1" "unit_conv Float32_To_Int8_DitherClip 1"
proof -
  show "unit_conv Float32_To_Int8 1"
    by (rule unit_convI [OF Float32_To_Int8_def], rule unit_undithered)
      (use scaled_to_int [of _ 127 "- 128" 127] in fastforce, rule length_out)
  show "unit_conv Float32_To_Int8_Clip 1"
    by (rule unit_convI [OF Float32_To_Int8_Clip_def], rule unit_undithered)
      (use scaled_to_int [of _ 127 "- 2147483648" 2147483647] in fastforce, rule length_out)
  show "unit_conv Float32_To_Int8_Dither 1"
    by (rule unit_convI [OF Float32_To_Int8_Dither_def], rule unit_dithered [where n = 126])
      (erule to_int_ok, simp_all add: length_out)
  show "unit_conv Float32_To_Int8_DitherClip 1"
    by (rule unit_convI [OF Float32_To_Int8_DitherClip_def], rule unit_dithered [where n = 126])
      (use to_int_ok [of _ 127 "- 2147483648" 2147483647] in fastforce, simp_all add: length_out)
qed

lemma unit_UInt8:
  "unit_conv Float32_To_UInt8_Clip 1" "unit_conv Float32_To_UInt8_Dither 1" "unit_conv Float32_To_UInt8_DitherClip 1"
proof -
  have sum: "\<exists>t. bind_r (to_PaInt32 (Fin y)) (\<lambda>t. int32_result (128 + t)) = Inr t" if y: "\<bar>y\<bar> \<le> of_int 127" for y
  proof -
    obtain t where "to_PaInt32 (Fin y) = Inr t" "\<bar>t\<bar> \<le> 127"
      using to_int_bound [OF y, of "- 2147483648" 2147483647] by auto
    then show ?thesis by (simp add: int32_result_def abs_le_iff)
  qed
  then have clip: "\<exists>t. bind_r (to_PaInt32 (Fin y)) (\<lambda>t. bind_r (int32_result (128 + t)) (\<lambda>u. Inr (clip_i 0 0xFF u))) = Inr t"
    if "\<bar>y\<bar> \<le> of_int 127" for y using that by fastforce
  have "\<exists>t. bind_r (to_PaInt32 (scale_by fl 127 (Fin v))) (\<lambda>t. bind_r (int32_result (128 + t))
      (\<lambda>u. Inr (clip_i 0 0xFF u))) = Inr t" if "\<bar>v\<bar> \<le> 1" for v
    using scaled_unit [OF that, of 127 24 127] clip by auto
  then show "unit_conv Float32_To_UInt8_Clip 1"
    by (intro unit_convI [OF Float32_To_UInt8_Clip_def] unit_undithered) (simp_all add: length_out)
  show "unit_conv Float32_To_UInt8_Dither 1"
    by (rule unit_convI [OF Float32_To_UInt8_Dither_def], rule unit_dithered [where n = 126])
      (use sum in simp, simp_all add: length_out)
  show "unit_conv Float32_To_UInt8_DitherClip 1"
    by (rule unit_convI [OF Float32_To_UInt8_DitherClip_def], rule unit_dithered [where n = 126])
      (use clip in simp, simp_all add: length_out)
qed

lemma unit_converter:
  assumes "d \<noteq> Float32" and "flags AND paDitherOff = 0 \<or> flags AND paClipOff = 0 \<or> d \<noteq> Int32 \<and> d \<noteq> UInt8"
  shows "\<exists>conv. selected Float32 d flags = Some conv \<and> unit_conv conv (sample_bytes d)"
  using assms
  by (cases d) (auto simp: selected_def sample_bytes_def unit_Int32 unit_Int24 unit_Int16 unit_Int8 unit_UInt8
      simp del: One_nat_def)

lemma full_scale_float: "rdf p (wrf p (Fin 1)) = Fin 1" "rdf p (wrf p (Fin (- 1))) = Fin (- 1)"
proof -
  have "normal_float 1" using normal_float_scaled [of 1 0] by (simp add: pow2_def)
  then show "rdf p (wrf p (Fin 1)) = Fin 1" "rdf p (wrf p (Fin (- 1))) = Fin (- 1)"
    using normal_float_fl(2) [of 1] normal_float_fl(2) [of "- 1"] normal_float_minus [of 1]
    by (simp_all add: rdf_def wrf_def)
qed



end
