(* ===== verification/PaBuffer.thy ===== *)
theory PaBuffer
  imports PaProcess PaConv
begin

unbundle bit_operations_syntax

text \<open>
  The processing of buffers (\<open>src/external/portaudio/src/common/pa_process.c\<close>, lines 669 to 1831):
  the adaption between the buffers of the host and the callback of the user.

  The memory maps addresses to bytes; an access to an address that is not mapped is undefined
  behaviour. The callback is an argument: it gets the two buffers, the number of frames, the two
  times of \<open>timeInfo\<close> and the status flags, and may change the memory and a state \<open>'u\<close> of its own.
  Converters get strides below \<open>2 ^ 31\<close> and read their source before they write; source and
  destination do not overlap, they are a temporary buffer and one of the host or the caller. The
  arrays \<open>tempInputBufferPtrs\<close> and \<open>tempOutputBufferPtrs\<close>, which are filled before every use, are
  passed to the callback as the list of their entries.
\<close>

section \<open>Memory\<close>

type_synonym heap = "ptr \<Rightarrow> byte option"

definition mapped :: "heap \<Rightarrow> ptr \<Rightarrow> nat \<Rightarrow> bool" where
  "mapped h p n = list_all (\<lambda>i. h i \<noteq> None) [p..<p + n]"

definition peek :: "heap \<Rightarrow> ptr \<Rightarrow> nat \<Rightarrow> bytes result" where
  "peek h p n = (if mapped h p n then Inr (map (\<lambda>i. the (h i)) [p..<p + n]) else Inl Undefined_behaviour)"

definition poke :: "ptr \<Rightarrow> bytes \<Rightarrow> heap \<Rightarrow> heap" where
  "poke p xs h = (\<lambda>i. if p \<le> i \<and> i < p + length xs then Some (xs ! (i - p)) else h i)"

definition nonnull :: "'a option \<Rightarrow> 'a result" where
  "nonnull x = (case x of None \<Rightarrow> Inl Undefined_behaviour | Some y \<Rightarrow> Inr y)"

text \<open>The bytes that \<open>n\<close> samples of size \<open>sz\<close> span, \<open>st\<close> samples apart.\<close>

definition span_bytes :: "nat \<Rightarrow> nat \<Rightarrow> nat \<Rightarrow> nat" where
  "span_bytes sz st n = (if n = 0 then 0 else (n - 1) * st * sz + sz)"

fun converter_sizes :: "converter \<Rightarrow> nat \<times> nat" where
  "converter_sizes (Convert s d _ _) = (sample_bytes s, sample_bytes d)"
| "converter_sizes (Copy n) = (n div 8, n div 8)"

text \<open>The call of a converter; \<open>count\<close> is its parameter of type \<open>unsigned int\<close>.\<close>

definition call_converter ::
  "platform \<Rightarrow> converter option \<Rightarrow> ptr option \<Rightarrow> u32 \<Rightarrow> ptr option \<Rightarrow> u32 \<Rightarrow> u32 \<Rightarrow> heap \<Rightarrow> dither_generator \<Rightarrow>
     (heap \<times> dither_generator) result" where
  "call_converter p conv dest ds src ss count h g =
     bind_r (nonnull conv) (\<lambda>c. bind_r (nonnull (paConverters c)) (\<lambda>f.
       if count = 0 then Inr (h, g)
       else if \<not> (ds < 0x80000000 \<and> ss < 0x80000000) then Inl Undefined_behaviour
       else (case converter_sizes c of (sn, dn) \<Rightarrow>
         bind_r (nonnull dest) (\<lambda>d. bind_r (nonnull src) (\<lambda>s.
         bind_r (peek h s (span_bytes sn (unat ss) (unat count))) (\<lambda>xs.
         bind_r (peek h d (span_bytes dn (unat ds) (unat count))) (\<lambda>ys.
         bind_r (f p ys (int (unat ds)) xs (int (unat ss)) (unat count) g) (\<lambda>(ys, g).
           Inr (poke d ys h, g)))))))))"

definition zeroer_size :: "zeroer \<Rightarrow> nat" where
  "zeroer_size z = (case z of ZeroU8 \<Rightarrow> 1 | Zero8 \<Rightarrow> 1 | Zero16 \<Rightarrow> 2 | Zero24 \<Rightarrow> 3 | Zero32 \<Rightarrow> 4)"

definition call_zeroer :: "zeroer option \<Rightarrow> ptr option \<Rightarrow> u32 \<Rightarrow> u32 \<Rightarrow> heap \<Rightarrow> heap result" where
  "call_zeroer zeroer dest ds count h =
     bind_r (nonnull zeroer) (\<lambda>z.
       if count = 0 then Inr h
       else if \<not> ds < 0x80000000 then Inl Undefined_behaviour
       else bind_r (nonnull dest) (\<lambda>d.
         bind_r (peek h d (span_bytes (zeroer_size z) (unat ds) (unat count))) (\<lambda>ys.
         bind_r (run_zeroer z ys (int (unat ds)) (unat count)) (\<lambda>ys. Inr (poke d ys h)))))"

section \<open>State\<close>

text \<open>What the callback is given as a buffer: nothing, a block, or an array of pointers.\<close>

datatype user_buffer = No_buffer | Block "ptr option" | Pointers "ptr option list"

type_synonym 'u callback =
  "user_buffer \<Rightarrow> user_buffer \<Rightarrow> u64 \<Rightarrow> f64 \<times> f64 \<Rightarrow> u64 \<Rightarrow> heap \<Rightarrow> 'u \<Rightarrow> int \<times> heap \<times> 'u"

abbreviation paContinue :: int where "paContinue \<equiv> 0"
abbreviation paComplete :: int where "paComplete \<equiv> 1"
abbreviation paAbort :: int where "paAbort \<equiv> 2"

text \<open>The processor, the memory, the state of the callback and \<open>*streamCallbackResult\<close>.\<close>

record 'u proc =
  processor :: buffer_processor
  heap :: heap
  user :: 'u
  callback_result :: int

section \<open>Times\<close>

fun times_f :: "f64 \<Rightarrow> f64 \<Rightarrow> f64" where
  "times_f NaN _ = NaN"
| "times_f _ NaN = NaN"
| "times_f (Fin x) (Fin y) = dbl (x * y)"
| "times_f (Fin x) PosInf = (if x = 0 then NaN else if 0 < x then PosInf else NegInf)"
| "times_f (Fin x) NegInf = (if x = 0 then NaN else if 0 < x then NegInf else PosInf)"
| "times_f PosInf (Fin y) = (if y = 0 then NaN else if 0 < y then PosInf else NegInf)"
| "times_f NegInf (Fin y) = (if y = 0 then NaN else if 0 < y then NegInf else PosInf)"
| "times_f PosInf PosInf = PosInf"
| "times_f NegInf NegInf = PosInf"
| "times_f PosInf NegInf = NegInf"
| "times_f NegInf PosInf = NegInf"

text \<open>\<open>frames * bp->samplePeriod\<close>.\<close>

definition duration :: "u64 \<Rightarrow> buffer_processor \<Rightarrow> f64" where
  "duration frameCount bp = times_f (dbl (of_nat (unat frameCount))) (samplePeriod bp)"

definition advance_times :: "u64 \<Rightarrow> buffer_processor \<Rightarrow> buffer_processor" where
  "advance_times frameCount bp =
     bp\<lparr>inputBufferAdcTime := plus_f dbl (inputBufferAdcTime bp) (duration frameCount bp),
        outputBufferDacTime := plus_f dbl (outputBufferDacTime bp) (duration frameCount bp)\<rparr>"

text \<open>\<open>adc\<close> and \<open>dac\<close> are the two times of the \<open>timeInfo\<close> that the caller hands over.\<close>

definition PaUtil_BeginBufferProcessing :: "f64 \<Rightarrow> f64 \<Rightarrow> u64 \<Rightarrow> buffer_processor \<Rightarrow> buffer_processor" where
  "PaUtil_BeginBufferProcessing adc dac flags bp =
     bp\<lparr>inputBufferAdcTime := plus_f dbl adc (neg_f (duration (framesInTempInputBuffer bp) bp)),
        outputBufferDacTime := plus_f dbl dac (duration (framesInTempOutputBuffer bp) bp),
        callbackStatusFlags := flags,
        hostInputFrameCount := (fst (hostInputFrameCount bp), 0),
        hostOutputFrameCount := (fst (hostOutputFrameCount bp), 0)\<rparr>"

definition PaUtil_IsBufferProcessorOutputEmpty :: "buffer_processor \<Rightarrow> int" where
  "PaUtil_IsBufferProcessorOutputEmpty bp = (if framesInTempOutputBuffer bp \<noteq> 0 then 0 else 1)"

section \<open>Channels\<close>

text \<open>The loops over the channels: from \<open>i\<close> on, \<open>n\<close> of them.\<close>

fun each_channel ::
  "(nat \<Rightarrow> channel_descriptor \<Rightarrow> 's \<Rightarrow> (channel_descriptor \<times> 's) result) \<Rightarrow> nat \<Rightarrow> nat \<Rightarrow>
     channel_descriptor list \<Rightarrow> 's \<Rightarrow> (channel_descriptor list \<times> 's) result" where
  "each_channel f 0 i cs s = Inr (cs, s)"
| "each_channel f (Suc n) i cs s =
     (if i < length cs
      then bind_r (f i (cs ! i) s) (\<lambda>(c, s). each_channel f n (Suc i) (cs[i := c]) s)
      else Inl Undefined_behaviour)"

definition chan_data :: "channel_descriptor \<Rightarrow> ptr option result" where
  "chan_data c = nonnull (data c)"

definition chan_stride :: "channel_descriptor \<Rightarrow> u32 result" where
  "chan_stride c = nonnull (stride c)"

definition advance_by :: "nat \<Rightarrow> channel_descriptor \<Rightarrow> channel_descriptor result" where
  "advance_by n c =
     bind_r (chan_data c) (\<lambda>d. bind_r (nonnull d) (\<lambda>p. Inr (c\<lparr>data := Some (Some (p + n))\<rparr>)))"

text \<open>
  \<open>frameCount * stride * bytes\<close> as \<open>unsigned long\<close>, where \<open>frameCount\<close> is one, and as
  \<open>unsigned int\<close>.
\<close>

definition advance_long :: "u64 \<Rightarrow> u32 \<Rightarrow> channel_descriptor \<Rightarrow> channel_descriptor result" where
  "advance_long frameCount sz c =
     bind_r (chan_stride c) (\<lambda>st. advance_by (unat (frameCount * ucast st * ucast sz)) c)"

definition advance_int :: "u32 \<Rightarrow> u32 \<Rightarrow> channel_descriptor \<Rightarrow> channel_descriptor result" where
  "advance_int frameCount sz c =
     bind_r (chan_stride c) (\<lambda>st. advance_by (unat (frameCount * st * sz)) c)"

text \<open>
  One turn of a loop that converts from the host: \<open>d\<close> is the destination, which moves on by \<open>step\<close>
  bytes; \<open>adv\<close> moves the pointer of the channel.
\<close>

definition convert_in ::
  "platform \<Rightarrow> buffer_processor \<Rightarrow> u32 \<Rightarrow> u32 \<Rightarrow> u32 \<Rightarrow> (channel_descriptor \<Rightarrow> channel_descriptor result) \<Rightarrow>
     nat \<Rightarrow> channel_descriptor \<Rightarrow> ptr \<times> heap \<times> dither_generator \<Rightarrow>
     (channel_descriptor \<times> ptr \<times> heap \<times> dither_generator) result" where
  "convert_in p bp count ds step adv i c = (\<lambda>(d, h, g).
     bind_r (chan_data c) (\<lambda>src. bind_r (chan_stride c) (\<lambda>ss.
     bind_r (call_converter p (inputConverter bp) (Some d) ds src ss count h g) (\<lambda>(h, g).
     bind_r (adv c) (\<lambda>c. Inr (c, d + unat step, h, g))))))"

definition convert_out ::
  "platform \<Rightarrow> buffer_processor \<Rightarrow> u32 \<Rightarrow> u32 \<Rightarrow> u32 \<Rightarrow> (channel_descriptor \<Rightarrow> channel_descriptor result) \<Rightarrow>
     nat \<Rightarrow> channel_descriptor \<Rightarrow> ptr \<times> heap \<times> dither_generator \<Rightarrow>
     (channel_descriptor \<times> ptr \<times> heap \<times> dither_generator) result" where
  "convert_out p bp count ss step adv i c = (\<lambda>(s, h, g).
     bind_r (chan_data c) (\<lambda>dest. bind_r (chan_stride c) (\<lambda>ds.
     bind_r (call_converter p (outputConverter bp) dest ds (Some s) ss count h g) (\<lambda>(h, g).
     bind_r (adv c) (\<lambda>c. Inr (c, s + unat step, h, g))))))"

definition zero_out ::
  "buffer_processor \<Rightarrow> u32 \<Rightarrow> (channel_descriptor \<Rightarrow> channel_descriptor result) \<Rightarrow>
     nat \<Rightarrow> channel_descriptor \<Rightarrow> heap \<Rightarrow> (channel_descriptor \<times> heap) result" where
  "zero_out bp count adv i c h =
     bind_r (chan_data c) (\<lambda>dest. bind_r (chan_stride c) (\<lambda>ds.
     bind_r (call_zeroer (outputZeroer bp) dest ds count h) (\<lambda>h.
     bind_r (adv c) (\<lambda>c. Inr (c, h)))))"

text \<open>The two sets of channel descriptors: \<open>second\<close> says which one is meant.\<close>

definition in_set :: "bool \<Rightarrow> buffer_processor \<Rightarrow> channel_descriptor list" where
  "in_set second bp = (if second then snd else fst) (hostInputChannels bp)"

definition out_set :: "bool \<Rightarrow> buffer_processor \<Rightarrow> channel_descriptor list" where
  "out_set second bp = (if second then snd else fst) (hostOutputChannels bp)"

definition put_in_set :: "bool \<Rightarrow> channel_descriptor list \<Rightarrow> buffer_processor \<Rightarrow> buffer_processor" where
  "put_in_set second cs bp =
     bp\<lparr>hostInputChannels := (if second then (fst (hostInputChannels bp), cs) else (cs, snd (hostInputChannels bp)))\<rparr>"

definition put_out_set :: "bool \<Rightarrow> channel_descriptor list \<Rightarrow> buffer_processor \<Rightarrow> buffer_processor" where
  "put_out_set second cs bp =
     bp\<lparr>hostOutputChannels := (if second then (fst (hostOutputChannels bp), cs) else (cs, snd (hostOutputChannels bp)))\<rparr>"

definition channel_at :: "channel_descriptor list \<Rightarrow> nat \<Rightarrow> channel_descriptor result" where
  "channel_at cs i = (if i < length cs then Inr (cs ! i) else Inl Undefined_behaviour)"

text \<open>\<open>bp->hostInputChannels[0][0].data\<close>: whether input was supplied; the same for the output.\<close>

definition input_supplied :: "buffer_processor \<Rightarrow> bool result" where
  "input_supplied bp = bind_r (channel_at (in_set False bp) 0) (\<lambda>c. bind_r (chan_data c) (\<lambda>d. Inr (d \<noteq> None)))"

definition output_supplied :: "buffer_processor \<Rightarrow> bool result" where
  "output_supplied bp = bind_r (channel_at (out_set False bp) 0) (\<lambda>c. bind_r (chan_data c) (\<lambda>d. Inr (d \<noteq> None)))"

text \<open>All pointers of a set, and the pointers into a block, \<open>step\<close> bytes apart.\<close>

fun all_data :: "channel_descriptor list \<Rightarrow> ptr option list result" where
  "all_data [] = Inr []"
| "all_data (c # cs) = bind_r (chan_data c) (\<lambda>d. bind_r (all_data cs) (\<lambda>ds. Inr (d # ds)))"

definition first_data :: "nat \<Rightarrow> channel_descriptor list \<Rightarrow> ptr option list result" where
  "first_data n cs = (if n \<le> length cs then all_data (take n cs) else Inl Undefined_behaviour)"

definition block_ptrs :: "ptr option \<Rightarrow> nat \<Rightarrow> (nat \<Rightarrow> nat) \<Rightarrow> ptr option list result" where
  "block_ptrs block n off = bind_r (nonnull block) (\<lambda>b. Inr (map (\<lambda>i. Some (b + off i)) [0..<n]))"

section \<open>Without adaption\<close>

text \<open>
  \<open>NonAdaptingProcess\<close>. The parameter \<open>hostInputChannels\<close> is null or one of the two sets of the
  processor; so is \<open>hostOutputChannels\<close>.
\<close>

definition input_array :: "bool option \<Rightarrow> buffer_processor \<Rightarrow> channel_descriptor list result" where
  "input_array which bp = bind_r (nonnull which) (\<lambda>second. Inr (in_set second bp))"

definition output_array :: "bool option \<Rightarrow> buffer_processor \<Rightarrow> channel_descriptor list result" where
  "output_array which bp = bind_r (nonnull which) (\<lambda>second. Inr (out_set second bp))"

text \<open>The first descriptor, if its stride is the number of channels.\<close>

definition whole_frames :: "u32 \<Rightarrow> channel_descriptor list result \<Rightarrow> ptr option option result" where
  "whole_frames channels cs =
     bind_r cs (\<lambda>cs. bind_r (channel_at cs 0) (\<lambda>c. bind_r (chan_stride c) (\<lambda>st.
       if channels = st then bind_r (chan_data c) (\<lambda>d. Inr (Some d)) else Inr None)))"

text \<open>The configuration of the input: the buffer of the user, the destination, and whether to skip the conversion.\<close>

definition na_user_input ::
  "bool option \<Rightarrow> u64 \<Rightarrow> bool \<Rightarrow> bool \<Rightarrow> buffer_processor \<Rightarrow> (user_buffer \<times> ptr option \<times> bool) result" where
  "na_user_input which frameCount supplied skip bp =
     (let n = unat (inputChannelCount bp); temp = tempInputBuffer bp in
      if userInputIsInterleaved bp
      then if userInputSampleFormatIsEqualToHost bp \<and> hostInputIsInterleaved bp \<and> supplied
           then bind_r (whole_frames (inputChannelCount bp) (input_array which bp)) (\<lambda>direct.
             Inr (case direct of Some d \<Rightarrow> (Block d, d, True) | None \<Rightarrow> (Block temp, temp, skip)))
           else Inr (Block temp, temp, skip)
      else if userInputSampleFormatIsEqualToHost bp \<and> \<not> hostInputIsInterleaved bp \<and> supplied
      then bind_r (input_array which bp) (\<lambda>cs. bind_r (first_data n cs) (\<lambda>ptrs. Inr (Pointers ptrs, temp, True)))
      else bind_r (block_ptrs temp n (\<lambda>i. unat (ucast (of_nat i * bytesPerUserInputSample bp) * frameCount)))
        (\<lambda>ptrs. Inr (Pointers ptrs, temp, skip)))"

text \<open>Destination stride and distance of the channels.\<close>

definition na_input_layout :: "u64 \<Rightarrow> buffer_processor \<Rightarrow> u32 \<times> u32" where
  "na_input_layout frameCount bp =
     (if userInputIsInterleaved bp then (inputChannelCount bp, bytesPerUserInputSample bp)
      else (1, ucast (frameCount * ucast (bytesPerUserInputSample bp))))"

fun zero_input :: "zeroer option \<Rightarrow> u32 \<Rightarrow> u32 \<Rightarrow> u32 \<Rightarrow> nat \<Rightarrow> ptr option \<Rightarrow> heap \<Rightarrow> heap result" where
  "zero_input z ds count step 0 d h = Inr h"
| "zero_input z ds count step (Suc n) d h =
     bind_r (call_zeroer z d ds count h) (\<lambda>h. bind_r (nonnull d) (\<lambda>q.
       zero_input z ds count step n (Some (q + unat step)) h))"

definition na_input ::
  "platform \<Rightarrow> bool option \<Rightarrow> u64 \<Rightarrow> bool \<Rightarrow> 'u proc \<Rightarrow> (user_buffer \<times> bool \<times> 'u proc) result" where
  "na_input p which frameCount skip st =
     (let bp = processor st; n = unat (inputChannelCount bp) in
      if inputChannelCount bp = 0 then Inr (No_buffer, skip, st)
      else bind_r (input_supplied bp) (\<lambda>supplied.
        bind_r (na_user_input which frameCount supplied skip bp) (\<lambda>(userInput, dest, skip).
        case na_input_layout frameCount bp of (ds, step) \<Rightarrow>
        if \<not> supplied
        then bind_r (zero_input (inputZeroer bp) ds (ucast frameCount) step n dest (heap st)) (\<lambda>h.
          Inr (userInput, skip, st\<lparr>heap := h\<rparr>))
        else bind_r (nonnull which) (\<lambda>second.
          if skip
          then bind_r (each_channel (\<lambda>i c _. bind_r (advance_long frameCount (bytesPerHostInputSample bp) c) (\<lambda>c. Inr (c, ())))
              n 0 (in_set second bp) ()) (\<lambda>(cs, _).
            Inr (userInput, skip, st\<lparr>processor := put_in_set second cs bp\<rparr>))
          else bind_r (nonnull dest) (\<lambda>d.
            bind_r (each_channel (convert_in p bp (ucast frameCount) ds step
                (advance_long frameCount (bytesPerHostInputSample bp))) n 0 (in_set second bp) (d, heap st, ditherGenerator bp))
              (\<lambda>(cs, _, h, g).
                Inr (userInput, skip, st\<lparr>processor := (put_in_set second cs bp)\<lparr>ditherGenerator := g\<rparr>, heap := h\<rparr>)))))))"

definition na_user_output ::
  "bool option \<Rightarrow> u64 \<Rightarrow> bool \<Rightarrow> buffer_processor \<Rightarrow> (user_buffer \<times> bool) result" where
  "na_user_output which frameCount skip bp =
     (let n = unat (outputChannelCount bp); temp = tempOutputBuffer bp in
      if outputChannelCount bp = 0 then Inr (No_buffer, skip)
      else if userOutputIsInterleaved bp
      then if userOutputSampleFormatIsEqualToHost bp \<and> hostOutputIsInterleaved bp
           then bind_r (whole_frames (outputChannelCount bp) (output_array which bp)) (\<lambda>direct.
             Inr (case direct of Some d \<Rightarrow> (Block d, True) | None \<Rightarrow> (Block temp, skip)))
           else Inr (Block temp, skip)
      else if userOutputSampleFormatIsEqualToHost bp \<and> \<not> hostOutputIsInterleaved bp
      then bind_r (output_array which bp) (\<lambda>cs. bind_r (first_data n cs) (\<lambda>ptrs. Inr (Pointers ptrs, True)))
      else bind_r (block_ptrs temp n (\<lambda>i. unat (ucast (of_nat i * bytesPerUserOutputSample bp) * frameCount)))
        (\<lambda>ptrs. Inr (Pointers ptrs, skip)))"

text \<open>What follows a callback that has not aborted.\<close>

definition na_output ::
  "platform \<Rightarrow> bool option \<Rightarrow> u64 \<Rightarrow> bool \<Rightarrow> 'u proc \<Rightarrow> 'u proc result" where
  "na_output p which frameCount skip st =
     (let bp = processor st; n = unat (outputChannelCount bp) in
      if outputChannelCount bp = 0 then Inr st
      else bind_r (output_supplied bp) (\<lambda>supplied.
        if \<not> supplied then Inr st
        else bind_r (nonnull which) (\<lambda>second.
          if skip
          then bind_r (each_channel (\<lambda>i c _. bind_r (advance_long frameCount (bytesPerHostOutputSample bp) c) (\<lambda>c. Inr (c, ())))
              n 0 (out_set second bp) ()) (\<lambda>(cs, _). Inr (st\<lparr>processor := put_out_set second cs bp\<rparr>))
          else bind_r (nonnull (tempOutputBuffer bp)) (\<lambda>s.
            let (ss, step) = (if userOutputIsInterleaved bp then (outputChannelCount bp, bytesPerUserOutputSample bp)
                  else (1, ucast (frameCount * ucast (bytesPerUserOutputSample bp)))) in
            bind_r (each_channel (convert_out p bp (ucast frameCount) ss step
                (advance_long frameCount (bytesPerHostOutputSample bp))) n 0 (out_set second bp) (s, heap st, ditherGenerator bp))
              (\<lambda>(cs, _, h, g).
                Inr (st\<lparr>processor := (put_out_set second cs bp)\<lparr>ditherGenerator := g\<rparr>, heap := h\<rparr>))))))"

text \<open>The call of the callback with the times and flags of the processor.\<close>

definition call_back :: "'u callback \<Rightarrow> user_buffer \<Rightarrow> user_buffer \<Rightarrow> u64 \<Rightarrow> 'u proc \<Rightarrow> 'u proc" where
  "call_back cb userInput userOutput frameCount st =
     (let bp = processor st in
      case cb userInput userOutput frameCount (inputBufferAdcTime bp, outputBufferDacTime bp)
          (callbackStatusFlags bp) (heap st) (user st) of
        (r, h, u) \<Rightarrow> st\<lparr>heap := h, user := u, callback_result := r\<rparr>)"

text \<open>The body of the loop; the result has the frames still to go, the frames processed and the two flags.\<close>

definition na_turn ::
  "platform \<Rightarrow> 'u callback \<Rightarrow> bool option \<Rightarrow> bool option \<Rightarrow> u64 \<Rightarrow> u64 \<Rightarrow> bool \<Rightarrow> bool \<Rightarrow> 'u proc \<Rightarrow>
     ('u proc \<times> u64 \<times> u64 \<times> bool \<times> bool) result" where
  "na_turn p cb ins outs framesToGo framesProcessed skipIn skipOut st =
     (let frameCount = min (framesPerTempBuffer (processor st)) framesToGo in
      bind_r (na_input p ins frameCount skipIn st) (\<lambda>(userInput, skipIn, st).
      bind_r (na_user_output outs frameCount skipOut (processor st)) (\<lambda>(userOutput, skipOut).
      let st = call_back cb userInput userOutput frameCount st in
      if callback_result st = paAbort
      then Inr (st, framesToGo, framesProcessed, skipIn, skipOut)
      else bind_r (na_output p outs frameCount skipOut
            (st\<lparr>processor := advance_times frameCount (processor st)\<rparr>)) (\<lambda>st.
        Inr (st, framesToGo - frameCount, framesProcessed + frameCount, skipIn, skipOut)))))"

partial_function (option) na_loop ::
  "platform \<Rightarrow> 'u callback \<Rightarrow> bool option \<Rightarrow> bool option \<Rightarrow> u64 \<Rightarrow> u64 \<Rightarrow> bool \<Rightarrow> bool \<Rightarrow> 'u proc \<Rightarrow>
     ('u proc \<times> u64 \<times> u64) comp" where
  "na_loop p cb ins outs framesToGo framesProcessed skipIn skipOut st =
     (case na_turn p cb ins outs framesToGo framesProcessed skipIn skipOut st of
        Inl e \<Rightarrow> Some (Inl e)
      | Inr (st, framesToGo, framesProcessed, skipIn, skipOut) \<Rightarrow>
          if framesToGo > 0 \<and> callback_result st = paContinue
          then na_loop p cb ins outs framesToGo framesProcessed skipIn skipOut st
          else Some (Inr (st, framesToGo, framesProcessed)))"

declare na_loop.simps [code]

definition na_zero_rest :: "bool option \<Rightarrow> u64 \<Rightarrow> 'u proc \<Rightarrow> 'u proc result" where
  "na_zero_rest which frameCount st =
     (let bp = processor st in
      if outputChannelCount bp = 0 then Inr st
      else bind_r (output_supplied bp) (\<lambda>supplied.
        if \<not> supplied then Inr st
        else bind_r (nonnull which) (\<lambda>second.
          bind_r (each_channel (zero_out bp (ucast frameCount) (advance_long frameCount (bytesPerHostOutputSample bp)))
              (unat (outputChannelCount bp)) 0 (out_set second bp) (heap st)) (\<lambda>(cs, h).
            Inr (st\<lparr>processor := put_out_set second cs bp, heap := h\<rparr>)))))"

definition NonAdaptingProcess ::
  "platform \<Rightarrow> 'u callback \<Rightarrow> bool option \<Rightarrow> bool option \<Rightarrow> u64 \<Rightarrow> 'u proc \<Rightarrow> (u64 \<times> 'u proc) comp" where
  "NonAdaptingProcess p cb ins outs framesToProcess st =
     bind_c (if callback_result st = paContinue
             then na_loop p cb ins outs framesToProcess 0 False False st
             else Some (Inr (st, framesToProcess, 0)))
       (\<lambda>(st, framesToGo, framesProcessed).
         Some (if framesToGo > 0
           then bind_r (na_zero_rest outs framesToGo st) (\<lambda>st. Inr (framesProcessed + framesToGo, st))
           else Inr (framesProcessed, st)))"

section \<open>Copying without a callback\<close>

text \<open>
  What \<open>*buffer\<close> is for \<open>PaUtil_CopyInput\<close> and \<open>PaUtil_CopyOutput\<close>: a block for interleaved formats,
  an array of pointers otherwise; another kind than the format asks for is undefined behaviour.
\<close>

definition advance_ptr :: "u32 \<Rightarrow> ptr option \<Rightarrow> ptr option result" where
  "advance_ptr n p = bind_r (nonnull p) (\<lambda>q. Inr (Some (q + unat n)))"

definition copy_in_channel ::
  "platform \<Rightarrow> buffer_processor \<Rightarrow> u32 \<Rightarrow> nat \<Rightarrow> channel_descriptor \<Rightarrow> ptr option list \<times> heap \<times> dither_generator \<Rightarrow>
     (channel_descriptor \<times> ptr option list \<times> heap \<times> dither_generator) result" where
  "copy_in_channel p bp count i c = (\<lambda>(ps, h, g).
     if i < length ps
     then bind_r (chan_data c) (\<lambda>src. bind_r (chan_stride c) (\<lambda>ss.
       bind_r (call_converter p (inputConverter bp) (ps ! i) 1 src ss count h g) (\<lambda>(h, g).
       bind_r (advance_ptr (bytesPerUserInputSample bp * count) (ps ! i)) (\<lambda>d.
       bind_r (advance_int count (bytesPerHostInputSample bp) c) (\<lambda>c. Inr (c, ps[i := d], h, g))))))
     else Inl Undefined_behaviour)"

definition copy_out_channel ::
  "platform \<Rightarrow> buffer_processor \<Rightarrow> u32 \<Rightarrow> nat \<Rightarrow> channel_descriptor \<Rightarrow> ptr option list \<times> heap \<times> dither_generator \<Rightarrow>
     (channel_descriptor \<times> ptr option list \<times> heap \<times> dither_generator) result" where
  "copy_out_channel p bp count i c = (\<lambda>(ps, h, g).
     if i < length ps
     then bind_r (chan_data c) (\<lambda>dest. bind_r (chan_stride c) (\<lambda>ds.
       bind_r (call_converter p (outputConverter bp) dest ds (ps ! i) 1 count h g) (\<lambda>(h, g).
       bind_r (advance_ptr (bytesPerUserOutputSample bp * count) (ps ! i)) (\<lambda>s.
       bind_r (advance_int count (bytesPerHostOutputSample bp) c) (\<lambda>c. Inr (c, ps[i := s], h, g))))))
     else Inl Undefined_behaviour)"

text \<open>The result has the number of frames copied and \<open>*buffer\<close> as it is afterwards.\<close>

definition PaUtil_CopyInput ::
  "platform \<Rightarrow> user_buffer \<Rightarrow> u64 \<Rightarrow> 'u proc \<Rightarrow> (u64 \<times> user_buffer \<times> 'u proc) result" where
  "PaUtil_CopyInput p buffer frameCount st =
     (let bp = processor st; n = unat (inputChannelCount bp);
          framesToCopy = ucast (min (fst (hostInputFrameCount bp)) frameCount) :: u32;
          finish = (\<lambda>buffer cs h g. Inr (ucast framesToCopy, buffer,
            st\<lparr>processor := (put_in_set False cs bp)\<lparr>ditherGenerator := g,
                 hostInputFrameCount := (fst (hostInputFrameCount bp) - ucast framesToCopy, snd (hostInputFrameCount bp))\<rparr>,
               heap := h\<rparr>)) in
      if userInputIsInterleaved bp
      then (case buffer of
          Block block \<Rightarrow> bind_r (nonnull block) (\<lambda>d.
            bind_r (each_channel (convert_in p bp framesToCopy (inputChannelCount bp) (bytesPerUserInputSample bp)
                (advance_int framesToCopy (bytesPerHostInputSample bp))) n 0 (in_set False bp) (d, heap st, ditherGenerator bp))
              (\<lambda>(cs, _, h, g). finish
                (Block (Some (d + unat (framesToCopy * inputChannelCount bp * bytesPerUserInputSample bp)))) cs h g))
        | _ \<Rightarrow> Inl Undefined_behaviour)
      else (case buffer of
          Pointers ps \<Rightarrow>
            bind_r (each_channel (copy_in_channel p bp framesToCopy) n 0 (in_set False bp) (ps, heap st, ditherGenerator bp))
              (\<lambda>(cs, ps, h, g). finish (Pointers ps) cs h g)
        | _ \<Rightarrow> Inl Undefined_behaviour))"

definition PaUtil_CopyOutput ::
  "platform \<Rightarrow> user_buffer \<Rightarrow> u64 \<Rightarrow> 'u proc \<Rightarrow> (u64 \<times> user_buffer \<times> 'u proc) result" where
  "PaUtil_CopyOutput p buffer frameCount st =
     (let bp = processor st; n = unat (outputChannelCount bp);
          framesToCopy = ucast (min (fst (hostOutputFrameCount bp)) frameCount) :: u32;
          finish = (\<lambda>buffer cs h g. Inr (ucast framesToCopy, buffer,
            st\<lparr>processor := (put_out_set False cs bp)\<lparr>ditherGenerator := g,
                 hostOutputFrameCount := (fst (hostOutputFrameCount bp) + ucast framesToCopy, snd (hostOutputFrameCount bp))\<rparr>,
               heap := h\<rparr>)) in
      if userOutputIsInterleaved bp
      then (case buffer of
          Block block \<Rightarrow> bind_r (nonnull block) (\<lambda>s.
            bind_r (each_channel (convert_out p bp framesToCopy (outputChannelCount bp) (bytesPerUserOutputSample bp)
                (advance_int framesToCopy (bytesPerHostOutputSample bp))) n 0 (out_set False bp) (s, heap st, ditherGenerator bp))
              (\<lambda>(cs, _, h, g). finish
                (Block (Some (s + unat (framesToCopy * outputChannelCount bp * bytesPerUserOutputSample bp)))) cs h g))
        | _ \<Rightarrow> Inl Undefined_behaviour)
      else (case buffer of
          Pointers ps \<Rightarrow>
            bind_r (each_channel (copy_out_channel p bp framesToCopy) n 0 (out_set False bp) (ps, heap st, ditherGenerator bp))
              (\<lambda>(cs, ps, h, g). finish (Pointers ps) cs h g)
        | _ \<Rightarrow> Inl Undefined_behaviour))"

definition PaUtil_ZeroOutput :: "u64 \<Rightarrow> 'u proc \<Rightarrow> (u64 \<times> 'u proc) result" where
  "PaUtil_ZeroOutput frameCount st =
     (let bp = processor st;
          framesToZero = ucast (min (fst (hostOutputFrameCount bp)) frameCount) :: u32 in
      bind_r (each_channel (zero_out bp framesToZero (advance_int framesToZero (bytesPerHostOutputSample bp)))
          (unat (outputChannelCount bp)) 0 (out_set False bp) (heap st)) (\<lambda>(cs, h).
        Inr (ucast framesToZero,
          st\<lparr>processor := (put_out_set False cs bp)\<lparr>hostOutputFrameCount :=
               (fst (hostOutputFrameCount bp) + ucast framesToZero, snd (hostOutputFrameCount bp))\<rparr>, heap := h\<rparr>)))"

section \<open>An example\<close>

text \<open>
  A processor with one channel of 16 bits in both directions, blocks of two frames, the temporary
  buffers at 0 and 16, and host buffers at 100 and 200; all memory is mapped.
\<close>

definition mono16 :: buffer_processor where
  "mono16 = \<lparr>framesPerUserBuffer = 2, framesPerHostBuffer = 3, hostBufferSizeMode = paUtilBoundedHostBufferSize,
     useNonAdaptingProcess = False, userOutputSampleFormatIsEqualToHost = True, userInputSampleFormatIsEqualToHost = True,
     framesPerTempBuffer = 2, inputChannelCount = 1, bytesPerHostInputSample = 2, bytesPerUserInputSample = 2,
     userInputIsInterleaved = True, inputConverter = Some (Copy 16), inputZeroer = Some Zero16,
     outputChannelCount = 1, bytesPerHostOutputSample = 2, bytesPerUserOutputSample = 2,
     userOutputIsInterleaved = True, outputConverter = Some (Copy 16), outputZeroer = Some Zero16,
     initialFramesInTempInputBuffer = 0, tempInputBuffer = Some 0, tempInputBufferPtrs = None, framesInTempInputBuffer = 0,
     initialFramesInTempOutputBuffer = 2, tempOutputBuffer = Some 16, tempOutputBufferPtrs = None, framesInTempOutputBuffer = 2,
     inputBufferAdcTime = Fin 0, outputBufferDacTime = Fin 0, callbackStatusFlags = 0,
     hostInputIsInterleaved = True, hostInputFrameCount = (3, 0), hostInputBlock = None,
     hostInputChannels = ([\<lparr>data = Some (Some 100), stride = Some 1\<rparr>], [raw_descriptor]),
     hostOutputIsInterleaved = True, hostOutputFrameCount = (3, 0), hostOutputBlock = None,
     hostOutputChannels = ([\<lparr>data = Some (Some 200), stride = Some 1\<rparr>], [raw_descriptor]),
     ditherGenerator = PaUtil_InitializeTriangularDitherState, samplePeriod = Fin 1, bpStreamCallback = Some 1, bpUserData = 0\<rparr>"

definition whole_memory :: heap where
  "whole_memory a = Some (of_nat a)"

text \<open>A callback that does nothing but continue.\<close>

definition idle_callback :: "'u callback" where
  "idle_callback i u n t f h s = (paContinue, h, s)"

end
