(* ===== verification/PaAdapt.thy ===== *)
theory PaAdapt
  imports PaBuffer
begin

text \<open>
  The block adaption of the buffer processor and the end of a processing call
  (\<open>src/external/portaudio/src/common/pa_process.c\<close>, lines 972 to 1653): the user asked for blocks
  of another length than those of the host, so frames wait in the temporary buffers until a block
  is complete, or until the host has room.

  A loop that may not end is a partial function whose value is then \<open>None\<close>. Frame counts are
  \<open>unsigned long\<close>; \<open>AdaptingProcess\<close> and \<open>CopyTempOutputBuffersToHostOutputBuffers\<close> put them into an
  \<open>unsigned int\<close>, which is written out.
\<close>

section \<open>Temporary buffers\<close>

text \<open>
  Where the frame \<open>offset\<close> of a temporary buffer is, the distance of the samples of a channel, and
  that of the channels in bytes.
\<close>

definition temp_layout :: "bool \<Rightarrow> u32 \<Rightarrow> u32 \<Rightarrow> u64 \<Rightarrow> u64 \<Rightarrow> ptr option \<Rightarrow> (ptr \<times> u32 \<times> u32) result" where
  "temp_layout interleaved channels bytes offset perUser temp =
     bind_r (nonnull temp) (\<lambda>t. Inr (
       if interleaved then (t + unat (ucast (bytes * channels) * offset), channels, bytes)
       else (t + unat (ucast bytes * offset), 1, ucast (perUser * ucast bytes))))"

text \<open>From the host into the temporary input buffer; \<open>second\<close> says which set of descriptors.\<close>

definition fill_input ::
  "platform \<Rightarrow> bool \<Rightarrow> u32 \<Rightarrow> (channel_descriptor \<Rightarrow> channel_descriptor result) \<Rightarrow> 'u proc \<Rightarrow> 'u proc result" where
  "fill_input p second count adv st =
     (let bp = processor st in
      bind_r (temp_layout (userInputIsInterleaved bp) (inputChannelCount bp) (bytesPerUserInputSample bp)
          (framesInTempInputBuffer bp) (framesPerUserBuffer bp) (tempInputBuffer bp)) (\<lambda>(d, ds, step).
      bind_r (each_channel (convert_in p bp count ds step adv) (unat (inputChannelCount bp)) 0 (in_set second bp)
          (d, heap st, ditherGenerator bp)) (\<lambda>(cs, _, h, g).
        Inr (st\<lparr>processor := (put_in_set second cs bp)\<lparr>ditherGenerator := g\<rparr>, heap := h\<rparr>))))"

text \<open>From the temporary output buffer to the host; \<open>f\<close> is the turn for a channel.\<close>

definition drain_output ::
  "platform \<Rightarrow> bool \<Rightarrow> u32 \<Rightarrow> (channel_descriptor \<Rightarrow> channel_descriptor result) \<Rightarrow> (channel_descriptor \<Rightarrow> bool) \<Rightarrow>
     'u proc \<Rightarrow> 'u proc result" where
  "drain_output p second count adv ok st =
     (let bp = processor st in
      bind_r (temp_layout (userOutputIsInterleaved bp) (outputChannelCount bp) (bytesPerUserOutputSample bp)
          (framesPerUserBuffer bp - framesInTempOutputBuffer bp) (framesPerUserBuffer bp) (tempOutputBuffer bp))
        (\<lambda>(s, ss, step).
      bind_r (each_channel (\<lambda>i c a. check (ok c) (convert_out p bp count ss step adv i c a))
          (unat (outputChannelCount bp)) 0 (out_set second bp) (s, heap st, ditherGenerator bp)) (\<lambda>(cs, _, h, g).
        Inr (st\<lparr>processor := (put_out_set second cs bp)\<lparr>ditherGenerator := g\<rparr>, heap := h\<rparr>))))"

definition silence_output ::
  "bool \<Rightarrow> u32 \<Rightarrow> (channel_descriptor \<Rightarrow> channel_descriptor result) \<Rightarrow> 'u proc \<Rightarrow> 'u proc result" where
  "silence_output second count adv st =
     (let bp = processor st in
      bind_r (each_channel (zero_out bp count adv) (unat (outputChannelCount bp)) 0 (out_set second bp) (heap st))
        (\<lambda>(cs, h). Inr (st\<lparr>processor := put_out_set second cs bp, heap := h\<rparr>)))"

section \<open>Input only\<close>

definition ai_user_input :: "buffer_processor \<Rightarrow> user_buffer result" where
  "ai_user_input bp =
     (if userInputIsInterleaved bp then Inr (Block (tempInputBuffer bp))
      else bind_r (block_ptrs (tempInputBuffer bp) (unat (inputChannelCount bp))
          (\<lambda>i. unat (ucast (of_nat i * bytesPerUserInputSample bp) * framesPerUserBuffer bp)))
        (\<lambda>ptrs. Inr (Pointers ptrs)))"

text \<open>The temporary input buffer is complete: the callback takes it, or nobody does.\<close>

definition deliver_input :: "'u callback \<Rightarrow> user_buffer \<Rightarrow> 'u proc \<Rightarrow> 'u proc" where
  "deliver_input cb userInput st =
     (let bp = processor st;
          st = (if callback_result st = paContinue
            then let st = call_back cb userInput No_buffer (framesPerUserBuffer bp)
                       (st\<lparr>processor := bp\<lparr>outputBufferDacTime := Fin 0\<rparr>\<rparr>);
                     bp = processor st
                 in st\<lparr>processor := bp\<lparr>inputBufferAdcTime :=
                       plus_f dbl (inputBufferAdcTime bp) (duration (framesPerUserBuffer bp) bp)\<rparr>\<rparr>
            else st)
      in st\<lparr>processor := (processor st)\<lparr>framesInTempInputBuffer := 0\<rparr>\<rparr>)"

definition ai_frames :: "u64 \<Rightarrow> buffer_processor \<Rightarrow> u64" where
  "ai_frames framesToGo bp =
     (if framesInTempInputBuffer bp + framesToGo > framesPerUserBuffer bp
      then framesPerUserBuffer bp - framesInTempInputBuffer bp else framesToGo)"

definition ai_turn :: "platform \<Rightarrow> 'u callback \<Rightarrow> bool \<Rightarrow> u64 \<Rightarrow> 'u proc \<Rightarrow> ('u proc \<times> u64) result" where
  "ai_turn p cb second framesToGo st =
     (let bp = processor st; frameCount = ai_frames framesToGo bp in
      bind_r (ai_user_input bp) (\<lambda>userInput.
      bind_r (fill_input p second (ucast frameCount) (advance_long frameCount (bytesPerHostInputSample bp)) st) (\<lambda>st.
        let bp = processor st;
            bp = bp\<lparr>framesInTempInputBuffer := framesInTempInputBuffer bp + frameCount\<rparr>;
            st = st\<lparr>processor := bp\<rparr> in
        Inr (if framesInTempInputBuffer bp = framesPerUserBuffer bp then deliver_input cb userInput st else st,
          frameCount))))"

partial_function (option) ai_loop ::
  "platform \<Rightarrow> 'u callback \<Rightarrow> bool \<Rightarrow> u64 \<Rightarrow> u64 \<Rightarrow> 'u proc \<Rightarrow> (u64 \<times> 'u proc) comp" where
  "ai_loop p cb second framesToGo framesProcessed st =
     (case ai_turn p cb second framesToGo st of
        Inl e \<Rightarrow> Some (Inl e)
      | Inr (st, frameCount) \<Rightarrow>
          if framesToGo - frameCount > 0
          then ai_loop p cb second (framesToGo - frameCount) (framesProcessed + frameCount) st
          else Some (Inr (framesProcessed + frameCount, st)))"

declare ai_loop.simps [code]

definition AdaptingInputOnlyProcess ::
  "platform \<Rightarrow> 'u callback \<Rightarrow> bool \<Rightarrow> u64 \<Rightarrow> 'u proc \<Rightarrow> (u64 \<times> 'u proc) comp" where
  "AdaptingInputOnlyProcess p cb second framesToProcess st = ai_loop p cb second framesToProcess 0 st"

section \<open>Output only\<close>

definition user_ptrs :: "bool \<Rightarrow> ptr option \<Rightarrow> u32 \<Rightarrow> u32 \<Rightarrow> u64 \<Rightarrow> user_buffer result" where
  "user_ptrs interleaved temp channels bytes perUser =
     (if interleaved then Inr (Block temp)
      else bind_r (block_ptrs temp (unat channels) (\<lambda>i. unat (of_nat i * perUser * ucast bytes)))
        (\<lambda>ptrs. Inr (Pointers ptrs)))"

definition user_output :: "buffer_processor \<Rightarrow> user_buffer result" where
  "user_output bp = user_ptrs (userOutputIsInterleaved bp) (tempOutputBuffer bp) (outputChannelCount bp)
     (bytesPerUserOutputSample bp) (framesPerUserBuffer bp)"

text \<open>The callback is asked for a block of output, which it gives unless it aborts.\<close>

definition ask_output :: "'u callback \<Rightarrow> user_buffer \<Rightarrow> 'u proc \<Rightarrow> 'u proc" where
  "ask_output cb userOutput st =
     (let bp = processor st;
          st = call_back cb No_buffer userOutput (framesPerUserBuffer bp)
            (st\<lparr>processor := bp\<lparr>inputBufferAdcTime := Fin 0\<rparr>\<rparr>);
          bp = processor st in
      if callback_result st = paAbort then st
      else st\<lparr>processor := bp\<lparr>
        outputBufferDacTime := plus_f dbl (outputBufferDacTime bp) (duration (framesPerUserBuffer bp) bp),
        framesInTempOutputBuffer := framesPerUserBuffer bp\<rparr>\<rparr>)"

definition fetch_output :: "'u callback \<Rightarrow> 'u proc \<Rightarrow> 'u proc result" where
  "fetch_output cb st =
     (if framesInTempOutputBuffer (processor st) = 0 \<and> callback_result st = paContinue
      then bind_r (user_output (processor st)) (\<lambda>userOutput. Inr (ask_output cb userOutput st))
      else Inr st)"

definition ao_turn :: "platform \<Rightarrow> 'u callback \<Rightarrow> bool \<Rightarrow> u64 \<Rightarrow> 'u proc \<Rightarrow> ('u proc \<times> u64) result" where
  "ao_turn p cb second framesToGo st =
     bind_r (fetch_output cb st) (\<lambda>st.
       let bp = processor st in
       if framesInTempOutputBuffer bp > 0
       then let frameCount = min (framesInTempOutputBuffer bp) framesToGo in
         bind_r (drain_output p second (ucast frameCount) (advance_long frameCount (bytesPerHostOutputSample bp)) (\<lambda>_. True) st)
           (\<lambda>st. let bp = processor st in
             Inr (st\<lparr>processor := bp\<lparr>framesInTempOutputBuffer := framesInTempOutputBuffer bp - frameCount\<rparr>\<rparr>, frameCount))
       else bind_r (silence_output second (ucast framesToGo) (advance_long framesToGo (bytesPerHostOutputSample bp)) st)
         (\<lambda>st. Inr (st, framesToGo)))"

partial_function (option) ao_loop ::
  "platform \<Rightarrow> 'u callback \<Rightarrow> bool \<Rightarrow> u64 \<Rightarrow> u64 \<Rightarrow> 'u proc \<Rightarrow> (u64 \<times> 'u proc) comp" where
  "ao_loop p cb second framesToGo framesProcessed st =
     (case ao_turn p cb second framesToGo st of
        Inl e \<Rightarrow> Some (Inl e)
      | Inr (st, frameCount) \<Rightarrow>
          if framesToGo - frameCount > 0
          then ao_loop p cb second (framesToGo - frameCount) (framesProcessed + frameCount) st
          else Some (Inr (framesProcessed + frameCount, st)))"

declare ao_loop.simps [code]

definition AdaptingOutputOnlyProcess ::
  "platform \<Rightarrow> 'u callback \<Rightarrow> bool \<Rightarrow> u64 \<Rightarrow> 'u proc \<Rightarrow> (u64 \<times> 'u proc) comp" where
  "AdaptingOutputOnlyProcess p cb second framesToProcess st = ao_loop p cb second framesToProcess 0 st"

section \<open>Full duplex\<close>

text \<open>A recursive call may stand behind the bind.\<close>

lemma bind_c_option: "bind_c m f = Option.bind m (\<lambda>r. case r of Inl e \<Rightarrow> Some (Inl e) | Inr x \<Rightarrow> f x)"
  by (cases m) (auto split: sum.split)

lemma bind_c_mono [partial_function_mono]:
  assumes "monotone (fun_ord option_ord) option_ord B"
    and "\<And>y. monotone (fun_ord option_ord) option_ord (\<lambda>f. C y f)"
  shows "monotone (fun_ord option_ord) option_ord (\<lambda>f. bind_c (B f) (\<lambda>y. C y f))"
  unfolding bind_c_option
proof (rule bind_mono [OF assms(1)])
  fix r
  show "monotone (fun_ord option_ord) option_ord (\<lambda>f. case r of Inl e \<Rightarrow> Some (Inl e) | Inr x \<Rightarrow> C x f)"
    using assms(2) by (cases r) (auto intro: option.const_mono)
qed

text \<open>The number of frames of set 0 or 1, for the input and the output.\<close>

definition in_count :: "bool \<Rightarrow> buffer_processor \<Rightarrow> u64" where
  "in_count second bp = (if second then snd else fst) (hostInputFrameCount bp)"

definition out_count :: "bool \<Rightarrow> buffer_processor \<Rightarrow> u64" where
  "out_count second bp = (if second then snd else fst) (hostOutputFrameCount bp)"

definition put_in_count :: "bool \<Rightarrow> u64 \<Rightarrow> buffer_processor \<Rightarrow> buffer_processor" where
  "put_in_count second n bp =
     bp\<lparr>hostInputFrameCount := (if second then (fst (hostInputFrameCount bp), n) else (n, snd (hostInputFrameCount bp)))\<rparr>"

definition put_out_count :: "bool \<Rightarrow> u64 \<Rightarrow> buffer_processor \<Rightarrow> buffer_processor" where
  "put_out_count second n bp =
     bp\<lparr>hostOutputFrameCount := (if second then (fst (hostOutputFrameCount bp), n) else (n, snd (hostOutputFrameCount bp)))\<rparr>"

definition out_total :: "buffer_processor \<Rightarrow> u64" where
  "out_total bp = out_count False bp + out_count True bp"

definition in_total :: "buffer_processor \<Rightarrow> u64" where
  "in_total bp = in_count False bp + in_count True bp"

text \<open>One turn of \<open>CopyTempOutputBuffersToHostOutputBuffers\<close>.\<close>

definition ct_turn :: "platform \<Rightarrow> 'u proc \<Rightarrow> 'u proc result" where
  "ct_turn p st =
     (let bp = processor st; second = (\<not> out_count False bp > 0);
          frameCount = ucast (min (out_count second bp) (framesInTempOutputBuffer bp)) :: u32 in
      bind_r (drain_output p second frameCount (advance_int frameCount (bytesPerHostOutputSample bp))
          (\<lambda>c. data c \<noteq> Some None) st) (\<lambda>st.
        let bp = processor st; second = (\<not> out_count False bp > 0);
            bp = put_out_count second (out_count second bp - ucast frameCount) bp in
        Inr (st\<lparr>processor := bp\<lparr>framesInTempOutputBuffer := framesInTempOutputBuffer bp - ucast frameCount\<rparr>\<rparr>)))"

partial_function (option) CopyTempOutputBuffersToHostOutputBuffers :: "platform \<Rightarrow> 'u proc \<Rightarrow> 'u proc comp" where
  "CopyTempOutputBuffersToHostOutputBuffers p st =
     (if framesInTempOutputBuffer (processor st) > 0 \<and> out_total (processor st) > 0
      then (case ct_turn p st of
          Inl e \<Rightarrow> Some (Inl e)
        | Inr st \<Rightarrow> CopyTempOutputBuffersToHostOutputBuffers p st)
      else Some (Inr st))"

declare CopyTempOutputBuffersToHostOutputBuffers.simps [code]

text \<open>The callback is not called any more: the rest of the output is silence.\<close>

definition ad_silence_set :: "bool \<Rightarrow> 'u proc \<Rightarrow> 'u proc result" where
  "ad_silence_set second st =
     (let bp = processor st; frameCount = ucast (out_count second bp) :: u32 in
      if frameCount > 0
      then bind_r (silence_output second frameCount (advance_int frameCount (bytesPerHostOutputSample bp)) st) (\<lambda>st.
        Inr (st\<lparr>processor := put_out_count second 0 (processor st)\<rparr>))
      else Inr st)"

definition ad_silence :: "'u proc \<Rightarrow> 'u proc result" where
  "ad_silence st =
     (if framesInTempOutputBuffer (processor st) = 0 \<and> callback_result st \<noteq> paContinue
      then bind_r (ad_silence_set False st) (ad_silence_set True)
      else Inr st)"

text \<open>The loop that fills the temporary input buffer, with \<open>framesAvailable\<close> and \<open>framesProcessed\<close>.\<close>

definition ad_fill_turn :: "platform \<Rightarrow> 'u proc \<Rightarrow> ('u proc \<times> u32) result" where
  "ad_fill_turn p st =
     (let bp = processor st; second = (\<not> in_count False bp > 0);
          frameCount = ucast (min (in_count second bp) (framesPerUserBuffer bp - framesInTempInputBuffer bp)) :: u32 in
      bind_r (fill_input p second frameCount (advance_int frameCount (bytesPerHostInputSample bp)) st) (\<lambda>st.
        let bp = processor st; second = (\<not> in_count False bp > 0);
            bp = put_in_count second (in_count second bp - ucast frameCount) bp in
        Inr (st\<lparr>processor := bp\<lparr>framesInTempInputBuffer := framesInTempInputBuffer bp + ucast frameCount\<rparr>\<rparr>,
          frameCount)))"

partial_function (option) ad_fill :: "platform \<Rightarrow> u64 \<Rightarrow> u64 \<Rightarrow> 'u proc \<Rightarrow> (u64 \<times> u64 \<times> 'u proc) comp" where
  "ad_fill p framesAvailable framesProcessed st =
     (if framesInTempInputBuffer (processor st) < framesPerUserBuffer (processor st) \<and> in_total (processor st) > 0
      then (case ad_fill_turn p st of
          Inl e \<Rightarrow> Some (Inl e)
        | Inr (st, frameCount) \<Rightarrow> ad_fill p (framesAvailable - ucast frameCount) (framesProcessed + ucast frameCount) st)
      else Some (Inr (framesAvailable, framesProcessed, st)))"

declare ad_fill.simps [code]

definition user_input :: "buffer_processor \<Rightarrow> user_buffer result" where
  "user_input bp = user_ptrs (userInputIsInterleaved bp) (tempInputBuffer bp) (inputChannelCount bp)
     (bytesPerUserInputSample bp) (framesPerUserBuffer bp)"

definition ad_call :: "'u callback \<Rightarrow> 'u proc \<Rightarrow> 'u proc result" where
  "ad_call cb st =
     (let bp = processor st in
      if framesInTempInputBuffer bp = framesPerUserBuffer bp \<and> framesInTempOutputBuffer bp = 0
      then (if callback_result st = paContinue
        then bind_r (user_input bp) (\<lambda>userInput. bind_r (user_output bp) (\<lambda>userOutput.
          let st = call_back cb userInput userOutput (framesPerUserBuffer bp) st;
              bp = advance_times (framesPerUserBuffer bp) (processor st) in
          Inr (st\<lparr>processor := bp\<lparr>framesInTempInputBuffer := 0,
            framesInTempOutputBuffer := (if callback_result st = paAbort then 0 else framesPerUserBuffer bp)\<rparr>\<rparr>)))
        else Inr (st\<lparr>processor := bp\<lparr>framesInTempInputBuffer := 0\<rparr>\<rparr>))
      else Inr st)"

partial_function (option) ad_loop ::
  "platform \<Rightarrow> 'u callback \<Rightarrow> u64 \<Rightarrow> u64 \<Rightarrow> u64 \<Rightarrow> 'u proc \<Rightarrow> (u64 \<times> 'u proc) comp" where
  "ad_loop p cb endProcessingMinFrameCount framesAvailable framesProcessed st =
     (if framesAvailable > endProcessingMinFrameCount
      then (case ad_silence st of
          Inl e \<Rightarrow> Some (Inl e)
        | Inr st \<Rightarrow> bind_c (ad_fill p framesAvailable framesProcessed st) (\<lambda>(framesAvailable, framesProcessed, st).
            case ad_call cb st of
              Inl e \<Rightarrow> Some (Inl e)
            | Inr st \<Rightarrow> bind_c (CopyTempOutputBuffersToHostOutputBuffers p st) (\<lambda>st.
                ad_loop p cb endProcessingMinFrameCount framesAvailable framesProcessed st)))
      else Some (Inr (framesProcessed, st)))"

declare ad_loop.simps [code]

definition AdaptingProcess :: "platform \<Rightarrow> 'u callback \<Rightarrow> bool \<Rightarrow> 'u proc \<Rightarrow> (u64 \<times> 'u proc) comp" where
  "AdaptingProcess p cb processPartialUserBuffers st =
     (let framesAvailable = in_total (processor st);
          endProcessingMinFrameCount = (if processPartialUserBuffers then 0 else framesPerUserBuffer (processor st) - 1) in
      bind_c (CopyTempOutputBuffersToHostOutputBuffers p st) (ad_loop p cb endProcessingMinFrameCount framesAvailable 0))"

section \<open>The end of a processing call\<close>

text \<open>
  \<open>hostInputFrameCount\<close> points to a local variable with \<open>framesToGo\<close> when no input was supplied, else
  to a count of the processor. For the output an \<open>else\<close> is missing: what the first test assigns is
  always assigned again.
\<close>

definition ep_input :: "u64 \<Rightarrow> buffer_processor \<Rightarrow> (bool option \<times> u64) result" where
  "ep_input framesToGo bp =
     bind_r (input_supplied bp) (\<lambda>supplied.
       Inr (if \<not> supplied then (None, framesToGo)
            else let second = (in_count False bp = 0) in (Some second, in_count second bp)))"

definition ep_output :: "u64 \<Rightarrow> buffer_processor \<Rightarrow> (bool option \<times> u64) result" where
  "ep_output framesToGo bp =
     bind_r (output_supplied bp) (\<lambda>supplied.
       let chosen = (if \<not> supplied then (None, framesToGo) else (Some False, 0));
           second = (out_count False bp = 0);
           chosen = (Some second, out_count second bp) in
       Inr chosen)"

partial_function (option) ep_loop ::
  "platform \<Rightarrow> 'u callback \<Rightarrow> u64 \<Rightarrow> u64 \<Rightarrow> 'u proc \<Rightarrow> (u64 \<times> 'u proc) comp" where
  "ep_loop p cb framesToGo framesProcessed st =
     (case ep_input framesToGo (processor st) of
        Inl e \<Rightarrow> Some (Inl e)
      | Inr (ins, inCount) \<Rightarrow>
     (case ep_output framesToGo (processor st) of
        Inl e \<Rightarrow> Some (Inl e)
      | Inr (outs, outCount) \<Rightarrow>
          if min inCount outCount = 0 then Some (Inl (Runtime_error ''assert''))
          else bind_c (NonAdaptingProcess p cb ins outs (min inCount outCount) st) (\<lambda>(n, st).
            let bp = processor st;
                bp = (case ins of None \<Rightarrow> bp | Some second \<Rightarrow> put_in_count second (in_count second bp - n) bp);
                bp = (case outs of None \<Rightarrow> bp | Some second \<Rightarrow> put_out_count second (out_count second bp - n) bp);
                st = st\<lparr>processor := bp\<rparr> in
            if framesToGo - n > 0 then ep_loop p cb (framesToGo - n) (framesProcessed + n) st
            else Some (Inr (framesProcessed + n, st)))))"

declare ep_loop.simps [code]

text \<open>The two half duplex cases: \<open>f\<close> processes a set, the second one only if it has frames.\<close>

definition both_sets ::
  "(bool \<Rightarrow> u64 \<Rightarrow> 'u proc \<Rightarrow> (u64 \<times> 'u proc) comp) \<Rightarrow> (bool \<Rightarrow> buffer_processor \<Rightarrow> u64) \<Rightarrow> 'u proc \<Rightarrow>
     (u64 \<times> 'u proc) comp" where
  "both_sets f count st =
     bind_c (f False (count False (processor st)) st) (\<lambda>(n, st).
       let framesToProcess = count True (processor st) in
       if framesToProcess > 0 then bind_c (f True framesToProcess st) (\<lambda>(k, st). Some (Inr (n + k, st)))
       else Some (Inr (n, st)))"

definition ep_asserts :: "'u proc \<Rightarrow> unit result" where
  "ep_asserts st =
     (let bp = processor st in
      bind_r (if inputChannelCount bp \<noteq> 0 \<and> outputChannelCount bp \<noteq> 0
              then bind_r (input_supplied bp) (\<lambda>i. if i then output_supplied bp else Inr False) else Inr False)
        (\<lambda>both. check (both \<longrightarrow> in_total bp = out_total bp)
          (check (callback_result st = paContinue \<or> callback_result st = paComplete \<or> callback_result st = paAbort)
            (Inr ()))))"

definition PaUtil_EndBufferProcessing :: "platform \<Rightarrow> 'u callback \<Rightarrow> 'u proc \<Rightarrow> (u64 \<times> 'u proc) comp" where
  "PaUtil_EndBufferProcessing p cb st =
     (let bp = processor st; hasInput = (inputChannelCount bp \<noteq> 0); hasOutput = (outputChannelCount bp \<noteq> 0);
          count = (if hasInput then in_count else out_count) in
      bind_c (Some (ep_asserts st)) (\<lambda>_.
        if useNonAdaptingProcess bp
        then (if hasInput \<and> hasOutput then ep_loop p cb (out_total bp) 0 st
              else both_sets (\<lambda>second. NonAdaptingProcess p cb (Some second) (Some second)) count st)
        else if hasInput \<and> hasOutput
        then AdaptingProcess p cb (hostBufferSizeMode bp \<noteq> paUtilVariableHostBufferSizePartialUsageAllowed) st
        else if hasInput then both_sets (AdaptingInputOnlyProcess p cb) in_count st
        else both_sets (AdaptingOutputOnlyProcess p cb) out_count st))"

end
