(* ===== verification/PaAdaptFrames.thy ===== *)
theory PaAdaptFrames
  imports PaAdapt
begin

text \<open>
  How many frames the block adaption moves (\<open>src/external/portaudio/src/common/pa_process.c\<close>): that
  its loops end, that they take all the input and fill all the output, and how the callbacks are
  spread over the calls of the host.
\<close>

section \<open>What a conversion keeps\<close>

text \<open>
  Converting changes the descriptors, the dither generator and the memory; everything that counts
  frames stays.
\<close>

definition frame_state :: "buffer_processor \<Rightarrow> u64 \<times> u64 \<times> u64 \<times> (u64 \<times> u64) \<times> (u64 \<times> u64)" where
  "frame_state bp = (framesPerUserBuffer bp, framesInTempInputBuffer bp, framesInTempOutputBuffer bp,
     hostInputFrameCount bp, hostOutputFrameCount bp)"

definition same_frames :: "'u proc \<Rightarrow> 'u proc \<Rightarrow> bool" where
  "same_frames st st' \<longleftrightarrow> frame_state (processor st') = frame_state (processor st) \<and>
     user st' = user st \<and> callback_result st' = callback_result st"

lemma frame_state_put [simp]:
  "frame_state (put_in_set second cs bp) = frame_state bp"
  "frame_state (put_out_set second cs bp) = frame_state bp"
  "frame_state (bp\<lparr>ditherGenerator := g\<rparr>) = frame_state bp"
  "frame_state (bp\<lparr>inputBufferAdcTime := t\<rparr>) = frame_state bp"
  "frame_state (bp\<lparr>outputBufferDacTime := t\<rparr>) = frame_state bp"
  by (simp_all add: frame_state_def put_in_set_def put_out_set_def)

lemma fill_input_frames: "fill_input p second n adv st = Inr st' \<Longrightarrow> same_frames st st'"
  by (auto simp: fill_input_def same_frames_def Let_def split: prod.splits)

lemma drain_output_frames: "drain_output p second n adv ok st = Inr st' \<Longrightarrow> same_frames st st'"
  by (auto simp: drain_output_def same_frames_def Let_def split: prod.splits)

lemma silence_output_frames: "silence_output second n adv st = Inr st' \<Longrightarrow> same_frames st st'"
  by (auto simp: silence_output_def same_frames_def Let_def split: prod.splits)

lemma same_framesD:
  assumes "same_frames st st'"
  shows "framesPerUserBuffer (processor st') = framesPerUserBuffer (processor st)"
    "framesInTempInputBuffer (processor st') = framesInTempInputBuffer (processor st)"
    "framesInTempOutputBuffer (processor st') = framesInTempOutputBuffer (processor st)"
    "hostInputFrameCount (processor st') = hostInputFrameCount (processor st)"
    "hostOutputFrameCount (processor st') = hostOutputFrameCount (processor st)"
    "user st' = user st" "callback_result st' = callback_result st"
  using assms by (simp_all add: same_frames_def frame_state_def)

text \<open>A callback that also notes the length of each block it is given.\<close>

definition recorded :: "'u callback \<Rightarrow> ('u \<times> u64 list) callback" where
  "recorded cb i u n t f h = (\<lambda>(s, blocks). case cb i u n t f h s of (r, h, s) \<Rightarrow> (r, h, s, blocks @ [n]))"

lemma call_back_recorded:
  "processor (call_back (recorded cb) i u n st) = processor st"
  "snd (user (call_back (recorded cb) i u n st)) = snd (user st) @ [n]"
  by (auto simp: call_back_def recorded_def Let_def split: prod.splits)

section \<open>Input only\<close>

text \<open>The frames in the temporary input buffer, and those of a block.\<close>

abbreviation waiting :: "'u proc \<Rightarrow> nat" where
  "waiting st \<equiv> unat (framesInTempInputBuffer (processor st))"

abbreviation block :: "'u proc \<Rightarrow> nat" where
  "block st \<equiv> unat (framesPerUserBuffer (processor st))"

lemma ai_frames_unat:
  assumes "unat (framesInTempInputBuffer bp) < unat (framesPerUserBuffer bp)"
    and "unat (framesInTempInputBuffer bp) + unat n < 2 ^ 64"
  shows "unat (ai_frames n bp) = min (unat (framesPerUserBuffer bp) - unat (framesInTempInputBuffer bp)) (unat n)"
proof -
  have "unat (framesInTempInputBuffer bp + n) = unat (framesInTempInputBuffer bp) + unat n"
    using assms(2) by (simp add: unat_add_lem [THEN iffD1])
  moreover have "unat (framesPerUserBuffer bp - framesInTempInputBuffer bp) =
      unat (framesPerUserBuffer bp) - unat (framesInTempInputBuffer bp)"
    using assms(1) by (simp add: unat_sub word_le_nat_alt)
  ultimately show ?thesis by (auto simp: ai_frames_def word_less_nat_alt)
qed

lemma deliver_input_frames:
  fixes st :: "('u \<times> u64 list) proc"
  shows "framesPerUserBuffer (processor (deliver_input (recorded cb) i st)) = framesPerUserBuffer (processor st)"
    and "framesInTempInputBuffer (processor (deliver_input (recorded cb) i st)) = 0"
    and "callback_result st \<noteq> paContinue \<Longrightarrow> callback_result (deliver_input (recorded cb) i st) = callback_result st"
    and "snd (user (deliver_input (recorded cb) i st)) = snd (user st) @
      (if callback_result st = paContinue then [framesPerUserBuffer (processor st)] else [])"
  by (simp_all add: deliver_input_def Let_def call_back_recorded)

text \<open>A turn moves frames; when the block is complete it goes to the callback, if that still runs.\<close>

lemma ai_turn_frames:
  fixes st :: "('u \<times> u64 list) proc"
  assumes "ai_turn p (recorded cb) second n st = Inr (st', k)" and "waiting st < block st" and "waiting st + unat n < 2 ^ 64"
  shows "unat k = min (block st - waiting st) (unat n)"
    and "framesPerUserBuffer (processor st') = framesPerUserBuffer (processor st)"
    and "waiting st' = (if waiting st + unat k = block st then 0 else waiting st + unat k)"
    and "callback_result st \<noteq> paContinue \<Longrightarrow> callback_result st' \<noteq> paContinue"
    and "snd (user st') = snd (user st) @
      (if waiting st + unat k = block st \<and> callback_result st = paContinue then [framesPerUserBuffer (processor st)] else [])"
proof -
  obtain i st1 where k: "k = ai_frames n (processor st)" and f: "same_frames st st1"
    and r: "st' = (let st2 = st1\<lparr>processor := (processor st1)\<lparr>framesInTempInputBuffer :=
          framesInTempInputBuffer (processor st1) + k\<rparr>\<rparr> in
        if framesInTempInputBuffer (processor st2) = framesPerUserBuffer (processor st2)
        then deliver_input (recorded cb) i st2 else st2)"
    using assms(1) by (auto simp: ai_turn_def Let_def dest!: fill_input_frames)
  note f = same_framesD [OF f]
  show k': "unat k = min (block st - waiting st) (unat n)" using ai_frames_unat assms(2,3) k by simp
  then have sum: "unat (framesInTempInputBuffer (processor st) + k) = waiting st + unat k"
    using assms(3) by (intro unat_add_lem [THEN iffD1]) simp
  then have full: "framesInTempInputBuffer (processor st) + k = framesPerUserBuffer (processor st) \<longleftrightarrow>
      waiting st + unat k = block st" by (simp add: word_unat_eq_iff)
  note r = r [unfolded Let_def]
  show "framesPerUserBuffer (processor st') = framesPerUserBuffer (processor st)"
    by (simp add: r f deliver_input_frames)
  show "waiting st' = (if waiting st + unat k = block st then 0 else waiting st + unat k)"
    using sum full by (simp add: r f deliver_input_frames)
  show "callback_result st \<noteq> paContinue \<Longrightarrow> callback_result st' \<noteq> paContinue"
    by (simp add: r f deliver_input_frames)
  show "snd (user st') = snd (user st) @
      (if waiting st + unat k = block st \<and> callback_result st = paContinue then [framesPerUserBuffer (processor st)] else [])"
    using full by (simp add: r f deliver_input_frames)
qed

lemma ai_loop_frames:
  fixes st :: "('u \<times> u64 list) proc"
  assumes "waiting st < block st" and "waiting st + unat n < 2 ^ 64"
  shows "\<exists>r. ai_loop p (recorded cb) second n m st = Some r \<and> (\<forall>m' st'. r = Inr (m', st') \<longrightarrow>
    m' = m + n \<and> waiting st' = (waiting st + unat n) mod block st \<and>
    (\<exists>k \<le> (waiting st + unat n) div block st.
      snd (user st') = snd (user st) @ replicate k (framesPerUserBuffer (processor st)) \<and>
      (callback_result st' = paContinue \<longrightarrow> callback_result st = paContinue \<and> k = (waiting st + unat n) div block st)))"
  using assms
proof (induction "unat n" arbitrary: n m st rule: less_induct)
  case less
  show ?case
  proof (cases "ai_turn p (recorded cb) second n st")
    case (Inl e)
    then show ?thesis by (subst ai_loop.simps) simp
  next
    case (Inr a)
    then obtain st1 k where t: "ai_turn p (recorded cb) second n st = Inr (st1, k)" by (cases a) auto
    note f = ai_turn_frames [OF t less.prems]
    have le: "k \<le> n" using f(1) by (simp add: word_le_nat_alt)
    have rest: "unat (n - k) = unat n - unat k" using le by (simp add: unat_sub)
    show ?thesis
    proof (cases "n - k > 0")
      case False
      then have "n = k" by (simp add: word_gt_0)
      then have "unat k = unat n" by simp
      then have w: "waiting st + unat n \<le> block st" using f(1) less.prems(1) by linarith
      have "(waiting st + unat n) mod block st = waiting st1"
        "(waiting st + unat n) div block st = (if waiting st + unat k = block st then 1 else 0)"
        using w less.prems(1) f(3) \<open>unat k = unat n\<close> by auto
      then show ?thesis using t f(4,5) \<open>n = k\<close> by (subst ai_loop.simps) (auto intro!: exI [of _ 0] exI [of _ 1])
    next
      case True
      then have lt: "unat k < unat n" using rest by (simp add: word_less_nat_alt)
      then have full: "waiting st + unat k = block st" using f(1) less.prems(1) by linarith
      have w: "waiting st1 = 0" "block st1 = block st" using f(2,3) full by simp_all
      have small: "unat (n - k) < unat n" using rest lt less.prems(1) full by linarith
      have split: "waiting st + unat n = unat (n - k) + block st" using full rest lt by linarith
      have pre: "waiting st1 < block st1" "waiting st1 + unat (n - k) < 2 ^ 64"
        using w less.prems small by linarith+
      from less.hyps [OF small pre] obtain r where r: "ai_loop p (recorded cb) second (n - k) (m + k) st1 = Some r"
        "\<forall>m' st'. r = Inr (m', st') \<longrightarrow> m' = m + k + (n - k) \<and> waiting st' = (waiting st1 + unat (n - k)) mod block st1 \<and>
          (\<exists>l \<le> (waiting st1 + unat (n - k)) div block st1.
            snd (user st') = snd (user st1) @ replicate l (framesPerUserBuffer (processor st1)) \<and>
            (callback_result st' = paContinue \<longrightarrow>
              callback_result st1 = paContinue \<and> l = (waiting st1 + unat (n - k)) div block st1))" by blast
      have "(waiting st + unat n) mod block st = unat (n - k) mod block st"
        "(waiting st + unat n) div block st = Suc (unat (n - k) div block st)"
        using less.prems(1) by (simp_all add: split)
      moreover have "ai_loop p (recorded cb) second n m st = Some r"
        using t True r(1) by (subst ai_loop.simps) simp
      ultimately show ?thesis using r(2) f(2,4,5) full w
        by (cases "callback_result st = paContinue") (fastforce simp: replicate_app_Cons_same)+
    qed
  qed
qed

section \<open>Output only\<close>

text \<open>The frames of the user that wait in the temporary output buffer.\<close>

abbreviation pending :: "'u proc \<Rightarrow> nat" where
  "pending st \<equiv> unat (framesInTempOutputBuffer (processor st))"

lemma ask_output_frames:
  fixes st :: "('u \<times> u64 list) proc"
  shows "framesPerUserBuffer (processor (ask_output (recorded cb) u st)) = framesPerUserBuffer (processor st)"
    and "snd (user (ask_output (recorded cb) u st)) = snd (user st) @ [framesPerUserBuffer (processor st)]"
    and "framesInTempOutputBuffer (processor (ask_output (recorded cb) u st)) =
      (if callback_result (ask_output (recorded cb) u st) = paAbort then framesInTempOutputBuffer (processor st)
       else framesPerUserBuffer (processor st))"
  by (simp_all add: ask_output_def Let_def call_back_recorded)

lemma fetch_output_cases:
  assumes "fetch_output cb st = Inr st'"
  obtains (keep) "pending st \<noteq> 0 \<or> callback_result st \<noteq> paContinue" "st' = st"
    | (ask) u where "pending st = 0" "callback_result st = paContinue" "st' = ask_output cb u st"
proof (cases "framesInTempOutputBuffer (processor st) = 0 \<and> callback_result st = paContinue")
  case True
  with assms obtain u where "st' = ask_output cb u st" by (auto simp: fetch_output_def)
  then show ?thesis using True ask by simp
next
  case False
  with assms have "st' = st" by (simp add: fetch_output_def)
  then show ?thesis using False keep by (simp add: unat_eq_zero)
qed

text \<open>
  \<open>c\<close> is the number of blocks that the turn asks of the callback: at most one, and none when frames
  still wait.
\<close>

lemma ao_turn_frames:
  fixes st :: "('u \<times> u64 list) proc"
  assumes "ao_turn p (recorded cb) second n st = Inr (st', k)" and "0 < block st" and "pending st \<le> block st"
  shows "framesPerUserBuffer (processor st') = framesPerUserBuffer (processor st)"
    and "\<exists>c. snd (user st') = snd (user st) @ replicate c (framesPerUserBuffer (processor st)) \<and>
      (c = 0 \<or> c = 1 \<and> pending st = 0 \<and> callback_result st = paContinue) \<and>
      (callback_result st' = paContinue \<longrightarrow> callback_result st = paContinue \<and> pending st' + unat k = pending st + c * block st)"
    and "unat k \<le> unat n" and "0 < n \<Longrightarrow> 0 < unat k \<and> pending st' < block st" and "pending st' \<le> block st"
    and "unat k < unat n \<Longrightarrow> pending st' = 0"
proof -
  obtain st1 where t: "fetch_output (recorded cb) st = Inr st1"
    using assms(1) by (auto simp: ao_turn_def)
  define c where "c = (if pending st = 0 \<and> callback_result st = paContinue then 1 else 0 :: nat)"
  have c: "framesPerUserBuffer (processor st1) = framesPerUserBuffer (processor st)"
    "snd (user st1) = snd (user st) @ replicate c (framesPerUserBuffer (processor st))"
    "callback_result st1 = paContinue \<longrightarrow> callback_result st = paContinue \<and> pending st1 = pending st + c * block st"
    "pending st1 \<le> block st" "pending st1 = 0 \<longrightarrow> callback_result st1 \<noteq> paContinue"
    using t assms(2,3) by (cases rule: fetch_output_cases; auto simp: c_def ask_output_frames)+
  consider (drain) st2 where "same_frames st1 st2" "k = min (framesInTempOutputBuffer (processor st1)) n" "0 < pending st1"
      "st' = st2\<lparr>processor := (processor st2)\<lparr>framesInTempOutputBuffer := framesInTempOutputBuffer (processor st2) - k\<rparr>\<rparr>"
    | (silence) "same_frames st1 st'" "k = n" "pending st1 = 0"
    using assms(1) t
    by (auto simp: ao_turn_def Let_def unat_gt_0 word_gt_0 split: if_splits
        dest!: drain_output_frames silence_output_frames)
  then have "framesPerUserBuffer (processor st') = framesPerUserBuffer (processor st1) \<and> snd (user st') = snd (user st1) \<and>
      callback_result st' = callback_result st1 \<and> (pending st1 \<noteq> 0 \<longrightarrow> pending st' + unat k = pending st1) \<and>
      (pending st1 = 0 \<longrightarrow> pending st' = 0) \<and>
      unat k = (if pending st1 = 0 then unat n else min (pending st1) (unat n))"
  proof cases
    case drain
    then have "unat k = min (pending st1) (unat n)" by (simp add: min_def word_le_nat_alt)
    moreover from this have "unat (framesInTempOutputBuffer (processor st1) - k) = pending st1 - unat k"
      by (simp add: unat_sub word_le_nat_alt)
    ultimately show ?thesis using drain same_framesD [OF drain(1)] by simp
  next
    case silence
    then show ?thesis using same_framesD [OF silence(1)] by simp
  qed
  note r = this
  show "framesPerUserBuffer (processor st') = framesPerUserBuffer (processor st)" using r c(1) by simp
  show "\<exists>c. snd (user st') = snd (user st) @ replicate c (framesPerUserBuffer (processor st)) \<and>
      (c = 0 \<or> c = 1 \<and> pending st = 0 \<and> callback_result st = paContinue) \<and>
      (callback_result st' = paContinue \<longrightarrow> callback_result st = paContinue \<and> pending st' + unat k = pending st + c * block st)"
  proof (intro exI [of _ c] conjI impI)
    assume "callback_result st' = paContinue"
    then have "callback_result st1 = paContinue" using r by simp
    then have "pending st1 \<noteq> 0" "callback_result st = paContinue" "pending st1 = pending st + c * block st"
      using c(3,5) by simp_all
    moreover have "pending st1 \<noteq> 0 \<longrightarrow> pending st' + unat k = pending st1" using r by blast
    ultimately show "callback_result st = paContinue" "pending st' + unat k = pending st + c * block st"
      by argo+
  qed (use r c(2) in \<open>simp_all add: c_def\<close>)
  show "unat k \<le> unat n" "pending st' \<le> block st" "unat k < unat n \<Longrightarrow> pending st' = 0"
    using r c(4) by (auto split: if_splits)
  assume "0 < n"
  then have "0 < unat n" by (simp add: word_less_nat_alt)
  then show "0 < unat k \<and> pending st' < block st" using r c(4) assms(2) by (auto split: if_splits)
qed

definition ao_done :: "('u \<times> u64 list) proc \<Rightarrow> u64 \<Rightarrow> ('u \<times> u64 list) proc \<Rightarrow> bool" where
  "ao_done st n st' \<longleftrightarrow> framesPerUserBuffer (processor st') = framesPerUserBuffer (processor st) \<and>
     pending st' \<le> block st \<and>
     (\<exists>c. snd (user st') = snd (user st) @ replicate c (framesPerUserBuffer (processor st)) \<and>
       c * block st + pending st \<le> unat n + block st \<and> (callback_result st \<noteq> paContinue \<longrightarrow> c = 0) \<and>
       (callback_result st' = paContinue \<longrightarrow>
         callback_result st = paContinue \<and> pending st' + unat n = pending st + c * block st))"

lemma ao_turn_done:
  assumes "ao_turn p (recorded cb) second n st = Inr (st', k)" and "0 < block st" and "pending st \<le> block st"
  shows "ao_done st k st'"
proof -
  note f = ao_turn_frames [OF assms]
  obtain c where c: "snd (user st') = snd (user st) @ replicate c (framesPerUserBuffer (processor st))"
    "c = 0 \<or> c = 1 \<and> pending st = 0 \<and> callback_result st = paContinue"
    "callback_result st' = paContinue \<longrightarrow> callback_result st = paContinue \<and> pending st' + unat k = pending st + c * block st"
    using f(2) by blast
  from c(2) have "c * block st + pending st \<le> unat k + block st" using assms(3) by auto
  then show ?thesis using f(1,5) c unfolding ao_done_def by blast
qed

lemma ao_done_trans:
  assumes "ao_done st k st1" and "pending st1 = 0" and "ao_done st1 (n - k) st'" and "k \<le> n" and "pending st \<le> block st"
  shows "ao_done st n st'"
proof -
  let ?B = "framesPerUserBuffer (processor st)"
  have B: "framesPerUserBuffer (processor st1) = ?B" using assms(1) by (simp add: ao_done_def)
  obtain c where c: "snd (user st1) = snd (user st) @ replicate c ?B"
    "c * block st + pending st \<le> unat k + block st" "callback_result st \<noteq> paContinue \<longrightarrow> c = 0"
    "callback_result st1 = paContinue \<longrightarrow> callback_result st = paContinue \<and> pending st1 + unat k = pending st + c * block st"
    using assms(1) unfolding ao_done_def by blast
  obtain d where d: "snd (user st') = snd (user st1) @ replicate d ?B"
    "d * block st + pending st1 \<le> unat (n - k) + block st" "callback_result st1 \<noteq> paContinue \<longrightarrow> d = 0"
    "callback_result st' = paContinue \<longrightarrow> callback_result st1 = paContinue \<and> pending st' + unat (n - k) = pending st1 + d * block st"
    using assms(3) unfolding ao_done_def B by blast
  have n: "unat n = unat k + unat (n - k)" using assms(4) by (simp add: unat_sub word_le_nat_alt)
  have "(c + d) * block st + pending st \<le> unat n + block st"
  proof (cases "callback_result st1 = paContinue")
    case True
    then have "unat k = pending st + c * block st" using c(4) assms(2) by simp
    then show ?thesis using d(2) n by (simp add: distrib_right)
  next
    case False
    then show ?thesis using c(2) d(3) n by simp
  qed
  moreover have "callback_result st' = paContinue \<longrightarrow> pending st' + unat n = pending st + (c + d) * block st"
    using c(4) d(4) n assms(2) by (simp add: distrib_right)
  moreover have "snd (user st') = snd (user st) @ replicate (c + d) ?B" using c(1) d(1) by (simp add: replicate_add)
  moreover have "callback_result st \<noteq> paContinue \<longrightarrow> c + d = 0" using c(3,4) d(3) by blast
  moreover have "pending st' \<le> block st" "framesPerUserBuffer (processor st') = ?B"
    using assms(3) B by (simp_all add: ao_done_def)
  ultimately show ?thesis using c(4) d(4) unfolding ao_done_def by blast
qed

lemma ao_loop_frames:
  fixes st :: "('u \<times> u64 list) proc"
  assumes "0 < block st" and "pending st \<le> block st"
  shows "\<exists>r. ao_loop p (recorded cb) second n m st = Some r \<and>
    (\<forall>m' st'. r = Inr (m', st') \<longrightarrow> m' = m + n \<and> ao_done st n st')"
  using assms
proof (induction "unat n" arbitrary: n m st rule: less_induct)
  case less
  show ?case
  proof (cases "ao_turn p (recorded cb) second n st")
    case (Inl e)
    then show ?thesis by (subst ao_loop.simps) simp
  next
    case (Inr a)
    then obtain st1 k where t: "ao_turn p (recorded cb) second n st = Inr (st1, k)" by (cases a) auto
    note f = ao_turn_frames [OF t less.prems] and d = ao_turn_done [OF t less.prems]
    have le: "k \<le> n" using f(3) by (simp add: word_le_nat_alt)
    show ?thesis
    proof (cases "n - k > 0")
      case False
      then have "n = k" by (simp add: word_gt_0)
      then show ?thesis using t d by (subst ao_loop.simps) simp
    next
      case True
      then have lt: "unat k < unat n" using le by (simp add: unat_sub word_less_nat_alt)
      have "0 < n" using lt by (simp add: word_less_nat_alt)
      then have "unat (n - k) < unat n" using f(4) lt le by (simp add: unat_sub)
      from less.hyps [OF this, of st1 "m + k"] f(1,6) lt less.prems obtain r where
        r: "ao_loop p (recorded cb) second (n - k) (m + k) st1 = Some r"
        "\<forall>m' st'. r = Inr (m', st') \<longrightarrow> m' = m + k + (n - k) \<and> ao_done st1 (n - k) st'" by fastforce
      then have "ao_loop p (recorded cb) second n m st = Some r" using t True by (subst ao_loop.simps) simp
      moreover have "m + k + (n - k) = m + n" by simp
      ultimately show ?thesis using r(2) ao_done_trans [OF d f(6) [OF lt] _ le less.prems(2)] by metis
    qed
  qed
qed

section \<open>Full duplex\<close>

text \<open>The frames that the host handed over, and the room it has.\<close>

definition ins :: "'u proc \<Rightarrow> nat" where
  "ins st = unat (in_count False (processor st)) + unat (in_count True (processor st))"

definition outs :: "'u proc \<Rightarrow> nat" where
  "outs st = unat (out_count False (processor st)) + unat (out_count True (processor st))"

lemma unat_totals:
  "ins st < 2 ^ 64 \<Longrightarrow> unat (in_total (processor st)) = ins st"
  "outs st < 2 ^ 64 \<Longrightarrow> unat (out_total (processor st)) = outs st"
  by (simp_all add: ins_def outs_def in_total_def out_total_def unat_add_lem [THEN iffD1])

lemma total_positive:
  "ins st < 2 ^ 64 \<Longrightarrow> in_total (processor st) > 0 \<longleftrightarrow> 0 < ins st"
  "outs st < 2 ^ 64 \<Longrightarrow> out_total (processor st) > 0 \<longleftrightarrow> 0 < outs st"
  by (simp_all add: word_less_nat_alt unat_totals)

text \<open>A frame count that fits in an \<open>unsigned int\<close> is not cut off there.\<close>

lemma ucast_count: "unat (n :: u64) < 2 ^ 32 \<Longrightarrow> ucast (ucast n :: u32) = n"
  by (simp add: word_unat_eq_iff unsigned_ucast_eq unsigned_take_bit_eq take_bit_nat_eq_self)

definition copied :: "'u proc \<Rightarrow> 'u proc \<Rightarrow> bool" where
  "copied st st' \<longleftrightarrow> framesPerUserBuffer (processor st') = framesPerUserBuffer (processor st) \<and>
     framesInTempInputBuffer (processor st') = framesInTempInputBuffer (processor st) \<and>
     hostInputFrameCount (processor st') = hostInputFrameCount (processor st) \<and>
     user st' = user st \<and> callback_result st' = callback_result st \<and>
     (\<exists>k. pending st' + k = pending st \<and> outs st' + k = outs st)"

lemma copied_refl: "copied st st" by (simp add: copied_def)

lemma copied_trans:
  assumes "copied st st1" and "copied st1 st2"
  shows "copied st st2"
proof -
  obtain k l where "pending st1 + k = pending st" "outs st1 + k = outs st" "pending st2 + l = pending st1" "outs st2 + l = outs st1"
    using assms unfolding copied_def by blast
  then have "pending st2 + (k + l) = pending st" "outs st2 + (k + l) = outs st" by simp_all
  then show ?thesis using assms unfolding copied_def by metis
qed

lemma ct_turn_frames:
  assumes "ct_turn p st = Inr st'" and "0 < pending st" and "0 < outs st" and "pending st < 2 ^ 32"
  shows "copied st st'" and "pending st' < pending st"
proof -
  let ?bp = "processor st"
  define second where "second = (\<not> out_count False ?bp > 0)"
  define k where "k = min (out_count second ?bp) (framesInTempOutputBuffer ?bp)"
  have k: "unat k = min (unat (out_count second ?bp)) (pending st)" by (simp add: k_def min_def word_le_nat_alt)
  have pos: "0 < unat (out_count second ?bp)"
    using assms(3) by (cases second) (auto simp: second_def outs_def word_less_nat_alt)
  have u: "ucast (ucast k :: u32) = k" using k assms(4) by (intro ucast_count) simp
  obtain st1 where f: "same_frames st st1" and
    r: "st' = st1\<lparr>processor := (put_out_count second (out_count second (processor st1) - k) (processor st1))\<lparr>
        framesInTempOutputBuffer := framesInTempOutputBuffer (processor st1) - k\<rparr>\<rparr>"
  proof -
    have "bind_r (drain_output p second (ucast k) (advance_int (ucast k) (bytesPerHostOutputSample ?bp)) (\<lambda>c. data c \<noteq> Some None) st) (\<lambda>st.
        let bp = processor st; second = (\<not> out_count False bp > 0);
            bp = put_out_count second (out_count second bp - k) bp in
        Inr (st\<lparr>processor := bp\<lparr>framesInTempOutputBuffer := framesInTempOutputBuffer bp - k\<rparr>\<rparr>)) = Inr st'"
      using assms(1) by (simp only: ct_turn_def Let_def second_def [symmetric] k_def [symmetric] u)
    then obtain st1 where "drain_output p second (ucast k) (advance_int (ucast k) (bytesPerHostOutputSample ?bp))
          (\<lambda>c. data c \<noteq> Some None) st = Inr st1"
      and r: "st' = (let bp = processor st1; second = (\<not> out_count False bp > 0);
            bp = put_out_count second (out_count second bp - k) bp in
          st1\<lparr>processor := bp\<lparr>framesInTempOutputBuffer := framesInTempOutputBuffer bp - k\<rparr>\<rparr>)"
      by (auto simp: Let_def)
    from this(1) have f: "same_frames st st1" by (rule drain_output_frames)
    then have "(\<not> out_count False (processor st1) > 0) = second"
      by (simp add: second_def out_count_def same_framesD)
    then show thesis using that [OF f] r by (simp add: Let_def put_out_count_def)
  qed
  note f = same_framesD [OF f]
  have le: "k \<le> out_count second ?bp" "k \<le> framesInTempOutputBuffer ?bp" by (simp_all add: k_def)
  have "pending st' + unat k = pending st" using le(2) by (simp add: r f unat_sub word_le_nat_alt)
  moreover have "outs st' + unat k = outs st"
    using le(1) by (cases second) (simp_all add: r f outs_def out_count_def put_out_count_def unat_sub word_le_nat_alt)
  moreover have "0 < unat k" using k pos assms(2) by simp
  ultimately show "copied st st'" "pending st' < pending st"
    by (auto simp: copied_def r f put_out_count_def)
qed

text \<open>\<open>CopyTempOutputBuffersToHostOutputBuffers\<close> ends; then nothing waits, or no room is left.\<close>

lemma ct_loop_frames:
  assumes "outs st < 2 ^ 64" and "pending st < 2 ^ 32"
  shows "\<exists>r. CopyTempOutputBuffersToHostOutputBuffers p st = Some r \<and>
    (\<forall>st'. r = Inr st' \<longrightarrow> copied st st' \<and> (pending st' = 0 \<or> outs st' = 0))"
  using assms
proof (induction "pending st" arbitrary: st rule: less_induct)
  case less
  have pos: "framesInTempOutputBuffer (processor st) > 0 \<longleftrightarrow> 0 < pending st"
    by (simp add: word_less_nat_alt)
  show ?case
  proof (cases "0 < pending st \<and> 0 < outs st")
    case False
    then show ?thesis using pos total_positive(2) [OF less.prems(1)] copied_refl
      by (subst CopyTempOutputBuffersToHostOutputBuffers.simps) auto
  next
    case True
    then have step: "CopyTempOutputBuffersToHostOutputBuffers p st =
        (case ct_turn p st of Inl e \<Rightarrow> Some (Inl e) | Inr st \<Rightarrow> CopyTempOutputBuffersToHostOutputBuffers p st)"
      using pos total_positive(2) [OF less.prems(1)]
      by (subst CopyTempOutputBuffersToHostOutputBuffers.simps) simp
    show ?thesis
    proof (cases "ct_turn p st")
      case (Inl e)
      then show ?thesis using step by simp
    next
      case (Inr st1)
      from ct_turn_frames [OF Inr _ _ less.prems(2)] True have c: "copied st st1" "pending st1 < pending st" by simp_all
      then have "outs st1 < 2 ^ 64" "pending st1 < 2 ^ 32" using less.prems by (auto simp: copied_def)
      from less.hyps [OF c(2) this] show ?thesis using step Inr copied_trans [OF c(1)] by auto
    qed
  qed
qed

definition filled :: "'u proc \<Rightarrow> 'u proc \<Rightarrow> nat \<Rightarrow> bool" where
  "filled st st' k \<longleftrightarrow> framesPerUserBuffer (processor st') = framesPerUserBuffer (processor st) \<and>
     framesInTempOutputBuffer (processor st') = framesInTempOutputBuffer (processor st) \<and>
     hostOutputFrameCount (processor st') = hostOutputFrameCount (processor st) \<and>
     user st' = user st \<and> callback_result st' = callback_result st \<and>
     waiting st' = waiting st + k \<and> ins st' + k = ins st"

lemma filled_refl: "filled st st 0" by (simp add: filled_def)

lemma filled_trans: "filled st st1 k \<Longrightarrow> filled st1 st2 l \<Longrightarrow> filled st st2 (k + l)"
  by (auto simp: filled_def)

lemma ad_fill_turn_frames:
  assumes "ad_fill_turn p st = Inr (st', k)" and "0 < ins st" and "waiting st < block st" and "block st < 2 ^ 32"
  shows "filled st st' (unat k)" and "0 < unat k" and "waiting st + unat k \<le> block st" and "unat k \<le> ins st"
proof -
  let ?bp = "processor st"
  define second where "second = (\<not> in_count False ?bp > 0)"
  define n where "n = min (in_count second ?bp) (framesPerUserBuffer ?bp - framesInTempInputBuffer ?bp)"
  have room: "unat (framesPerUserBuffer ?bp - framesInTempInputBuffer ?bp) = block st - waiting st"
    using assms(3) by (simp add: unat_sub word_le_nat_alt)
  have n: "unat n = min (unat (in_count second ?bp)) (block st - waiting st)"
    by (simp add: n_def min_def word_le_nat_alt room)
  have pos: "0 < unat (in_count second ?bp)"
    using assms(2) by (cases second) (auto simp: second_def ins_def word_less_nat_alt)
  have u: "ucast (ucast n :: u32) = n" using n assms(4) by (intro ucast_count) simp
  obtain st1 where f: "same_frames st st1" and k: "k = ucast n" and
    r: "st' = st1\<lparr>processor := (put_in_count second (in_count second (processor st1) - n) (processor st1))\<lparr>
        framesInTempInputBuffer := framesInTempInputBuffer (processor st1) + n\<rparr>\<rparr>"
  proof -
    have "bind_r (fill_input p second (ucast n) (advance_int (ucast n) (bytesPerHostInputSample ?bp)) st) (\<lambda>st.
        let bp = processor st; second = (\<not> in_count False bp > 0);
            bp = put_in_count second (in_count second bp - n) bp in
        Inr (st\<lparr>processor := bp\<lparr>framesInTempInputBuffer := framesInTempInputBuffer bp + n\<rparr>\<rparr>, ucast n)) = Inr (st', k)"
      using assms(1) by (simp only: ad_fill_turn_def Let_def second_def [symmetric] n_def [symmetric] u)
    then obtain st1 where "fill_input p second (ucast n) (advance_int (ucast n) (bytesPerHostInputSample ?bp)) st = Inr st1"
      and k: "k = ucast n"
      and r: "st' = (let bp = processor st1; second = (\<not> in_count False bp > 0);
            bp = put_in_count second (in_count second bp - n) bp in
          st1\<lparr>processor := bp\<lparr>framesInTempInputBuffer := framesInTempInputBuffer bp + n\<rparr>\<rparr>)"
      by (auto simp: Let_def)
    from this(1) have f: "same_frames st st1" by (rule fill_input_frames)
    then have "(\<not> in_count False (processor st1) > 0) = second"
      by (simp add: second_def in_count_def same_framesD)
    then show thesis using that [OF f k] r by (simp add: Let_def put_in_count_def)
  qed
  note f = same_framesD [OF f]
  have kn: "unat k = unat n" using arg_cong [OF u, of unat] k n assms(4)
    by (simp add: unsigned_ucast_eq unsigned_take_bit_eq)
  have le: "n \<le> in_count second ?bp" by (simp add: n_def)
  show "0 < unat k" "waiting st + unat k \<le> block st" using kn n pos assms(3) by simp_all
  show le': "unat k \<le> ins st" using kn n by (cases second) (simp_all add: ins_def)
  have "waiting st + unat n < 2 ^ 64" using \<open>waiting st + unat k \<le> block st\<close> kn assms(4) by simp
  then have "unat (framesInTempInputBuffer ?bp + n) = waiting st + unat n" by (intro unat_add_lem [THEN iffD1]) simp
  moreover have "ins st' + unat n = ins st"
    using le by (cases second) (simp_all add: r f ins_def in_count_def put_in_count_def unat_sub word_le_nat_alt)
  ultimately show "filled st st' (unat k)" by (simp add: filled_def r f put_in_count_def kn)
qed

text \<open>The input loop ends with a full block, or without input.\<close>

lemma ad_fill_frames:
  assumes "ins st < 2 ^ 64" and "waiting st \<le> block st" and "block st < 2 ^ 32"
  shows "\<exists>r. ad_fill p a m st = Some r \<and> (\<forall>a' m' st'. r = Inr (a', m', st') \<longrightarrow>
    (\<exists>k. filled st st' k \<and> a' = a - of_nat k \<and> m' = m + of_nat k \<and> waiting st' \<le> block st \<and>
      (waiting st' = block st \<or> ins st' = 0)))"
  using assms
proof (induction "ins st" arbitrary: a m st rule: less_induct)
  case less
  have pos: "framesInTempInputBuffer (processor st) < framesPerUserBuffer (processor st) \<longleftrightarrow> waiting st < block st"
    by (simp add: word_less_nat_alt)
  show ?case
  proof (cases "waiting st < block st \<and> 0 < ins st")
    case False
    then show ?thesis using pos total_positive(1) [OF less.prems(1)] filled_refl less.prems(2)
      by (subst ad_fill.simps) (auto intro!: exI [of _ 0])
  next
    case True
    then have step: "ad_fill p a m st = (case ad_fill_turn p st of Inl e \<Rightarrow> Some (Inl e)
        | Inr (st, k) \<Rightarrow> ad_fill p (a - ucast k) (m + ucast k) st)"
      using pos total_positive(1) [OF less.prems(1)] by (subst ad_fill.simps) simp
    show ?thesis
    proof (cases "ad_fill_turn p st")
      case (Inl e)
      then show ?thesis using step by simp
    next
      case (Inr x)
      then obtain st1 k where t: "ad_fill_turn p st = Inr (st1, k)" by (cases x) auto
      from True have "0 < ins st" "waiting st < block st" by simp_all
      note f = ad_fill_turn_frames [OF t this less.prems(3)]
      have b: "block st1 = block st" "waiting st1 = waiting st + unat k" "ins st1 + unat k = ins st"
        using f(1) by (simp_all add: filled_def)
      then have "ins st1 < ins st" "ins st1 < 2 ^ 64" "waiting st1 \<le> block st1" "block st1 < 2 ^ 32"
        using f(2,3) less.prems by simp_all
      from less.hyps [OF this, of "a - ucast k" "m + ucast k"] obtain r where
        r: "ad_fill p (a - ucast k) (m + ucast k) st1 = Some r"
        "\<forall>a' m' st'. r = Inr (a', m', st') \<longrightarrow> (\<exists>l. filled st1 st' l \<and> a' = a - ucast k - of_nat l \<and>
          m' = m + ucast k + of_nat l \<and> waiting st' \<le> block st1 \<and> (waiting st' = block st1 \<or> ins st' = 0))" by blast
      have "of_nat (unat k + l) = (ucast k + of_nat l :: u64)" for l by simp
      then have "a - ucast k - of_nat l = a - of_nat (unat k + l)" "m + ucast k + of_nat l = m + of_nat (unat k + l)" for l
        by (simp_all add: algebra_simps)
      note a = this
      have "\<exists>l. filled st st' l \<and> a' = a - of_nat l \<and> m' = m + of_nat l \<and> waiting st' \<le> block st \<and>
          (waiting st' = block st \<or> ins st' = 0)" if eq: "r = Inr (a', m', st')" for a' m' st'
      proof -
        obtain l where "filled st1 st' l" "a' = a - ucast k - of_nat l" "m' = m + ucast k + of_nat l"
          "waiting st' \<le> block st1" "waiting st' = block st1 \<or> ins st' = 0" using r(2) eq by blast
        then show ?thesis using filled_trans [OF f(1)] a b(1) by metis
      qed
      moreover have "ad_fill p a m st = Some r" using step t r(1) by simp
      ultimately show ?thesis by blast
    qed
  qed
qed

text \<open>Silence leaves no room, as long as the counts fit in an \<open>unsigned int\<close>.\<close>

definition silenced :: "'u proc \<Rightarrow> 'u proc \<Rightarrow> bool" where
  "silenced st st' \<longleftrightarrow> framesPerUserBuffer (processor st') = framesPerUserBuffer (processor st) \<and>
     framesInTempInputBuffer (processor st') = framesInTempInputBuffer (processor st) \<and>
     framesInTempOutputBuffer (processor st') = framesInTempOutputBuffer (processor st) \<and>
     hostInputFrameCount (processor st') = hostInputFrameCount (processor st) \<and>
     user st' = user st \<and> callback_result st' = callback_result st"

lemma ad_silence_set_frames:
  assumes "ad_silence_set second st = Inr st'" and "unat (out_count second (processor st)) < 2 ^ 32"
  shows "silenced st st'" and "out_count second (processor st') = 0"
    and "out_count (\<not> second) (processor st') = out_count (\<not> second) (processor st)"
proof -
  have u: "ucast (ucast (out_count second (processor st)) :: u32) = out_count second (processor st)"
    by (rule ucast_count [OF assms(2)])
  consider (none) "st' = st" "(ucast (out_count second (processor st)) :: u32) = 0"
    | (some) st1 where "same_frames st st1" "st' = st1\<lparr>processor := put_out_count second 0 (processor st1)\<rparr>"
    using assms(1) by (auto simp: ad_silence_set_def Let_def word_gt_0 split: if_splits dest!: silence_output_frames)
  then have "silenced st st' \<and> out_count second (processor st') = 0 \<and>
      out_count (\<not> second) (processor st') = out_count (\<not> second) (processor st)"
  proof cases
    case none
    then show ?thesis using u by (simp add: silenced_def)
  next
    case some
    then show ?thesis by (cases second) (simp_all add: silenced_def out_count_def put_out_count_def same_framesD)
  qed
  then show "silenced st st'" "out_count second (processor st') = 0"
    "out_count (\<not> second) (processor st') = out_count (\<not> second) (processor st)" by blast+
qed

lemma ad_silence_frames:
  assumes "ad_silence st = Inr st'" and "outs st < 2 ^ 32"
  shows "silenced st st'"
    and "pending st = 0 \<Longrightarrow> callback_result st \<noteq> paContinue \<Longrightarrow> outs st' = 0"
    and "pending st \<noteq> 0 \<or> callback_result st = paContinue \<Longrightarrow> st' = st"
proof -
  have z: "framesInTempOutputBuffer (processor st) = 0 \<longleftrightarrow> pending st = 0" by (simp add: unat_eq_zero)
  have "silenced st st' \<and> (pending st = 0 \<and> callback_result st \<noteq> paContinue \<longrightarrow> outs st' = 0) \<and>
      (pending st \<noteq> 0 \<or> callback_result st = paContinue \<longrightarrow> st' = st)"
  proof (cases "pending st = 0 \<and> callback_result st \<noteq> paContinue")
    case False
    then have "st' = st" using assms(1) z by (auto simp: ad_silence_def split: if_splits)
    then show ?thesis using False by (auto simp: silenced_def)
  next
    case True
    then obtain st1 where t: "ad_silence_set False st = Inr st1" "ad_silence_set True st1 = Inr st'"
      using assms(1) z unfolding ad_silence_def by auto
    have c: "unat (out_count False (processor st)) < 2 ^ 32" "unat (out_count True (processor st)) < 2 ^ 32"
      using assms(2) by (simp_all add: outs_def)
    note f = ad_silence_set_frames [OF t(1) c(1), simplified]
    from c(2) f(3) have "unat (out_count True (processor st1)) < 2 ^ 32" by simp
    note g = ad_silence_set_frames [OF t(2) this, simplified]
    have "outs st' = 0" using f(2) g(2,3) by (simp add: outs_def)
    then show ?thesis using f(1) g(1) True by (simp add: silenced_def)
  qed
  then show "silenced st st'" "pending st = 0 \<Longrightarrow> callback_result st \<noteq> paContinue \<Longrightarrow> outs st' = 0"
    "pending st \<noteq> 0 \<or> callback_result st = paContinue \<Longrightarrow> st' = st" by blast+
qed

end
