(* ===== verification/PaInputFlow.thy ===== *)
theory PaInputFlow
  imports PaAdaptFrames
begin

text \<open>
  What the block adaption delivers to the callback of an input stream
  (\<open>src/external/portaudio/src/common/pa_process.c\<close>, lines 972 to 1071): the samples of the host, converted,
  in their order, none lost and none twice, in blocks of the length the user asked for.
\<close>

section \<open>Memory\<close>

definition cell :: "heap \<Rightarrow> ptr \<Rightarrow> nat \<Rightarrow> bytes" where
  "cell h a n = map (\<lambda>i. the (h i)) [a..<a + n]"

definition cells :: "ptr \<Rightarrow> nat \<Rightarrow> nat \<Rightarrow> nat \<Rightarrow> nat set" where
  "cells a sz st n = {x. \<exists>k < n. a + k * st * sz \<le> x \<and> x < a + k * st * sz + sz}"

lemma length_cell [simp]: "length (cell h a n) = n"
  by (simp add: cell_def)

lemma nth_cell: "k < n \<Longrightarrow> cell h a n ! k = the (h (a + k))"
  by (simp add: cell_def)

lemma cell_cong: "(\<And>x. a \<le> x \<Longrightarrow> x < a + n \<Longrightarrow> h' x = h x) \<Longrightarrow> cell h' a n = cell h a n"
  by (simp add: cell_def)

lemma mapped_iff: "mapped h a n \<longleftrightarrow> {a..<a + n} \<subseteq> dom h"
  by (auto simp: mapped_def list_all_iff)

lemma peek_cell: "mapped h a n \<Longrightarrow> peek h a n = Inr (cell h a n)"
  by (simp add: peek_def cell_def)

lemma poke_eq: "poke a xs h x = (if a \<le> x \<and> x < a + length xs then Some (xs ! (x - a)) else h x)"
  by (simp add: poke_def)

lemma slice_cell: "i + n \<le> m \<Longrightarrow> slice i n (cell h a m) = cell h (a + i) n"
  by (rule nth_equalityI) (simp_all add: nth_slice nth_cell add.assoc)

lemma slice_poke: "i + n \<le> length xs \<Longrightarrow> cell (poke a xs h) (a + i) n = slice i n xs"
  by (rule nth_equalityI) (simp_all add: nth_slice nth_cell poke_eq)

lemma span_cell:
  assumes "k < n"
  shows "k * st * sz + sz \<le> span_bytes sz st n"
proof -
  have "k * st * sz \<le> (n - 1) * st * sz" using assms by (intro mult_le_mono) simp_all
  then show ?thesis using assms by (simp add: span_bytes_def)
qed

lemma strides_fit_span: "strides_fit (cell h a (span_bytes sz st n)) 0 sz st n"
  by (simp add: strides_fit_def span_bytes_def)

lemma mapped_mono: "mapped h a n \<Longrightarrow> dom h \<subseteq> dom h' \<Longrightarrow> mapped h' a n"
  by (auto simp: mapped_iff)

lemma cell_in_cells: "k < n \<Longrightarrow> x \<in> {a + k * st * sz..<a + k * st * sz + sz} \<Longrightarrow> x \<in> cells a sz st n"
  by (auto simp: cells_def)

text \<open>A cell does not change when the cells that are written are others.\<close>

lemma cell_apart:
  assumes "k < n" and "\<And>x. x \<in> cells a sz st n \<Longrightarrow> h' x = h x"
  shows "cell h' (a + k * st * sz) sz = cell h (a + k * st * sz) sz"
  using assms(1) by (intro cell_cong assms(2) cell_in_cells) auto

section \<open>Channels\<close>

definition addr :: "channel_descriptor \<Rightarrow> ptr" where
  "addr ch = the (the (data ch))"

definition gap :: "channel_descriptor \<Rightarrow> nat" where
  "gap ch = unat (the (stride ch))"

text \<open>A channel of the host from which \<open>n\<close> samples of size \<open>sz\<close> can be taken.\<close>

definition ch_ready :: "heap \<Rightarrow> nat \<Rightarrow> nat \<Rightarrow> channel_descriptor \<Rightarrow> bool" where
  "ch_ready h sz n ch \<longleftrightarrow> data ch = Some (Some (addr ch)) \<and> stride ch \<noteq> None \<and> gap ch < 2 ^ 31 \<and>
     mapped h (addr ch) (span_bytes sz (gap ch) n)"

lemma ch_ready_mono: "ch_ready h sz n ch \<Longrightarrow> dom h \<subseteq> dom h' \<Longrightarrow> ch_ready h' sz n ch"
  by (auto simp: ch_ready_def intro: mapped_mono)

section \<open>The temporary input buffer\<close>

text \<open>
  Where sample \<open>i\<close> of frame \<open>j\<close> is: interleaved by frame, or channel after channel. \<open>n\<close> is the number
  of channels, \<open>b\<close> the frames of a block, \<open>sz\<close> the bytes of a sample.
\<close>

definition place :: "bool \<Rightarrow> nat \<Rightarrow> nat \<Rightarrow> nat \<Rightarrow> nat \<Rightarrow> nat \<Rightarrow> nat" where
  "place interleaved n b sz i j = (if interleaved then (j * n + i) * sz else (i * b + j) * sz)"

lemma index_bound: "i < (n :: nat) \<Longrightarrow> j < b \<Longrightarrow> j * n + i < b * n"
proof -
  assume "i < n" "j < b"
  then have "j * n + i < Suc j * n" by simp
  also have "Suc j * n \<le> b * n" using \<open>j < b\<close> by (intro mult_le_mono1) simp
  finally show ?thesis .
qed

lemma index_inj: "i < (n :: nat) \<Longrightarrow> i' < n \<Longrightarrow> j * n + i = j' * n + i' \<longleftrightarrow> i = i' \<and> j = j'"
  by (metis add.commute add_left_cancel div_mult_self3 div_less mult_is_0 not_less_zero add_0)

lemma place_bound: "i < n \<Longrightarrow> j < b \<Longrightarrow> place interleaved n b sz i j + sz \<le> b * n * sz"
proof -
  assume a: "i < n" "j < b"
  have "Suc (j * n + i) * sz \<le> b * n * sz" "Suc (i * b + j) * sz \<le> b * n * sz"
    using index_bound [OF a] index_bound [OF a(2,1)] by (intro mult_le_mono1; simp add: mult.commute)+
  then show ?thesis by (simp add: place_def add.commute)
qed

lemma blocks_apart: "(m :: nat) * sz \<le> x \<Longrightarrow> x < m * sz + sz \<Longrightarrow> l * sz \<le> x \<Longrightarrow> x < l * sz + sz \<Longrightarrow> m = l"
proof -
  assume a: "m * sz \<le> x" "x < m * sz + sz" "l * sz \<le> x" "x < l * sz + sz"
  then have "m * sz < Suc l * sz" "l * sz < Suc m * sz" by simp_all
  then have "m < Suc l" "l < Suc m" using mult_less_cancel2 by blast+
  then show ?thesis by simp
qed

lemma place_apart:
  assumes "place interleaved n b sz i j \<le> x" "x < place interleaved n b sz i j + sz"
    and "place interleaved n b sz i' j' \<le> x" "x < place interleaved n b sz i' j' + sz"
    and "i < n" "i' < n" "j < b" "j' < b"
  shows "i = i' \<and> j = j'"
proof (cases interleaved)
  case True
  then show ?thesis using assms blocks_apart [of "j * n + i" sz x "j' * n + i'"] index_inj [OF assms(5,6)]
    by (simp add: place_def)
next
  case False
  then show ?thesis using assms blocks_apart [of "i * b + j" sz x "i' * b + j'"] index_inj [OF assms(7,8)]
    by (simp add: place_def)
qed

text \<open>The buffer is there, and its size does not overflow.\<close>

abbreviation channels :: "'u proc \<Rightarrow> nat" where
  "channels st \<equiv> unat (inputChannelCount (processor st))"

definition temp :: "'u proc \<Rightarrow> ptr" where
  "temp st = the (tempInputBuffer (processor st))"

definition temp_cell :: "nat \<Rightarrow> 'u proc \<Rightarrow> nat \<Rightarrow> nat \<Rightarrow> bytes" where
  "temp_cell sz st i j =
     cell (heap st) (temp st + place (userInputIsInterleaved (processor st)) (channels st) (block st) sz i j) sz"

definition temp_ready :: "nat \<Rightarrow> 'u proc \<Rightarrow> bool" where
  "temp_ready sz st \<longleftrightarrow> 0 < sz \<and> tempInputBuffer (processor st) \<noteq> None \<and> 0 < channels st \<and> channels st < 2 ^ 31 \<and>
     unat (bytesPerUserInputSample (processor st)) = sz \<and> block st * channels st * sz < 2 ^ 32 \<and>
     mapped (heap st) (temp st) (block st * channels st * sz)"

lemma unat_mul32: "unat a * unat b < 2 ^ 32 \<Longrightarrow> unat (a * b :: u32) = unat a * unat b"
  using unat_mult_lem [of a b] by simp

lemma unat_mul64: "unat a * unat b < 2 ^ 64 \<Longrightarrow> unat (a * b :: u64) = unat a * unat b"
  using unat_mult_lem [of a b] by simp

text \<open>Where \<open>temp_layout\<close> puts the samples, without an overflow.\<close>

lemma temp_layout_place:
  assumes "temp_ready sz st" and "unat off < block st"
  shows "\<exists>d ds step. temp_layout (userInputIsInterleaved (processor st)) (inputChannelCount (processor st))
      (bytesPerUserInputSample (processor st)) off (framesPerUserBuffer (processor st)) (tempInputBuffer (processor st)) =
      Inr (d, ds, step) \<and> 1 \<le> unat ds \<and> unat ds < 2 ^ 31 \<and>
    (\<forall>i k. i < channels st \<longrightarrow> d + i * unat step + k * unat ds * sz =
       temp st + place (userInputIsInterleaved (processor st)) (channels st) (block st) sz i (unat off + k))"
proof -
  let ?bp = "processor st"
  have r: "tempInputBuffer ?bp = Some (temp st)" "0 < channels st" "channels st < 2 ^ 31"
    "unat (bytesPerUserInputSample ?bp) = sz" "block st * channels st * sz < 2 ^ 32"
    using assms(1) by (auto simp: temp_ready_def temp_def)
  have le: "channels st * sz \<le> block st * channels st * sz" "block st * sz \<le> block st * channels st * sz" "sz \<le> block st * channels st * sz"
    using r(2) assms(2) by (simp_all add: mult.assoc)
  have off: "sz * channels st * unat off \<le> block st * channels st * sz" "sz * unat off \<le> block st * channels st * sz"
    using assms(2) r(2) mult_le_mono [of "unat off" "block st" "channels st * sz" "channels st * sz"]
      mult_le_mono [of "unat off" "block st" sz "channels st * sz"]
    by (simp_all add: ac_simps)
  note lt = le_less_trans [OF le(1) r(5)] le_less_trans [OF le(2) r(5)] le_less_trans [OF off(1) r(5)]
    le_less_trans [OF off(2) r(5)]
  let ?c = "inputChannelCount ?bp" and ?b = "bytesPerUserInputSample ?bp" and ?n = "framesPerUserBuffer ?bp"
  have m: "unat (?b * ?c) = sz * channels st"
    using unat_mul32 [of ?b ?c] lt(1) r(4) by (simp add: mult.commute)
  have o: "unat (ucast (?b * ?c) * off) = sz * channels st * unat off" "unat (ucast ?b * off) = sz * unat off"
    using unat_mul64 [of "ucast (?b * ?c)" off] unat_mul64 [of "ucast ?b" off] lt(3,4) r(4) m
    by (simp_all add: unat_ucast_up)
  have w: "unat (?n * ucast ?b) = block st * sz"
    using unat_mul64 [of ?n "ucast ?b"] lt(2) r(4) by (simp add: unat_ucast_up)
  then have u: "unat (ucast (?n * ucast ?b) :: u32) = block st * sz"
    using lt(2) by (simp add: unsigned_ucast_eq unsigned_take_bit_eq take_bit_nat_eq_self)
  show ?thesis
  proof (cases "userInputIsInterleaved ?bp")
    case True
    then have "temp_layout (userInputIsInterleaved ?bp) ?c ?b off ?n (tempInputBuffer ?bp) =
        Inr (temp st + sz * channels st * unat off, ?c, ?b)"
      using r(1) o by (simp add: temp_layout_def nonnull_def)
    then show ?thesis using True r(2-4)
      by (intro exI conjI) (assumption, simp_all add: place_def algebra_simps)
  next
    case False
    then have "temp_layout (userInputIsInterleaved ?bp) ?c ?b off ?n (tempInputBuffer ?bp) =
        Inr (temp st + sz * unat off, 1, ucast (?n * ucast ?b))"
      using r(1) o by (simp add: temp_layout_def nonnull_def)
    then show ?thesis using False u
      by (intro exI conjI) (assumption, simp_all add: place_def algebra_simps)
  qed
qed

section \<open>Converters\<close>

text \<open>
  What the buffer processor needs of a converter: it turns the samples that the strides reach one by
  one, leaves the rest of the destination, and needs no dither. \<open>vs\<close> and \<open>vd\<close> read a sample.
\<close>

locale sample_converter =
  fixes p :: platform and c :: converter and sn dn :: nat and vs vd :: "bytes \<Rightarrow> 'v"
  assumes sizes: "converter_sizes c = (sn, dn)"
    and exists: "paConverters c \<noteq> None"
    and runs: "\<And>conv dst b src a n g. paConverters c = Some conv \<Longrightarrow> 1 \<le> b \<Longrightarrow>
      strides_fit src 0 sn a n \<Longrightarrow> strides_fit dst 0 dn b n \<Longrightarrow>
      \<exists>dst'. conv p dst (int b) src (int a) n g = Inr (dst', g) \<and> length dst' = length dst \<and>
        (\<forall>k < n. vd (slice (k * b * dn) dn dst') = vs (slice (k * a * sn) sn src)) \<and>
        (\<forall>j < length dst. \<not> on_samples 0 dn b n j \<longrightarrow> dst' ! j = dst ! j)"
begin

lemma call:
  assumes "1 \<le> unat ds" and "unat ds < 2 ^ 31" and "unat ss < 2 ^ 31"
    and src: "mapped h s (span_bytes sn (unat ss) (unat count))" and dst: "mapped h d (span_bytes dn (unat ds) (unat count))"
  shows "\<exists>h'. call_converter p (Some c) (Some d) ds (Some s) ss count h g = Inr (h', g) \<and>
    (\<forall>k < unat count. vd (cell h' (d + k * unat ds * dn) dn) = vs (cell h (s + k * unat ss * sn) sn)) \<and>
    (\<forall>x. x \<notin> cells d dn (unat ds) (unat count) \<longrightarrow> h' x = h x) \<and> dom h \<subseteq> dom h'"
proof -
  obtain conv where conv: "paConverters c = Some conv" using exists by blast
  show ?thesis
  proof (cases "count = 0")
    case True
    then show ?thesis using conv by (intro exI [of _ h]) (simp add: call_converter_def nonnull_def)
  next
    case False
    let ?src = "cell h s (span_bytes sn (unat ss) (unat count))" and ?dst = "cell h d (span_bytes dn (unat ds) (unat count))"
    from runs [where dst = ?dst and src = ?src and a = "unat ss" and g = g, OF conv assms(1) strides_fit_span strides_fit_span]
    obtain ys where r: "conv p ?dst (int (unat ds)) ?src (int (unat ss)) (unat count) g = Inr (ys, g)"
      "length ys = span_bytes dn (unat ds) (unat count)"
      "\<forall>k < unat count. vd (slice (k * unat ds * dn) dn ys) = vs (slice (k * unat ss * sn) sn ?src)"
      "\<forall>j < length ?dst. \<not> on_samples 0 dn (unat ds) (unat count) j \<longrightarrow> ys ! j = ?dst ! j" by auto
    have "call_converter p (Some c) (Some d) ds (Some s) ss count h g = Inr (poke d ys h, g)"
      using conv False assms r(1) by (simp add: call_converter_def nonnull_def sizes peek_cell word_less_nat_alt)
    moreover have "vd (cell (poke d ys h) (d + k * unat ds * dn) dn) = vs (cell h (s + k * unat ss * sn) sn)"
      if "k < unat count" for k
      using r(2,3) that span_cell [OF that, of "unat ds" dn] span_cell [OF that, of "unat ss" sn]
      by (simp add: slice_poke slice_cell)
    moreover have "poke d ys h x = h x" if "x \<notin> cells d dn (unat ds) (unat count)" for x
    proof (cases "d \<le> x \<and> x < d + length ys")
      case True
      then obtain y where y: "x = d + y" "y < length ys" using le_Suc_ex by fastforce
      then have "\<not> on_samples 0 dn (unat ds) (unat count) y"
        using that by (auto simp: cells_def on_samples_iff)
      then have "ys ! y = ?dst ! y" using r(2,4) y(2) by simp
      also have "\<dots> = the (h x)" using r(2) y by (simp add: nth_cell)
      finally have "ys ! y = the (h x)" .
      moreover have "x \<in> {d..<d + span_bytes dn (unat ds) (unat count)}" using r(2) y by simp
      then have "x \<in> dom h" using dst unfolding mapped_iff by blast
      ultimately show ?thesis using y by (auto simp: poke_eq)
    qed (auto simp: poke_eq)
    moreover have "dom h \<subseteq> dom (poke d ys h)" by (auto simp: poke_eq)
    ultimately show ?thesis by blast
  qed
qed

text \<open>The loop over \<open>n\<close> channels from the \<open>i\<close>th on.\<close>

lemma convert_channels:
  assumes "inputConverter bp = Some c" and "1 \<le> unat ds" and "unat ds < 2 ^ 31" and "i + n \<le> length cs"
    and "\<And>j. j < n \<Longrightarrow> ch_ready h sn (unat count) (cs ! (i + j))"
    and "\<And>j. j < n \<Longrightarrow> mapped h (d + j * unat step) (span_bytes dn (unat ds) (unat count))"
    and "\<And>j. j < n \<Longrightarrow> adv (cs ! (i + j)) = Inr (adv' (cs ! (i + j)))"
    and "\<And>j l. j < n \<Longrightarrow> l < n \<Longrightarrow> j \<noteq> l \<Longrightarrow>
      cells (d + j * unat step) dn (unat ds) (unat count) \<inter> cells (d + l * unat step) dn (unat ds) (unat count) = {}"
    and "\<And>j l. j < n \<Longrightarrow> l < n \<Longrightarrow>
      cells (addr (cs ! (i + j))) sn (gap (cs ! (i + j))) (unat count) \<inter> cells (d + l * unat step) dn (unat ds) (unat count) = {}"
  shows "\<exists>cs' d' h'. each_channel (convert_in p bp count ds step adv) n i cs (d, h, g) = Inr (cs', d', h', g) \<and>
    length cs' = length cs \<and> (\<forall>j. cs' ! j = (if i \<le> j \<and> j < i + n then adv' (cs ! j) else cs ! j)) \<and>
    (\<forall>j < n. \<forall>k < unat count. vd (cell h' (d + j * unat step + k * unat ds * dn) dn) =
       vs (cell h (addr (cs ! (i + j)) + k * gap (cs ! (i + j)) * sn) sn)) \<and>
    (\<forall>x. (\<forall>j < n. x \<notin> cells (d + j * unat step) dn (unat ds) (unat count)) \<longrightarrow> h' x = h x) \<and>
    dom h \<subseteq> dom h'"
  using assms(4-9)
proof (induction n arbitrary: i cs d h)
  case 0
  then show ?case by auto
next
  case (Suc n)
  let ?W = "\<lambda>j. cells (d + j * unat step) dn (unat ds) (unat count)"
  let ?ch = "cs ! i"
  have ch: "ch_ready h sn (unat count) ?ch" using Suc.prems(2) [of 0] by simp
  then obtain s where s: "data ?ch = Some (Some (addr ?ch))" "stride ?ch = Some s" "gap ?ch = unat s" "unat s < 2 ^ 31"
    "mapped h (addr ?ch) (span_bytes sn (unat s) (unat count))" by (auto simp: ch_ready_def gap_def)
  have m: "mapped h d (span_bytes dn (unat ds) (unat count))" using Suc.prems(3) [of 0] by simp
  from call [OF assms(2,3) s(4,5) m, of g] obtain h1 where
    h1: "call_converter p (Some c) (Some d) ds (Some (addr ?ch)) s count h g = Inr (h1, g)"
    "\<forall>k < unat count. vd (cell h1 (d + k * unat ds * dn) dn) = vs (cell h (addr ?ch + k * unat s * sn) sn)"
    "\<forall>x. x \<notin> ?W 0 \<longrightarrow> h1 x = h x" "dom h \<subseteq> dom h1" by auto
  have step1: "convert_in p bp count ds step adv i ?ch (d, h, g) = Inr (adv' ?ch, d + unat step, h1, g)"
    using s(1,2) h1(1) Suc.prems(4) [of 0] assms(1) by (simp add: convert_in_def chan_data_def chan_stride_def nonnull_def)
  let ?cs = "cs[i := adv' ?ch]"
  have nth: "?cs ! (Suc i + j) = cs ! (i + Suc j)" for j by simp
  have src: "cell h1 (addr (cs ! (i + Suc j)) + k * gap (cs ! (i + Suc j)) * sn) sn =
      cell h (addr (cs ! (i + Suc j)) + k * gap (cs ! (i + Suc j)) * sn) sn" if "j < n" "k < unat count" for j k
    using Suc.prems(6) [of "Suc j" 0] that h1(3) by (intro cell_apart [of _ "unat count"]) auto
  have "\<exists>cs' d' h'. each_channel (convert_in p bp count ds step adv) n (Suc i) ?cs (d + unat step, h1, g) = Inr (cs', d', h', g) \<and>
    length cs' = length ?cs \<and> (\<forall>j. cs' ! j = (if Suc i \<le> j \<and> j < Suc i + n then adv' (?cs ! j) else ?cs ! j)) \<and>
    (\<forall>j < n. \<forall>k < unat count. vd (cell h' (d + unat step + j * unat step + k * unat ds * dn) dn) =
       vs (cell h1 (addr (?cs ! (Suc i + j)) + k * gap (?cs ! (Suc i + j)) * sn) sn)) \<and>
    (\<forall>x. (\<forall>j < n. x \<notin> cells (d + unat step + j * unat step) dn (unat ds) (unat count)) \<longrightarrow> h' x = h1 x) \<and>
    dom h1 \<subseteq> dom h'"
  proof (rule Suc.IH)
    show "Suc i + n \<le> length ?cs" using Suc.prems(1) by simp
  next
    fix j assume j: "j < n"
    show "ch_ready h1 sn (unat count) (?cs ! (Suc i + j))"
      using ch_ready_mono [OF Suc.prems(2) [of "Suc j"] h1(4)] j by simp
    show "mapped h1 (d + unat step + j * unat step) (span_bytes dn (unat ds) (unat count))"
      using mapped_mono [OF Suc.prems(3) [of "Suc j"] h1(4)] j by (simp add: add.assoc)
    show "adv (?cs ! (Suc i + j)) = Inr (adv' (?cs ! (Suc i + j)))"
      using Suc.prems(4) [of "Suc j"] j by simp
  next
    fix j l assume jl: "j < n" "l < n"
    show "cells (addr (?cs ! (Suc i + j))) sn (gap (?cs ! (Suc i + j))) (unat count) \<inter>
        cells (d + unat step + l * unat step) dn (unat ds) (unat count) = {}"
      using Suc.prems(6) [of "Suc j" "Suc l"] jl by (simp add: add.assoc)
    assume "j \<noteq> l"
    then show "cells (d + unat step + j * unat step) dn (unat ds) (unat count) \<inter>
        cells (d + unat step + l * unat step) dn (unat ds) (unat count) = {}"
      using Suc.prems(5) [of "Suc j" "Suc l"] jl by (simp add: add.assoc)
  qed
  then obtain cs' d' h' where
    r: "each_channel (convert_in p bp count ds step adv) n (Suc i) ?cs (d + unat step, h1, g) = Inr (cs', d', h', g)"
    "length cs' = length cs" "\<forall>j. cs' ! j = (if Suc i \<le> j \<and> j < Suc i + n then adv' (?cs ! j) else ?cs ! j)"
    "\<forall>j < n. \<forall>k < unat count. vd (cell h' (d + Suc j * unat step + k * unat ds * dn) dn) =
       vs (cell h1 (addr (cs ! (i + Suc j)) + k * gap (cs ! (i + Suc j)) * sn) sn)"
    "\<forall>x. (\<forall>j < n. x \<notin> ?W (Suc j)) \<longrightarrow> h' x = h1 x" "dom h1 \<subseteq> dom h'"
    by (auto simp: add.assoc)
  have first: "cell h' (d + k * unat ds * dn) dn = cell h1 (d + k * unat ds * dn) dn" if "k < unat count" for k
    using Suc.prems(5) [of 0] that r(5) by (intro cell_apart [of _ "unat count"]) fastforce+
  have "each_channel (convert_in p bp count ds step adv) (Suc n) i cs (d, h, g) = Inr (cs', d', h', g)"
    using Suc.prems(1) step1 r(1) by simp
  moreover have "cs' ! j = (if i \<le> j \<and> j < i + Suc n then adv' (cs ! j) else cs ! j)" for j
    using r(3) Suc.prems(1) by (auto simp: nth_list_update)
  moreover have "vd (cell h' (d + j * unat step + k * unat ds * dn) dn) =
       vs (cell h (addr (cs ! (i + j)) + k * gap (cs ! (i + j)) * sn) sn)" if "j < Suc n" "k < unat count" for j k
  proof (cases j)
    case 0
    then show ?thesis using first h1(2) s(3) that by simp
  next
    case (Suc l)
    then show ?thesis using r(4) src [of l k] that by simp
  qed
  moreover have "h' x = h x" if "\<forall>j < Suc n. x \<notin> ?W j" for x
  proof -
    have "h' x = h1 x" using r(5) that by blast
    moreover have "x \<notin> ?W 0" using that by blast
    ultimately show ?thesis using h1(3) by simp
  qed
  moreover have "dom h \<subseteq> dom h'" using h1(4) r(6) by blast
  ultimately show ?case using r(2) by blast
qed

text \<open>A turn of the input side: the samples go behind those that wait, which stay.\<close>

lemma fill_input_flow:
  assumes t: "temp_ready dn st" and "inputConverter (processor st) = Some c"
    and w: "waiting st < block st" "waiting st + unat count \<le> block st"
    and cs: "cs = in_set second (processor st)" "channels st \<le> length cs"
    and ready: "\<And>i. i < channels st \<Longrightarrow> ch_ready (heap st) sn (unat count) (cs ! i)"
    and adv: "\<And>i. i < channels st \<Longrightarrow> adv (cs ! i) = Inr (adv' (cs ! i))"
    and apart: "\<And>i. i < channels st \<Longrightarrow>
      cells (addr (cs ! i)) sn (gap (cs ! i)) (unat count) \<inter> {temp st..<temp st + block st * channels st * dn} = {}"
  shows "\<exists>cs' h. fill_input p second count adv st = Inr (st\<lparr>processor := put_in_set second cs' (processor st), heap := h\<rparr>) \<and>
    length cs' = length cs \<and> (\<forall>i. cs' ! i = (if i < channels st then adv' (cs ! i) else cs ! i)) \<and>
    (\<forall>i < channels st. \<forall>k < unat count. vd (temp_cell dn (st\<lparr>heap := h\<rparr>) i (waiting st + k)) =
       vs (cell (heap st) (addr (cs ! i) + k * gap (cs ! i) * sn) sn)) \<and>
    (\<forall>i < channels st. \<forall>j < waiting st. temp_cell dn (st\<lparr>heap := h\<rparr>) i j = temp_cell dn st i j) \<and>
    (\<forall>x. x \<notin> {temp st..<temp st + block st * channels st * dn} \<longrightarrow> h x = heap st x) \<and> dom (heap st) \<subseteq> dom h"
proof -
  let ?bp = "processor st" and ?all = "{temp st..<temp st + block st * channels st * dn}"
  let ?at = "\<lambda>i j. temp st + place (userInputIsInterleaved ?bp) (channels st) (block st) dn i j"
  obtain d ds step where l: "temp_layout (userInputIsInterleaved ?bp) (inputChannelCount ?bp) (bytesPerUserInputSample ?bp)
      (framesInTempInputBuffer ?bp) (framesPerUserBuffer ?bp) (tempInputBuffer ?bp) = Inr (d, ds, step)"
    "1 \<le> unat ds" "unat ds < 2 ^ 31"
    "\<And>i k. i < channels st \<Longrightarrow> d + i * unat step + k * unat ds * dn = ?at i (waiting st + k)"
    using temp_layout_place [OF t w(1)] by blast
  have bound: "?at i j + dn \<le> temp st + block st * channels st * dn" if "i < channels st" "j < block st" for i j
    using place_bound [OF that] by simp
  let ?D = "\<lambda>i. cells (d + i * unat step) dn (unat ds) (unat count)"
  have D: "x \<in> ?D i \<Longrightarrow> \<exists>k < unat count. ?at i (waiting st + k) \<le> x \<and> x < ?at i (waiting st + k) + dn"
    if "i < channels st" for i x
    using l(4) [OF that] by (auto simp: cells_def)
  have inside: "?D i \<subseteq> ?all" if i: "i < channels st" for i
  proof
    fix x assume "x \<in> ?D i"
    then obtain k where k: "k < unat count" "?at i (waiting st + k) \<le> x" "x < ?at i (waiting st + k) + dn"
      using D [OF i] by blast
    then have "waiting st + k < block st" using w(2) by linarith
    from bound [OF i this] k show "x \<in> ?all" by simp
  qed
  have "\<exists>cs' d' h'. each_channel (convert_in p ?bp count ds step adv) (channels st) 0 cs (d, heap st, ditherGenerator ?bp) =
      Inr (cs', d', h', ditherGenerator ?bp) \<and>
    length cs' = length cs \<and> (\<forall>j. cs' ! j = (if 0 \<le> j \<and> j < 0 + channels st then adv' (cs ! j) else cs ! j)) \<and>
    (\<forall>j < channels st. \<forall>k < unat count. vd (cell h' (d + j * unat step + k * unat ds * dn) dn) =
       vs (cell (heap st) (addr (cs ! (0 + j)) + k * gap (cs ! (0 + j)) * sn) sn)) \<and>
    (\<forall>x. (\<forall>j < channels st. x \<notin> ?D j) \<longrightarrow> h' x = heap st x) \<and> dom (heap st) \<subseteq> dom h'"
  proof (rule convert_channels [OF assms(2) l(2,3)])
    show "0 + channels st \<le> length cs" using cs(2) by simp
  next
    fix j assume j: "j < channels st"
    show "ch_ready (heap st) sn (unat count) (cs ! (0 + j))" "adv (cs ! (0 + j)) = Inr (adv' (cs ! (0 + j)))"
      using ready [OF j] adv [OF j] by simp_all
    show "mapped (heap st) (d + j * unat step) (span_bytes dn (unat ds) (unat count))"
    proof (cases "unat count = 0")
      case False
      then have "waiting st + (unat count - 1) < block st" using w(2) by linarith
      from bound [OF j this] l(4) [OF j, of "unat count - 1"] l(4) [OF j, of 0]
      have "d + j * unat step + span_bytes dn (unat ds) (unat count) \<le> temp st + block st * channels st * dn"
        "temp st \<le> d + j * unat step" using False by (simp_all add: span_bytes_def)
      then have "{d + j * unat step..<d + j * unat step + span_bytes dn (unat ds) (unat count)} \<subseteq> ?all" by auto
      moreover have "?all \<subseteq> dom (heap st)" using t by (simp add: temp_ready_def mapped_iff)
      ultimately show ?thesis unfolding mapped_iff by (rule subset_trans)
    qed (simp add: span_bytes_def mapped_iff)
  next
    fix j l assume jl: "j < channels st" "l < channels st"
    show "cells (addr (cs ! (0 + j))) sn (gap (cs ! (0 + j))) (unat count) \<inter> ?D l = {}"
      using apart [OF jl(1)] inside [OF jl(2)] by auto
    assume "j \<noteq> l"
    show "?D j \<inter> ?D l = {}"
    proof (rule ccontr)
      assume "?D j \<inter> ?D l \<noteq> {}"
      then obtain x where x: "x \<in> ?D j" "x \<in> ?D l" by blast
      obtain k k' where k: "k < unat count" "?at j (waiting st + k) \<le> x" "x < ?at j (waiting st + k) + dn"
        "k' < unat count" "?at l (waiting st + k') \<le> x" "x < ?at l (waiting st + k') + dn"
        using D [OF jl(1) x(1)] D [OF jl(2) x(2)] by blast
      obtain y where y: "x = temp st + y" using k(2) le_Suc_ex by (metis add.assoc)
      have "j = l \<and> waiting st + k = waiting st + k'"
        using k w(2) jl
        by (intro place_apart [of "userInputIsInterleaved ?bp" "channels st" "block st" dn j "waiting st + k" y l "waiting st + k'"])
          (simp_all add: y)
      then show False using \<open>j \<noteq> l\<close> by simp
    qed
  qed
  then obtain cs' d' h where r: "each_channel (convert_in p ?bp count ds step adv) (channels st) 0 cs (d, heap st, ditherGenerator ?bp) =
      Inr (cs', d', h, ditherGenerator ?bp)"
    "length cs' = length cs" "\<forall>j. cs' ! j = (if j < channels st then adv' (cs ! j) else cs ! j)"
    "\<forall>j < channels st. \<forall>k < unat count. vd (cell h (d + j * unat step + k * unat ds * dn) dn) =
       vs (cell (heap st) (addr (cs ! j) + k * gap (cs ! j) * sn) sn)"
    "\<forall>x. (\<forall>j < channels st. x \<notin> ?D j) \<longrightarrow> h x = heap st x" "dom (heap st) \<subseteq> dom h" by auto
  have "put_in_set second cs' ?bp\<lparr>ditherGenerator := ditherGenerator ?bp\<rparr> = put_in_set second cs' ?bp"
    by (simp add: put_in_set_def)
  then have "fill_input p second count adv st = Inr (st\<lparr>processor := put_in_set second cs' ?bp, heap := h\<rparr>)"
    using r(1) l(1) cs(1) by (simp add: fill_input_def Let_def)
  moreover have "vd (temp_cell dn (st\<lparr>heap := h\<rparr>) i (waiting st + k)) =
       vs (cell (heap st) (addr (cs ! i) + k * gap (cs ! i) * sn) sn)" if "i < channels st" "k < unat count" for i k
    using r(4) [rule_format, OF that] l(4) [OF that(1), of k] by (simp add: temp_cell_def temp_def)
  moreover have "temp_cell dn (st\<lparr>heap := h\<rparr>) i j = temp_cell dn st i j" if ij: "i < channels st" "j < waiting st" for i j
  proof -
    have "h x = heap st x" if x: "?at i j \<le> x" "x < ?at i j + dn" for x
    proof -
      have "x \<notin> ?D l" if l: "l < channels st" for l
      proof
        assume "x \<in> ?D l"
        then obtain k where k: "k < unat count" "?at l (waiting st + k) \<le> x" "x < ?at l (waiting st + k) + dn"
          using D [OF l] by blast
        obtain y where y: "x = temp st + y" using x(1) le_Suc_ex by (metis add.assoc)
        have "i = l \<and> j = waiting st + k"
          using k w ij l x
          by (intro place_apart [of "userInputIsInterleaved ?bp" "channels st" "block st" dn i j y l "waiting st + k"])
            (simp_all add: y)
        then show False using ij(2) by simp
      qed
      then show ?thesis using r(5) by blast
    qed
    then have "cell h (?at i j) dn = cell (heap st) (?at i j) dn" by (rule cell_cong)
    then show ?thesis by (simp add: temp_cell_def temp_def)
  qed
  moreover have "h x = heap st x" if "x \<notin> ?all" for x using r(5) inside that by blast
  ultimately show ?thesis using r(2,3,6) by blast
qed

end

end
