(* ===== verification/PaInputStream.thy ===== *)
theory PaInputStream
  imports PaInputFlow "HOL-Library.Sublist"
begin

text \<open>
  The stream of frames that an input callback gets: the loop of \<open>AdaptingInputOnlyProcess\<close>
  (\<open>src/external/portaudio/src/common/pa_process.c\<close>) neither loses nor repeats a frame, whatever the
  lengths of the host buffers and of the blocks of the user.
\<close>

section \<open>Frames\<close>

definition temp_frame :: "(bytes \<Rightarrow> 'v) \<Rightarrow> nat \<Rightarrow> 'u proc \<Rightarrow> nat \<Rightarrow> 'v list" where
  "temp_frame vd sz st j = map (\<lambda>i. vd (temp_cell sz st i j)) [0..<channels st]"

text \<open>The frames that wait in the temporary input buffer.\<close>

definition waiting_frames :: "(bytes \<Rightarrow> 'v) \<Rightarrow> nat \<Rightarrow> 'u proc \<Rightarrow> 'v list list" where
  "waiting_frames vd sz st = map (temp_frame vd sz st) [0..<waiting st]"

text \<open>The first \<open>n\<close> frames of the host.\<close>

definition host_frames :: "(bytes \<Rightarrow> 'v) \<Rightarrow> nat \<Rightarrow> bool \<Rightarrow> nat \<Rightarrow> 'u proc \<Rightarrow> 'v list list" where
  "host_frames vs sz second n st =
     map (\<lambda>k. map (\<lambda>i. let ch = in_set second (processor st) ! i in vs (cell (heap st) (addr ch + k * gap ch * sz) sz))
       [0..<channels st]) [0..<n]"

text \<open>The host buffers can be read for \<open>n\<close> frames, and are not in the temporary buffer.\<close>

definition source_ready :: "nat \<Rightarrow> nat \<Rightarrow> bool \<Rightarrow> nat \<Rightarrow> 'u proc \<Rightarrow> bool" where
  "source_ready sn dn second n st \<longleftrightarrow> 0 < sn \<and> unat (bytesPerHostInputSample (processor st)) = sn \<and>
     channels st \<le> length (in_set second (processor st)) \<and>
     list_all (\<lambda>i. let ch = in_set second (processor st) ! i in ch_ready (heap st) sn n ch \<and> n * gap ch * sn < 2 ^ 64 \<and>
       cells (addr ch) sn (gap ch) n \<inter> {temp st..<temp st + block st * channels st * dn} = {}) [0..<channels st]"

definition host_cells :: "nat \<Rightarrow> bool \<Rightarrow> nat \<Rightarrow> 'u proc \<Rightarrow> nat set" where
  "host_cells sn second n st = (\<Union>i < channels st. let ch = in_set second (processor st) ! i in cells (addr ch) sn (gap ch) n)"

section \<open>Callbacks\<close>

text \<open>A callback that frees no memory and leaves the addresses \<open>H\<close> alone.\<close>

definition harmless :: "nat set \<Rightarrow> 'u callback \<Rightarrow> bool" where
  "harmless H cb \<longleftrightarrow> (\<forall>i u n t f h s. dom h \<subseteq> dom (fst (snd (cb i u n t f h s))) \<and>
     (\<forall>x \<in> H. fst (snd (cb i u n t f h s)) x = h x))"

text \<open>
  Where sample \<open>i\<close> of frame \<open>j\<close> of a user buffer is, as the documentation of \<open>PaStreamCallback\<close> has it:
  interleaved, or one array for each channel. A callback that also notes the frames it is given.
\<close>

fun user_sample :: "user_buffer \<Rightarrow> nat \<Rightarrow> nat \<Rightarrow> nat \<Rightarrow> nat \<Rightarrow> ptr" where
  "user_sample No_buffer n sz i j = 0"
| "user_sample (Block b) n sz i j = the b + (j * n + i) * sz"
| "user_sample (Pointers ps) n sz i j = the (ps ! i) + j * sz"

definition heard :: "(bytes \<Rightarrow> 'v) \<Rightarrow> nat \<Rightarrow> nat \<Rightarrow> user_buffer \<Rightarrow> u64 \<Rightarrow> heap \<Rightarrow> 'v list list" where
  "heard vd sz n b count h = map (\<lambda>j. map (\<lambda>i. vd (cell h (user_sample b n sz i j) sz)) [0..<n]) [0..<unat count]"

definition hearing :: "(bytes \<Rightarrow> 'v) \<Rightarrow> nat \<Rightarrow> nat \<Rightarrow> 'u callback \<Rightarrow> ('u \<times> 'v list list list) callback" where
  "hearing vd sz n cb i u count t f h = (\<lambda>(s, blocks). case cb i u count t f h s of
     (r, h', s) \<Rightarrow> (r, h', s, blocks @ [heard vd sz n i count h]))"

section \<open>Advancing\<close>

lemma advance_long_ready:
  assumes "ch_ready h sn n ch" and "unat k * gap ch * sn < 2 ^ 64" and "unat bytes = sn" and "0 < sn"
  shows "advance_long k bytes ch = Inr (ch\<lparr>data := Some (Some (addr ch + unat k * gap ch * sn))\<rparr>)"
proof -
  obtain s where s: "data ch = Some (Some (addr ch))" "stride ch = Some s" "gap ch = unat s"
    using assms(1) by (auto simp: ch_ready_def gap_def)
  have "unat k * unat s \<le> unat k * unat s * sn" using assms(4) by simp
  also have "\<dots> < 2 ^ 64" using assms(2) s(3) by simp
  finally have "unat k * unat s < 2 ^ 64" .
  then have "unat (k * ucast s) = unat k * unat s" using unat_mul64 [of k "ucast s"] by (simp add: unat_ucast_up)
  moreover from this have "unat (k * ucast s * ucast bytes) = unat k * unat s * sn"
    using unat_mul64 [of "k * ucast s" "ucast bytes"] assms(2,3) s(3) by (simp add: unat_ucast_up)
  ultimately show ?thesis using s
    by (simp add: advance_long_def advance_by_def chan_stride_def chan_data_def nonnull_def)
qed

lemma cells_tail:
  assumes "k \<le> n"
  shows "cells (a + k * st * sz) sz st (n - k) \<subseteq> cells a sz st n"
proof
  fix x assume "x \<in> cells (a + k * st * sz) sz st (n - k)"
  then obtain l where l: "l < n - k" "a + k * st * sz + l * st * sz \<le> x" "x < a + k * st * sz + l * st * sz + sz"
    by (auto simp: cells_def)
  have "k * st * sz + l * st * sz = (k + l) * st * sz" by (simp add: algebra_simps)
  then show "x \<in> cells a sz st n" using l assms unfolding cells_def
    by (intro CollectI exI [of _ "k + l"]) (simp add: add.assoc)
qed

lemma mapped_part: "mapped h a n \<Longrightarrow> a \<le> b \<Longrightarrow> b + m \<le> a + n \<Longrightarrow> mapped h b m"
  unfolding mapped_iff by (rule subset_trans) auto

lemma mapped_tail:
  assumes "mapped h a (span_bytes sz st n)" and "k \<le> n"
  shows "mapped h (a + k * st * sz) (span_bytes sz st (n - k))"
proof (cases "k = n")
  case False
  then have "k * st * sz + span_bytes sz st (n - k) = span_bytes sz st n"
    using assms(2) by (cases n) (auto simp: span_bytes_def algebra_simps Suc_diff_le le_less dest: less_imp_Suc_add)
  then show ?thesis by (intro mapped_part [OF assms(1)]) simp_all
qed (simp add: span_bytes_def mapped_iff)

lemma mapped_head:
  assumes "mapped h a (span_bytes sz st n)" and "k \<le> n"
  shows "mapped h a (span_bytes sz st k)"
proof -
  have "span_bytes sz st k \<le> span_bytes sz st n"
    using assms(2) by (auto simp: span_bytes_def intro!: mult_le_mono)
  then show ?thesis by (intro mapped_part [OF assms(1)]) simp_all
qed

lemma cells_head: "k \<le> n \<Longrightarrow> cells a sz st k \<subseteq> cells a sz st n"
  unfolding cells_def using less_le_trans by blast

section \<open>What the callback is given\<close>

lemma unat_of_nat_word: "i < unat (n :: u32) \<Longrightarrow> unat (of_nat i :: u32) = i"
  by (metis of_nat_inverse order_less_trans unsigned_less)

text \<open>The buffer that \<open>ai_user_input\<close> sets up holds the frames of the temporary buffer.\<close>

lemma ai_user_input_heard:
  assumes "temp_ready sz st"
  shows "\<exists>b. ai_user_input (processor st) = Inr b \<and>
    (\<forall>h. heard vd sz (channels st) b (framesPerUserBuffer (processor st)) h =
       map (temp_frame vd sz (st\<lparr>heap := h\<rparr>)) [0..<block st])"
proof -
  let ?bp = "processor st"
  have r: "tempInputBuffer ?bp = Some (temp st)" "unat (bytesPerUserInputSample ?bp) = sz" "block st * channels st * sz < 2 ^ 32"
    using assms by (auto simp: temp_ready_def temp_def)
  show ?thesis
  proof (cases "userInputIsInterleaved ?bp")
    case True
    then show ?thesis using r(1)
      by (auto simp: ai_user_input_def heard_def temp_frame_def temp_cell_def temp_def place_def)
  next
    case False
    have ptr: "unat (ucast (of_nat i * bytesPerUserInputSample ?bp) * framesPerUserBuffer ?bp) = i * block st * sz"
      if i: "i < channels st" "0 < block st" for i
    proof -
      have "i * sz \<le> channels st * sz" "channels st * sz \<le> block st * channels st * sz"
        using i by (simp_all add: mult.assoc)
      then have a: "i * sz < 2 ^ 32" using r(3) by linarith
      have u: "unat (of_nat i * bytesPerUserInputSample ?bp) = i * sz"
        using unat_mul32 [of "of_nat i" "bytesPerUserInputSample ?bp"] a r(2) unat_of_nat_word [OF i(1)] by simp
      have "i * sz * block st \<le> channels st * sz * block st" using i(1) by simp
      also have "\<dots> = block st * channels st * sz" by (simp add: ac_simps)
      finally have "i * sz * block st < 2 ^ 32" using r(3) by (rule le_less_trans)
      then have "i * sz * block st < 2 ^ 64" by simp
      then show ?thesis using unat_mul64 [of "ucast (of_nat i * bytesPerUserInputSample ?bp)" "framesPerUserBuffer ?bp"] u
        by (simp add: unat_ucast_up mult_ac)
    qed
    let ?ptrs = "map (\<lambda>i. Some (temp st + unat (ucast (of_nat i * bytesPerUserInputSample ?bp) * framesPerUserBuffer ?bp)))
      [0..<channels st]"
    have "ai_user_input ?bp = Inr (Pointers ?ptrs)"
      using False r(1) by (simp add: ai_user_input_def block_ptrs_def nonnull_def)
    moreover have "heard vd sz (channels st) (Pointers ?ptrs) (framesPerUserBuffer ?bp) h =
        map (temp_frame vd sz (st\<lparr>heap := h\<rparr>)) [0..<block st]" for h
      using False by (auto simp: heard_def temp_frame_def temp_cell_def temp_def place_def ptr add_mult_distrib add.assoc)
    ultimately show ?thesis by blast
  qed
qed

text \<open>
  The fields that neither a conversion nor a callback changes, but for the descriptors of the set in
  use.
\<close>

definition shape :: "'u proc \<Rightarrow> bool \<times> u32 \<times> u32 \<times> u32 \<times> ptr option \<times> u64 \<times> converter option \<times> u64 \<times> u64" where
  "shape st = (let bp = processor st in (userInputIsInterleaved bp, inputChannelCount bp, bytesPerUserInputSample bp,
     bytesPerHostInputSample bp, tempInputBuffer bp, framesPerUserBuffer bp, inputConverter bp, hostInputFrameCount bp))"

lemma shapeD:
  assumes "shape st' = shape st"
  shows "userInputIsInterleaved (processor st') = userInputIsInterleaved (processor st)"
    "inputChannelCount (processor st') = inputChannelCount (processor st)"
    "bytesPerUserInputSample (processor st') = bytesPerUserInputSample (processor st)"
    "bytesPerHostInputSample (processor st') = bytesPerHostInputSample (processor st)"
    "tempInputBuffer (processor st') = tempInputBuffer (processor st)"
    "framesPerUserBuffer (processor st') = framesPerUserBuffer (processor st)"
    "inputConverter (processor st') = inputConverter (processor st)" "temp st' = temp st"
    "hostInputFrameCount (processor st') = hostInputFrameCount (processor st)"
  using assms by (simp_all add: shape_def Let_def temp_def)

lemma temp_heap [simp]: "temp (st\<lparr>heap := h\<rparr>) = temp st"
  by (simp add: temp_def)

lemma temp_cell_shape:
  assumes "shape st' = shape st" and "heap st' = heap st"
  shows "temp_cell sz st' i j = temp_cell sz st i j"
  using shapeD [OF assms(1)] assms(2) by (simp add: temp_cell_def)

lemma temp_ready_shape:
  assumes "shape st' = shape st" and "dom (heap st) \<subseteq> dom (heap st')" and "temp_ready sz st"
  shows "temp_ready sz st'"
  using shapeD [OF assms(1)] assms(2,3) mapped_mono [OF _ assms(2)] by (simp add: temp_ready_def)

text \<open>The delivery of a full block to a callback that listens.\<close>

lemma deliver_input_heard:
  fixes st :: "('u \<times> 'v list list list) proc"
  assumes "harmless H cb" and st': "st' = deliver_input (hearing vd sz n cb) b st"
  shows "shape st' = shape st" and "in_set second (processor st') = in_set second (processor st)" and "waiting st' = 0"
    and "dom (heap st) \<subseteq> dom (heap st')" and "\<forall>x \<in> H. heap st' x = heap st x"
    and "callback_result st \<noteq> paContinue \<Longrightarrow> callback_result st' = callback_result st"
    and "snd (user st') = snd (user st) @
      (if callback_result st = paContinue then [heard vd sz n b (framesPerUserBuffer (processor st)) (heap st)] else [])"
proof -
  let ?st = "st\<lparr>processor := (processor st)\<lparr>outputBufferDacTime := Fin 0\<rparr>\<rparr>"
  define s where "s = call_back (hearing vd sz n cb) b No_buffer (framesPerUserBuffer (processor st)) ?st"
  have h: "dom (heap st) \<subseteq> dom (heap s)" "\<forall>x \<in> H. heap s x = heap st x"
    using assms(1) [unfolded harmless_def, rule_format, of "heap st" b No_buffer "framesPerUserBuffer (processor st)"
        "(inputBufferAdcTime (processor st), Fin 0)" "callbackStatusFlags (processor st)" "fst (user st)"]
    by (auto simp: s_def call_back_def hearing_def Let_def split: prod.splits)
  have s: "processor s = (processor st)\<lparr>outputBufferDacTime := Fin 0\<rparr>"
    "snd (user s) = snd (user st) @ [heard vd sz n b (framesPerUserBuffer (processor st)) (heap st)]"
    by (simp_all add: s_def call_back_def hearing_def Let_def split: prod.splits)
  have eq: "st' = (if callback_result st = paContinue
      then s\<lparr>processor := (processor s)\<lparr>inputBufferAdcTime :=
        plus_f dbl (inputBufferAdcTime (processor s)) (duration (framesPerUserBuffer (processor s)) (processor s)),
        framesInTempInputBuffer := 0\<rparr>\<rparr>
      else st\<lparr>processor := (processor st)\<lparr>framesInTempInputBuffer := 0\<rparr>\<rparr>)"
    unfolding st' deliver_input_def s_def Let_def by simp
  show "shape st' = shape st" "in_set second (processor st') = in_set second (processor st)" "waiting st' = 0"
    "dom (heap st) \<subseteq> dom (heap st')" "\<forall>x \<in> H. heap st' x = heap st x"
    "callback_result st \<noteq> paContinue \<Longrightarrow> callback_result st' = callback_result st"
    "snd (user st') = snd (user st) @
      (if callback_result st = paContinue then [heard vd sz n b (framesPerUserBuffer (processor st)) (heap st)] else [])"
    using h s by (simp_all add: eq shape_def in_set_def Let_def)
qed

section \<open>The host buffers move on\<close>

definition forward :: "nat \<Rightarrow> nat \<Rightarrow> channel_descriptor \<Rightarrow> channel_descriptor" where
  "forward sz k ch = ch\<lparr>data := Some (Some (addr ch + k * gap ch * sz))\<rparr>"

lemma forward_simps [simp]:
  "addr (forward sz k ch) = addr ch + k * gap ch * sz" "gap (forward sz k ch) = gap ch"
  "data (forward sz k ch) = Some (Some (addr ch + k * gap ch * sz))" "stride (forward sz k ch) = stride ch"
  by (simp_all add: forward_def addr_def gap_def)

lemma ch_ready_forward:
  assumes "ch_ready h sz n ch" and "k \<le> n" and "dom h \<subseteq> dom h'"
  shows "ch_ready h' sz (n - k) (forward sz k ch)"
  using assms mapped_mono [OF mapped_tail] by (auto simp: ch_ready_def)

lemma host_cells_mem: "i < channels st \<Longrightarrow> x \<in> cells (addr (in_set second (processor st) ! i)) sn (gap (in_set second (processor st) ! i)) n \<Longrightarrow>
    x \<in> host_cells sn second n st"
  by (auto simp: host_cells_def Let_def)

lemma source_forward:
  assumes src: "source_ready sn dn second n st" and k: "k \<le> n" and shape: "shape st' = shape st"
    and len: "length (in_set second (processor st')) = length (in_set second (processor st))"
    and chans: "\<And>i. i < channels st \<Longrightarrow> in_set second (processor st') ! i = forward sn k (in_set second (processor st) ! i)"
    and same: "\<And>x. x \<in> host_cells sn second n st \<Longrightarrow> heap st' x = heap st x" and dom: "dom (heap st) \<subseteq> dom (heap st')"
  shows "source_ready sn dn second (n - k) st'" and "host_cells sn second (n - k) st' \<subseteq> host_cells sn second n st"
    and "host_frames vs sn second (n - k) st' = drop k (host_frames vs sn second n st)"
proof -
  let ?ch = "\<lambda>i. in_set second (processor st) ! i"
  note sh = shapeD [OF shape]
  have ch: "ch_ready (heap st) sn n (?ch i)" "n * gap (?ch i) * sn < 2 ^ 64"
    "cells (addr (?ch i)) sn (gap (?ch i)) n \<inter> {temp st..<temp st + block st * channels st * dn} = {}" if "i < channels st" for i
    using src that by (simp_all add: source_ready_def Let_def list_all_iff)
  have tail: "cells (addr (?ch i) + k * gap (?ch i) * sn) sn (gap (?ch i)) (n - k) \<subseteq> cells (addr (?ch i)) sn (gap (?ch i)) n" for i
    by (rule cells_tail [OF k])
  show sub: "host_cells sn second (n - k) st' \<subseteq> host_cells sn second n st"
    using tail chans sh by (fastforce simp: host_cells_def Let_def)
  have "(n - k) * gap (?ch i) * sn < 2 ^ 64" if "i < channels st" for i
  proof -
    have "(n - k) * gap (?ch i) * sn \<le> n * gap (?ch i) * sn" by (intro mult_le_mono) simp_all
    then show ?thesis using ch(2) [OF that] by (rule le_less_trans)
  qed
  moreover have "cells (addr (?ch i) + k * gap (?ch i) * sn) sn (gap (?ch i)) (n - k) \<inter>
      {temp st..<temp st + block st * channels st * dn} = {}" if "i < channels st" for i
    using tail [of i] ch(3) [OF that] by blast
  ultimately show "source_ready sn dn second (n - k) st'"
    using src len chans sh ch_ready_forward [OF ch(1) k dom]
    by (simp add: source_ready_def Let_def list_all_iff)
  have "cell (heap st') (addr (?ch i) + k * gap (?ch i) * sn + l * gap (?ch i) * sn) sn =
      cell (heap st) (addr (?ch i) + (k + l) * gap (?ch i) * sn) sn" if i: "i < channels st" and l: "l < n - k" for i l
  proof -
    have "k + l < n" using l by simp
    then have "cell (heap st') (addr (?ch i) + (k + l) * gap (?ch i) * sn) sn = cell (heap st) (addr (?ch i) + (k + l) * gap (?ch i) * sn) sn"
      using host_cells_mem [OF i] by (intro cell_apart [of _ n] same)
    then show ?thesis by (simp add: algebra_simps)
  qed
  then show "host_frames vs sn second (n - k) st' = drop k (host_frames vs sn second n st)"
    using chans sh k by (auto simp: host_frames_def Let_def drop_map drop_upt intro!: nth_equalityI)
qed

context sample_converter
begin

lemma frames_after:
  assumes "\<And>i j. i < channels st \<Longrightarrow> j < waiting st \<Longrightarrow> temp_cell dn (st\<lparr>heap := h\<rparr>) i j = temp_cell dn st i j"
    and "\<And>i l. i < channels st \<Longrightarrow> l < k \<Longrightarrow> vd (temp_cell dn (st\<lparr>heap := h\<rparr>) i (waiting st + l)) =
      vs (cell (heap st) (addr (in_set second (processor st) ! i) + l * gap (in_set second (processor st) ! i) * sn) sn)"
  shows "map (temp_frame vd dn (st\<lparr>heap := h\<rparr>)) [0..<waiting st + k] = waiting_frames vd dn st @ host_frames vs sn second k st"
proof (rule nth_equalityI)
  fix j assume "j < length (map (temp_frame vd dn (st\<lparr>heap := h\<rparr>)) [0..<waiting st + k])"
  then have j: "j < waiting st + k" by simp
  show "map (temp_frame vd dn (st\<lparr>heap := h\<rparr>)) [0..<waiting st + k] ! j = (waiting_frames vd dn st @ host_frames vs sn second k st) ! j"
  proof (cases "j < waiting st")
    case True
    then show ?thesis using j assms(1) by (simp add: waiting_frames_def nth_append temp_frame_def)
  next
    case False
    then obtain l where "j = waiting st + l" "l < k" using j le_Suc_ex by (metis add_less_cancel_left not_less)
    then show ?thesis using assms(2) by (simp add: waiting_frames_def nth_append temp_frame_def host_frames_def Let_def)
  qed
qed (simp add: waiting_frames_def host_frames_def)

text \<open>What holds between the turns; \<open>H\<close> are the addresses that the callback leaves alone.\<close>

definition flowing :: "nat set \<Rightarrow> bool \<Rightarrow> nat \<Rightarrow> 'u proc \<Rightarrow> bool" where
  "flowing H second n st \<longleftrightarrow> temp_ready dn st \<and> source_ready sn dn second n st \<and> inputConverter (processor st) = Some c \<and>
     host_cells sn second n st \<subseteq> H \<and> waiting st < block st \<and> waiting st + n < 2 ^ 64"

lemma ai_turn_flow:
  fixes st :: "('u \<times> 'v list list list) proc"
  assumes flow: "flowing H second (unat n) st" and safe: "harmless H cb"
  defines "k \<equiv> min (block st - waiting st) (unat n)"
  shows "\<exists>st'. ai_turn p (hearing vd dn (channels st) cb) second n st = Inr (st', of_nat k) \<and>
    shape st' = shape st \<and> flowing H second (unat n - k) st' \<and>
    host_frames vs sn second (unat n - k) st' = drop k (host_frames vs sn second (unat n) st) \<and>
    (callback_result st \<noteq> paContinue \<longrightarrow> callback_result st' = callback_result st) \<and>
    (if waiting st + k = block st
     then waiting st' = 0 \<and> snd (user st') = snd (user st) @ (if callback_result st = paContinue
       then [waiting_frames vd dn st @ take k (host_frames vs sn second (unat n) st)] else [])
     else waiting st' = waiting st + k \<and> snd (user st') = snd (user st) \<and> callback_result st' = callback_result st \<and>
       waiting_frames vd dn st' = waiting_frames vd dn st @ take k (host_frames vs sn second (unat n) st))"
proof -
  let ?bp = "processor st" and ?cs = "in_set second (processor st)"
  have t: "temp_ready dn st" and src: "source_ready sn dn second (unat n) st" and conv: "inputConverter ?bp = Some c"
    and H: "host_cells sn second (unat n) st \<subseteq> H" and w: "waiting st < block st" "waiting st + unat n < 2 ^ 64"
    using flow by (simp_all add: flowing_def)
  have kle: "k \<le> unat n" "waiting st + k \<le> block st" using w(1) by (simp_all add: k_def)
  have frames: "unat (ai_frames n ?bp) = k" using ai_frames_unat [OF w] by (simp add: k_def)
  have one: "1 \<le> channels st * dn" "block st * channels st * dn < 2 ^ 32" using t by (simp_all add: temp_ready_def)
  have "block st * 1 \<le> block st * (channels st * dn)" using one(1) by (rule mult_le_mono2)
  also have "\<dots> < 2 ^ 32" using one(2) by (simp only: mult.assoc)
  finally have "k < 2 ^ 32" using kle(2) by linarith
  then have count: "unat (ucast (ai_frames n ?bp) :: u32) = k"
    using frames by (simp add: unsigned_ucast_eq unsigned_take_bit_eq take_bit_nat_eq_self)
  have ch: "channels st \<le> length ?cs" "unat (bytesPerHostInputSample ?bp) = sn" "0 < sn"
    "\<And>i. i < channels st \<Longrightarrow> ch_ready (heap st) sn (unat n) (?cs ! i) \<and> unat n * gap (?cs ! i) * sn < 2 ^ 64 \<and>
      cells (addr (?cs ! i)) sn (gap (?cs ! i)) (unat n) \<inter> {temp st..<temp st + block st * channels st * dn} = {}"
    using src by (simp_all add: source_ready_def Let_def list_all_iff)
  have head: "ch_ready (heap st) sn k (?cs ! i)" if "i < channels st" for i
    using ch(4) [OF that] mapped_head [OF _ kle(1)] by (auto simp: ch_ready_def)
  have small: "k * gap (?cs ! i) * sn < 2 ^ 64" if "i < channels st" for i
  proof -
    have "k * gap (?cs ! i) * sn \<le> unat n * gap (?cs ! i) * sn" using kle(1) by (intro mult_le_mono) simp_all
    then show ?thesis using ch(4) [OF that] by linarith
  qed
  have adv: "advance_long (ai_frames n ?bp) (bytesPerHostInputSample ?bp) (?cs ! i) = Inr (forward sn k (?cs ! i))"
    if "i < channels st" for i
    using advance_long_ready [OF head [OF that], of "ai_frames n ?bp"] small [OF that] frames ch(2,3)
    by (simp add: forward_def)
  have apart: "cells (addr (?cs ! i)) sn (gap (?cs ! i)) k \<inter> {temp st..<temp st + block st * channels st * dn} = {}" if "i < channels st" for i
    using ch(4) [OF that] cells_head [OF kle(1), of "addr (?cs ! i)" sn "gap (?cs ! i)"] by blast
  from fill_input_flow [where st = st and second = second and count = "ucast (ai_frames n ?bp)" and cs = ?cs
      and adv = "advance_long (ai_frames n ?bp) (bytesPerHostInputSample ?bp)" and adv' = "forward sn k",
      unfolded count, OF t conv w(1) kle(2) refl ch(1) head adv apart]
  obtain cs' h where f: "fill_input p second (ucast (ai_frames n ?bp)) (advance_long (ai_frames n ?bp) (bytesPerHostInputSample ?bp)) st =
      Inr (st\<lparr>processor := put_in_set second cs' ?bp, heap := h\<rparr>)"
    "length cs' = length ?cs" "\<forall>i. cs' ! i = (if i < channels st then forward sn k (?cs ! i) else ?cs ! i)"
    "\<forall>i < channels st. \<forall>l < k. vd (temp_cell dn (st\<lparr>heap := h\<rparr>) i (waiting st + l)) =
       vs (cell (heap st) (addr (?cs ! i) + l * gap (?cs ! i) * sn) sn)"
    "\<forall>i < channels st. \<forall>j < waiting st. temp_cell dn (st\<lparr>heap := h\<rparr>) i j = temp_cell dn st i j"
    "\<forall>x. x \<notin> {temp st..<temp st + block st * channels st * dn} \<longrightarrow> h x = heap st x" "dom (heap st) \<subseteq> dom h"
    by blast
  obtain b where b: "ai_user_input ?bp = Inr b"
    "\<And>h. heard vd dn (channels st) b (framesPerUserBuffer ?bp) h = map (temp_frame vd dn (st\<lparr>heap := h\<rparr>)) [0..<block st]"
    using ai_user_input_heard [OF t] by blast
  let ?frames = "waiting_frames vd dn st @ take k (host_frames vs sn second (unat n) st)"
  have "take k (host_frames vs sn second (unat n) st) = host_frames vs sn second k st"
    using kle(1) by (simp add: host_frames_def take_map take_upt)
  then have after: "map (temp_frame vd dn (st\<lparr>heap := h\<rparr>)) [0..<waiting st + k] = ?frames"
    using frames_after [of st h k second] f(4,5) by simp
  define s1 where "s1 = st\<lparr>processor := put_in_set second cs' ?bp, heap := h\<rparr>
    \<lparr>processor := (put_in_set second cs' ?bp)\<lparr>framesInTempInputBuffer := framesInTempInputBuffer ?bp + ai_frames n ?bp\<rparr>\<rparr>"
  have s1: "shape s1 = shape st" "in_set second (processor s1) = cs'" "heap s1 = h" "user s1 = user st"
    "callback_result s1 = callback_result st" "framesPerUserBuffer (processor s1) = framesPerUserBuffer ?bp"
    "framesInTempInputBuffer (processor s1) = framesInTempInputBuffer ?bp + ai_frames n ?bp"
    by (simp_all add: s1_def shape_def put_in_set_def in_set_def Let_def)
  have w1: "waiting s1 = waiting st + k"
    using frames w(2) kle(1) unfolding s1(7) by (subst unat_add_lem [THEN iffD1]) simp_all
  have "ai_turn p (hearing vd dn (channels st) cb) second n st =
      Inr (if framesInTempInputBuffer (processor s1) = framesPerUserBuffer (processor s1)
        then deliver_input (hearing vd dn (channels st) cb) b s1 else s1, ai_frames n ?bp)"
    using f(1) b(1) by (simp add: ai_turn_def Let_def s1_def put_in_set_def)
  moreover have "framesInTempInputBuffer (processor s1) = framesPerUserBuffer (processor s1) \<longleftrightarrow> waiting st + k = block st"
    using w1 s1(6) by (simp add: word_unat_eq_iff)
  moreover have "ai_frames n ?bp = of_nat k" using frames by (auto)
  ultimately have turn: "ai_turn p (hearing vd dn (channels st) cb) second n st =
      Inr (if waiting st + k = block st then deliver_input (hearing vd dn (channels st) cb) b s1 else s1, of_nat k)" by simp
  have untouched: "h x = heap st x" if "x \<in> host_cells sn second (unat n) st" for x
    using that ch(4) f(6) by (fastforce simp: host_cells_def Let_def)
  have go: "flowing H second (unat n - k) st' \<and>
      host_frames vs sn second (unat n - k) st' = drop k (host_frames vs sn second (unat n) st)"
    if "shape st' = shape st" "in_set second (processor st') = cs'" "\<forall>x \<in> H. heap st' x = h x" "dom h \<subseteq> dom (heap st')"
      "waiting st' < block st" "waiting st' + (unat n - k) < 2 ^ 64" for st' :: "('u \<times> 'v list list list) proc"
  proof -
    have dom: "dom (heap st) \<subseteq> dom (heap st')" using f(7) that(4) by (rule subset_trans)
    have same: "heap st' x = heap st x" if "x \<in> host_cells sn second (unat n) st" for x
      using \<open>\<forall>x \<in> H. heap st' x = h x\<close> H untouched [OF that] that by auto
    have "in_set second (processor st') ! i = forward sn k (?cs ! i)" if "i < channels st" for i
      using \<open>in_set second (processor st') = cs'\<close> f(3) that by simp
    note sf = source_forward [OF src kle(1) that(1) _ this same dom]
    have "length (in_set second (processor st')) = length ?cs" using that(2) f(2) by simp
    note sf = sf [OF this]
    show ?thesis using sf(1,3) subset_trans [OF sf(2) H] temp_ready_shape [OF that(1) dom t] conv that(5,6) shapeD [OF that(1)]
      by (simp add: flowing_def)
  qed
  show ?thesis
  proof (cases "waiting st + k = block st")
    case False
    have "waiting_frames vd dn s1 = map (temp_frame vd dn (st\<lparr>heap := h\<rparr>)) [0..<waiting st + k]"
      using w1 s1(1,3) shapeD [OF s1(1)] by (simp add: waiting_frames_def temp_frame_def temp_cell_def)
    moreover have "flowing H second (unat n - k) s1 \<and>
        host_frames vs sn second (unat n - k) s1 = drop k (host_frames vs sn second (unat n) st)"
      using False kle w1 w(2) s1(1,2,3) by (intro go) simp_all
    ultimately show ?thesis using turn False s1 w1 after by (intro exI [of _ s1]) simp
  next
    case True
    define s2 where "s2 = deliver_input (hearing vd dn (channels st) cb) b s1"
    note d = deliver_input_heard [OF safe s2_def]
    have "heard vd dn (channels st) b (framesPerUserBuffer (processor s1)) (heap s1) = ?frames"
      using b(2) after True s1(3,6) by simp
    moreover have "flowing H second (unat n - k) s2 \<and>
        host_frames vs sn second (unat n - k) s2 = drop k (host_frames vs sn second (unat n) st)"
      using d(1-5) s1(1-3) w by (intro go) simp_all
    ultimately show ?thesis using turn True s1 d s2_def by (intro exI [of _ s2]) simp
  qed
qed

text \<open>The whole loop, by induction on the frames to go.\<close>

lemma ai_loop_flow:
  fixes st :: "('u \<times> 'v list list list) proc"
  assumes "flowing H second (unat n) st" and "harmless H cb"
  shows "\<exists>st' blocks. ai_loop p (hearing vd dn (channels st) cb) second n m st = Some (Inr (m + n, st')) \<and>
    snd (user st') = snd (user st) @ blocks \<and> (\<forall>b \<in> set blocks. length b = block st) \<and>
    waiting st' = (waiting st + unat n) mod block st \<and> shape st' = shape st \<and>
    prefix (concat blocks) (waiting_frames vd dn st @ host_frames vs sn second (unat n) st) \<and>
    (callback_result st \<noteq> paContinue \<longrightarrow> blocks = [] \<and> callback_result st' \<noteq> paContinue) \<and>
    (callback_result st' = paContinue \<longrightarrow>
      concat blocks @ waiting_frames vd dn st' = waiting_frames vd dn st @ host_frames vs sn second (unat n) st)"
  using assms(1)
proof (induction "unat n" arbitrary: n m st rule: less_induct)
  case less
  let ?k = "min (block st - waiting st) (unat n)" and ?host = "host_frames vs sn second (unat n) st"
  have w: "waiting st < block st" "waiting st + unat n < 2 ^ 64" using less.prems by (simp_all add: flowing_def)
  from ai_turn_flow [OF less.prems assms(2)] obtain st1 where
    t: "ai_turn p (hearing vd dn (channels st) cb) second n st = Inr (st1, of_nat ?k)"
    and sh: "shape st1 = shape st" and fl: "flowing H second (unat n - ?k) st1"
    and rest: "host_frames vs sn second (unat n - ?k) st1 = drop ?k ?host"
    and stop: "callback_result st \<noteq> paContinue \<longrightarrow> callback_result st1 = callback_result st"
    and res: "if waiting st + ?k = block st
     then waiting st1 = 0 \<and> snd (user st1) = snd (user st) @ (if callback_result st = paContinue
       then [waiting_frames vd dn st @ take ?k ?host] else [])
     else waiting st1 = waiting st + ?k \<and> snd (user st1) = snd (user st) \<and> callback_result st1 = callback_result st \<and>
       waiting_frames vd dn st1 = waiting_frames vd dn st @ take ?k ?host" by blast
  note same = shapeD [OF sh]
  have len: "length ?host = unat n" "length (waiting_frames vd dn st) = waiting st"
    by (simp_all add: host_frames_def waiting_frames_def)
  have k: "unat (of_nat ?k :: u64) = ?k" "of_nat ?k \<le> n"
  proof -
    show u: "unat (of_nat ?k :: u64) = ?k" by (rule unat_of_nat64) (use w(2) in simp)
    show "of_nat ?k \<le> n" unfolding word_le_nat_alt u by simp
  qed
  then have left: "unat (n - of_nat ?k) = unat n - ?k" by (simp add: unat_sub)
  show ?case
  proof (cases "n - of_nat ?k > 0")
    case False
    then have all: "?k = unat n" using left k by (simp add: word_gt_0)
    then have last: "of_nat ?k = n" by simp
    then have run: "ai_loop p (hearing vd dn (channels st) cb) second n m st = Some (Inr (m + n, st1))"
      using t by (subst ai_loop.simps) simp
    have host: "take ?k ?host = ?host" using all len(1) by simp
    show ?thesis
    proof (cases "waiting st + ?k = block st")
      case full: True
      let ?blocks = "if callback_result st = paContinue then [waiting_frames vd dn st @ ?host] else []"
      have "(waiting st + unat n) mod block st = 0" "waiting_frames vd dn st1 = []" "waiting st1 = 0"
        using full all res by (simp_all add: waiting_frames_def)
      moreover have "\<forall>b \<in> set ?blocks. length b = block st" using len full all by simp
      moreover have "snd (user st1) = snd (user st) @ ?blocks" using res full host by simp
      ultimately show ?thesis using run stop sh by (intro exI [of _ st1] exI [of _ ?blocks]) simp
    next
      case part: False
      then have "waiting st + unat n < block st" using w(1) all by linarith
      then show ?thesis using run res part host all stop sh
        by (intro exI [of _ st1] exI [of _ "[]"]) simp
    qed
  next
    case True
    then have "0 < unat n - ?k" using left by (simp add: word_less_nat_alt)
    then have full: "waiting st + ?k = block st" "?k < unat n" using w(1) by linarith+
    let ?b = "if callback_result st = paContinue then [waiting_frames vd dn st @ take ?k ?host] else []"
    have one: "waiting st1 = 0" "snd (user st1) = snd (user st) @ ?b" using res full(1) by simp_all
    then have none: "waiting_frames vd dn st1 = []" by (simp add: waiting_frames_def)
    have "unat (n - of_nat ?k) < unat n" using left full w(1) by linarith
    from less.hyps [OF this, of st1 "m + of_nat ?k"] fl obtain st' blocks where
      r: "ai_loop p (hearing vd dn (channels st1) cb) second (n - of_nat ?k) (m + of_nat ?k) st1 =
          Some (Inr (m + of_nat ?k + (n - of_nat ?k), st'))"
      "snd (user st') = snd (user st1) @ blocks" "\<forall>b \<in> set blocks. length b = block st1"
      "waiting st' = (waiting st1 + (unat n - ?k)) mod block st1" and sh': "shape st' = shape st1"
      and r': "prefix (concat blocks) (waiting_frames vd dn st1 @ host_frames vs sn second (unat n - ?k) st1)"
      "callback_result st1 \<noteq> paContinue \<longrightarrow> blocks = [] \<and> callback_result st' \<noteq> paContinue"
      "callback_result st' = paContinue \<longrightarrow>
        concat blocks @ waiting_frames vd dn st' = waiting_frames vd dn st1 @ host_frames vs sn second (unat n - ?k) st1"
      unfolding left by metis
    have "m + of_nat ?k + (n - of_nat ?k) = m + n" by simp
    then have run: "ai_loop p (hearing vd dn (channels st) cb) second n m st = Some (Inr (m + n, st'))"
      using t True r(1) same by (subst ai_loop.simps) simp
    have cut: "take ?k ?host @ drop ?k ?host = ?host" by simp
    have "waiting st + unat n = (unat n - ?k) + block st" using full by linarith
    then have "(waiting st + unat n) mod block st = (unat n - ?k) mod block st" by (simp only: mod_add_self2)
    moreover have "waiting st' = (unat n - ?k) mod block st" using r(4) unfolding one(1) same add_0 .
    ultimately have mod: "waiting st' = (waiting st + unat n) mod block st" by simp
    have blk: "\<forall>b \<in> set (?b @ blocks). length b = block st" using r(3) same len full by auto
    have log: "snd (user st') = snd (user st) @ (?b @ blocks)" using r(2) one(2) by simp
    show ?thesis
    proof (cases "callback_result st = paContinue")
      case cont: True
      have glue: "waiting_frames vd dn st @ ?host = concat (?b @ blocks) @ zs" if d: "drop ?k ?host = concat blocks @ zs" for zs
      proof -
        have "?host = take ?k ?host @ concat blocks @ zs" using cut unfolding d by (rule sym)
        then have "waiting_frames vd dn st @ ?host = waiting_frames vd dn st @ take ?k ?host @ concat blocks @ zs" by (rule arg_cong)
        then show ?thesis using cont by simp
      qed
      have "prefix (concat blocks) (drop ?k ?host)"
        "callback_result st' = paContinue \<longrightarrow> drop ?k ?host = concat blocks @ waiting_frames vd dn st'"
        using r'(1,3) none rest by simp_all
      then have "prefix (concat (?b @ blocks)) (waiting_frames vd dn st @ ?host)"
        "callback_result st' = paContinue \<longrightarrow> concat (?b @ blocks) @ waiting_frames vd dn st' = waiting_frames vd dn st @ ?host"
        unfolding prefix_def using glue by metis+
      then show ?thesis using run log blk mod cont sh sh' by (intro exI [of _ st'] exI [of _ "?b @ blocks"]) simp
    next
      case stopped: False
      then have "blocks = []" "callback_result st' \<noteq> paContinue" using r'(2) stop by simp_all
      then show ?thesis using run log blk mod stopped sh sh' by (intro exI [of _ st'] exI [of _ "[]"]) simp
    qed
  qed
qed

end

section \<open>The stream of an integer format\<close>

text \<open>
  The converters between integer formats keep the contract of the buffer processor: a sample is
  known by its leading bits.
\<close>

lemma integer_converter:
  assumes "PaUtil_SelectConverter sf df flags = Some c" and "select_format sf = Some s" and "select_format df = Some d"
    and "s \<noteq> Float32" and "d \<noteq> Float32" and "flags AND paDitherOff \<noteq> 0"
  shows "sample_converter p c (sample_bytes s) (sample_bytes d) (\<lambda>x. keep (sample_bits d) (leading p s x)) (leading p d)"
proof -
  have c: "c = select_converter s d (flags AND paDitherOff = 0) (flags AND paClipOff = 0)"
    using assms(1-3) by (simp add: PaUtil_SelectConverter_def)
  obtain conv where conv: "paConverters c = Some conv" "converts conv s d"
    using selected_integer [OF assms(4-6)] c by (auto simp: selected_def)
  show ?thesis
  proof
    show "converter_sizes c = (sample_bytes s, sample_bytes d)"
      unfolding c using assms(4,5) by (cases s; cases d) (simp_all add: sample_bytes_def)
    show "paConverters c \<noteq> None" using conv(1) by simp
  next
    fix conv' dst b src a n g
    assume "paConverters c = Some conv'" "1 \<le> b" "strides_fit src 0 (sample_bytes s) a n" "strides_fit dst 0 (sample_bytes d) b n"
    then show "\<exists>dst'. conv' p dst (int b) src (int a) n g = Inr (dst', g) \<and> length dst' = length dst \<and>
        (\<forall>k < n. leading p d (slice (k * b * sample_bytes d) (sample_bytes d) dst') =
          keep (sample_bits d) (leading p s (slice (k * a * sample_bytes s) (sample_bytes s) src))) \<and>
        (\<forall>j < length dst. \<not> on_samples 0 (sample_bytes d) b n j \<longrightarrow> dst' ! j = dst ! j)"
      using converts_run [OF conv(2)] conv(1) by simp
  qed
qed

interpretation int16_to_int24: sample_converter p "Convert Int16 Int24 False False" "sample_bytes Int16" "sample_bytes Int24"
  "\<lambda>x. keep (sample_bits Int24) (leading p Int16 x)" "leading p Int24" for p
  by (rule integer_converter [of paInt16 paInt24 "paDitherOff OR paClipOff"])
    (simp_all add: PaUtil_SelectConverter_def select_format_def)

text \<open>
  (C5) An input stream of an integer format, without dither, whose host buffers and user blocks have
  different lengths: the call that ends the processing of a host buffer takes all of it, and gives
  the callback blocks of exactly the length it asked for. The frames of these blocks and those that
  wait for the next call are the frames that waited before and those of the host, converted, in
  their order. Once the callback has finished the rest is dropped.
\<close>

theorem input_stream_delivered:
  fixes st :: "('u \<times> i32 list list list) proc"
  assumes "PaUtil_SelectConverter sf df flags = inputConverter (processor st)" and "inputConverter (processor st) \<noteq> None"
    and "select_format sf = Some s" and "select_format df = Some d"
    and "s \<noteq> Float32" and "d \<noteq> Float32" and "flags AND paDitherOff \<noteq> 0"
    and "\<not> useNonAdaptingProcess (processor st)" and "outputChannelCount (processor st) = 0"
    and "hostInputFrameCount (processor st) = (n, 0)" and "callback_result st \<in> {paContinue, paComplete, paAbort}"
    and "temp_ready (sample_bytes d) st" and "source_ready (sample_bytes s) (sample_bytes d) False (unat n) st"
    and "waiting st < block st" and "waiting st + unat n < 2 ^ 64"
    and "harmless (host_cells (sample_bytes s) False (unat n) st) cb"
  shows "\<exists>st' blocks. PaUtil_EndBufferProcessing p (hearing (leading p d) (sample_bytes d) (channels st) cb) st = Some (Inr (n, st')) \<and>
    snd (user st') = snd (user st) @ blocks \<and> (\<forall>b \<in> set blocks. length b = block st) \<and>
    waiting st' = (waiting st + unat n) mod block st \<and>
    prefix (concat blocks) (waiting_frames (leading p d) (sample_bytes d) st @
      host_frames (\<lambda>x. keep (sample_bits d) (leading p s x)) (sample_bytes s) False (unat n) st) \<and>
    (callback_result st' = paContinue \<longrightarrow> concat blocks @ waiting_frames (leading p d) (sample_bytes d) st' =
      waiting_frames (leading p d) (sample_bytes d) st @
      host_frames (\<lambda>x. keep (sample_bits d) (leading p s x)) (sample_bytes s) False (unat n) st)"
proof -
  obtain c where c: "inputConverter (processor st) = Some c" using assms(2) by blast
  note conv = integer_converter [OF assms(1) [unfolded c] assms(3-7), of p]
  have "sample_converter.flowing c (sample_bytes s) (sample_bytes d) (host_cells (sample_bytes s) False (unat n) st) False (unat n) st"
    using assms(12-15) c by (simp add: sample_converter.flowing_def [OF conv])
  from sample_converter.ai_loop_flow [OF conv this assms(16), of 0] obtain st' blocks where
    r: "ai_loop p (hearing (leading p d) (sample_bytes d) (channels st) cb) False n 0 st = Some (Inr (n, st'))"
    and rest: "snd (user st') = snd (user st) @ blocks" "\<forall>b \<in> set blocks. length b = block st"
      "waiting st' = (waiting st + unat n) mod block st"
      "prefix (concat blocks) (waiting_frames (leading p d) (sample_bytes d) st @
        host_frames (\<lambda>x. keep (sample_bits d) (leading p s x)) (sample_bytes s) False (unat n) st)"
      "callback_result st' = paContinue \<longrightarrow> concat blocks @ waiting_frames (leading p d) (sample_bytes d) st' =
        waiting_frames (leading p d) (sample_bytes d) st @
        host_frames (\<lambda>x. keep (sample_bits d) (leading p s x)) (sample_bytes s) False (unat n) st"
    and sh: "shape st' = shape st" by auto
  have input: "inputChannelCount (processor st) \<noteq> 0" using assms(12) by (auto simp: temp_ready_def)
  then have "ep_asserts st = Inr ()" using assms(9,11) by (auto simp: ep_asserts_def Let_def check_def)
  moreover have "in_count True (processor st') = 0" using shapeD [OF sh] assms(10) by (simp add: in_count_def)
  moreover have "in_count False (processor st) = n" using assms(10) by (simp add: in_count_def)
  ultimately have "PaUtil_EndBufferProcessing p (hearing (leading p d) (sample_bytes d) (channels st) cb) st = Some (Inr (n, st'))"
    using input assms(8,9) r
    by (simp add: PaUtil_EndBufferProcessing_def both_sets_def AdaptingInputOnlyProcess_def Let_def)
  then show ?thesis using rest by blast
qed

text \<open>Three frames of the host, and blocks of two: one goes to the callback, one frame waits.\<close>

theorem input_stream_delivered_witness:
  "\<forall>p. let st = \<lparr>processor = mono16\<lparr>outputChannelCount := 0\<rparr>, heap = whole_memory, user = ((), []), callback_result = paContinue\<rparr> in
     \<exists>st' blocks. PaUtil_EndBufferProcessing p (hearing (leading p Int16) 2 1 idle_callback) st = Some (Inr (3, st')) \<and>
       snd (user st') = blocks \<and> (\<forall>b \<in> set blocks. length b = 2) \<and> waiting st' = 1 \<and>
       (callback_result st' = paContinue \<longrightarrow> concat blocks @ waiting_frames (leading p Int16) 2 st' =
         host_frames (\<lambda>x. keep 16 (leading p Int16 x)) 2 False 3 st)"
proof (intro allI)
  fix p
  let ?st = "\<lparr>processor = mono16\<lparr>outputChannelCount := 0\<rparr>, heap = whole_memory, user = ((), []), callback_result = paContinue\<rparr>"
  have m: "mapped whole_memory a n" for a n by (simp add: mapped_def whole_memory_def list_all_iff)
  have t: "temp_ready 2 ?st" by (simp add: temp_ready_def mono16_def m)
  have s: "source_ready 2 2 False 3 ?st"
    by (auto simp: source_ready_def mono16_def in_set_def ch_ready_def addr_def gap_def m cells_def temp_def)
  have h: "harmless H idle_callback" for H :: "nat set" by (simp add: harmless_def idle_callback_def)
  have none: "waiting_frames (leading p Int16) 2 ?st = []" by (simp add: waiting_frames_def mono16_def)
  have at: "sample_bytes Int16 = 2" "sample_bits Int16 = 16" "unat (3 :: u64) = 3" "waiting ?st = 0" "block ?st = 2" "channels ?st = 1"
    by (simp_all add: sample_bytes_def mono16_def)
  have f: "PaUtil_SelectConverter paInt16 paInt16 paDitherOff = inputConverter (processor ?st)"
    "inputConverter (processor ?st) \<noteq> None" "select_format paInt16 = Some Int16" "paDitherOff AND paDitherOff \<noteq> 0"
    "\<not> useNonAdaptingProcess (processor ?st)" "outputChannelCount (processor ?st) = 0"
    "hostInputFrameCount (processor ?st) = (3, 0)" "callback_result ?st \<in> {paContinue, paComplete, paAbort}"
    by (simp_all add: mono16_def PaUtil_SelectConverter_def select_format_def)
  from input_stream_delivered [where st = ?st and p = p, OF f(1,2,3,3) _ _ f(4-8), unfolded at, OF _ _ t s _ _ h]
  show "let st = ?st in \<exists>st' blocks. PaUtil_EndBufferProcessing p (hearing (leading p Int16) 2 1 idle_callback) st = Some (Inr (3, st')) \<and>
       snd (user st') = blocks \<and> (\<forall>b \<in> set blocks. length b = 2) \<and> waiting st' = 1 \<and>
       (callback_result st' = paContinue \<longrightarrow> concat blocks @ waiting_frames (leading p Int16) 2 st' =
         host_frames (\<lambda>x. keep 16 (leading p Int16 x)) 2 False 3 st)"
    by (simp add: none Let_def) blast
qed

end
