(* ===== verification/PaAdaptDuplex.thy ===== *)
theory PaAdaptDuplex
  imports PaAdaptFrames
begin

text \<open>
  Full-duplex block adaption (\<open>src/external/portaudio/src/common/pa_process.c\<close>, lines 1289 to 1481):
  the loop of \<open>AdaptingProcess\<close> ends, takes all the input and fills all the output, and keeps the
  latency: what waits on both sides is one block of the user.
\<close>

section \<open>The call of the callback\<close>

lemma ad_call_cases:
  fixes st :: "('u \<times> u64 list) proc"
  assumes "ad_call (recorded cb) st = Inr st'"
  obtains (partial) "\<not> (waiting st = block st \<and> pending st = 0)" "st' = st"
  | (call) "waiting st = block st" "pending st = 0" "callback_result st = paContinue"
      "framesPerUserBuffer (processor st') = framesPerUserBuffer (processor st)"
      "hostInputFrameCount (processor st') = hostInputFrameCount (processor st)"
      "hostOutputFrameCount (processor st') = hostOutputFrameCount (processor st)"
      "snd (user st') = snd (user st) @ [framesPerUserBuffer (processor st)]"
      "waiting st' = 0" "pending st' = (if callback_result st' = paAbort then 0 else block st)"
  | (discard) "waiting st = block st" "pending st = 0" "callback_result st \<noteq> paContinue"
      "st' = st\<lparr>processor := (processor st)\<lparr>framesInTempInputBuffer := 0\<rparr>\<rparr>"
proof (cases "waiting st = block st \<and> pending st = 0")
  case False
  then have "\<not> (framesInTempInputBuffer (processor st) = framesPerUserBuffer (processor st) \<and>
      framesInTempOutputBuffer (processor st) = 0)" by auto
  then have "st' = st" using assms unfolding ad_call_def Let_def by (simp split: if_splits)
  then show ?thesis using partial False by simp
next
  case True
  then have full: "framesInTempInputBuffer (processor st) = framesPerUserBuffer (processor st)"
    "framesInTempOutputBuffer (processor st) = 0" by (simp_all add: word_unat_eq_iff)
  show ?thesis
  proof (cases "callback_result st = paContinue")
    case False
    then show ?thesis using assms full discard True by (simp add: ad_call_def Let_def)
  next
    case cont: True
    obtain u v where uv: "user_input (processor st) = Inr u" "user_output (processor st) = Inr v"
      using assms full cont by (auto simp: ad_call_def Let_def)
    define st1 where "st1 = call_back (recorded cb) u v (framesPerUserBuffer (processor st)) st"
    have "st' = st1\<lparr>processor := (advance_times (framesPerUserBuffer (processor st)) (processor st1))\<lparr>framesInTempInputBuffer := 0,
        framesInTempOutputBuffer := (if callback_result st1 = paAbort then 0
          else framesPerUserBuffer (advance_times (framesPerUserBuffer (processor st)) (processor st1)))\<rparr>\<rparr>"
      using assms full cont uv unfolding st1_def by (simp add: ad_call_def Let_def split del: if_split)
    moreover have "processor st1 = processor st" "snd (user st1) = snd (user st) @ [framesPerUserBuffer (processor st)]"
      by (simp_all add: st1_def call_back_recorded)
    ultimately show ?thesis using True cont by (intro call) (simp_all add: advance_times_def)
  qed
qed

section \<open>The loop\<close>

text \<open>
  While the callback runs, the frames that wait on both sides and the input to come are \<open>l\<close> more than
  the room that is left, where \<open>l\<close> is the latency. It is a block of the user, or less than that by the
  greatest number \<open>g\<close> that divides all the lengths in question. Once the callback has finished, and its
  last block has gone out, only silence is left; if it aborts at the end of the input, the room that
  the latency falls short of a block is not silenced.
\<close>

definition balanced :: "nat \<Rightarrow> 'u proc \<Rightarrow> bool" where
  "balanced l st \<longleftrightarrow> waiting st + pending st + ins st = l + outs st \<and> (ins st = 0 \<longrightarrow> outs st = 0) \<or>
     pending st = 0 \<and> callback_result st \<noteq> paContinue \<and>
       (ins st = 0 \<longrightarrow> outs st = 0 \<or> callback_result st = paAbort \<and> l + outs st = block st)"

definition divides :: "nat \<Rightarrow> 'u proc \<Rightarrow> bool" where
  "divides g st \<longleftrightarrow> g dvd block st \<and> g dvd waiting st \<and> g dvd pending st \<and> g dvd ins st \<and> g dvd outs st"

definition duplex_ok :: "nat \<Rightarrow> nat \<Rightarrow> 'u proc \<Rightarrow> bool" where
  "duplex_ok g l st \<longleftrightarrow> 0 < block st \<and> block st < 2 ^ 32 \<and> waiting st \<le> block st \<and> pending st \<le> block st \<and>
     ins st < 2 ^ 32 \<and> outs st < 2 ^ 32 \<and> balanced l st \<and> divides g st \<and> l \<le> block st \<and> block st \<le> l + g"

text \<open>What the loop has done to get from one state to another: \<open>c\<close> blocks went to the callback.\<close>

definition duplex_step :: "('u \<times> u64 list) proc \<Rightarrow> ('u \<times> u64 list) proc \<Rightarrow> bool" where
  "duplex_step st st' \<longleftrightarrow> framesPerUserBuffer (processor st') = framesPerUserBuffer (processor st) \<and> ins st' \<le> ins st \<and>
     (\<exists>c. snd (user st') = snd (user st) @ replicate c (framesPerUserBuffer (processor st)) \<and>
       (callback_result st \<noteq> paContinue \<longrightarrow> c = 0) \<and>
       (callback_result st' = paContinue \<longrightarrow>
         callback_result st = paContinue \<and> waiting st' + c * block st + ins st' = waiting st + ins st))"

lemma duplex_step_refl: "duplex_step st st"
  by (auto simp: duplex_step_def intro!: exI [of _ 0])

lemma duplex_step_trans:
  assumes "duplex_step st st1" and "duplex_step st1 st'"
  shows "duplex_step st st'"
proof -
  let ?B = "framesPerUserBuffer (processor st)"
  have B: "framesPerUserBuffer (processor st1) = ?B" using assms(1) by (simp add: duplex_step_def)
  obtain c where c: "snd (user st1) = snd (user st) @ replicate c ?B" "callback_result st \<noteq> paContinue \<longrightarrow> c = 0"
    "callback_result st1 = paContinue \<longrightarrow> callback_result st = paContinue \<and> waiting st1 + c * block st + ins st1 = waiting st + ins st"
    using assms(1) unfolding duplex_step_def by blast
  obtain d where d: "snd (user st') = snd (user st1) @ replicate d ?B" "callback_result st1 \<noteq> paContinue \<longrightarrow> d = 0"
    "callback_result st' = paContinue \<longrightarrow> callback_result st1 = paContinue \<and> waiting st' + d * block st + ins st' = waiting st1 + ins st1"
    using assms(2) unfolding duplex_step_def B by blast
  have "callback_result st' = paContinue \<longrightarrow> waiting st' + (c + d) * block st + ins st' = waiting st + ins st"
    using c(3) d(3) by (auto simp: distrib_right)
  moreover have "snd (user st') = snd (user st) @ replicate (c + d) ?B" using c(1) d(1) by (simp add: replicate_add)
  moreover have "callback_result st \<noteq> paContinue \<longrightarrow> c + d = 0" using c(2,3) d(2) by auto
  moreover have "framesPerUserBuffer (processor st') = ?B" "ins st' \<le> ins st"
    using assms by (auto simp: duplex_step_def)
  ultimately show ?thesis using c(3) d(3) unfolding duplex_step_def by blast
qed

definition measure_of :: "'u proc \<Rightarrow> nat" where
  "measure_of st = 2 * ins st + (if waiting st = block st then 1 else 0)"

lemma duplex_turn:
  fixes st :: "('u \<times> u64 list) proc"
  assumes ok: "duplex_ok g l st" and idle: "pending st = 0 \<or> outs st = 0" and "0 < ins st"
    and silence: "ad_silence st = Inr s1" and fill: "filled s1 s2 k" "waiting s2 \<le> block s1" "waiting s2 = block s1 \<or> ins s2 = 0"
    and call: "ad_call (recorded cb) s2 = Inr s3" and copy: "copied s3 s4" "pending s4 = 0 \<or> outs s4 = 0"
  shows "duplex_ok g l s4" and "measure_of s4 < measure_of st" and "duplex_step st s4"
proof -
  have o: "outs st < 2 ^ 32" "0 < block st" "pending st \<le> block st" using ok by (simp_all add: duplex_ok_def)
  note s = ad_silence_frames [OF silence o(1)]
  have s1: "framesPerUserBuffer (processor s1) = framesPerUserBuffer (processor st)" "waiting s1 = waiting st"
    "pending s1 = pending st" "ins s1 = ins st" "user s1 = user st" "callback_result s1 = callback_result st"
    using s(1) by (simp_all add: silenced_def ins_def in_count_def)
  have s2: "framesPerUserBuffer (processor s2) = framesPerUserBuffer (processor st)" "waiting s2 = waiting st + k"
    "pending s2 = pending st" "ins s2 + k = ins st" "outs s2 = outs s1" "user s2 = user st" "callback_result s2 = callback_result st"
    using fill(1) s1 by (simp_all add: filled_def outs_def out_count_def)
  have out1: "outs s1 = (if pending st = 0 \<and> callback_result st \<noteq> paContinue then 0 else outs st)"
    using s(2,3) by auto
  obtain c where c: "pending s4 + c = pending s3" "outs s4 + c = outs s3" using copy(1) by (auto simp: copied_def)
  have s4: "framesPerUserBuffer (processor s4) = framesPerUserBuffer (processor s3)" "waiting s4 = waiting s3"
    "ins s4 = ins s3" "user s4 = user s3" "callback_result s4 = callback_result s3"
    using copy(1) by (simp_all add: copied_def ins_def in_count_def)
  have bal: "balanced l st" "waiting st \<le> block st" "l \<le> block st" "block st \<le> l + g"
    and dv: "g dvd block st" "g dvd waiting st" "g dvd pending st" "g dvd ins st" "g dvd outs st"
    using ok by (simp_all add: duplex_ok_def divides_def)
  from call have "framesPerUserBuffer (processor s3) = framesPerUserBuffer (processor st) \<and> ins s3 = ins s2 \<and> outs s3 = outs s2 \<and>
    (\<not> (waiting s2 = block st \<and> pending st = 0) \<and> waiting s3 = waiting s2 \<and> pending s3 = pending st \<and>
       user s3 = user st \<and> callback_result s3 = callback_result st \<or>
     waiting s2 = block st \<and> pending st = 0 \<and> waiting s3 = 0 \<and>
      (if callback_result st = paContinue
       then snd (user s3) = snd (user st) @ [framesPerUserBuffer (processor st)] \<and>
         pending s3 = (if callback_result s3 = paAbort then 0 else block st)
       else user s3 = user st \<and> callback_result s3 = callback_result st \<and> pending s3 = 0))"
    by (cases rule: ad_call_cases) (use s2 in \<open>simp_all add: ins_def outs_def in_count_def out_count_def\<close>)
  note s3 = this
  have log: "snd (user s3) = snd (user st) @ replicate c (framesPerUserBuffer (processor st)) \<Longrightarrow>
      callback_result st = paContinue \<or> c = 0 \<Longrightarrow>
      callback_result s3 = paContinue \<longrightarrow> callback_result st = paContinue \<and> waiting s3 + c * block st + ins s3 = waiting st + ins st \<Longrightarrow>
      duplex_step st s4" for c
    unfolding duplex_step_def using s4 s3 s2(4) by (intro conjI exI [of _ c]) auto
  have "balanced l s4 \<and> measure_of s4 < measure_of st \<and> duplex_step st s4"
  proof (cases "pending st = 0 \<and> callback_result st \<noteq> paContinue")
    case True
    then have "outs s4 = 0" "pending s4 = 0" "callback_result s4 \<noteq> paContinue"
      using s3 s4 s2 out1 c by auto
    moreover have "measure_of s4 < measure_of st"
    proof (cases "k = 0")
      case True
      then have "waiting s2 = block st" using fill(3) s1 s2 assms(3) by auto
      then have "waiting s4 = 0" using s3 s4 \<open>pending st = 0 \<and> _\<close> by auto
      then show ?thesis using o(2) s2 s3 s4 True \<open>waiting s2 = block st\<close> by (simp add: measure_of_def)
    next
      case False
      then show ?thesis using s2(4) s3 s4(3) by (simp add: measure_of_def)
    qed
    ultimately show ?thesis using log [of 0] s3 True by (auto simp: balanced_def)
  next
    case False
    then have sum: "waiting st + pending st + ins st = l + outs st" using bal(1) by (auto simp: balanced_def)
    have out3: "outs s3 = outs st" using False out1 s2(5) s3 by auto
    show ?thesis
    proof (cases "waiting s2 = block st \<and> pending st = 0")
      case nocall: False
      then have n: "waiting s3 = waiting s2" "pending s3 = pending st" "user s3 = user st" "callback_result s3 = callback_result st"
        using s3 by blast+
      have "0 < k" using nocall fill(3) s1(1) s2(2,4) sum idle assms(3) bal(3) by (cases "k = 0") auto
      then have "measure_of s4 < measure_of st" using s2(4) s3 s4(3) by (simp add: measure_of_def)
      moreover have "outs s4 = 0" if "ins s4 = 0"
      proof (cases "pending st = 0")
        case True
        then have w: "waiting s2 < block st" "waiting s2 = l + outs st"
          using nocall fill(2) s1(1) s2(2,4) sum that s3 s4(3) by auto
        then have "outs st < g" using bal(4) by linarith
        then have "outs st = 0" using dv(5) by (meson dvd_imp_le not_le neq0_conv)
        then show ?thesis using c(2) out3 by simp
      next
        case False
        then show ?thesis using idle c(2) out3 by simp
      qed
      ultimately show ?thesis using log [of 0] sum c n s2(2,4) s3 s4 out3 by (simp add: balanced_def)
    next
      case full: True
      then have cont: "callback_result st = paContinue" using False by simp
      then have n: "waiting s3 = 0" "snd (user s3) = snd (user st) @ [framesPerUserBuffer (processor st)]"
        "pending s3 = (if callback_result s3 = paAbort then 0 else block st)" using s3 full by auto
      have r: "l + outs st = block st + ins s2" "waiting st + k = block st" using sum full s2(2,4) by linarith+
      have "measure_of s4 < measure_of st"
        using r(2) s2(4) s3 s4 n(1) o(2) by (cases "k = 0") (simp_all add: measure_of_def)
      moreover have "balanced l s4"
      proof (cases "callback_result s3 = paAbort")
        case True
        then show ?thesis using c n s3 s4 out3 r by (simp add: balanced_def)
      next
        case False
        have "outs s4 = 0" if "ins s4 = 0"
        proof -
          have "g \<le> block st" using dv(1) o(2) by (rule dvd_imp_le)
          then have "outs st \<le> block st" using r(1) that s3 s4(3) bal(3,4) by simp
          then show ?thesis using copy(2) c n(3) False out3 by auto
        qed
        then show ?thesis using False c n s3 s4 out3 r by (simp add: balanced_def)
      qed
      moreover have "duplex_step st s4" using log [of 1] n cont r(2) s2(4) s3 by simp
      ultimately show ?thesis by simp
    qed
  qed
  then show "measure_of s4 < measure_of st" "duplex_step st s4" by simp_all
  have "waiting s3 \<le> block st" "pending s3 \<le> block st" using s3 s1(1) fill(2) o(3) by (auto split: if_splits)
  moreover have "outs s3 \<le> outs st" using out1 s2(5) s3 by auto
  moreover have "divides g s4"
  proof -
    have "waiting st + k = block st \<or> k = ins st" using fill(3) s1(1) s2(2,4) by auto
    then have k: "g dvd k"
      using dv(1,2,4) by (metis dvd_add_right_iff)
    then have "g dvd ins s2" using s2(4) dv(4) by (metis dvd_add_left_iff)
    then have "g dvd waiting s3" "g dvd ins s3" using s3 s2(2) k dv by auto
    moreover have p: "g dvd pending s3" "g dvd outs s3" using s3 dv out1 s2(5) by (auto split: if_splits)
    moreover have "c = pending s3 \<or> c = outs s3" using copy(2) c by auto
    then have "g dvd c" using p by auto
    then have "g dvd pending s4" "g dvd outs s4" using p c by (metis dvd_add_left_iff)+
    ultimately show ?thesis using s3 s4 dv(1) by (simp add: divides_def)
  qed
  ultimately show "duplex_ok g l s4" using \<open>balanced l s4 \<and> _\<close> ok s2(4) s3 s4 c by (simp add: duplex_ok_def)
qed

definition duplex_done :: "nat \<Rightarrow> nat \<Rightarrow> ('u \<times> u64 list) proc \<Rightarrow> ('u \<times> u64 list) proc \<Rightarrow> bool" where
  "duplex_done g l st st' \<longleftrightarrow> duplex_ok g l st' \<and> duplex_step st st' \<and> ins st' = 0"

lemma duplex_exit:
  assumes "duplex_ok g l st" and "pending st = 0 \<or> outs st = 0" and "ins st = 0"
  shows "duplex_done g l st st"
  using assms duplex_step_refl by (auto simp: duplex_done_def duplex_ok_def balanced_def)

lemma ad_loop_frames:
  fixes st :: "('u \<times> u64 list) proc"
  assumes "duplex_ok g l st" and "pending st = 0 \<or> outs st = 0" and "unat a = ins st"
  shows "\<exists>r. ad_loop p (recorded cb) 0 a m st = Some r \<and> (\<forall>m' st'. r = Inr (m', st') \<longrightarrow> m' = m + a \<and> duplex_done g l st st')"
  using assms
proof (induction "measure_of st" arbitrary: a m st rule: less_induct)
  case less
  show ?case
  proof (cases "ins st = 0")
    case True
    then have "a = 0" using less.prems(3) by (simp add: word_unat_eq_iff)
    then show ?thesis using duplex_exit [OF less.prems(1,2) True] by (subst ad_loop.simps) simp
  next
    case False
    then have pos: "a > 0" using less.prems(3) by (simp add: word_less_nat_alt)
    show ?thesis
    proof (cases "ad_silence st")
      case (Inl e)
      then show ?thesis using pos by (subst ad_loop.simps) simp
    next
      case silence: (Inr s1)
      have o: "outs st < 2 ^ 32" "waiting st \<le> block st" "block st < 2 ^ 32" "ins st < 2 ^ 32"
        using less.prems(1) by (simp_all add: duplex_ok_def)
      have s1: "silenced st s1" by (rule ad_silence_frames(1) [OF silence o(1)])
      then have "ins s1 < 2 ^ 64" "waiting s1 \<le> block s1" "block s1 < 2 ^ 32"
        using o by (simp_all add: silenced_def ins_def in_count_def)
      from ad_fill_frames [OF this, of p a m] obtain r where r: "ad_fill p a m s1 = Some r"
        "\<forall>a' m' s2. r = Inr (a', m', s2) \<longrightarrow> (\<exists>k. filled s1 s2 k \<and> a' = a - of_nat k \<and> m' = m + of_nat k \<and>
          waiting s2 \<le> block s1 \<and> (waiting s2 = block s1 \<or> ins s2 = 0))" by blast
      show ?thesis
      proof (cases r)
        case (Inl e)
        then show ?thesis using pos silence r(1) by (subst ad_loop.simps) simp
      next
        case (Inr x)
        then obtain a' m' s2 where x: "r = Inr (a', m', s2)" by (cases x) auto
        then obtain k where k: "filled s1 s2 k" "a' = a - of_nat k" "m' = m + of_nat k" "waiting s2 \<le> block s1"
          "waiting s2 = block s1 \<or> ins s2 = 0" using r(2) by blast
        show ?thesis
        proof (cases "ad_call (recorded cb) s2")
          case (Inl e)
          then show ?thesis using pos silence r(1) x by (subst ad_loop.simps) simp
        next
          case call: (Inr s3)
          have i: "ins s2 + k = ins st" "pending s2 = pending st" "outs s2 = outs s1" "block s2 = block st"
            using k(1) s1 by (simp_all add: filled_def silenced_def ins_def outs_def in_count_def out_count_def)
          have "outs s1 \<le> outs st" using ad_silence_frames(2,3) [OF silence o(1)] by force
          moreover from call have "outs s3 = outs s2 \<and> pending s3 \<le> max (pending s2) (block s2)"
            by (cases rule: ad_call_cases) (simp_all add: outs_def out_count_def)
          ultimately have "outs s3 < 2 ^ 64" "pending s3 < 2 ^ 32"
            using i o less.prems(1) by (simp_all add: duplex_ok_def)
          from ct_loop_frames [OF this, of p] obtain q where q: "CopyTempOutputBuffersToHostOutputBuffers p s3 = Some q"
            "\<forall>s4. q = Inr s4 \<longrightarrow> copied s3 s4 \<and> (pending s4 = 0 \<or> outs s4 = 0)" by blast
          show ?thesis
          proof (cases q)
            case (Inl e)
            then show ?thesis using pos silence r(1) x call q(1) by (subst ad_loop.simps) simp
          next
            case (Inr s4)
            have c: "copied s3 s4" "pending s4 = 0 \<or> outs s4 = 0" using q(2) [rule_format, OF Inr] by simp_all
            have "0 < ins st" using False by simp
            note t = duplex_turn [OF less.prems(1,2) this silence k(1,4,5) call c(1,2)]
            have n: "unat (of_nat k :: u64) = k" using i(1) o(4) by (intro unat_of_nat64) simp
            then have "of_nat k \<le> a" using i(1) less.prems(3) by (simp only: word_le_nat_alt)
            then have "unat a' = ins s2" using i(1) less.prems(3) n by (simp only: k(2) unat_sub)
            moreover have "ins s4 = ins s3" using c(1) by (simp add: copied_def ins_def in_count_def)
            moreover from call have "ins s3 = ins s2"
              by (cases rule: ad_call_cases) (simp_all add: ins_def in_count_def)
            ultimately have "unat a' = ins s4" by simp
            from less.hyps [OF t(2,1) c(2) this, of m'] obtain y where
              y: "ad_loop p (recorded cb) 0 a' m' s4 = Some y"
              "\<forall>m'' st'. y = Inr (m'', st') \<longrightarrow> m'' = m' + a' \<and> duplex_done g l s4 st'" by blast
            have "ad_loop p (recorded cb) 0 a m st = Some y"
              using pos silence r(1) x call q(1) Inr y(1) by (subst ad_loop.simps) simp
            moreover have "m' + a' = m + a" by (simp add: k(2,3))
            moreover have "duplex_done g l st st'" if "duplex_done g l s4 st'" for st'
              using that duplex_step_trans [OF t(3)] by (auto simp: duplex_done_def)
            ultimately show ?thesis using y(2) by metis
          qed
        qed
      qed
    qed
  qed
qed

lemma AdaptingProcess_frames:
  fixes st :: "('u \<times> u64 list) proc"
  assumes "duplex_ok g l st" and "ins st = outs st" and "waiting st + pending st = l"
  shows "\<exists>r. AdaptingProcess p (recorded cb) True st = Some r \<and>
    (\<forall>m st'. r = Inr (m, st') \<longrightarrow> unat m = ins st \<and> duplex_done g l st st')"
proof -
  have o: "ins st < 2 ^ 64" "outs st < 2 ^ 64" "pending st < 2 ^ 32" using assms(1) by (simp_all add: duplex_ok_def)
  have a: "unat (in_total (processor st)) = ins st" by (rule unat_totals(1) [OF o(1)])
  from ct_loop_frames [OF o(2,3), of p] obtain q where q: "CopyTempOutputBuffersToHostOutputBuffers p st = Some q"
    "\<forall>s. q = Inr s \<longrightarrow> copied st s \<and> (pending s = 0 \<or> outs s = 0)" by blast
  show ?thesis
  proof (cases q)
    case (Inl e)
    then show ?thesis using q(1) by (simp add: AdaptingProcess_def Let_def)
  next
    case (Inr s)
    have c: "copied st s" "pending s = 0 \<or> outs s = 0" using q(2) [rule_format, OF Inr] by simp_all
    then obtain k where k: "pending s + k = pending st" "outs s + k = outs st" by (auto simp: copied_def)
    have "k = pending st \<or> k = outs st" using c(2) k by auto
    then have "g dvd k" using assms(1) by (auto simp: duplex_ok_def divides_def)
    have s: "framesPerUserBuffer (processor s) = framesPerUserBuffer (processor st)" "waiting s = waiting st" "ins s = ins st"
      "user s = user st" "callback_result s = callback_result st"
      using c(1) by (simp_all add: copied_def ins_def in_count_def)
    have "divides g s"
      using assms(1) s \<open>g dvd k\<close> k by (simp add: duplex_ok_def divides_def) (metis dvd_add_left_iff)
    then have ok: "duplex_ok g l s" using assms k s by (auto simp: duplex_ok_def balanced_def)
    have step: "duplex_step st s" using s by (auto simp: duplex_step_def intro!: exI [of _ 0])
    have "unat (in_total (processor st)) = ins s" using a s(3) by simp
    from ad_loop_frames [OF ok c(2) this, of p cb 0] obtain r where
      r: "ad_loop p (recorded cb) 0 (in_total (processor st)) 0 s = Some r"
      "\<forall>m' st'. r = Inr (m', st') \<longrightarrow> m' = 0 + in_total (processor st) \<and> duplex_done g l s st'" by blast
    have "duplex_done g l st st'" if "duplex_done g l s st'" for st'
      using that duplex_step_trans [OF step] by (auto simp: duplex_done_def)
    then show ?thesis using q(1) Inr r a by (auto simp: AdaptingProcess_def Let_def)
  qed
qed

section \<open>What the host sees\<close>

text \<open>What a host buffer of a full-duplex stream has to be, for a latency \<open>l\<close> and a common divisor \<open>g\<close>.\<close>

definition duplex_ready :: "nat \<Rightarrow> nat \<Rightarrow> 'u proc \<Rightarrow> bool" where
  "duplex_ready g l st \<longleftrightarrow> 0 < block st \<and> block st < 2 ^ 32 \<and> waiting st + pending st = l \<and> l \<le> block st \<and> block st \<le> l + g \<and>
     divides g st \<and> ins st = outs st \<and> ins st < 2 ^ 32"

lemma duplex_ready_ok: "duplex_ready g l st \<Longrightarrow> duplex_ok g l st"
  by (auto simp: duplex_ready_def duplex_ok_def balanced_def)

text \<open>What has become of it: \<open>outs\<close> is what has not been written of the output.\<close>

definition duplex_processed :: "nat \<Rightarrow> ('u \<times> u64 list) proc \<Rightarrow> ('u \<times> u64 list) proc \<Rightarrow> bool" where
  "duplex_processed l st st' \<longleftrightarrow> ins st' = 0 \<and>
     (outs st' = 0 \<or> callback_result st' = paAbort \<and> l + outs st' = block st) \<and>
     (\<exists>k. snd (user st') = snd (user st) @ replicate k (framesPerUserBuffer (processor st)) \<and>
       (callback_result st' = paContinue \<longrightarrow> waiting st' + pending st' = l \<and> waiting st' + k * block st = waiting st + ins st))"

lemma duplex_done_processed:
  assumes "duplex_done g l st st'"
  shows "duplex_processed l st st'"
proof -
  have e: "duplex_ok g l st'" "duplex_step st st'" "ins st' = 0" using assms by (simp_all add: duplex_done_def)
  obtain k where k: "snd (user st') = snd (user st) @ replicate k (framesPerUserBuffer (processor st))"
    "callback_result st' = paContinue \<longrightarrow> waiting st' + k * block st + ins st' = waiting st + ins st"
    and b: "framesPerUserBuffer (processor st') = framesPerUserBuffer (processor st)"
    using e(2) unfolding duplex_step_def by blast
  have "outs st' = 0 \<or> callback_result st' = paAbort \<and> l + outs st' = block st"
    "callback_result st' = paContinue \<longrightarrow> waiting st' + pending st' = l"
    using e(1,3) b by (auto simp: duplex_ok_def balanced_def)
  then show ?thesis using e(3) k unfolding duplex_processed_def by (metis add.right_neutral)
qed

lemma duplex_processing:
  fixes st :: "('u \<times> u64 list) proc"
  assumes "\<not> useNonAdaptingProcess (processor st)" and "inputChannelCount (processor st) \<noteq> 0"
    and "outputChannelCount (processor st) \<noteq> 0"
    and "hostBufferSizeMode (processor st) \<noteq> paUtilVariableHostBufferSizePartialUsageAllowed" and r: "duplex_ready g l st"
  shows "\<exists>r. PaUtil_EndBufferProcessing p (recorded cb) st = Some r \<and>
    (\<forall>m st'. r = Inr (m, st') \<longrightarrow> unat m = ins st \<and> duplex_processed l st st')"
proof -
  have "ins st = outs st" "waiting st + pending st = l" using r by (simp_all add: duplex_ready_def)
  from AdaptingProcess_frames [OF duplex_ready_ok [OF r] this, of p cb] obtain q where
    q: "AdaptingProcess p (recorded cb) True st = Some q"
    "\<And>m st'. q = Inr (m, st') \<Longrightarrow> unat m = ins st \<and> duplex_done g l st st'" by blast
  then show ?thesis using duplex_done_processed assms(1-4)
    by (cases "ep_asserts st") (auto simp: PaUtil_EndBufferProcessing_def Let_def)
qed



text \<open>
  Adaption of a stream with output only: processing ends and fills the whole host buffer; the
  callback is asked for blocks of its own length only, for no more of them than the host buffer needs,
  and at most one block is left for the next host buffer.
\<close>

theorem output_only_adaption:
  fixes st :: "('u \<times> u64 list) proc"
  assumes "0 < block st" and "pending st \<le> block st"
  shows "\<exists>r. AdaptingOutputOnlyProcess p (recorded cb) second n st = Some r \<and>
    (\<forall>m st'. r = Inr (m, st') \<longrightarrow> m = n \<and> pending st' \<le> block st \<and>
      (\<exists>k. snd (user st') = snd (user st) @ replicate k (framesPerUserBuffer (processor st)) \<and>
        k * block st + pending st \<le> unat n + block st \<and>
        (callback_result st' = paContinue \<longrightarrow> pending st' + unat n = pending st + k * block st)))"
proof -
  obtain r where r: "AdaptingOutputOnlyProcess p (recorded cb) second n st = Some r"
    "\<And>m st'. r = Inr (m, st') \<Longrightarrow> m = 0 + n \<and> ao_done st n st'"
    using ao_loop_frames [OF assms, of p cb second n 0] unfolding AdaptingOutputOnlyProcess_def by blast
  have "m = n \<and> pending st' \<le> block st \<and>
      (\<exists>k. snd (user st') = snd (user st) @ replicate k (framesPerUserBuffer (processor st)) \<and>
        k * block st + pending st \<le> unat n + block st \<and>
        (callback_result st' = paContinue \<longrightarrow> pending st' + unat n = pending st + k * block st))"
    if "r = Inr (m, st')" for m st'
    using r(2) [OF that] unfolding ao_done_def by auto
  then show ?thesis using r(1) by blast
qed

theorem output_only_adaption_witness:
  "\<forall>p. let st = \<lparr>processor = mono16\<lparr>inputChannelCount := 0\<rparr>, heap = whole_memory, user = ((), []), callback_result = paContinue\<rparr> in
     \<exists>r. AdaptingOutputOnlyProcess p (recorded idle_callback) False 3 st = Some r \<and>
       (\<forall>m st'. r = Inr (m, st') \<longrightarrow> m = 3 \<and> pending st' \<le> 2 \<and> length (snd (user st')) \<le> 1)"
proof (intro allI)
  fix p
  let ?st = "\<lparr>processor = mono16\<lparr>inputChannelCount := 0\<rparr>, heap = whole_memory, user = ((), []), callback_result = paContinue\<rparr>"
  have n: "block ?st = 2" "pending ?st = 2" by (simp_all add: mono16_def)
  have "0 < block ?st" "pending ?st \<le> block ?st" unfolding n by simp_all
  from output_only_adaption [OF this, of p idle_callback False 3, unfolded n]
  show "let st = ?st in \<exists>r. AdaptingOutputOnlyProcess p (recorded idle_callback) False 3 st = Some r \<and>
       (\<forall>m st'. r = Inr (m, st') \<longrightarrow> m = 3 \<and> pending st' \<le> 2 \<and> length (snd (user st')) \<le> 1)"
    unfolding Let_def by fastforce
qed

end
