(* ===== verification/PaLatency.thy ===== *)
theory PaLatency
  imports PaAdaptDuplex PaShift
begin

text \<open>
  A full-duplex stream with block adaption from its set-up on (\<open>pa_process.c\<close>): the latency that
  \<open>PaUtil_InitializeBufferProcessor\<close> chooses is enough for every host buffer to come, and it stays.
\<close>

section \<open>What processing does not change\<close>

definition settings :: "buffer_processor \<Rightarrow> bool \<times> u32 \<times> u32 \<times> host_buffer_size_mode \<times> u64" where
  "settings bp = (useNonAdaptingProcess bp, inputChannelCount bp, outputChannelCount bp, hostBufferSizeMode bp,
     framesPerHostBuffer bp)"

definition kept :: "'u proc \<Rightarrow> 'u proc \<Rightarrow> bool" where
  "kept st st' \<longleftrightarrow> settings (processor st') = settings (processor st)"

lemma kept_refl [simp]: "kept st st"
  by (simp add: kept_def)

lemma kept_trans: "kept st st1 \<Longrightarrow> kept st1 st' \<Longrightarrow> kept st st'"
  by (simp add: kept_def)

lemma kept_set [simp]:
  "kept st (st'\<lparr>processor := bp\<rparr>) \<longleftrightarrow> settings bp = settings (processor st)"
  "kept st (st'\<lparr>heap := h\<rparr>) \<longleftrightarrow> kept st st'"
  "kept st (call_back cb i u n st') \<longleftrightarrow> kept st st'"
  by (simp_all add: kept_def call_back_def Let_def split: prod.splits)

lemma settings_put [simp]:
  "settings (put_in_set second cs bp) = settings bp"
  "settings (put_out_set second cs bp) = settings bp"
  "settings (put_in_count second n bp) = settings bp"
  "settings (put_out_count second n bp) = settings bp"
  "settings (bp\<lparr>ditherGenerator := g\<rparr>) = settings bp"
  "settings (bp\<lparr>framesInTempInputBuffer := n\<rparr>) = settings bp"
  "settings (bp\<lparr>framesInTempOutputBuffer := n\<rparr>) = settings bp"
  "settings (advance_times n bp) = settings bp"
  by (simp_all add: settings_def put_in_set_def put_out_set_def put_in_count_def put_out_count_def advance_times_def)

lemma fill_input_kept: "fill_input p second n adv st = Inr st' \<Longrightarrow> kept st st'"
  by (auto simp: fill_input_def Let_def split: prod.splits)

lemma drain_output_kept: "drain_output p second n adv ok st = Inr st' \<Longrightarrow> kept st st'"
  by (auto simp: drain_output_def Let_def split: prod.splits)

lemma silence_output_kept: "silence_output second n adv st = Inr st' \<Longrightarrow> kept st st'"
  by (auto simp: silence_output_def Let_def split: prod.splits)

lemma ct_turn_kept: "ct_turn p st = Inr st' \<Longrightarrow> kept st st'"
  by (auto simp: ct_turn_def Let_def kept_def dest!: drain_output_kept)

lemma ad_fill_turn_kept: "ad_fill_turn p st = Inr (st', n) \<Longrightarrow> kept st st'"
  by (auto simp: ad_fill_turn_def Let_def kept_def dest!: fill_input_kept)

lemma ad_silence_set_kept: "ad_silence_set second st = Inr st' \<Longrightarrow> kept st st'"
  by (auto simp: ad_silence_set_def Let_def kept_def split: if_splits dest!: silence_output_kept)

lemma ad_silence_kept: "ad_silence st = Inr st' \<Longrightarrow> kept st st'"
  by (auto simp: ad_silence_def split: if_splits dest!: ad_silence_set_kept intro: kept_trans)

lemma processor_call_back [simp]: "processor (call_back cb i u n st) = processor st"
  by (simp add: call_back_def Let_def split: prod.split)

lemma ad_call_kept:
  assumes "ad_call cb st = Inr st'"
  shows "kept st st'"
proof (cases "framesInTempInputBuffer (processor st) = framesPerUserBuffer (processor st) \<and>
    framesInTempOutputBuffer (processor st) = 0 \<and> callback_result st = paContinue")
  case True
  then obtain u v where "user_input (processor st) = Inr u" "user_output (processor st) = Inr v"
    using assms by (auto simp: ad_call_def Let_def)
  then show ?thesis using assms True by (simp add: ad_call_def Let_def kept_def split del: if_split) auto
next
  case False
  then have "st' = st \<or> st' = st\<lparr>processor := (processor st)\<lparr>framesInTempInputBuffer := 0\<rparr>\<rparr>"
    using assms unfolding ad_call_def Let_def by (simp split: if_split_asm)
  then show ?thesis by auto
qed

lemma bind_c_yields: "bind_c m f = Some r \<longleftrightarrow> (\<exists>e. m = Some (Inl e) \<and> r = Inl e) \<or> (\<exists>x. m = Some (Inr x) \<and> f x = Some r)"
  by (auto simp: bind_c_def split: option.splits sum.splits)

lemma CopyTemp_kept:
  assumes "CopyTempOutputBuffersToHostOutputBuffers p st = Some r" and "r = Inr st'"
  shows "kept st st'"
  using assms
proof (induction arbitrary: st' rule: CopyTempOutputBuffersToHostOutputBuffers.raw_induct [rotated, consumes 1, case_names step])
  case (step f p st r)
  show ?case
  proof (cases "framesInTempOutputBuffer (processor st) > 0 \<and> out_total (processor st) > 0")
    case False
    then show ?thesis using step(2,3) by auto
  next
    case True
    then obtain s1 where "ct_turn p st = Inr s1" and f: "f p s1 = Some r" using step(2,3) by (auto split: sum.splits)
    then show ?thesis using ct_turn_kept step(1) [OF f step(3)] by (blast intro: kept_trans)
  qed
qed

lemma ad_fill_kept:
  assumes "ad_fill p a m st = Some r" and "r = Inr (a', m', st')"
  shows "kept st st'"
  using assms
proof (induction arbitrary: a' m' st' rule: ad_fill.raw_induct [rotated, consumes 1, case_names step])
  case (step f p a m st r)
  show ?case
  proof (cases "framesInTempInputBuffer (processor st) < framesPerUserBuffer (processor st) \<and> in_total (processor st) > 0")
    case False
    then show ?thesis using step(2,3) by auto
  next
    case True
    then obtain s1 n where "ad_fill_turn p st = Inr (s1, n)" and f: "f p (a - ucast n) (m + ucast n) s1 = Some r"
      using step(2,3) by (auto split: sum.splits)
    then show ?thesis using ad_fill_turn_kept step(1) [OF f step(3)] by (blast intro: kept_trans)
  qed
qed

lemma ad_loop_kept:
  assumes "ad_loop p cb e a m st = Some r" and "r = Inr (m', st')"
  shows "kept st st'"
  using assms
proof (induction arbitrary: m' st' rule: ad_loop.raw_induct [rotated, consumes 1, case_names step])
  case (step f p cb e a m st r)
  show ?case
  proof (cases "a > e")
    case False
    then show ?thesis using step(2,3) by auto
  next
    case True
    then obtain s1 a2 m2 s2 s3 s4 where "ad_silence st = Inr s1" "ad_fill p a m s1 = Some (Inr (a2, m2, s2))"
      "ad_call cb s2 = Inr s3" "CopyTempOutputBuffersToHostOutputBuffers p s3 = Some (Inr s4)"
      and f: "f p cb e a2 m2 s4 = Some r"
    proof -
      obtain s1 where 1: "ad_silence st = Inr s1" using step(2,3) True that by (cases "ad_silence st") auto
      then obtain a2 m2 s2 where 2: "ad_fill p a m s1 = Some (Inr (a2, m2, s2))"
        using step(2,3) True by (auto simp: bind_c_yields)
      then obtain s3 where 3: "ad_call cb s2 = Inr s3" using step(2,3) True 1 by (cases "ad_call cb s2") auto
      then obtain s4 where "CopyTempOutputBuffersToHostOutputBuffers p s3 = Some (Inr s4)" "f p cb e a2 m2 s4 = Some r"
        using step(2,3) True 1 2 by (auto simp: bind_c_yields)
      then show thesis using that 1 2 3 by blast
    qed
    then have "kept st s1" "kept s1 s2" "kept s2 s3" "kept s3 s4"
      using ad_silence_kept ad_fill_kept ad_call_kept CopyTemp_kept by blast+
    moreover have "kept s4 st'" by (rule step(1) [OF f step(3)])
    ultimately show ?thesis by (blast intro: kept_trans)
  qed
qed

lemma AdaptingProcess_kept: "AdaptingProcess p cb b st = Some (Inr (m, st')) \<Longrightarrow> kept st st'"
  by (auto simp: AdaptingProcess_def Let_def bind_c_yields dest!: ad_loop_kept CopyTemp_kept intro: kept_trans)

section \<open>The initial latency\<close>

text \<open>What all lengths are multiples of, and the latency of a full-duplex stream with adaption.\<close>

definition common :: "host_buffer_size_mode \<Rightarrow> u64 \<Rightarrow> u64 \<Rightarrow> nat" where
  "common mode hostFrames userFrames =
     (if mode = paUtilFixedHostBufferSize then gcd (unat hostFrames) (unat userFrames) else 1)"

definition latency :: "host_buffer_size_mode \<Rightarrow> u64 \<Rightarrow> u64 \<Rightarrow> nat" where
  "latency mode hostFrames userFrames =
     (if mode = paUtilFixedHostBufferSize then unat userFrames - gcd (unat hostFrames) (unat userFrames) else unat userFrames)"

lemma latency_common:
  assumes "0 < unat N"
  shows "latency mode M N \<le> unat N" and "unat N \<le> latency mode M N + common mode M N"
    and "common mode M N dvd unat N" and "common mode M N dvd latency mode M N"
  using assms by (auto simp: latency_def common_def)

lemma bp_adaption_full_duplex:
  assumes "bp_adaption True N M mode = Some (Inr (False, perTemp, i, out))" and "0 < M" and "unat M * unat N < 2 ^ 64"
  shows "0 < N" and "unat i + unat out = latency mode M N"
    and "common mode M N dvd unat i" and "common mode M N dvd unat out"
proof -
  have N: "N \<noteq> 0" and f: "\<not> (mode = paUtilFixedHostBufferSize \<and> M mod N = 0)"
    using assms(1) by (auto simp: bp_adaption_def split: if_splits)
  then show "0 < N" by (simp add: word_gt_0)
  have "unat i + unat out = latency mode M N \<and> (i = 0 \<or> out = 0)"
  proof (cases "mode = paUtilFixedHostBufferSize")
    case False
    then show ?thesis using assms(1) N by (auto simp: bp_adaption_def latency_def)
  next
    case True
    then have nd: "\<not> unat N dvd unat M" using f by (simp add: word_unat_eq_iff unat_mod_distrib dvd_eq_mod_eq_0)
    from CalculateFrameShift_eq [OF assms(2) \<open>0 < N\<close> assms(3)] nd obtain x where
      x: "CalculateFrameShift M N = Some (Inr x)" "unat x = latency mode M N" using True by (auto simp: latency_def)
    then show ?thesis using assms(1) N f True by (auto simp: bp_adaption_def split: if_splits)
  qed
  moreover have "common mode M N dvd latency mode M N" using \<open>0 < N\<close> by (intro latency_common(4)) (simp add: word_less_nat_alt)
  ultimately show "unat i + unat out = latency mode M N" "common mode M N dvd unat i" "common mode M N dvd unat out" by auto
qed

definition quiet :: "buffer_processor \<Rightarrow> (bool \<times> u32 \<times> u32 \<times> host_buffer_size_mode \<times> u64) \<times> u64 \<times> u64 \<times> u64" where
  "quiet bp = (settings bp, framesPerUserBuffer bp, framesInTempInputBuffer bp, framesInTempOutputBuffer bp)"

lemma bp_input_quiet: "bp_input n u h f bp m = (code, bp', m') \<Longrightarrow> quiet bp' = quiet bp"
  by (auto simp: bp_input_def Let_def quiet_def settings_def split: if_splits prod.splits)

lemma bp_output_quiet: "bp_output n u h f bp m = (code, bp', m') \<Longrightarrow> quiet bp' = quiet bp"
  by (auto simp: bp_output_def Let_def quiet_def settings_def split: if_splits prod.splits)

lemma initialized_quiet:
  assumes "PaUtil_InitializeBufferProcessor raw ic uif hif oc uof hof rate flags N M mode cb ud m = Some (Inr (err paNoError, bp, m'))"
    and "0 < ic" "0 < oc"
  shows "\<exists>na pt ii io. bp_adaption True N M mode = Some (Inr (na, pt, ii, io)) \<and>
    quiet bp = ((na, of_int ic, of_int oc, mode, M), N, ii, io)"
proof (cases "flags AND paNeverDropInput \<noteq> 0 \<and>
    (cb = None \<or> \<not> (ic > 0 \<and> oc > 0) \<or> N \<noteq> paFramesPerBufferUnspecified)")
  case True
  then show ?thesis using assms(1) unfolding PaUtil_InitializeBufferProcessor_def if_P [OF True] by simp
next
  case False
  note run = assms(1) [unfolded PaUtil_InitializeBufferProcessor_def if_not_P [OF False]]
  have d: "(ic > 0 \<and> oc > 0) = True" using assms(2,3) by simp
  obtain na pt ii io where a: "bp_adaption True N M mode = Some (Inr (na, pt, ii, io))"
    using run unfolding d by (cases "bp_adaption True N M mode") (auto simp: bind_c_def split: sum.splits)
  let ?bp = "raw\<lparr>tempInputBuffer := None, tempInputBufferPtrs := None, tempOutputBuffer := None,
      tempOutputBufferPtrs := None, framesPerUserBuffer := N, framesPerHostBuffer := M,
      inputChannelCount := of_int ic, outputChannelCount := of_int oc, hostBufferSizeMode := mode,
      hostInputBlock := None, hostOutputBlock := None, useNonAdaptingProcess := na,
      framesPerTempBuffer := pt, initialFramesInTempInputBuffer := ii,
      initialFramesInTempOutputBuffer := io, framesInTempInputBuffer := ii, framesInTempOutputBuffer := io\<rparr>"
  obtain c1 bp1 m1 where 1: "(if ic > 0 then bp_input ic uif hif flags ?bp m else (0, ?bp, m)) = (c1, bp1, m1)"
    using prod_cases3 by blast
  obtain c2 bp2 m2 where 2: "(if c1 = 0 \<and> oc > 0 then bp_output oc uof hof flags bp1 m1 else (c1, bp1, m1)) = (c2, bp2, m2)"
    using prod_cases3 by blast
  have res: "(if c2 \<noteq> 0 then Some (bind_r (free_all (bp_blocks bp2) m2) (\<lambda>m. Inr (c2, bp2, m)))
      else Some (Inr (0, bp2\<lparr>ditherGenerator := PaUtil_InitializeTriangularDitherState,
               samplePeriod := f64_inverse rate, bpStreamCallback := cb, bpUserData := ud\<rparr>, m2))) =
      Some (Inr (0, bp, m'))"
    using run unfolding d a bind_c_simps Let_def prod.case err.simps 1 2 .
  then have bp: "bp = bp2\<lparr>ditherGenerator := PaUtil_InitializeTriangularDitherState,
               samplePeriod := f64_inverse rate, bpStreamCallback := cb, bpUserData := ud\<rparr>"
    by (auto split: if_splits)
  have "quiet bp1 = quiet ?bp" using 1 bp_input_quiet by (auto split: if_splits)
  moreover have "quiet bp2 = quiet bp1" using 2 bp_output_quiet by (auto split: if_splits)
  ultimately have "quiet bp = quiet ?bp" unfolding bp by (simp add: quiet_def settings_def)
  then show ?thesis using a by (simp add: quiet_def settings_def)
qed

lemma initial_latency:
  assumes "PaUtil_InitializeBufferProcessor raw ic uif hif oc uof hof rate flags N M mode cb ud m = Some (Inr (err paNoError, bp, m'))"
    and "\<not> useNonAdaptingProcess bp" and "0 < ic" "0 < oc" and "0 < M" and "unat M * unat N < 2 ^ 64"
  shows "settings bp = (False, of_int ic, of_int oc, mode, M)" and "framesPerUserBuffer bp = N" and "0 < unat N"
    and "unat (framesInTempInputBuffer bp) + unat (framesInTempOutputBuffer bp) = latency mode M N"
    and "common mode M N dvd unat (framesInTempInputBuffer bp)" and "common mode M N dvd unat (framesInTempOutputBuffer bp)"
proof -
  obtain na pt ii io where a: "bp_adaption True N M mode = Some (Inr (na, pt, ii, io))"
    and q: "quiet bp = ((na, of_int ic, of_int oc, mode, M), N, ii, io)"
    using initialized_quiet [OF assms(1,3,4)] by blast
  then have na: "na = False" using assms(2) by (simp add: quiet_def settings_def)
  note l = bp_adaption_full_duplex [OF a [unfolded na] assms(5,6)]
  show "settings bp = (False, of_int ic, of_int oc, mode, M)" "framesPerUserBuffer bp = N" using q na by (simp_all add: quiet_def)
  show "0 < unat N" using l(1) by (simp add: word_less_nat_alt)
  show "unat (framesInTempInputBuffer bp) + unat (framesInTempOutputBuffer bp) = latency mode M N"
    "common mode M N dvd unat (framesInTempInputBuffer bp)" "common mode M N dvd unat (framesInTempOutputBuffer bp)"
    using q l by (simp_all add: quiet_def)
qed

section \<open>Host buffers, one after another\<close>

text \<open>
  What a host API does with each pair of interleaved host buffers of \<open>n\<close> frames (0 for the length given
  to the initialization), as \<open>ExampleHostProcessingLoop\<close> of the skeleton host API shows it.
\<close>

definition host_cycle ::
  "platform \<Rightarrow> 'u callback \<Rightarrow> f64 \<times> f64 \<times> u64 \<Rightarrow> u64 \<Rightarrow> ptr option \<Rightarrow> ptr option \<Rightarrow> 'u proc \<Rightarrow> (u64 \<times> 'u proc) comp" where
  "host_cycle p cb timing n inputBuffer outputBuffer st =
     (case timing of (adc, dac, flags) \<Rightarrow>
      let bp = PaUtil_SetInputFrameCount n (PaUtil_BeginBufferProcessing adc dac flags (processor st)) in
      bind_c (Some (PaUtil_SetInterleavedInputChannels 0 inputBuffer 0 bp)) (\<lambda>bp.
      bind_c (Some (PaUtil_SetInterleavedOutputChannels 0 outputBuffer 0 (PaUtil_SetOutputFrameCount n bp))) (\<lambda>bp.
        PaUtil_EndBufferProcessing p cb (st\<lparr>processor := bp, callback_result := paContinue\<rparr>))))"

text \<open>A host that goes on until the callback wants to stop; the frames processed are added up.\<close>

fun host_cycles ::
  "platform \<Rightarrow> 'u callback \<Rightarrow> ((f64 \<times> f64 \<times> u64) \<times> u64 \<times> ptr option \<times> ptr option) list \<Rightarrow> 'u proc \<Rightarrow> (nat \<times> 'u proc) comp" where
  "host_cycles p cb [] st = Some (Inr (0, st))"
| "host_cycles p cb ((timing, n, i, out) # bufs) st =
     bind_c (host_cycle p cb timing n i out st) (\<lambda>(k, st).
       if callback_result st = paContinue
       then bind_c (host_cycles p cb bufs st) (\<lambda>(m, st). Some (Inr (unat k + m, st)))
       else Some (Inr (unat k, st)))"

lemma put_interleaved_ok: "PaUtil_SetInterleavedInputChannels first d c bp = Inr bp' \<Longrightarrow>
    quiet bp' = quiet bp \<and> hostInputFrameCount bp' = hostInputFrameCount bp \<and> hostOutputFrameCount bp' = hostOutputFrameCount bp"
  by (auto simp: PaUtil_SetInterleavedInputChannels_def Let_def check_def quiet_def settings_def split: if_split_asm)

lemma set_output_loop_ok: "set_output_loop k first d c bp = Inr bp' \<Longrightarrow>
    quiet bp' = quiet bp \<and> hostInputFrameCount bp' = hostInputFrameCount bp \<and> hostOutputFrameCount bp' = hostOutputFrameCount bp"
proof (induction k arbitrary: first d bp)
  case (Suc k)
  then obtain bp1 where 1: "PaUtil_SetOutputChannel first d c bp = Inr bp1"
    "set_output_loop k (first + 1) (map_option (\<lambda>q. q + unat (bytesPerHostOutputSample bp1)) d) c bp1 = Inr bp'" by auto
  from 1(1) have "quiet bp1 = quiet bp \<and> hostInputFrameCount bp1 = hostInputFrameCount bp \<and> hostOutputFrameCount bp1 = hostOutputFrameCount bp"
    by (auto simp: PaUtil_SetOutputChannel_def check_def quiet_def settings_def split: if_split_asm)
  then show ?case using Suc.IH [OF 1(2)] by simp
qed simp

lemma SetInterleavedOutput_ok: "PaUtil_SetInterleavedOutputChannels first d c bp = Inr bp' \<Longrightarrow>
    quiet bp' = quiet bp \<and> hostInputFrameCount bp' = hostInputFrameCount bp \<and> hostOutputFrameCount bp' = hostOutputFrameCount bp"
  by (auto simp: PaUtil_SetInterleavedOutputChannels_def Let_def check_def split: if_split_asm dest: set_output_loop_ok)

lemma duplex_cycle:
  fixes st :: "('u \<times> u64 list) proc"
  assumes mode: "\<not> useNonAdaptingProcess (processor st)" "inputChannelCount (processor st) \<noteq> 0" "outputChannelCount (processor st) \<noteq> 0"
      "hostBufferSizeMode (processor st) \<noteq> paUtilVariableHostBufferSizePartialUsageAllowed"
    and r: "duplex_ready g l st"
  shows "\<exists>r. PaUtil_EndBufferProcessing p (recorded cb) st = Some r \<and>
    (\<forall>m st'. r = Inr (m, st') \<longrightarrow> unat m = ins st \<and> duplex_processed l st st' \<and> kept st st' \<and> divides g st' \<and>
      framesPerUserBuffer (processor st') = framesPerUserBuffer (processor st))"
proof -
  have "ins st = outs st" "waiting st + pending st = l" using r by (simp_all add: duplex_ready_def)
  from AdaptingProcess_frames [OF duplex_ready_ok [OF r] this, of p cb] obtain q where
    q: "AdaptingProcess p (recorded cb) True st = Some q"
    "\<And>m st'. q = Inr (m, st') \<Longrightarrow> unat m = ins st \<and> duplex_done g l st st'" by blast
  have "duplex_processed l st st' \<and> kept st st' \<and> divides g st' \<and>
      framesPerUserBuffer (processor st') = framesPerUserBuffer (processor st)" if "q = Inr (m, st')" for m st'
  proof -
    have d: "duplex_done g l st st'" using q(2) [OF that] by simp
    then have "divides g st'" "framesPerUserBuffer (processor st') = framesPerUserBuffer (processor st)"
      by (simp_all add: duplex_done_def duplex_ok_def duplex_step_def)
    then show ?thesis using duplex_done_processed [OF d] AdaptingProcess_kept q(1) that by blast
  qed
  then show ?thesis using q mode
    by (cases "ep_asserts st") (auto simp: PaUtil_EndBufferProcessing_def Let_def)
qed

text \<open>The state between two host buffers of a full-duplex stream, for the parameters of its set-up.\<close>

definition in_service :: "int \<Rightarrow> int \<Rightarrow> host_buffer_size_mode \<Rightarrow> u64 \<Rightarrow> u64 \<Rightarrow> 'u proc \<Rightarrow> bool" where
  "in_service ic oc mode M N st \<longleftrightarrow> settings (processor st) = (False, of_int ic, of_int oc, mode, M) \<and>
     framesPerUserBuffer (processor st) = N \<and> waiting st + pending st = latency mode M N \<and>
     common mode M N dvd waiting st \<and> common mode M N dvd pending st"

definition host_frames_of :: "u64 \<Rightarrow> u64 \<Rightarrow> nat" where
  "host_frames_of M n = unat (if n = 0 then M else n)"

definition host_length :: "host_buffer_size_mode \<Rightarrow> u64 \<Rightarrow> u64 \<Rightarrow> bool" where
  "host_length mode M n \<longleftrightarrow> host_frames_of M n < 2 ^ 32 \<and> (mode = paUtilFixedHostBufferSize \<longrightarrow> host_frames_of M n = unat M)"

definition channels_ok :: "int \<Rightarrow> bool" where
  "channels_ok n \<longleftrightarrow> 0 < n \<and> n < 2 ^ 32"

lemma channels_ok_word: "channels_ok n \<Longrightarrow> (of_int n :: u32) \<noteq> 0"
proof
  assume "channels_ok n" and "(of_int n :: u32) = 0"
  then have "n mod 2 ^ 32 = 0" "0 < n" "n < 2 ^ 32" by (simp_all add: channels_ok_def word_of_int_eq_0_iff take_bit_eq_mod)
  then show False by simp
qed

lemma host_cycle_frames:
  fixes st :: "('u \<times> u64 list) proc"
  assumes s: "in_service ic oc mode M N st" and N: "0 < unat N" "unat N < 2 ^ 32" and c: "channels_ok ic" "channels_ok oc"
    and mode: "mode \<noteq> paUtilVariableHostBufferSizePartialUsageAllowed" and n: "host_length mode M n"
  shows "\<exists>r. host_cycle p (recorded cb) timing n i out st = Some r \<and>
    (\<forall>m st'. r = Inr (m, st') \<longrightarrow> unat m = host_frames_of M n \<and> (\<exists>k. snd (user st') = snd (user st) @ replicate k N \<and>
      (callback_result st' = paContinue \<longrightarrow>
        in_service ic oc mode M N st' \<and> waiting st' + k * unat N = waiting st + host_frames_of M n)))"
proof -
  obtain adc dac flags where t: "timing = (adc, dac, flags)" by (cases timing)
  let ?g = "common mode M N" and ?l = "latency mode M N" and ?n = "if n = 0 then M else n"
  define b0 where "b0 = PaUtil_SetInputFrameCount n (PaUtil_BeginBufferProcessing adc dac flags (processor st))"
  have h: "framesPerHostBuffer (processor st) = M" using s by (simp add: in_service_def settings_def)
  have b0: "quiet b0 = quiet (processor st)" "hostInputFrameCount b0 = (?n, 0)" "snd (hostOutputFrameCount b0) = 0"
    using h by (simp_all add: b0_def PaUtil_SetInputFrameCount_def PaUtil_BeginBufferProcessing_def quiet_def settings_def)
  show ?thesis
  proof (cases "PaUtil_SetInterleavedInputChannels 0 i 0 b0")
    case (Inl e)
    then show ?thesis by (simp add: host_cycle_def t b0_def [symmetric] Let_def)
  next
    case b1: (Inr b1)
    define b2 where "b2 = PaUtil_SetOutputFrameCount n b1"
    have q1: "quiet b1 = quiet (processor st)" "hostInputFrameCount b1 = (?n, 0)" "snd (hostOutputFrameCount b1) = 0"
      using put_interleaved_ok [OF b1] b0 by simp_all
    then have "framesPerHostBuffer b1 = M" using h by (simp add: quiet_def settings_def)
    then have q2: "quiet b2 = quiet (processor st)" "hostInputFrameCount b2 = (?n, 0)" "hostOutputFrameCount b2 = (?n, 0)"
      using q1 by (simp_all add: b2_def PaUtil_SetOutputFrameCount_def quiet_def settings_def)
    show ?thesis
    proof (cases "PaUtil_SetInterleavedOutputChannels 0 out 0 b2")
      case (Inl e)
      then show ?thesis using b1 by (simp add: host_cycle_def t b0_def [symmetric] b2_def [symmetric] Let_def)
    next
      case b3: (Inr b3)
      have q3: "quiet b3 = quiet (processor st)" "hostInputFrameCount b3 = (?n, 0)" "hostOutputFrameCount b3 = (?n, 0)"
        using SetInterleavedOutput_ok [OF b3] q2 by simp_all
      define st1 where "st1 = st\<lparr>processor := b3, callback_result := paContinue\<rparr>"
      have st1: "settings (processor st1) = (False, of_int ic, of_int oc, mode, M)" "framesPerUserBuffer (processor st1) = N"
        "waiting st1 = waiting st" "pending st1 = pending st" "ins st1 = host_frames_of M n" "outs st1 = host_frames_of M n"
        "user st1 = user st"
        using q3 s by (simp_all add: st1_def in_service_def quiet_def ins_def outs_def in_count_def out_count_def host_frames_of_def)
      have "?g dvd host_frames_of M n" using n by (auto simp: host_length_def common_def)
      then have ready: "duplex_ready ?g ?l st1"
        using st1 s N n latency_common [OF N(1), of mode M]
        by (simp add: duplex_ready_def divides_def in_service_def host_length_def)
      have cfg: "\<not> useNonAdaptingProcess (processor st1)" "inputChannelCount (processor st1) \<noteq> 0"
        "outputChannelCount (processor st1) \<noteq> 0" "hostBufferSizeMode (processor st1) \<noteq> paUtilVariableHostBufferSizePartialUsageAllowed"
        using st1(1) c mode by (simp_all add: settings_def channels_ok_word)
      from duplex_cycle [OF cfg ready, of p cb] obtain r where
        r: "PaUtil_EndBufferProcessing p (recorded cb) st1 = Some r"
        "\<And>m st'. r = Inr (m, st') \<Longrightarrow> unat m = ins st1 \<and> duplex_processed ?l st1 st' \<and> kept st1 st' \<and> divides ?g st' \<and>
          framesPerUserBuffer (processor st') = framesPerUserBuffer (processor st1)" by blast
      have "host_cycle p (recorded cb) timing n i out st = Some r"
        using b1 b3 r(1) by (simp add: host_cycle_def t b0_def [symmetric] b2_def [symmetric] st1_def Let_def)
      moreover have "unat m = host_frames_of M n \<and> (\<exists>k. snd (user st') = snd (user st) @ replicate k N \<and>
        (callback_result st' = paContinue \<longrightarrow>
          in_service ic oc mode M N st' \<and> waiting st' + k * unat N = waiting st + host_frames_of M n))" if "r = Inr (m, st')" for m st'
      proof -
        note e = r(2) [OF that]
        then obtain k where k: "snd (user st') = snd (user st) @ replicate k N"
          "callback_result st' = paContinue \<longrightarrow> waiting st' + pending st' = ?l \<and> waiting st' + k * unat N = waiting st + host_frames_of M n"
          using st1 unfolding duplex_processed_def by auto
        have "callback_result st' = paContinue \<longrightarrow> in_service ic oc mode M N st'"
          using e k(2) st1(1,2) by (auto simp: in_service_def kept_def divides_def)
        then show ?thesis using e k st1(5) by auto
      qed
      ultimately show ?thesis by blast
    qed
  qed
qed

lemma host_cycles_frames:
  fixes st :: "('u \<times> u64 list) proc"
  assumes N: "0 < unat N" "unat N < 2 ^ 32" and c: "channels_ok ic" "channels_ok oc"
    and mode: "mode \<noteq> paUtilVariableHostBufferSizePartialUsageAllowed"
  shows "in_service ic oc mode M N st \<Longrightarrow> list_all (\<lambda>(_, n, _). host_length mode M n) bufs \<Longrightarrow>
    \<exists>r. host_cycles p (recorded cb) bufs st = Some r \<and>
    (\<forall>m st'. r = Inr (m, st') \<longrightarrow> (\<exists>k. snd (user st') = snd (user st) @ replicate k N \<and>
      (callback_result st' = paContinue \<longrightarrow> m = sum_list (map (\<lambda>(_, n, _). host_frames_of M n) bufs) \<and>
        in_service ic oc mode M N st' \<and> waiting st' + k * unat N = waiting st + m)))"
proof (induction bufs arbitrary: st)
  case Nil
  then show ?case by (auto intro!: exI [of _ 0])
next
  case (Cons b bufs)
  obtain t n i out where b: "b = (t, n, i, out)" by (cases b)
  have n: "host_length mode M n" "list_all (\<lambda>(_, n, _). host_length mode M n) bufs" using Cons.prems(2) b by simp_all
  from host_cycle_frames [OF Cons.prems(1) N c mode n(1), of p cb t i out] obtain q where
    q: "host_cycle p (recorded cb) t n i out st = Some q"
    "\<And>m st'. q = Inr (m, st') \<Longrightarrow> unat m = host_frames_of M n \<and> (\<exists>k. snd (user st') = snd (user st) @ replicate k N \<and>
      (callback_result st' = paContinue \<longrightarrow>
        in_service ic oc mode M N st' \<and> waiting st' + k * unat N = waiting st + host_frames_of M n))" by blast
  show ?case
  proof (cases q)
    case (Inl e)
    then show ?thesis using q(1) b by simp
  next
    case (Inr a)
    then obtain m1 st1 where a: "q = Inr (m1, st1)" by (cases a) auto
    from q(2) [OF a] obtain k1 where k1: "unat m1 = host_frames_of M n" "snd (user st1) = snd (user st) @ replicate k1 N"
      "callback_result st1 = paContinue \<longrightarrow>
        in_service ic oc mode M N st1 \<and> waiting st1 + k1 * unat N = waiting st + host_frames_of M n" by blast
    show ?thesis
    proof (cases "callback_result st1 = paContinue")
      case False
      then show ?thesis using q(1) a b k1 by auto
    next
      case True
      then have s1: "in_service ic oc mode M N st1" "waiting st1 + k1 * unat N = waiting st + host_frames_of M n" using k1 by simp_all
      from Cons.IH [OF s1(1) n(2)] obtain r where r: "host_cycles p (recorded cb) bufs st1 = Some r"
        "\<And>m st'. r = Inr (m, st') \<Longrightarrow> \<exists>k. snd (user st') = snd (user st1) @ replicate k N \<and>
          (callback_result st' = paContinue \<longrightarrow> m = sum_list (map (\<lambda>(_, n, _). host_frames_of M n) bufs) \<and>
            in_service ic oc mode M N st' \<and> waiting st' + k * unat N = waiting st1 + m)" by blast
      show ?thesis
      proof (cases r)
        case (Inl e)
        then show ?thesis using q(1) a b True r(1) by simp
      next
        case (Inr x)
        then obtain m2 st2 where x: "r = Inr (m2, st2)" by (cases x) auto
        from r(2) [OF x] obtain k2 where k2: "snd (user st2) = snd (user st1) @ replicate k2 N"
          "callback_result st2 = paContinue \<longrightarrow> m2 = sum_list (map (\<lambda>(_, n, _). host_frames_of M n) bufs) \<and>
            in_service ic oc mode M N st2 \<and> waiting st2 + k2 * unat N = waiting st1 + m2" by blast
        have "host_cycles p (recorded cb) (b # bufs) st = Some (Inr (unat m1 + m2, st2))"
          using q(1) a b True r(1) x by simp
        moreover have "snd (user st2) = snd (user st) @ replicate (k1 + k2) N" using k1(2) k2(1) by (simp add: replicate_add)
        moreover have "callback_result st2 = paContinue \<longrightarrow> unat m1 + m2 = sum_list (map (\<lambda>(_, n, _). host_frames_of M n) (b # bufs)) \<and>
            in_service ic oc mode M N st2 \<and> waiting st2 + (k1 + k2) * unat N = waiting st + (unat m1 + m2)"
          using k1(1) k2(2) s1(2) b by (auto simp: distrib_right)
        ultimately show ?thesis by blast
      qed
    qed
  qed
qed

section \<open>Properties\<close>


declare shift_loop.simps [code]


lemma ad_call_aborts:
  assumes "ad_call (recorded cb) st = Inr st'" and "\<forall>i u n t f h s. fst (cb i u n t f h s) = paAbort"
    and "waiting st = block st" and "pending st = 0" and "callback_result st = paContinue"
  shows "callback_result st' = paAbort"
proof -
  have r: "callback_result (call_back (recorded cb) i u n st) = paAbort" for i u n
    using assms(2) by (auto simp: call_back_def recorded_def Let_def split: prod.splits) (metis fst_conv)
  have full: "framesInTempInputBuffer (processor st) = framesPerUserBuffer (processor st)"
    "framesInTempOutputBuffer (processor st) = 0" using assms(3,4) by (simp_all add: word_unat_eq_iff)
  then obtain u v where "user_input (processor st) = Inr u" "user_output (processor st) = Inr v"
    using assms(1,5) by (auto simp: ad_call_def Let_def)
  then show ?thesis using assms(1,5) full r by (simp add: ad_call_def Let_def) auto
qed

text \<open>
  (C29) When the callback aborts on the block that the last frame of the input completes, the output is
  left as it is: silence is only written at the beginning of the next turn of the loop, and there is
  none. The frames of output that the latency falls short of a block are never written, and the host
  plays what was in its buffer.
\<close>

theorem aborted_output_unwritten:
  fixes st :: "('u \<times> u64 list) proc"
  assumes "\<not> useNonAdaptingProcess (processor st)" and "inputChannelCount (processor st) \<noteq> 0"
    and "outputChannelCount (processor st) \<noteq> 0" and "hostBufferSizeMode (processor st) \<noteq> paUtilVariableHostBufferSizePartialUsageAllowed"
    and "callback_result st = paContinue" and "pending st = 0" and "waiting st + ins st = block st" and "0 < ins st"
    and "block st < 2 ^ 32" and "\<forall>i u n t f h s. fst (cb i u n t f h s) = paAbort"
    and "PaUtil_EndBufferProcessing p (recorded cb) st = Some (Inr (m, st'))"
  shows "unat m = ins st \<and> ins st' = 0 \<and> outs st' = outs st \<and> callback_result st' = paAbort"
proof -
  let ?a = "in_total (processor st)"
  have run: "AdaptingProcess p (recorded cb) True st = Some (Inr (m, st'))"
    using assms(1-4,11) by (cases "ep_asserts st") (simp_all add: PaUtil_EndBufferProcessing_def Let_def)
  have out: "framesInTempOutputBuffer (processor st) = 0" using assms(6) by (simp add: unat_eq_zero)
  have a: "unat ?a = ins st" using unat_totals(1) [of st] assms(7,9) by simp
  then have pos: "?a > 0" using assms(8) by (simp add: word_less_nat_alt)
  have loop: "ad_loop p (recorded cb) 0 ?a 0 st = Some (Inr (m, st'))"
    using run out by (simp add: AdaptingProcess_def CopyTempOutputBuffersToHostOutputBuffers.simps Let_def)
  have sil: "ad_silence st = Inr st" using assms(5) by (simp add: ad_silence_def)
  have "ins st < 2 ^ 64" "waiting st \<le> block st" using assms(7,9) by simp_all
  from ad_fill_frames [OF this assms(9), of p ?a 0] obtain r where r: "ad_fill p ?a 0 st = Some r"
    "\<And>a' m' s2. r = Inr (a', m', s2) \<Longrightarrow> \<exists>k. filled st s2 k \<and> a' = ?a - of_nat k \<and> m' = 0 + of_nat k \<and>
      waiting s2 \<le> block st \<and> (waiting s2 = block st \<or> ins s2 = 0)" by blast
  obtain x where "r = Inr x" using loop sil pos r(1) by (subst (asm) ad_loop.simps) (cases r; simp)
  then obtain a' m' s2 where x: "r = Inr (a', m', s2)" by (cases x) auto
  from r(2) [OF x] obtain k where k: "filled st s2 k" "a' = ?a - of_nat k" "m' = of_nat k"
    "waiting s2 = block st \<or> ins s2 = 0" by auto
  have kk: "k = ins st" "waiting s2 = block s2" "ins s2 = 0" "pending s2 = 0" "outs s2 = outs st" "callback_result s2 = paContinue"
    using k(1,4) assms(5-7) by (auto simp: filled_def outs_def out_count_def)
  have "unat (of_nat k :: u64) = k" using assms(7,9) kk(1) by (intro unat_of_nat64) simp
  then have "of_nat k = ?a" using a kk(1) by (simp add: word_unat_eq_iff)
  then have a': "a' = 0" "m' = ?a" using k(2,3) by simp_all
  obtain s3 where c: "ad_call (recorded cb) s2 = Inr s3"
    using loop sil pos r(1) x by (subst (asm) ad_loop.simps) (cases "ad_call (recorded cb) s2"; simp)
  have abort: "callback_result s3 = paAbort" by (rule ad_call_aborts [OF c assms(10) kk(2,4,6)])
  from c have "ins s3 = ins s2 \<and> outs s3 = outs s2 \<and> (callback_result s3 = paAbort \<longrightarrow> pending s3 = 0)"
    by (cases rule: ad_call_cases) (use kk(4) in \<open>simp_all add: ins_def outs_def in_count_def out_count_def\<close>)
  then have s3: "pending s3 = 0" "ins s3 = 0" "outs s3 = outs st" using kk(3,5) abort by simp_all
  have "m = m' \<and> st' = s3"
    using loop sil pos r(1) x c s3(1) a'(1)
    by (subst (asm) ad_loop.simps) (simp add: CopyTempOutputBuffersToHostOutputBuffers.simps [of p s3] ad_loop.simps unat_eq_zero)
  then show ?thesis using a a'(2) s3 abort by simp
qed

definition aborting_callback :: "'u callback" where
  "aborting_callback i u n t f h s = (paAbort, h, s)"

theorem aborted_output_unwritten_witness:
  "let st = \<lparr>processor = mono16\<lparr>framesInTempInputBuffer := 1, framesInTempOutputBuffer := 0, samplePeriod := NaN,
       hostInputFrameCount := (1, 0), hostOutputFrameCount := (1, 0)\<rparr>, heap = whole_memory, user = ((), []),
       callback_result = paContinue\<rparr> in
     case PaUtil_EndBufferProcessing x86_64 (recorded aborting_callback) st of
       Some (Inr (m, st')) \<Rightarrow> unat m = 1 \<and> outs st' = 1 \<and> heap st' 200 = Some 200 \<and> heap st' 201 = Some 201
     | _ \<Rightarrow> False"
proof -
  let ?st = "\<lparr>processor = mono16\<lparr>framesInTempInputBuffer := 1, framesInTempOutputBuffer := 0, samplePeriod := NaN,
       hostInputFrameCount := (1, 0), hostOutputFrameCount := (1, 0)\<rparr>, heap = whole_memory, user = ((), []),
       callback_result = paContinue\<rparr>"
  have "case PaUtil_EndBufferProcessing x86_64 (recorded aborting_callback) ?st of
      Some (Inr (m, st')) \<Rightarrow> heap st' 200 = Some 200 \<and> heap st' 201 = Some 201 | _ \<Rightarrow> False" by code_simp
  then obtain m st' where run: "PaUtil_EndBufferProcessing x86_64 (recorded aborting_callback) ?st = Some (Inr (m, st'))"
    "heap st' 200 = Some 200" "heap st' 201 = Some 201" by (auto split: option.splits sum.splits)
  have n: "ins ?st = 1" "outs ?st = 1" by (simp_all add: ins_def outs_def in_count_def out_count_def)
  have h: "\<not> useNonAdaptingProcess (processor ?st)" "inputChannelCount (processor ?st) \<noteq> 0" "outputChannelCount (processor ?st) \<noteq> 0"
    "hostBufferSizeMode (processor ?st) \<noteq> paUtilVariableHostBufferSizePartialUsageAllowed" "callback_result ?st = paContinue"
    "pending ?st = 0" "waiting ?st + ins ?st = block ?st" "0 < ins ?st" "block ?st < 2 ^ 32"
    unfolding n by (simp_all add: mono16_def)
  have "\<forall>i u n t f h s. fst (aborting_callback i u n t f h s :: int \<times> heap \<times> unit) = paAbort" by (simp add: aborting_callback_def)
  from aborted_output_unwritten [OF h this run(1), unfolded n]
  show ?thesis unfolding Let_def run(1) using run(2,3) by simp
qed

end
