(* ===== verification/PaNonAdapt.thy ===== *)
theory PaNonAdapt
  imports PaAdaptFrames
begin

text \<open>
  Processing without block adaption, and copying without a callback
  (\<open>src/external/portaudio/src/common/pa_process.c\<close>, lines 704 to 964 and 1662 to 1831): how many
  frames each call takes.
\<close>

section \<open>Without adaption\<close>

text \<open>What the conversions keep: all but the descriptors, the dither generator and the memory.\<close>

definition same_blocks :: "'u proc \<Rightarrow> 'u proc \<Rightarrow> bool" where
  "same_blocks st st' \<longleftrightarrow> framesPerTempBuffer (processor st') = framesPerTempBuffer (processor st) \<and>
     hostOutputFrameCount (processor st') = hostOutputFrameCount (processor st) \<and>
     user st' = user st \<and> callback_result st' = callback_result st"

lemma temp_block_put [simp]:
  "framesPerTempBuffer (put_in_set second cs bp) = framesPerTempBuffer bp"
  "framesPerTempBuffer (put_out_set second cs bp) = framesPerTempBuffer bp"
  "hostOutputFrameCount (put_in_set second cs bp) = hostOutputFrameCount bp"
  "hostOutputFrameCount (put_out_set second cs bp) = hostOutputFrameCount bp"
  by (simp_all add: put_in_set_def put_out_set_def)

lemma na_input_same: "na_input p which n skip st = Inr (b, skip', st') \<Longrightarrow> same_blocks st st'"
  by (cases "na_input_layout n (processor st)")
    (auto simp: na_input_def same_blocks_def Let_def split: if_splits)

lemma na_output_same: "na_output p which n skip st = Inr st' \<Longrightarrow> same_blocks st st'"
  by (auto simp: na_output_def same_blocks_def Let_def split: if_splits)

lemma na_zero_rest_same: "na_zero_rest which n st = Inr st' \<Longrightarrow> same_blocks st st'"
  by (auto simp: na_zero_rest_def same_blocks_def Let_def split: if_splits)

abbreviation temp_block :: "'u proc \<Rightarrow> nat" where
  "temp_block st \<equiv> unat (framesPerTempBuffer (processor st))"

lemma na_turn_frames:
  fixes st :: "('u \<times> u64 list) proc"
  assumes "na_turn p (recorded cb) wi wo go done skipIn skipOut st = Inr (st', go', done', skipIn', skipOut')"
  defines "k \<equiv> min (framesPerTempBuffer (processor st)) go"
  shows "framesPerTempBuffer (processor st') = framesPerTempBuffer (processor st)"
    and "hostOutputFrameCount (processor st') = hostOutputFrameCount (processor st)"
    and "snd (user st') = snd (user st) @ [k]"
    and "if callback_result st' = paAbort then go' = go \<and> done' = done else go' = go - k \<and> done' = done + k"
proof -
  obtain b u skip1 st1 where i: "na_input p wi k skipIn st = Inr (b, skip1, st1)"
    and o: "na_user_output wo k skipOut (processor st1) = Inr (u, skipOut')"
    and t: "(let st = call_back (recorded cb) b u k st1 in
      if callback_result st = paAbort then Inr (st, go, done, skip1, skipOut')
      else bind_r (na_output p wo k skipOut' (st\<lparr>processor := advance_times k (processor st)\<rparr>)) (\<lambda>st.
        Inr (st, go - k, done + k, skip1, skipOut'))) = Inr (st', go', done', skipIn', skipOut')"
    using assms(1) unfolding na_turn_def k_def Let_def by (auto split: if_splits)
  note s = na_input_same [OF i, unfolded same_blocks_def]
  let ?st = "call_back (recorded cb) b u k st1"
  have c: "processor ?st = processor st1" "snd (user ?st) = snd (user st) @ [k]" using s by (simp_all add: call_back_recorded)
  have "framesPerTempBuffer (processor st') = framesPerTempBuffer (processor st) \<and>
    hostOutputFrameCount (processor st') = hostOutputFrameCount (processor st) \<and> snd (user st') = snd (user st) @ [k] \<and>
    (if callback_result st' = paAbort then go' = go \<and> done' = done else go' = go - k \<and> done' = done + k)"
  proof (cases "callback_result ?st = paAbort")
    case True
    then show ?thesis using t s c by (auto simp: Let_def)
  next
    case False
    then obtain st2 where "na_output p wo k skipOut' (?st\<lparr>processor := advance_times k (processor ?st)\<rparr>) = Inr st2" "st' = st2"
      "go' = go - k" "done' = done + k" using t by (auto simp: Let_def)
    then show ?thesis using False s c na_output_same [of p wo k skipOut' _ st2]
      by (auto simp: same_blocks_def advance_times_def)
  qed
  then show "framesPerTempBuffer (processor st') = framesPerTempBuffer (processor st)"
    "hostOutputFrameCount (processor st') = hostOutputFrameCount (processor st)" "snd (user st') = snd (user st) @ [k]"
    "if callback_result st' = paAbort then go' = go \<and> done' = done else go' = go - k \<and> done' = done + k" by blast+
qed

text \<open>A host buffer of \<open>n\<close> frames in blocks of at most \<open>t\<close>: full ones and what is left.\<close>

definition cut :: "nat \<Rightarrow> nat \<Rightarrow> nat list" where
  "cut t n = replicate (n div t) t @ (if n mod t = 0 then [] else [n mod t])"

lemma cut_last: "0 < n \<Longrightarrow> n \<le> t \<Longrightarrow> cut t n = [n]"
  by (cases "n = t") (auto simp: cut_def)

lemma cut_first: "0 < t \<Longrightarrow> t < n \<Longrightarrow> cut t n = t # cut t (n - t)"
  by (simp add: cut_def le_div_geq le_mod_geq)

definition same_counts :: "'u proc \<Rightarrow> 'u proc \<Rightarrow> bool" where
  "same_counts st st' \<longleftrightarrow> framesPerTempBuffer (processor st') = framesPerTempBuffer (processor st) \<and>
     hostOutputFrameCount (processor st') = hostOutputFrameCount (processor st)"

lemma same_counts_trans: "same_counts st st1 \<Longrightarrow> same_counts st1 st' \<Longrightarrow> same_counts st st'"
  by (simp add: same_counts_def)

lemma na_loop_frames:
  fixes st :: "('u \<times> u64 list) proc"
  assumes "0 < temp_block st" and "0 < unat go"
  shows "\<exists>r. na_loop p (recorded cb) wi wo go done skipIn skipOut st = Some r \<and>
    (\<forall>st' go' done'. r = Inr (st', go', done') \<longrightarrow> go' + done' = go + done \<and> same_counts st st' \<and>
      (\<exists>bs. snd (user st') = snd (user st) @ bs \<and> (\<forall>b \<in> set bs. unat b \<le> temp_block st) \<and>
        (callback_result st' = paContinue \<longrightarrow> go' = 0 \<and> map unat bs = cut (temp_block st) (unat go))))"
  using assms
proof (induction "unat go" arbitrary: go "done" skipIn skipOut st rule: less_induct)
  case less
  let ?k = "min (framesPerTempBuffer (processor st)) go"
  have k: "unat ?k = min (temp_block st) (unat go)" by (simp add: min_def word_le_nat_alt)
  have sub: "unat (go - ?k) = unat go - unat ?k" by (rule unat_sub) (simp add: word_le_nat_alt k)
  show ?case
  proof (cases "na_turn p (recorded cb) wi wo go done skipIn skipOut st")
    case (Inl e)
    then show ?thesis by (simp add: na_loop.simps)
  next
    case (Inr a)
    then obtain st1 go1 done1 si so where
      t: "na_turn p (recorded cb) wi wo go done skipIn skipOut st = Inr (st1, go1, done1, si, so)" by (cases a) auto
    note f = na_turn_frames [OF t]
    have counts: "same_counts st st1" using f(1,2) by (simp add: same_counts_def)
    show ?thesis
    proof (cases "go1 > 0 \<and> callback_result st1 = paContinue")
      case False
      have "callback_result st1 = paContinue \<longrightarrow> go1 = 0" using False by (auto simp: word_gt_0)
      moreover have "go1 + done1 = go + done" using f(4) by (auto split: if_splits)
      moreover have "map unat [?k] = cut (temp_block st) (unat go)" if "callback_result st1 = paContinue"
      proof -
        have "go - ?k = 0" using f(4) that calculation(1) by (auto split: if_splits)
        then have "unat go \<le> temp_block st" using sub k by (auto simp: min_def split: if_splits)
        then show ?thesis using k less.prems(2) by (simp add: cut_last)
      qed
      moreover have "unat ?k \<le> temp_block st" using k by simp
      ultimately show ?thesis using False t counts f(3) by (auto simp: na_loop.simps)
    next
      case True
      then have g: "go1 = go - ?k" "done1 = done + ?k" using f(4) by (auto split: if_splits)
      have big: "temp_block st < unat go"
        using True sub k unfolding g(1) by (auto simp: word_less_nat_alt min_def split: if_splits)
      have kt: "unat ?k = temp_block st" "unat go1 = unat go - temp_block st" using big sub k g(1) by simp_all
      have "\<exists>r. na_loop p (recorded cb) wi wo go1 done1 si so st1 = Some r \<and>
        (\<forall>st' go' done'. r = Inr (st', go', done') \<longrightarrow> go' + done' = go1 + done1 \<and> same_counts st1 st' \<and>
          (\<exists>bs. snd (user st') = snd (user st1) @ bs \<and> (\<forall>b \<in> set bs. unat b \<le> temp_block st1) \<and>
            (callback_result st' = paContinue \<longrightarrow> go' = 0 \<and> map unat bs = cut (temp_block st1) (unat go1))))"
        by (rule less.hyps) (use kt big less.prems f(1) in auto)
      then obtain r where r: "na_loop p (recorded cb) wi wo go1 done1 si so st1 = Some r"
        "\<And>st' go' done'. r = Inr (st', go', done') \<Longrightarrow> go' + done' = go1 + done1 \<and> same_counts st1 st' \<and>
          (\<exists>bs. snd (user st') = snd (user st1) @ bs \<and> (\<forall>b \<in> set bs. unat b \<le> temp_block st) \<and>
            (callback_result st' = paContinue \<longrightarrow> go' = 0 \<and> map unat bs = cut (temp_block st) (unat go1)))"
        unfolding f(1) by blast
      have "go' + done' = go + done \<and> same_counts st st' \<and> (\<exists>bs. snd (user st') = snd (user st) @ bs \<and> (\<forall>b \<in> set bs. unat b \<le> temp_block st) \<and>
          (callback_result st' = paContinue \<longrightarrow> go' = 0 \<and> map unat bs = cut (temp_block st) (unat go)))"
        if e: "r = Inr (st', go', done')" for st' go' done'
      proof -
        obtain bs where bs: "snd (user st') = snd (user st1) @ bs" "\<forall>b \<in> set bs. unat b \<le> temp_block st"
          "callback_result st' = paContinue \<longrightarrow> go' = 0 \<and> map unat bs = cut (temp_block st) (unat go1)"
          and s: "go' + done' = go1 + done1" "same_counts st1 st'" using r(2) [OF e] by blast
        show ?thesis
          by (intro conjI exI [of _ "?k # bs"])
            (use bs s same_counts_trans [OF counts] f(3) g kt cut_first [OF less.prems(1) big] in \<open>auto simp del: min_less_iff_conj\<close>)
      qed
      then show ?thesis using True t r(1) by (subst na_loop.simps) auto
    qed
  qed
qed

text \<open>What a call has done to get from one state to another, when it was given \<open>n\<close> frames.\<close>

definition na_done :: "('u \<times> u64 list) proc \<Rightarrow> u64 \<Rightarrow> ('u \<times> u64 list) proc \<Rightarrow> bool" where
  "na_done st n st' \<longleftrightarrow> same_counts st st' \<and>
     (\<exists>bs. snd (user st') = snd (user st) @ bs \<and> (\<forall>b \<in> set bs. unat b \<le> temp_block st) \<and>
       (callback_result st = paContinue \<and> callback_result st' = paContinue \<longrightarrow> map unat bs = cut (temp_block st) (unat n)) \<and>
       (callback_result st \<noteq> paContinue \<longrightarrow> bs = [] \<and> callback_result st' \<noteq> paContinue))"

lemma na_done_zero:
  assumes "na_done st n st1" and "na_zero_rest which k st1 = Inr st'"
  shows "na_done st n st'"
  using assms(1) na_zero_rest_same [OF assms(2)] by (simp add: na_done_def same_counts_def same_blocks_def)

lemma NonAdaptingProcess_frames:
  fixes st :: "('u \<times> u64 list) proc"
  assumes "0 < temp_block st" and "0 < unat n"
  shows "\<exists>r. NonAdaptingProcess p (recorded cb) wi wo n st = Some r \<and> (\<forall>m st'. r = Inr (m, st') \<longrightarrow> m = n \<and> na_done st n st')"
proof -
  define q where "q = (if callback_result st = paContinue then na_loop p (recorded cb) wi wo n 0 False False st
    else Some (Inr (st, n, 0)))"
  have "\<exists>r. q = Some r \<and> (\<forall>st' go' done'. r = Inr (st', go', done') \<longrightarrow> go' + done' = n \<and> na_done st n st')"
    using na_loop_frames [OF assms, of p cb wi wo 0 False False]
    by (auto simp: q_def na_done_def) (simp_all add: same_counts_def)
  then obtain r where r: "q = Some r" "\<And>st' go' done'. r = Inr (st', go', done') \<Longrightarrow> go' + done' = n \<and> na_done st n st'" by blast
  show ?thesis
  proof (cases r)
    case (Inl e)
    then show ?thesis using r(1) by (simp add: NonAdaptingProcess_def q_def [symmetric])
  next
    case (Inr a)
    obtain st1 go1 done1 where a: "a = (st1, go1, done1)" by (cases a) auto
    note f = r(2) [OF Inr [unfolded a]]
    show ?thesis
      using r(1) Inr a f
      by (auto simp: NonAdaptingProcess_def q_def [symmetric] add.commute word_gt_0 intro: na_done_zero)
  qed
qed

text \<open>
  Processing without adaption ends for every host buffer that is not empty, and returns the
  number of frames it was given, whatever the callback does. The callback gets blocks no longer than
  the temporary buffers; if it never asks to stop it gets the whole buffer, full blocks first and the
  rest last.
\<close>

theorem whole_buffer_processed:
  fixes st :: "('u \<times> u64 list) proc"
  assumes "0 < unat (framesPerTempBuffer (processor st))" and "0 < unat n"
  shows "\<exists>r. NonAdaptingProcess p (recorded cb) wi wo n st = Some r \<and>
    (\<forall>m st'. r = Inr (m, st') \<longrightarrow> m = n \<and>
      (\<exists>bs. snd (user st') = snd (user st) @ bs \<and> (\<forall>b \<in> set bs. unat b \<le> unat (framesPerTempBuffer (processor st))) \<and>
        (callback_result st = paContinue \<and> callback_result st' = paContinue \<longrightarrow>
          map unat bs = cut (unat (framesPerTempBuffer (processor st))) (unat n))))"
proof -
  obtain r where r: "NonAdaptingProcess p (recorded cb) wi wo n st = Some r"
    "\<And>m st'. r = Inr (m, st') \<Longrightarrow> m = n \<and> na_done st n st'"
    using NonAdaptingProcess_frames [OF assms, of p cb wi wo] by blast
  have "m = n \<and> (\<exists>bs. snd (user st') = snd (user st) @ bs \<and> (\<forall>b \<in> set bs. unat b \<le> temp_block st) \<and>
      (callback_result st = paContinue \<and> callback_result st' = paContinue \<longrightarrow> map unat bs = cut (temp_block st) (unat n)))"
    if "r = Inr (m, st')" for m st'
    using r(2) [OF that] unfolding na_done_def by blast
  then show ?thesis using r(1) by blast
qed

theorem whole_buffer_processed_witness:
  "\<forall>p. let st = \<lparr>processor = mono16, heap = whole_memory, user = ((), []), callback_result = paContinue\<rparr> in
     \<exists>r. NonAdaptingProcess p (recorded idle_callback) (Some False) (Some False) 3 st = Some r \<and>
       (\<forall>m st'. r = Inr (m, st') \<longrightarrow> m = 3 \<and> (callback_result st' = paContinue \<longrightarrow> map unat (snd (user st')) = [2, 1]))"
proof (intro allI)
  fix p
  let ?st = "\<lparr>processor = mono16, heap = whole_memory, user = ((), []), callback_result = paContinue\<rparr>"
  have "0 < unat (framesPerTempBuffer (processor ?st))" "0 < unat (3 :: u64)" by (simp_all add: mono16_def)
  from whole_buffer_processed [OF this, of p idle_callback "Some False" "Some False"]
  show "let st = ?st in \<exists>r. NonAdaptingProcess p (recorded idle_callback) (Some False) (Some False) 3 st = Some r \<and>
       (\<forall>m st'. r = Inr (m, st') \<longrightarrow> m = 3 \<and> (callback_result st' = paContinue \<longrightarrow> map unat (snd (user st')) = [2, 1]))"
    by (fastforce simp: mono16_def cut_def)
qed

section \<open>Host buffers in two parts\<close>

lemma sum_cut: "0 < t \<Longrightarrow> sum_list (cut t n) = n"
  using div_mult_mod_eq [of n t] by (auto simp: cut_def sum_list_replicate)

definition spliced :: "('u \<times> u64 list) proc \<Rightarrow> u64 \<Rightarrow> ('u \<times> u64 list) proc \<Rightarrow> bool" where
  "spliced st n st' \<longleftrightarrow> framesPerTempBuffer (processor st') = framesPerTempBuffer (processor st) \<and>
     (\<exists>bs. snd (user st') = snd (user st) @ bs \<and> (\<forall>b \<in> set bs. unat b \<le> temp_block st) \<and>
       (callback_result st' = paContinue \<longrightarrow> callback_result st = paContinue \<and> sum_list (map unat bs) = unat n))"

lemma na_done_spliced: "0 < temp_block st \<Longrightarrow> na_done st n st' \<Longrightarrow> spliced st n st'"
  by (auto simp: na_done_def spliced_def same_counts_def sum_cut)

lemma spliced_trans:
  assumes "spliced st k st1" and "spliced st1 (n - k) st'" and "k \<le> n"
  shows "spliced st n st'"
proof -
  obtain bs where b: "snd (user st1) = snd (user st) @ bs" "\<forall>b \<in> set bs. unat b \<le> temp_block st"
    "callback_result st1 = paContinue \<longrightarrow> callback_result st = paContinue \<and> sum_list (map unat bs) = unat k"
    and t: "framesPerTempBuffer (processor st1) = framesPerTempBuffer (processor st)"
    using assms(1) unfolding spliced_def by blast
  obtain cs where c: "snd (user st') = snd (user st1) @ cs" "\<forall>b \<in> set cs. unat b \<le> temp_block st"
    "callback_result st' = paContinue \<longrightarrow> callback_result st1 = paContinue \<and> sum_list (map unat cs) = unat (n - k)"
    using assms(2) unfolding spliced_def t by blast
  have n: "unat n = unat k + unat (n - k)" using assms(3) by (simp add: unat_sub word_le_nat_alt)
  have "snd (user st') = snd (user st) @ bs @ cs" "\<forall>b \<in> set (bs @ cs). unat b \<le> temp_block st"
    "callback_result st' = paContinue \<longrightarrow> callback_result st = paContinue \<and> sum_list (map unat (bs @ cs)) = unat n"
    using b c n by auto
  then show ?thesis using assms(2) t unfolding spliced_def by metis
qed

lemma spliced_processor:
  assumes "spliced st n st'" and "framesPerTempBuffer bp = framesPerTempBuffer (processor st')"
  shows "spliced st n (st'\<lparr>processor := bp\<rparr>)"
  using assms by (simp add: spliced_def)

lemma put_counts [simp]:
  "framesPerTempBuffer (put_in_count second n bp) = framesPerTempBuffer bp"
  "framesPerTempBuffer (put_out_count second n bp) = framesPerTempBuffer bp"
  "hostOutputFrameCount (put_in_count second n bp) = hostOutputFrameCount bp"
  by (simp_all add: put_in_count_def put_out_count_def)

lemma outs_put:
  assumes "k \<le> out_count second (processor st)"
  shows "outs (st\<lparr>processor := put_out_count second (out_count second (processor st) - k) (processor st)\<rparr>) = outs st - unat k"
    and "unat k \<le> outs st"
  using assms by (cases second; simp add: outs_def out_count_def put_out_count_def unat_sub word_le_nat_alt)+

lemma ep_loop_frames:
  fixes st :: "('u \<times> u64 list) proc"
  assumes "0 < temp_block st" and "unat a = outs st"
  shows "\<exists>r. ep_loop p (recorded cb) a m st = Some r \<and>
    (\<forall>m' st'. r = Inr (m', st') \<longrightarrow> m' = m + a \<and> outs st' = 0 \<and> spliced st a st')"
  using assms
proof (induction "unat a" arbitrary: a m st rule: less_induct)
  case less
  show ?case
  proof (cases "ep_input a (processor st)")
    case (Inl e)
    then show ?thesis by (simp add: ep_loop.simps)
  next
    case i: (Inr v)
    obtain wi ni where v: "v = (wi, ni)" by (cases v)
    show ?thesis
    proof (cases "ep_output a (processor st)")
      case (Inl e)
      then show ?thesis using i v by (simp add: ep_loop.simps)
    next
      case o: (Inr w)
      then obtain second where w: "w = (Some second, out_count second (processor st))"
        by (auto simp: ep_output_def Let_def)
      let ?k = "min ni (out_count second (processor st))"
      show ?thesis
      proof (cases "?k = 0")
        case True
        then show ?thesis using i v o w by (simp add: ep_loop.simps)
      next
        case False
        then have pos: "0 < unat ?k" by (simp add: unat_gt_0)
        from NonAdaptingProcess_frames [OF less.prems(1) this, of p cb wi "Some second"] obtain q where
          q: "NonAdaptingProcess p (recorded cb) wi (Some second) ?k st = Some q"
          "\<And>n st1. q = Inr (n, st1) \<Longrightarrow> n = ?k \<and> na_done st ?k st1" by blast
        show ?thesis
        proof (cases q)
          case (Inl e)
          then show ?thesis using i v o w False q(1) by (simp add: ep_loop.simps)
        next
          case (Inr z)
          then obtain st1 where z: "q = Inr (?k, st1)" and d: "na_done st ?k st1" using q(2) by (cases z) auto
          define bp where "bp = (case wi of None \<Rightarrow> processor st1
            | Some x \<Rightarrow> put_in_count x (in_count x (processor st1) - ?k) (processor st1))"
          define st2 where "st2 = st1\<lparr>processor := put_out_count second (out_count second bp - ?k) bp\<rparr>"
          have same: "hostOutputFrameCount bp = hostOutputFrameCount (processor st)"
            "framesPerTempBuffer bp = framesPerTempBuffer (processor st1)"
            using d by (auto simp: bp_def na_done_def same_counts_def split: option.split)
          have counts: "outs (st1\<lparr>processor := bp\<rparr>) = outs st" "out_count x bp = out_count x (processor st)" for x
            using same(1) by (simp_all add: outs_def out_count_def)
          have le: "?k \<le> out_count second bp" using counts(2) by (simp add: min_def)
          have o2: "outs st2 = outs st - unat ?k" "unat ?k \<le> outs st"
            using outs_put [of ?k second "st1\<lparr>processor := bp\<rparr>"] le counts(1) by (simp_all add: st2_def)
          have ka: "?k \<le> a" using o2(2) less.prems(2) by (simp add: word_le_nat_alt)
          have a2: "unat (a - ?k) = outs st2" using o2(1) less.prems(2) unat_sub [OF ka] by simp
          have "0 < temp_block st" by (rule less.prems(1))
          then have s2: "spliced st ?k st2"
            using spliced_processor [OF na_done_spliced [OF less.prems(1) d]] same(2) by (simp add: st2_def)
          then have t2: "0 < temp_block st2" using less.prems(1) by (simp add: spliced_def)
          have step: "ep_loop p (recorded cb) a m st =
            (if a - ?k > 0 then ep_loop p (recorded cb) (a - ?k) (m + ?k) st2 else Some (Inr (m + ?k, st2)))"
            using i v o w False q(1) z by (subst ep_loop.simps) (simp add: Let_def st2_def bp_def)
          show ?thesis
          proof (cases "a - ?k > 0")
            case True
            have "unat (a - ?k) < unat a" using pos ka unat_sub [OF ka] by (simp add: word_le_nat_alt)
            from less.hyps [OF this t2 a2, of "m + ?k"] obtain r where
              r: "ep_loop p (recorded cb) (a - ?k) (m + ?k) st2 = Some r"
              "\<And>m' st'. r = Inr (m', st') \<Longrightarrow> m' = m + ?k + (a - ?k) \<and> outs st' = 0 \<and> spliced st2 (a - ?k) st'" by blast
            have "m' = m + a \<and> outs st' = 0 \<and> spliced st a st'" if "r = Inr (m', st')" for m' st'
              using r(2) [OF that] spliced_trans [OF s2 _ ka] by simp
            then show ?thesis using step True r(1) by simp
          next
            case False
            then have "a = ?k" by (simp add: word_gt_0)
            then show ?thesis using step False s2 a2 by simp
          qed
        qed
      qed
    qed
  qed
qed



text \<open>
  (C28) A full-duplex stream without adaption that discards its output, as \<open>PaUtil_SetNoOutput\<close> is
  documented for, and has no output frames left: whatever the input is, processing stops at the
  assertion that there is something to process. The choice for this case is made, and overwritten by
  the statement that follows it: an \<open>else\<close> is missing.
\<close>

theorem discarded_output_asserts:
  assumes "PaUtil_SetNoOutput bp = Inr (processor st)" and "hostOutputFrameCount bp = (0, 0)"
    and "useNonAdaptingProcess bp" and "inputChannelCount bp \<noteq> 0" and "input_supplied bp = Inr supplied"
  shows "PaUtil_EndBufferProcessing p cb st = Some (Inl (Runtime_error ''assert''))"
proof -
  obtain cs where c: "outputChannelCount bp > 0" "set_descriptor (fst (hostOutputChannels bp)) 0 (\<lambda>c. c\<lparr>data := Some None\<rparr>) = Inr cs"
    "processor st = bp\<lparr>hostOutputChannels := (cs, snd (hostOutputChannels bp))\<rparr>"
    using assms(1) by (auto simp: PaUtil_SetNoOutput_def check_def split: if_splits)
  have "output_supplied (processor st) = Inr False"
    using c(2,3) by (auto simp: output_supplied_def set_descriptor_def out_set_def channel_at_def chan_data_def nonnull_def split: if_splits)
  moreover have "input_supplied (processor st) = Inr supplied"
    using assms(5) c(3) by (simp add: input_supplied_def in_set_def)
  ultimately show ?thesis
    using assms(2-4) c(1,3)
    by (auto simp: PaUtil_EndBufferProcessing_def ep_asserts_def check_def out_total_def out_count_def ep_loop.simps
        ep_input_def ep_output_def Let_def word_gt_0)
qed

theorem discarded_output_asserts_witness:
  "\<forall>p cb. \<exists>bp. PaUtil_SetNoOutput (mono16\<lparr>useNonAdaptingProcess := True, hostOutputFrameCount := (0, 0)\<rparr>) = Inr bp \<and>
     PaUtil_EndBufferProcessing p cb \<lparr>processor = bp, heap = whole_memory, user = (), callback_result = paContinue\<rparr> =
       Some (Inl (Runtime_error ''assert''))"
proof (intro allI)
  fix p cb
  let ?bp = "mono16\<lparr>useNonAdaptingProcess := True, hostOutputFrameCount := (0, 0)\<rparr>"
  obtain bp where b: "PaUtil_SetNoOutput ?bp = Inr bp"
    by (simp add: PaUtil_SetNoOutput_def mono16_def check_def set_descriptor_def)
  let ?st = "\<lparr>processor = bp, heap = whole_memory, user = (), callback_result = paContinue\<rparr>"
  have "PaUtil_SetNoOutput ?bp = Inr (processor ?st)" "hostOutputFrameCount ?bp = (0, 0)" "useNonAdaptingProcess ?bp"
    "inputChannelCount ?bp \<noteq> 0" "input_supplied ?bp = Inr True"
    using b by (simp_all add: mono16_def input_supplied_def channel_at_def in_set_def chan_data_def nonnull_def)
  from discarded_output_asserts [OF this, of p cb] b
  show "\<exists>bp. PaUtil_SetNoOutput ?bp = Inr bp \<and>
     PaUtil_EndBufferProcessing p cb \<lparr>processor = bp, heap = whole_memory, user = (), callback_result = paContinue\<rparr> =
       Some (Inl (Runtime_error ''assert''))" by blast
qed

section \<open>Copying without a callback\<close>

lemma PaUtil_CopyInput_count:
  assumes "PaUtil_CopyInput p b n st = Inr (k, b', st')"
  shows "unat k \<le> unat (fst (hostInputFrameCount (processor st)))" and "unat k \<le> unat n"
    and "fst (hostInputFrameCount (processor st')) = fst (hostInputFrameCount (processor st)) - k"
proof -
  let ?m = "min (fst (hostInputFrameCount (processor st))) n"
  have e: "k = ucast (ucast ?m :: u32) \<and>
      fst (hostInputFrameCount (processor st')) = fst (hostInputFrameCount (processor st)) - k"
    using assms by (auto simp: PaUtil_CopyInput_def Let_def split: if_splits user_buffer.splits)
  then show "fst (hostInputFrameCount (processor st')) = fst (hostInputFrameCount (processor st)) - k" by blast
  have "unat k \<le> unat ?m" using e by (simp add: unsigned_ucast_eq unsigned_take_bit_eq take_bit_nat_less_eq_self)
  then show "unat k \<le> unat (fst (hostInputFrameCount (processor st)))" "unat k \<le> unat n"
    by (auto simp: min_def word_le_nat_alt split: if_splits)
qed

text \<open>Calls of \<open>PaUtil_CopyInput\<close> one after another, each asking for some number of frames.\<close>

fun copy_inputs :: "platform \<Rightarrow> user_buffer \<Rightarrow> u64 list \<Rightarrow> 'u proc \<Rightarrow> (u64 list \<times> 'u proc) result" where
  "copy_inputs p b [] st = Inr ([], st)"
| "copy_inputs p b (n # ns) st = bind_r (PaUtil_CopyInput p b n st) (\<lambda>(k, b, st).
     bind_r (copy_inputs p b ns st) (\<lambda>(ks, st). Inr (k # ks, st)))"

fun copy_outputs :: "platform \<Rightarrow> user_buffer \<Rightarrow> u64 list \<Rightarrow> 'u proc \<Rightarrow> (u64 list \<times> 'u proc) result" where
  "copy_outputs p b [] st = Inr ([], st)"
| "copy_outputs p b (n # ns) st = bind_r (PaUtil_CopyOutput p b n st) (\<lambda>(k, b, st).
     bind_r (copy_outputs p b ns st) (\<lambda>(ks, st). Inr (k # ks, st)))"

lemma copy_inputs_count:
  "copy_inputs p b ns st = Inr (ks, st') \<Longrightarrow>
     sum_list (map unat ks) + unat (fst (hostInputFrameCount (processor st'))) = unat (fst (hostInputFrameCount (processor st)))"
proof (induction ns arbitrary: b st ks)
  case Nil
  then show ?case by simp
next
  case (Cons n ns)
  then obtain k b1 st1 ls where c: "PaUtil_CopyInput p b n st = Inr (k, b1, st1)" and
    l: "copy_inputs p b1 ns st1 = Inr (ls, st')" "ks = k # ls" by (auto split: prod.splits)
  note k = PaUtil_CopyInput_count [OF c]
  have "unat (fst (hostInputFrameCount (processor st1))) = unat (fst (hostInputFrameCount (processor st))) - unat k"
    unfolding k(3) by (rule unat_sub) (simp add: word_le_nat_alt k(1))
  then show ?case using Cons.IH [OF l(1)] k(1) l(2) by simp
qed

lemma PaUtil_CopyOutput_count:
  assumes "PaUtil_CopyOutput p b n st = Inr (k, b', st')"
  shows "k = ucast (ucast (min (fst (hostOutputFrameCount (processor st))) n) :: u32)"
    and "fst (hostOutputFrameCount (processor st')) = fst (hostOutputFrameCount (processor st)) + k"
  using assms by (auto simp: PaUtil_CopyOutput_def Let_def split: if_splits user_buffer.splits)

lemma copy_outputs_count:
  "copy_outputs p b (replicate j n) st = Inr (ks, st') \<Longrightarrow> n \<le> fst (hostOutputFrameCount (processor st)) \<Longrightarrow>
     unat (fst (hostOutputFrameCount (processor st))) + j * unat n < 2 ^ 32 \<Longrightarrow> ks = replicate j n"
proof (induction j arbitrary: b st ks)
  case 0
  then show ?case by simp
next
  case (Suc j)
  let ?c = "fst (hostOutputFrameCount (processor st))"
  obtain k b1 st1 ls where c: "PaUtil_CopyOutput p b n st = Inr (k, b1, st1)" and
    l: "copy_outputs p b1 (replicate j n) st1 = Inr (ls, st')" "ks = k # ls" using Suc.prems(1) by (auto split: prod.splits)
  have n: "unat n < 2 ^ 32" using Suc.prems(3) by simp
  have k: "k = n" using PaUtil_CopyOutput_count(1) [OF c] Suc.prems(2) ucast_count [OF n] by (simp add: min_def)
  have "unat (?c + n) = unat ?c + unat n" by (rule unat_add_lem [THEN iffD1]) (use Suc.prems(3) in simp)
  then have "unat (fst (hostOutputFrameCount (processor st1))) = unat ?c + unat n" using PaUtil_CopyOutput_count(2) [OF c] k by simp
  then show ?case using Suc.IH [OF l(1)] Suc.prems(3) l(2) k by (simp add: word_le_nat_alt)
qed

text \<open>
  However often \<open>PaUtil_CopyInput\<close> is called on one host buffer, and whatever it is asked for,
  it copies no more frames in all than the host buffer holds, and no call copies more than it is
  asked for: what has been copied is subtracted from the frame count.
\<close>

theorem input_copied_within_host_buffer:
  assumes "copy_inputs p b ns st = Inr (ks, st')"
  shows "sum_list (map unat ks) \<le> unat (fst (hostInputFrameCount (processor st))) \<and> list_all2 (\<le>) ks ns"
proof
  show "sum_list (map unat ks) \<le> unat (fst (hostInputFrameCount (processor st)))" using copy_inputs_count [OF assms] by simp
  show "list_all2 (\<le>) ks ns"
    using assms
  proof (induction ns arbitrary: b st ks)
    case (Cons n ns)
    then obtain k b1 st1 ls where c: "PaUtil_CopyInput p b n st = Inr (k, b1, st1)"
      "copy_inputs p b1 ns st1 = Inr (ls, st')" "ks = k # ls" by (auto split: prod.splits)
    then show ?case using Cons.IH [OF c(2)] PaUtil_CopyInput_count(2) [OF c(1)] by (simp add: word_le_nat_alt)
  qed simp
qed

theorem input_copied_within_host_buffer_witness:
  "case copy_inputs x86_64 (Block (Some 300)) [2, 2, 2] \<lparr>processor = mono16, heap = whole_memory, user = (), callback_result = paContinue\<rparr> of
     Inr (ks, st') \<Rightarrow> ks = [2, 1, 0] \<and> sum_list (map unat ks) \<le> 3 | Inl _ \<Rightarrow> False"
proof -
  let ?st = "\<lparr>processor = mono16, heap = whole_memory, user = (), callback_result = paContinue\<rparr>"
  have "case copy_inputs x86_64 (Block (Some 300)) [2, 2, 2] ?st of Inr (ks, st') \<Rightarrow> ks = [2, 1, 0] | Inl _ \<Rightarrow> False"
    by code_simp
  then obtain ks st' where r: "copy_inputs x86_64 (Block (Some 300)) [2, 2, 2] ?st = Inr (ks, st')" "ks = [2, 1, 0]"
    by (auto split: sum.splits)
  have "fst (hostInputFrameCount (processor ?st)) = 3" by (simp add: mono16_def)
  with input_copied_within_host_buffer [OF r(1)] show ?thesis unfolding r(1) using r(2) by simp
qed



end
