(* ===== verification/PaHostLoop.thy ===== *)
theory PaHostLoop
  imports PaLatency PaNonAdapt PaSkeleton
begin

text \<open>
  The processing loop of the skeleton host API
  (\<open>src/external/portaudio/src/hostapi/skeleton/pa_hostapi_skeleton.c\<close>, lines 546 to 631) around a buffer
  processor, with the measurement of the CPU load (\<open>src/common/pa_cpuload.c\<close>). The clock is an argument.
\<close>

section \<open>CPU load\<close>

text \<open>Division of doubles; zero is positive zero.\<close>

fun divided_by :: "f64 \<Rightarrow> f64 \<Rightarrow> f64" where
  "divided_by NaN _ = NaN"
| "divided_by _ NaN = NaN"
| "divided_by (Fin x) (Fin y) =
     (if y \<noteq> 0 then dbl (x / y) else if x = 0 then NaN else if 0 < x then PosInf else NegInf)"
| "divided_by (Fin x) _ = Fin 0"
| "divided_by PosInf (Fin y) = (if 0 \<le> y then PosInf else NegInf)"
| "divided_by NegInf (Fin y) = (if 0 \<le> y then NegInf else PosInf)"
| "divided_by _ _ = NaN"

definition PaUtil_ResetCpuLoadMeasurer :: "cpu_load_measurer \<Rightarrow> cpu_load_measurer" where
  "PaUtil_ResetCpuLoadMeasurer measurer = measurer\<lparr>averageLoad := Fin 0\<rparr>"

definition PaUtil_BeginCpuLoadMeasurement :: "f64 \<Rightarrow> cpu_load_measurer \<Rightarrow> cpu_load_measurer" where
  "PaUtil_BeginCpuLoadMeasurement now measurer = measurer\<lparr>measurementStartTime := Some now\<rparr>"

definition LOWPASS_COEFFICIENT_0 :: f64 where "LOWPASS_COEFFICIENT_0 = dbl (9 / 10)"
definition LOWPASS_COEFFICIENT_1 :: f64 where "LOWPASS_COEFFICIENT_1 = plus_f dbl (dbl (99999 / 100000)) (neg_f LOWPASS_COEFFICIENT_0)"

definition PaUtil_EndCpuLoadMeasurement :: "f64 \<Rightarrow> u64 \<Rightarrow> cpu_load_measurer \<Rightarrow> cpu_load_measurer result" where
  "PaUtil_EndCpuLoadMeasurement now framesProcessed measurer =
     (if framesProcessed > 0
      then (case measurementStartTime measurer of
          None \<Rightarrow> Inl Undefined_behaviour
        | Some start \<Rightarrow>
            let secondsFor100Percent = times_f (dbl (of_nat (unat framesProcessed))) (samplingPeriod measurer);
                measuredLoad = divided_by (plus_f dbl now (neg_f start)) secondsFor100Percent in
            Inr (measurer\<lparr>averageLoad := plus_f dbl (times_f LOWPASS_COEFFICIENT_0 (averageLoad measurer))
              (times_f LOWPASS_COEFFICIENT_1 measuredLoad)\<rparr>))
      else Inr measurer)"

section \<open>The loop body\<close>

text \<open>
  \<open>t0\<close> and \<open>t1\<close> are what the clock says at the two ends. The result has the call of the finished callback
  with its argument, if there is one.
\<close>

definition ExampleHostProcessingLoop ::
  "platform \<Rightarrow> 'u callback \<Rightarrow> f64 \<Rightarrow> f64 \<Rightarrow> ptr option \<Rightarrow> ptr option \<Rightarrow> stream_rep \<Rightarrow> skeleton_stream \<Rightarrow> heap \<Rightarrow> 'u \<Rightarrow>
     ((nat \<times> nat) option \<times> skeleton_stream \<times> heap \<times> 'u) comp" where
  "ExampleHostProcessingLoop p cb t0 t1 inputBuffer outputBuffer rep t h u =
     (let cpu = PaUtil_BeginCpuLoadMeasurement t0 (cpuLoadMeasurer t) in
      bind_c (host_cycle p cb (Fin 0, Fin 0, 0) 0 inputBuffer outputBuffer
          \<lparr>processor = bufferProcessor t, heap = h, user = u, callback_result = paContinue\<rparr>) (\<lambda>(framesProcessed, st).
      bind_c (Some (PaUtil_EndCpuLoadMeasurement t1 framesProcessed cpu)) (\<lambda>cpu.
        let t = t\<lparr>cpuLoadMeasurer := cpu, bufferProcessor := processor st\<rparr>;
            finished = (if callback_result st = paContinue then None
              else map_option (\<lambda>f. (f, userData rep)) (streamFinishedCallback rep)) in
        Some (Inr (finished, t, heap st, user st)))))"

section \<open>One turn of a stream in service\<close>

lemma measured:
  "\<exists>m'. PaUtil_EndCpuLoadMeasurement t1 n (PaUtil_BeginCpuLoadMeasurement t0 m) = Inr m' \<and> samplingPeriod m' = samplingPeriod m"
  by (simp add: PaUtil_EndCpuLoadMeasurement_def PaUtil_BeginCpuLoadMeasurement_def Let_def)

lemma host_loop_in_service:
  fixes u :: "'u \<times> u64 list"
  assumes s: "in_service ic oc mode M N \<lparr>processor = bufferProcessor t, heap = h, user = u, callback_result = paContinue\<rparr>"
    and N: "0 < unat N" "unat N < 2 ^ 32" and M: "unat M < 2 ^ 32" and c: "channels_ok ic" "channels_ok oc"
    and mode: "mode \<noteq> paUtilVariableHostBufferSizePartialUsageAllowed" and f: "streamFinishedCallback rep = Some f"
  shows "\<exists>r. ExampleHostProcessingLoop p (recorded cb) t0 t1 i out rep t h u = Some r \<and>
    (\<forall>fin t' h' u'. r = Inr (fin, t', h', u') \<longrightarrow> (\<exists>k. snd u' = snd u @ replicate k N) \<and>
      (fin = Some (f, userData rep) \<or> fin = None \<and>
        in_service ic oc mode M N \<lparr>processor = bufferProcessor t', heap = h', user = u', callback_result = paContinue\<rparr>))"
proof -
  let ?st = "\<lparr>processor = bufferProcessor t, heap = h, user = u, callback_result = paContinue\<rparr>"
  have "host_length mode M 0" using M by (simp add: host_length_def host_frames_of_def)
  from host_cycle_frames [OF s N c mode this, of p cb "(Fin 0, Fin 0, 0)" i out] obtain q where
    q: "host_cycle p (recorded cb) (Fin 0, Fin 0, 0) 0 i out ?st = Some q"
    "\<And>m st'. q = Inr (m, st') \<Longrightarrow> (\<exists>k. snd (user st') = snd u @ replicate k N \<and>
      (callback_result st' = paContinue \<longrightarrow> in_service ic oc mode M N st'))" by auto
  show ?thesis
  proof (cases q)
    case (Inl e)
    then show ?thesis using q(1) by (simp add: ExampleHostProcessingLoop_def Let_def)
  next
    case (Inr a)
    then obtain n st' where a: "q = Inr (n, st')" by (cases a) auto
    obtain m' where m: "PaUtil_EndCpuLoadMeasurement t1 n (PaUtil_BeginCpuLoadMeasurement t0 (cpuLoadMeasurer t)) = Inr m'"
      using measured by blast
    show ?thesis using q(1) q(2) [OF a] a m f
      by (auto simp: ExampleHostProcessingLoop_def Let_def in_service_def)
  qed
qed

end
