(* ===== verification/Spec2Isabelle.thy ===== *)
theory Spec2Isabelle
  imports BinaryData Utilities Sha1 VoiceClient Config Logger PaRing PaValidate PaInputStream PaHostLoop
begin

text \<open>
  VoiceServer: a verification development of the voice chat server and client, and of the portable
  part of PortAudio that the client records and plays with.

  \<^bold>\<open>The program.\<close> The server (\<open>src/server/main_server.cpp\<close>) receives audio packets of its clients over
  UDP and as binary WebSocket frames, keeps them in a room (\<open>RoomManager.h\<close>), and every 20 ms sends
  each client the mix (\<open>AudioMixer.h\<close>) of what the others have said. The client
  (\<open>src/client/VoiceChatClient.h\<close>) records with a callback of PortAudio, sends what it has recorded every
  20 ms (\<open>NetworkManager.h\<close>), and passes received packets to the playback callback
  (\<open>AudioManager.h\<close>). Both run all their handlers on one thread of Asio. PortAudio
  (\<open>external/portaudio\<close>) checks the parameters of a stream, adapts the blocks of the audio hardware to
  those of the callback and converts the samples on the way.

  \<^bold>\<open>Conventions.\<close> An exception of C++, a failed assertion and undefined behaviour are values of
  \<open>Prelude.error\<close>; a routine that can meet one returns \<open>'a result\<close>, the sum of error and value. Integers are
  words of their width where wrap-around matters and \<open>int\<close> where overflow is undefined, with the check
  written out. \<open>platform\<close> has what the standard leaves open: byte order, the sign of \<open>char\<close>. A loop that
  need not end is a \<open>partial_function (option)\<close> with the result type \<open>'a comp\<close>: \<open>None\<close> means that it does
  not return, and every property about it states that it does. No definition has fuel. Asynchronous
  operations are pending entries of the state; step relations (\<open>Session.step\<close>, \<open>WsServer.srv_step\<close>,
  \<open>RoomManager.room_step\<close>, \<open>VoiceServer.voice_step\<close>, \<open>VoiceClient.client_step\<close>, \<open>Logger.logger_step\<close>) let the
  environment complete any of them, successfully or not, in any order, and invariants are proved by
  induction over the states reachable.

  \<^bold>\<open>Messages and text.\<close>
  \<^item> \<open>BinaryData\<close> (\<open>src/common/BinaryData.h\<close>): byte order, the UTF-8 codec, error messages, the message
    factory. Messages come back unchanged; untrusted bytes never lead to undefined behaviour. The locale
    \<open>binary_data\<close> is the contract between a message and its payload, interpreted on both payload types.
  \<^item> \<open>Utilities\<close> (\<open>Utilities.h\<close>): UUIDs and base64 with 32-bit accumulators, against RFC 4648.
  \<^item> \<open>Sha1\<close> (\<open>external/sha1.hpp\<close>): the unrolled rounds on a circular block, buffering and padding, against
    FIPS 180-4 for messages of any length.
  \<^item> \<open>Config\<close>, \<open>Logger\<close> (\<open>Config.h\<close>, \<open>AsioThreadPool.h\<close>, \<open>Logger.h\<close>, \<open>Logger.cpp\<close> and the two \<open>main\<close> functions): typed
    access to the configuration, thread counts, the asynchronous logger up to its shutdown.

  \<^bold>\<open>WebSocket\<close> (\<open>src/common/WebSocketSession.h\<close>, \<open>WebSocketServer.h\<close>).
  \<^item> \<open>Frame\<close>: \<open>handle_frame\<close> on the 64 KiB read buffer and \<open>create_websocket_frame\<close>. Frames that fit one read are
    delivered; the reads that lead to undefined behaviour are characterised. Locale \<open>framing\<close>, interpreted in
    both directions.
  \<^item> \<open>Handshake\<close>: key, accept value, reply, over \<open>Sha1\<close> and \<open>Utilities\<close> (locale \<open>accept_key\<close>).
  \<^item> \<open>Session\<close>, \<open>WsServer\<close>: one connection with its write queue as a state machine, and the server that
    accepts, forwards and broadcasts, with the echo program \<open>src/websocket/basic_text/main.cpp\<close>.

  \<^bold>\<open>Voice.\<close>
  \<^item> \<open>AudioMixer\<close>, on the single-precision arithmetic of \<open>Float32\<close>: the mix against its closed form, and
    that order does not matter.
  \<^item> \<open>RoomManager\<close>: clients, bounded packet buffers, the mixing timer. Locales \<open>bounded_buffer\<close> (also
    interpreted on the playback queue of the client) and \<open>mixer\<close>. Who hears what, once, and not himself.
  \<^item> \<open>VoiceServer\<close>: UDP and WebSocket clients over \<open>WsServer\<close> and \<open>RoomManager\<close>: from the wire to the mix of
    the others.
  \<^item> \<open>AudioManager\<close>, \<open>VoiceClient\<close>: streams over the front end of PortAudio, captured and played bytes in
    order, where the audio goes.

  \<^bold>\<open>PortAudio, front end\<close> (\<open>src/common/pa_front.c\<close>, \<open>pa_stream.c\<close> of \<open>external/portaudio\<close>).
  \<^item> \<open>PaTypes\<close>: error codes, devices, parameters, stream representations on a heap.
  \<^item> \<open>PaDevices\<close>, \<open>PaFront\<close>: the numbering of devices across host APIs, initialization and termination, the
    operations on streams. The host APIs are arguments.
  \<^item> \<open>PaStreams\<close>: the linked list of open streams refines a list; the locale \<open>host_streams\<close> is the contract of a
    host API.
  \<^item> \<open>PaSkeleton\<close>, \<open>PaLifecycle\<close>: the template host API \<open>pa_hostapi_skeleton.c\<close> meets that contract
    (interpretation \<open>skeleton\<close>); termination closes every stream.
  \<^item> \<open>PaValidate\<close>: exactly which parameters of a stream are let through.

  \<^bold>\<open>PortAudio, samples and buffers\<close> (\<open>pa_converters.c\<close>, \<open>pa_dither.c\<close>, \<open>pa_process.c\<close>, \<open>pa_allocation.c\<close>, \<open>pa_ringbuffer.c\<close>).
  \<^item> \<open>PaMemory\<close>, \<open>PaAlloc\<close>: the allocator, whose requests may fail at any point, and allocation groups.
  \<^item> \<open>PaFormats\<close>: the choice of host format, converter and zeroer; the dither generator stays in range.
  \<^item> \<open>PaConvInt\<close>, \<open>PaConvFloat\<close>, \<open>PaConv\<close>: all converters with their strides, on buffers of bytes, and their
    table. Integer conversions keep the leading bits (\<open>converts\<close>), those from floats are defined on the unit
    interval; full scale with dither wraps.
  \<^item> \<open>PaProcess\<close>, \<open>PaShift\<close>: set-up of a buffer processor, its memory on every error path, the frame shift in
    closed form.
  \<^item> \<open>PaBuffer\<close>: the memory that processing works on (a partial map from addresses to bytes), the calls of
    converters and zeroers on it, processing without adaption (\<open>NonAdaptingProcess\<close>), copying for
    blocking streams (\<open>PaUtil_CopyInput\<close>, \<open>PaUtil_CopyOutput\<close>, \<open>PaUtil_ZeroOutput\<close>).
  \<^item> \<open>PaAdapt\<close>: block adaption, half and full duplex, and \<open>PaUtil_EndBufferProcessing\<close>.
  \<^item> \<open>PaAdaptFrames\<close>, \<open>PaAdaptDuplex\<close>, \<open>PaNonAdapt\<close>: that the loops end and how many frames they move, for every
    callback, memory and descriptor: by induction on the frames left, with \<open>recorded\<close>, a callback that notes
    its blocks.
  \<^item> \<open>PaLatency\<close>, \<open>PaHostLoop\<close>: a full-duplex stream from its set-up on, through any sequence of host
    buffers: the frame shift of \<open>PaShift\<close> is the latency that adaption needs. The processing loop of the
    skeleton host API, with the CPU load (\<open>pa_cpuload.c\<close>), keeps a stream in that state.
  \<^item> \<open>PaInputFlow\<close>, \<open>PaInputStream\<close>: which samples an input stream delivers. The locale \<open>sample_converter\<close> is what
    adaption needs of a converter; every integer converter of the table provides it, and it is
    interpreted on one of them.
  \<^item> \<open>PaRing\<close>: the ring buffer refines a bounded queue (locale \<open>bounded_fifo\<close>).

  \<^bold>\<open>Bounds.\<close> A sample count, a memory address and a length are natural numbers where the code has pointers
  and \<open>size_t\<close> (64 bits); the 32-bit casts of \<open>pa_process.c\<close> are written out, and properties that need a frame
  count below \<open>2^32\<close> say so. The mixer is exact below 65536 packets. \<open>unsigned long\<close> has 64 bits.

  \<^bold>\<open>Not modelled.\<close> Asio, the JSON parser and printer, and the audio interfaces of the operating systems
  (\<open>hostapi/alsa\<close>, \<open>wasapi\<close>, \<open>wdmks\<close>, \<open>wmme\<close>, \<open>asio\<close>, \<open>coreaudio\<close>, \<open>jack\<close>, \<open>oss\<close>, \<open>dsound\<close>): they act on kernels, sockets and
  files whose behaviour is not in the repository, and stand in the models as arguments or as the
  environment of a step relation. \<open>rotateLogFile\<close> and \<open>SHA1::from_file\<close>, which nothing calls, text for
  users (\<open>Pa_GetErrorText\<close>, versions), traces, examples, tests, bindings and the web pages are left out, as
  are the memory barriers of the ring buffer, which do nothing in a sequential model.
\<close>

end
